(* ===== verification/Prelude.thy ===== *)
theory Prelude
  imports Complex_Main "HOL-Library.Char_ord" "HOL-Library.List_Lexorder" "HOL-Library.Product_Lexorder"
    "HOL-Library.AList"
begin

text \<open>
  Shared vocabulary of the development: Python exceptions as values, the string methods the
  sources call, decimal numbers, \<open>sorted(set(xs))\<close> and \<open>dict.fromkeys(xs)\<close>, and two interfaces
  (locales) that several components implement: a normaliser whose results are fixed points, and
  a collection put in canonical order by a key.

  A Python \<open>str\<close> is a \<^typ>\<open>string\<close>: every character stands for one code point below 256. On these
  code points \<open>strip\<close>, \<open>lower\<close> and \<open>casefold\<close> comparisons with ASCII text are the exact Python
  functions; larger code points are outside the model.
\<close>

named_theorems res_simps "evaluation of computations that may raise"
named_theorems pystr_simps "facts about the string functions"

section \<open>Exceptions as values\<close>

datatype err =
    ValueError string
  | TypeError string
  | KeyError
  | RuntimeError string
  | LookupError string
  | HTTPException nat string
  | ResultStoreError string
  | DuplicateRunError string
  | ScheduleStoreError string
  | CancelledError
  | OtherError string

type_synonym 'a res = "err + 'a"

definition bindR :: "'a res \<Rightarrow> ('a \<Rightarrow> 'b res) \<Rightarrow> 'b res" where
  "bindR m f = (case m of Inl e \<Rightarrow> Inl e | Inr x \<Rightarrow> f x)"

text \<open>\<open>type(error).__name__\<close>\<close>

fun type_name :: "err \<Rightarrow> string" where
  "type_name (ValueError _) = ''ValueError''"
| "type_name (TypeError _) = ''TypeError''"
| "type_name KeyError = ''KeyError''"
| "type_name (RuntimeError _) = ''RuntimeError''"
| "type_name (LookupError _) = ''LookupError''"
| "type_name (HTTPException _ _) = ''HTTPException''"
| "type_name (ResultStoreError _) = ''ResultStoreError''"
| "type_name (DuplicateRunError _) = ''DuplicateRunError''"
| "type_name (ScheduleStoreError _) = ''ScheduleStoreError''"
| "type_name CancelledError = ''CancelledError''"
| "type_name (OtherError name) = name"

text \<open>\<open>except ValueError: ...\<close> of a computation, as used by the callers of the normalisers.\<close>

definition recoverR :: "'a res \<Rightarrow> 'a res \<Rightarrow> 'a res" where
  "recoverR m h = (case m of Inl (ValueError _) \<Rightarrow> h | _ \<Rightarrow> m)"

fun mapR :: "('a \<Rightarrow> 'b res) \<Rightarrow> 'a list \<Rightarrow> 'b list res" where
  "mapR f [] = Inr []"
| "mapR f (x # xs) = bindR (f x) (\<lambda>y. bindR (mapR f xs) (\<lambda>ys. Inr (y # ys)))"

definition is_ok :: "'a res \<Rightarrow> bool" where
  "is_ok m = (case m of Inl _ \<Rightarrow> False | Inr _ \<Rightarrow> True)"

lemma bindR_simps [simp, res_simps]:
  "bindR (Inl e) f = Inl e"
  "bindR (Inr x) f = f x"
  by (simp_all add: bindR_def)

lemma bindR_Inr_iff: "bindR m f = Inr y \<longleftrightarrow> (\<exists>x. m = Inr x \<and> f x = Inr y)"
  by (cases m) auto

lemma is_ok_simps [simp, res_simps]: "is_ok (Inr x)" "\<not> is_ok (Inl e)"
  by (simp_all add: is_ok_def)

lemma recoverR_simps [simp, res_simps]:
  "recoverR (Inr x) h = Inr x"
  "recoverR (Inl (ValueError s)) h = h"
  by (simp_all add: recoverR_def)

lemma if_Inl_eq_Inr [res_simps]:
  "(if b then Inl e else m) = Inr x \<longleftrightarrow> \<not> b \<and> m = Inr x"
  by simp

lemma mapR_Inr_length: "mapR f xs = Inr ys \<Longrightarrow> length ys = length xs"
  by (induction xs arbitrary: ys) (auto simp: bindR_Inr_iff)

lemma mapR_Inr_in: "mapR f xs = Inr ys \<Longrightarrow> y \<in> set ys \<Longrightarrow> \<exists>x\<in>set xs. f x = Inr y"
  by (induction xs arbitrary: ys) (auto simp: bindR_Inr_iff)

lemma mapR_Inr_all: "mapR f xs = Inr ys \<Longrightarrow> x \<in> set xs \<Longrightarrow> \<exists>y\<in>set ys. f x = Inr y"
  by (induction xs arbitrary: ys) (auto simp: bindR_Inr_iff)

lemma mapR_id: "(\<And>x. x \<in> set xs \<Longrightarrow> f x = Inr x) \<Longrightarrow> mapR f xs = Inr xs"
  by (induction xs) auto

text \<open>The Python values that reach a run-time type check: JSON values, a finite float by its rational
  value (None for the others).\<close>

datatype json =
    JNull
  | JBool bool
  | JInt int
  | JFloat "rat option"
  | JStr string
  | JList "json list"
  | JObj "(string \<times> json) list"

section \<open>Strings\<close>

definition code :: "char \<Rightarrow> nat" where
  "code c = of_char c"

text \<open>\<open>str.isspace\<close> on code points below 256.\<close>

definition is_ws :: "char \<Rightarrow> bool" where
  "is_ws c = (let n = code c in (9 \<le> n \<and> n \<le> 13) \<or> (28 \<le> n \<and> n \<le> 32) \<or> n = 133 \<or> n = 160)"

definition is_digit :: "char \<Rightarrow> bool" where
  "is_digit c = (48 \<le> code c \<and> code c \<le> 57)"

definition is_upper :: "char \<Rightarrow> bool" where
  "is_upper c = ((65 \<le> code c \<and> code c \<le> 90) \<or> (192 \<le> code c \<and> code c \<le> 222 \<and> code c \<noteq> 215))"

definition is_ascii :: "char \<Rightarrow> bool" where
  "is_ascii c = (code c < 128)"

text \<open>\<open>str.isalnum\<close>; the sources ask it of ASCII characters only.\<close>

definition is_alnum :: "char \<Rightarrow> bool" where
  "is_alnum c = (let n = code c in (48 \<le> n \<and> n \<le> 57) \<or> (65 \<le> n \<and> n \<le> 90) \<or> (97 \<le> n \<and> n \<le> 122))"

definition lower_char :: "char \<Rightarrow> char" where
  "lower_char c = (if is_upper c then char_of (code c + 32) else c)"

definition lower :: "string \<Rightarrow> string" where
  "lower s = map lower_char s"

text \<open>\<open>str.upper\<close>, exact on ASCII; the sources ask it of response codes only.\<close>

definition upper :: "string \<Rightarrow> string" where
  "upper s = map (\<lambda>c. if 97 \<le> code c \<and> code c \<le> 122 then char_of (code c - 32) else c) s"

definition lstrip_by :: "(char \<Rightarrow> bool) \<Rightarrow> string \<Rightarrow> string" where
  "lstrip_by p s = dropWhile p s"

definition rstrip_by :: "(char \<Rightarrow> bool) \<Rightarrow> string \<Rightarrow> string" where
  "rstrip_by p s = rev (dropWhile p (rev s))"

definition strip :: "string \<Rightarrow> string" where
  "strip s = rstrip_by is_ws (lstrip_by is_ws s)"

definition rstrip_dots :: "string \<Rightarrow> string" where
  "rstrip_dots s = rstrip_by (\<lambda>c. c = CHR ''.'') s"

fun split_on :: "char \<Rightarrow> string \<Rightarrow> string list" where
  "split_on c [] = [[]]"
| "split_on c (x # xs) =
     (if x = c then [] # split_on c xs
      else (case split_on c xs of [] \<Rightarrow> [[x]] | y # ys \<Rightarrow> (x # y) # ys))"

fun join :: "string \<Rightarrow> string list \<Rightarrow> string" where
  "join sep [] = []"
| "join sep [x] = x"
| "join sep (x # y # zs) = x @ sep @ join sep (y # zs)"

definition starts_with :: "string \<Rightarrow> string \<Rightarrow> bool" where
  "starts_with p s = (take (length p) s = p)"

definition ends_with :: "string \<Rightarrow> string \<Rightarrow> bool" where
  "ends_with p s = (length p \<le> length s \<and> drop (length s - length p) s = p)"

lemma starts_with_iff: "starts_with p s \<longleftrightarrow> (\<exists>r. s = p @ r)"
  by (auto simp: starts_with_def) (metis append_take_drop_id)

lemma ends_with_iff: "ends_with p s \<longleftrightarrow> (\<exists>r. s = r @ p)"
  by (auto simp: ends_with_def) (metis append_take_drop_id)

lemma code_inj: "code c = code d \<longleftrightarrow> c = d"
  by (simp add: code_def)

lemma code_less_256: "code c < 256"
proof -
  have "of_char (char_of (code c)) = code c mod 256" by (rule of_char_of)
  then have "code c = code c mod 256" by (simp add: code_def)
  then show ?thesis by (metis mod_less_divisor zero_less_numeral)
qed

lemma code_char_of [simp]: "n < 256 \<Longrightarrow> code (char_of n) = n"
  by (simp add: code_def)

lemma is_digit_not_ws: "is_digit c \<Longrightarrow> \<not> is_ws c"
  by (auto simp: is_digit_def is_ws_def Let_def)

lemma is_alnum_not_ws: "is_alnum c \<Longrightarrow> \<not> is_ws c"
  by (auto simp: is_alnum_def is_ws_def Let_def)

lemma is_alnum_ascii: "is_alnum c \<Longrightarrow> is_ascii c"
  by (auto simp: is_alnum_def is_ascii_def Let_def)

lemma is_digit_alnum: "is_digit c \<Longrightarrow> is_alnum c"
  by (auto simp: is_digit_def is_alnum_def Let_def)

lemma dot_facts [simp]:
  "\<not> is_ws CHR ''.''" "\<not> is_alnum CHR ''.''" "\<not> is_upper CHR ''.''" "is_ascii CHR ''.''" "\<not> is_digit CHR ''.''"
  "\<not> is_ws CHR ''-''" "\<not> is_upper CHR ''-''" "is_ascii CHR ''-''" "\<not> is_alnum CHR ''-''" "\<not> is_digit CHR ''-''"
  by (simp_all add: is_ws_def is_alnum_def is_upper_def is_ascii_def is_digit_def code_def)

subsection \<open>Case\<close>

lemma lower_char_not_upper: "\<not> is_upper (lower_char c)"
  by (auto simp: lower_char_def is_upper_def code_less_256)

lemma lower_char_idem [simp]: "lower_char (lower_char c) = lower_char c"
  using lower_char_not_upper [of c] by (simp add: lower_char_def)

lemma lower_idem [simp, pystr_simps]: "lower (lower s) = lower s"
  by (simp add: lower_def)

lemma lower_id_iff: "lower s = s \<longleftrightarrow> (\<forall>c\<in>set s. \<not> is_upper c)"
proof
  assume "lower s = s"
  then show "\<forall>c\<in>set s. \<not> is_upper c"
    by (metis imageE list.set_map lower_def lower_char_not_upper)
next
  assume "\<forall>c\<in>set s. \<not> is_upper c"
  then show "lower s = s" by (simp add: lower_def lower_char_def map_idI)
qed

lemma lower_append [simp, pystr_simps]: "lower (s @ t) = lower s @ lower t"
  by (simp add: lower_def)

lemma lower_Nil [simp, pystr_simps]: "lower [] = []" "lower s = [] \<longleftrightarrow> s = []"
  by (simp_all add: lower_def)

lemma length_lower [simp]: "length (lower s) = length s"
  by (simp add: lower_def)

subsection \<open>Stripping\<close>

lemma rstrip_by_id: "s = [] \<or> \<not> p (last s) \<Longrightarrow> rstrip_by p s = s"
  by (cases s rule: rev_cases) (auto simp: rstrip_by_def)

lemma lstrip_by_id: "s = [] \<or> \<not> p (hd s) \<Longrightarrow> lstrip_by p s = s"
  by (cases s) (auto simp: lstrip_by_def)

lemma rstrip_by_last: "rstrip_by p s \<noteq> [] \<Longrightarrow> \<not> p (last (rstrip_by p s))"
  unfolding rstrip_by_def by (metis hd_dropWhile last_rev rev_is_Nil_conv)

lemma lstrip_by_hd: "lstrip_by p s \<noteq> [] \<Longrightarrow> \<not> p (hd (lstrip_by p s))"
  unfolding lstrip_by_def by (rule hd_dropWhile)

lemma rstrip_by_prefix: "\<exists>r. s = rstrip_by p s @ r \<and> list_all p r"
proof -
  have "s = rev (dropWhile p (rev s)) @ rev (takeWhile p (rev s))"
    by (metis rev_append rev_rev_ident takeWhile_dropWhile_id)
  moreover have "list_all p (rev (takeWhile p (rev s)))"
    by (auto simp: list_all_iff dest: set_takeWhileD)
  ultimately show ?thesis by (auto simp: rstrip_by_def)
qed

lemma hd_rstrip_by: "rstrip_by p s \<noteq> [] \<Longrightarrow> hd (rstrip_by p s) = hd s"
  using rstrip_by_prefix [of s p] by (metis hd_append2)

lemma set_rstrip_by: "set (rstrip_by p s) \<subseteq> set s"
  by (auto simp: rstrip_by_def dest: set_dropWhileD)

lemma set_lstrip_by: "set (lstrip_by p s) \<subseteq> set s"
  by (auto simp: lstrip_by_def dest: set_dropWhileD)

lemma rstrip_by_idem [simp, pystr_simps]: "rstrip_by p (rstrip_by p s) = rstrip_by p s"
  using rstrip_by_id rstrip_by_last by blast

lemma strip_shape: "strip s \<noteq> [] \<Longrightarrow> \<not> is_ws (hd (strip s)) \<and> \<not> is_ws (last (strip s))"
  unfolding strip_def
  by (metis hd_rstrip_by lstrip_by_hd rstrip_by_last rstrip_by_id)

lemma strip_id: "s = [] \<or> (\<not> is_ws (hd s) \<and> \<not> is_ws (last s)) \<Longrightarrow> strip s = s"
  by (auto simp: strip_def lstrip_by_id rstrip_by_id)

lemma strip_Nil [simp]: "strip [] = []"
  by (simp add: strip_id)

lemma strip_idem [simp, pystr_simps]: "strip (strip s) = strip s"
  using strip_id strip_shape by blast

lemma strip_no_ws: "\<forall>c\<in>set s. \<not> is_ws c \<Longrightarrow> strip s = s"
  by (metis hd_in_set last_in_set strip_id)

lemma set_strip: "set (strip s) \<subseteq> set s"
  unfolding strip_def using set_rstrip_by set_lstrip_by by fast

lemma rstrip_dots_id: "s = [] \<or> last s \<noteq> CHR ''.'' \<Longrightarrow> rstrip_dots s = s"
  unfolding rstrip_dots_def by (rule rstrip_by_id) auto

lemma rstrip_dots_last: "rstrip_dots s \<noteq> [] \<Longrightarrow> last (rstrip_dots s) \<noteq> CHR ''.''"
  unfolding rstrip_dots_def by (rule rstrip_by_last)

subsection \<open>Splitting and joining\<close>

lemma split_on_ne [simp]: "split_on c s \<noteq> []"
  by (induction s) (auto split: list.splits)

lemma split_on_nosep: "c \<notin> set s \<Longrightarrow> split_on c s = [s]"
  by (induction s) (auto split: list.splits)

lemma split_on_append: "c \<notin> set s \<Longrightarrow> split_on c (s @ c # t) = s # split_on c t"
  by (induction s) (auto split: list.splits)

lemma split_on_app: "split_on c (s @ c # t) = split_on c s @ split_on c t"
proof (induction s)
  case (Cons x s)
  obtain y ys where "split_on c s = y # ys" by (metis list.exhaust split_on_ne)
  with Cons show ?case by simp
qed simp

lemma split_on_parts: "p \<in> set (split_on c s) \<Longrightarrow> c \<notin> set p \<and> set p \<subseteq> set s"
proof (induction s arbitrary: p)
  case (Cons x xs)
  obtain y ys where y: "split_on c xs = y # ys" by (metis list.exhaust split_on_ne)
  with Cons show ?case by (auto split: if_splits) blast+
qed simp

lemma join_Cons: "xs \<noteq> [] \<Longrightarrow> join sep (x # xs) = x @ sep @ join sep xs"
  by (cases xs) auto

lemma join_split [simp]: "join [c] (split_on c s) = s"
proof (induction s)
  case (Cons x xs)
  obtain y ys where y: "split_on c xs = y # ys" by (metis list.exhaust split_on_ne)
  with Cons show ?case by (cases ys) auto
qed simp

lemma split_join: "xs \<noteq> [] \<Longrightarrow> \<forall>x\<in>set xs. c \<notin> set x \<Longrightarrow> split_on c (join [c] xs) = xs"
proof (induction xs)
  case (Cons x xs)
  then show ?case
    by (cases xs) (simp_all add: split_on_append split_on_nosep)
qed simp

lemma set_join: "set (join sep xs) \<subseteq> set sep \<union> (\<Union>x\<in>set xs. set x)"
  by (induction sep xs rule: join.induct) auto

lemma join_append: "xs \<noteq> [] \<Longrightarrow> ys \<noteq> [] \<Longrightarrow> join sep (xs @ ys) = join sep xs @ sep @ join sep ys"
proof (induction xs)
  case (Cons x xs)
  then show ?case by (cases "xs = []") (simp_all add: join_Cons)
qed simp

subsection \<open>Decimal numbers\<close>

definition digit_val :: "char \<Rightarrow> int" where
  "digit_val c = int (code c) - 48"

definition digit_char :: "int \<Rightarrow> char" where
  "digit_char d = char_of (nat (48 + d))"

text \<open>\<open>s.isascii() and s.isdecimal()\<close>\<close>

definition ascii_decimal :: "string \<Rightarrow> bool" where
  "ascii_decimal s = (s \<noteq> [] \<and> list_all is_digit s)"

text \<open>\<open>int(s)\<close> of decimal digits, and \<open>str(n)\<close>\<close>

definition int_of_string :: "string \<Rightarrow> int" where
  "int_of_string s = foldl (\<lambda>n c. 10 * n + digit_val c) 0 s"

function show_nonneg :: "int \<Rightarrow> string" where
  "show_nonneg n = (if n < 10 then [digit_char n] else show_nonneg (n div 10) @ [digit_char (n mod 10)])"
  by pat_completeness auto
termination
  by (relation "measure nat") auto

declare show_nonneg.simps [simp del]

definition show_int :: "int \<Rightarrow> string" where
  "show_int i = (if i < 0 then CHR ''-'' # show_nonneg (- i) else show_nonneg i)"

lemma digit_char_facts [simp]:
  "0 \<le> d \<Longrightarrow> d < 10 \<Longrightarrow> is_digit (digit_char d)"
  "0 \<le> d \<Longrightarrow> d < 10 \<Longrightarrow> digit_val (digit_char d) = d"
  by (simp_all add: is_digit_def digit_val_def digit_char_def nat_less_iff nat_le_iff le_nat_iff)

lemma digit_char_zero: "0 \<le> d \<Longrightarrow> d < 10 \<Longrightarrow> digit_char d = CHR ''0'' \<longleftrightarrow> d = 0"
proof
  assume d: "0 \<le> d" "d < 10" and "digit_char d = CHR ''0''"
  then have "digit_val CHR ''0'' = d" by (metis digit_char_facts(2))
  then show "d = 0" by (simp add: digit_val_def code_def)
next
  assume "d = 0"
  have "char_of (48::nat) = CHR ''0''" by code_simp
  with \<open>d = 0\<close> show "digit_char d = CHR ''0''" by (simp add: digit_char_def)
qed

lemma int_of_string_snoc: "int_of_string (s @ [c]) = 10 * int_of_string s + digit_val c"
  by (simp add: int_of_string_def)

lemma int_of_string_nonneg: "list_all is_digit s \<Longrightarrow> 0 \<le> int_of_string s"
proof (induction s rule: rev_induct)
  case (snoc c s)
  then show ?case by (simp add: int_of_string_snoc is_digit_def digit_val_def)
qed (simp add: int_of_string_def)

lemma int_of_show [simp]: "0 \<le> n \<Longrightarrow> int_of_string (show_nonneg n) = n"
proof (induction n rule: show_nonneg.induct)
  case (1 n)
  show ?case
  proof (cases "n < 10")
    case True
    with 1 show ?thesis by (subst show_nonneg.simps) (simp add: int_of_string_def)
  next
    case False
    with 1 show ?thesis by (subst show_nonneg.simps) (simp add: int_of_string_snoc)
  qed
qed

lemma show_nonneg_ne [simp]: "show_nonneg n \<noteq> []"
  by (subst show_nonneg.simps) simp

lemma show_nonneg_digits: "0 \<le> n \<Longrightarrow> list_all is_digit (show_nonneg n)"
proof (induction n rule: show_nonneg.induct)
  case (1 n)
  then show ?case by (subst show_nonneg.simps) auto
qed

lemma ascii_decimal_show [simp]: "0 \<le> n \<Longrightarrow> ascii_decimal (show_nonneg n)"
  by (simp add: ascii_decimal_def show_nonneg_digits)

lemma hd_show_nonneg: "0 \<le> n \<Longrightarrow> hd (show_nonneg n) = CHR ''0'' \<longleftrightarrow> n = 0"
proof (induction n rule: show_nonneg.induct)
  case (1 n)
  show ?case
  proof (cases "n < 10")
    case True
    with 1 show ?thesis by (subst show_nonneg.simps) (simp add: digit_char_zero)
  next
    case False
    with 1 have "hd (show_nonneg (n div 10)) = CHR ''0'' \<longleftrightarrow> n div 10 = 0" by simp
    with False show ?thesis by (subst show_nonneg.simps) auto
  qed
qed

lemma show_nonneg_inj [simp]: "0 \<le> m \<Longrightarrow> 0 \<le> n \<Longrightarrow> show_nonneg m = show_nonneg n \<longleftrightarrow> m = n"
  by (metis int_of_show)

lemma length_show_nonneg: "n < 10 ^ k \<Longrightarrow> 0 < k \<Longrightarrow> length (show_nonneg n) \<le> k"
proof (induction n arbitrary: k rule: show_nonneg.induct)
  case (1 n)
  show ?case
  proof (cases "n < 10")
    case True
    with 1 show ?thesis by (subst show_nonneg.simps) simp
  next
    case False
    from 1(2,3) False obtain j where k: "k = Suc j" "0 < j"
      by (cases k) (auto, metis gr0I less_irrefl linorder_not_less mult.right_neutral not_less power_0)
    with 1(2) have "n < 10 * 10 ^ j" by simp
    then have "n div 10 < 10 ^ j" by linarith
    with 1(1) False k have "length (show_nonneg (n div 10)) \<le> j" by simp
    with False k show ?thesis by (subst show_nonneg.simps) simp
  qed
qed

section \<open>Ordered collections\<close>

text \<open>\<open>sorted(set(xs), key=key)\<close> and \<open>sorted(set(xs))\<close>\<close>

definition canon_by :: "('a \<Rightarrow> 'k::linorder) \<Rightarrow> 'a list \<Rightarrow> 'a list" where
  "canon_by key xs = sort_key key (remdups xs)"

definition canon :: "'a::linorder list \<Rightarrow> 'a list" where
  "canon xs = canon_by (\<lambda>x. x) xs"

text \<open>\<open>list(dict.fromkeys(xs))\<close>: distinct elements in order of first occurrence\<close>

definition uniq :: "'a list \<Rightarrow> 'a list" where
  "uniq xs = rev (remdups (rev xs))"

lemma set_canon_by [simp]: "set (canon_by key xs) = set xs"
  by (simp add: canon_by_def)

lemma distinct_canon_by [simp]: "distinct (canon_by key xs)"
  by (simp add: canon_by_def)

lemma sorted_canon_by [simp]: "sorted (map key (canon_by key xs))"
  by (simp add: canon_by_def)

lemma canon_by_unique:
  assumes "inj_on key (set xs)" "set ys = set xs" "distinct ys" "sorted (map key ys)"
  shows "canon_by key xs = ys"
proof -
  have "map key (canon_by key xs) = map key ys"
    using assms by (intro sorted_distinct_set_unique) (auto simp: distinct_map)
  moreover have "inj_on key (set (canon_by key xs) \<union> set ys)"
    using assms(1,2) by simp
  ultimately show ?thesis by (rule map_inj_on)
qed

lemma canon_by_cong_set:
  "inj_on key (set xs) \<Longrightarrow> set xs = set ys \<Longrightarrow> canon_by key xs = canon_by key ys"
  by (rule canon_by_unique) auto

lemma canon_by_idem [simp]: "inj_on key (set xs) \<Longrightarrow> canon_by key (canon_by key xs) = canon_by key xs"
  by (rule canon_by_unique) auto

lemma canon_by_id: "distinct xs \<Longrightarrow> sorted (map key xs) \<Longrightarrow> canon_by key xs = xs"
  by (simp add: canon_by_def sort_key_id_if_sorted distinct_remdups_id)

lemma canon_by_fix_iff: "canon_by key xs = xs \<longleftrightarrow> distinct xs \<and> sorted (map key xs)"
  by (metis canon_by_id distinct_canon_by sorted_canon_by)

lemma set_canon [simp]: "set (canon xs) = set xs"
  by (simp add: canon_def)

lemma distinct_canon [simp]: "distinct (canon xs)"
  by (simp add: canon_def)

lemma sorted_canon [simp]: "sorted (canon xs)"
  using sorted_canon_by [of "\<lambda>x. x" xs] by (simp add: canon_def)

lemma canon_idem [simp]: "canon (canon xs) = canon xs"
  by (simp add: canon_def)

lemma canon_eq_iff: "canon xs = canon ys \<longleftrightarrow> set xs = set ys"
  by (metis canon_by_cong_set canon_def inj_on_id2 set_canon)

lemma canon_fix_iff: "canon xs = xs \<longleftrightarrow> distinct xs \<and> sorted xs"
  using canon_by_fix_iff [of "\<lambda>x. x" xs] by (simp add: canon_def)

lemma canon_Nil [simp]: "canon [] = []" "canon xs = [] \<longleftrightarrow> xs = []"
  by (metis set_canon set_empty)+

lemma length_canon: "length (canon xs) = card (set xs)"
  by (metis distinct_canon distinct_card set_canon)

lemma set_uniq [simp]: "set (uniq xs) = set xs"
  by (simp add: uniq_def)

lemma distinct_uniq [simp]: "distinct (uniq xs)"
  by (simp add: uniq_def)

lemma uniq_id: "distinct xs \<Longrightarrow> uniq xs = xs"
  by (simp add: uniq_def distinct_remdups_id)

lemma uniq_Nil [simp]: "uniq [] = []" "uniq xs = [] \<longleftrightarrow> xs = []"
  by (simp_all add: uniq_def)

lemma uniq_snoc: "uniq (xs @ [x]) = (if x \<in> set xs then uniq xs else uniq xs @ [x])"
  by (simp add: uniq_def)

lemma uniq_seen: "x \<in> set xs \<Longrightarrow> uniq (xs @ x # ys) = uniq (xs @ ys)"
proof -
  assume "x \<in> set xs"
  then have "remdups (x # rev xs) = remdups (rev xs)" by simp
  then have "remdups (rev ys @ x # rev xs) = remdups (rev ys @ rev xs)"
    by (metis remdups_append2)
  then show ?thesis by (simp add: uniq_def)
qed

section \<open>Interfaces\<close>

text \<open>
  A normaliser: a function that raises or returns a canonical form on which it is the identity.
  Every \<open>normalize_*\<close> function of the sources is one; the validators that compare a stored value
  with its normal form rest on this law.
\<close>

locale normaliser =
  fixes norm :: "'a \<Rightarrow> 'a res"
  assumes norm_stable: "norm x = Inr y \<Longrightarrow> norm y = Inr y"
begin

lemma canonical_iff: "norm y = Inr y \<longleftrightarrow> (\<exists>x. norm x = Inr y)"
  using norm_stable by blast

lemma mapR_stable: "mapR norm xs = Inr ys \<Longrightarrow> mapR norm ys = Inr ys"
  by (rule mapR_id) (meson mapR_Inr_in norm_stable)

lemma canonical_test: "norm x = Inr y \<Longrightarrow> y = x \<longleftrightarrow> (\<exists>z. norm z = Inr x)"
  by (metis canonical_iff sum.inject(2))

end

text \<open>
  A collection kept as \<open>tuple(sorted(set(xs), key=key))\<close> where the key tells elements apart: the
  stored tuple depends on the set of elements only, and putting it in order again changes nothing.
\<close>

locale canonical_collection =
  fixes key :: "'a \<Rightarrow> 'k::linorder"
  assumes key_inj: "key x = key y \<Longrightarrow> x = y"
begin

lemma inj_key: "inj_on key A"
  by (rule inj_onI) (rule key_inj)

lemma same_set: "canon_by key xs = canon_by key ys \<longleftrightarrow> set xs = set ys"
  by (metis canon_by_cong_set inj_key set_canon_by)

lemma stable: "canon_by key (canon_by key xs) = canon_by key xs"
  by (rule canon_by_idem) (rule inj_key)

lemma order_irrelevant: "set xs = set ys \<Longrightarrow> canon_by key xs = canon_by key ys"
  by (simp add: same_set)

end

interpretation identity_order: canonical_collection "\<lambda>x::'a::linorder. x"
  by unfold_locales

end
