(* ===== verification/Idna_Codec.thy ===== *)
theory Idna_Codec
  imports Prelude
begin

text \<open>
  Python's \<open>str.encode('idna')\<close> on the modelled code points: the ASCII fast path, and for a text with
  a non-ASCII code point the label by label conversion (nameprep mapping, ACE prefix check, Punycode).
  Labels are lists of code points, because nameprep maps some Latin-1 characters above 255. The
  last lemmas say what the hostname normaliser needs: on lower-case input the result is lower-case ASCII.
\<close>

section \<open>Nameprep\<close>

text \<open>Nameprep of one lower-case code point below 256; None where the code point is prohibited.\<close>

definition nameprep_char :: "nat \<Rightarrow> nat list option" where
  "nameprep_char n =
     (if 128 \<le> n \<and> n \<le> 159 then None
      else if n = 160 then Some [32]
      else if n = 168 then Some [32, 776]
      else if n = 170 then Some [97]
      else if n = 173 then Some []
      else if n = 175 then Some [32, 772]
      else if n = 178 then Some [50]
      else if n = 179 then Some [51]
      else if n = 180 then Some [32, 769]
      else if n = 181 then Some [956]
      else if n = 184 then Some [32, 807]
      else if n = 185 then Some [49]
      else if n = 186 then Some [111]
      else if n = 188 then Some [49, 8260, 52]
      else if n = 189 then Some [49, 8260, 50]
      else if n = 190 then Some [51, 8260, 52]
      else if n = 223 then Some [115, 115]
      else Some [n])"

definition nameprep :: "string \<Rightarrow> nat list option" where
  "nameprep s = map_option concat (those (map (\<lambda>c. nameprep_char (code (lower_char c))) s))"

section \<open>Punycode\<close>

definition puny_threshold :: "nat \<Rightarrow> nat \<Rightarrow> nat" where
  "puny_threshold j bias = (let res = 36 * (int j + 1) - int bias in if res < 1 then 1 else if res > 26 then 26 else nat res)"

definition puny_digit :: "nat \<Rightarrow> nat" where
  "puny_digit d = (if d < 26 then 97 + d else 48 + (d - 26))"

function generalized_integer :: "nat \<Rightarrow> nat \<Rightarrow> nat \<Rightarrow> nat list" where
  "generalized_integer n j bias =
     (let t = puny_threshold j bias
      in if n < t then [puny_digit n]
         else puny_digit (t + (n - t) mod (36 - t)) # generalized_integer ((n - t) div (36 - t)) (Suc j) bias)"
  by pat_completeness auto
termination
proof (relation "measure (\<lambda>(n, j, bias). n)")
  fix n j bias t
  assume t: "t = puny_threshold j bias" and n: "\<not> n < t"
  have "0 < t" unfolding t puny_threshold_def Let_def by auto
  then have "(n - t) div (36 - t) < n" using n div_le_dividend [of "n - t" "36 - t"] by linarith
  then show "(((n - t) div (36 - t), Suc j, bias), n, j, bias) \<in> measure (\<lambda>(n, j, bias). n)" by simp
qed auto

declare generalized_integer.simps [simp del]

function puny_divisions :: "nat \<Rightarrow> nat \<Rightarrow> nat \<times> nat" where
  "puny_divisions delta k = (if delta \<le> 455 then (delta, k) else puny_divisions (delta div 35) (k + 36))"
  by pat_completeness auto
termination
  by (relation "measure fst") auto

declare puny_divisions.simps [simp del]

definition puny_adapt :: "nat \<Rightarrow> bool \<Rightarrow> nat \<Rightarrow> nat" where
  "puny_adapt delta first numchars =
     (let d0 = (if first then delta div 700 else delta div 2);
          (d, k) = puny_divisions (d0 + d0 div numchars) 0
      in k + 36 * d div (d + 38))"

fun generate_integers :: "nat \<Rightarrow> nat \<Rightarrow> nat \<Rightarrow> nat list \<Rightarrow> nat list" where
  "generate_integers baselen points bias [] = []"
| "generate_integers baselen points bias (delta # deltas) =
     generalized_integer delta 0 bias
       @ generate_integers baselen (Suc points) (puny_adapt delta (points = 0) (baselen + points + 1)) deltas"

text \<open>
  The deltas of the occurrences of one code point \<open>c\<close>, with the index of the last occurrence:
  \<open>index\<close> counts the code points up to \<open>c\<close> passed so far, \<open>old\<close> is the index of the last code point emitted.
\<close>

fun deltas_of :: "nat \<Rightarrow> int \<Rightarrow> int \<Rightarrow> int \<Rightarrow> nat list \<Rightarrow> int list \<times> int" where
  "deltas_of c delta index old [] = ([], old)"
| "deltas_of c delta index old (x # xs) =
     (if x = c
      then (let (ds, last) = deltas_of c 0 (index + 1) (index + 1) xs in ((delta + (index + 1 - old) - 1) # ds, last))
      else deltas_of c delta (if x < c then index + 1 else index) old xs)"

fun insertion_unsort :: "nat list \<Rightarrow> nat \<Rightarrow> int \<Rightarrow> nat list \<Rightarrow> int list" where
  "insertion_unsort label oldchar old [] = []"
| "insertion_unsort label oldchar old (c # cs) =
     (let curlen = length (filter (\<lambda>x. x < c) label);
          (ds, last) = deltas_of c (int ((curlen + 1) * (c - oldchar))) (- 1) old label
      in ds @ insertion_unsort label c last cs)"

definition punycode :: "nat list \<Rightarrow> nat list" where
  "punycode label =
     (let base = filter (\<lambda>n. n < 128) label;
          extended = canon (filter (\<lambda>n. 128 \<le> n) label);
          tail = generate_integers (length base) 0 72 (map nat (insertion_unsort label 128 (- 1) extended))
      in if base = [] then tail else base @ [45] @ tail)"

section \<open>The codec\<close>

definition ace_prefix :: "nat list" where
  "ace_prefix = [120, 110, 45, 45]"

definition label_size_ok :: "nat list \<Rightarrow> bool" where
  "label_size_ok label = (0 < length label \<and> length label < 64)"

definition to_ascii :: "string \<Rightarrow> nat list option" where
  "to_ascii label =
     (if list_all is_ascii label
      then (if label_size_ok (map code label) then Some (map code label) else None)
      else (case nameprep label of
              None \<Rightarrow> None
            | Some prepared \<Rightarrow>
                (let result =
                   (if list_all (\<lambda>n. n < 128) prepared then Some prepared
                    else if take 4 prepared = ace_prefix then None
                    else Some (ace_prefix @ punycode prepared))
                 in case result of
                      None \<Rightarrow> None
                    | Some bytes \<Rightarrow> (if label_size_ok bytes then Some bytes else None))))"

definition text_of :: "nat list \<Rightarrow> string" where
  "text_of ns = map char_of ns"

text \<open>\<open>s.encode('idna').decode('ascii')\<close>; None for a UnicodeError.\<close>

definition idna_encode :: "string \<Rightarrow> string option" where
  "idna_encode s =
     (let labels = split_on CHR ''.'' s
      in if s = [] then Some []
         else if list_all is_ascii s
         then (if list_all (\<lambda>l. l \<noteq> []) (butlast labels) \<and> list_all (\<lambda>l. length l < 64) labels then Some s else None)
         else (let trailing = (last labels = []); named = (if trailing then butlast labels else labels)
               in map_option (\<lambda>bs. join ''.'' (map text_of bs) @ (if trailing then ''.'' else [])) (those (map to_ascii named))))"

section \<open>Results are lower-case ASCII\<close>

definition host_code :: "nat \<Rightarrow> bool" where
  "host_code n = (n < 128 \<and> \<not> (65 \<le> n \<and> n \<le> 90))"

lemma host_code_char: "host_code n \<Longrightarrow> is_ascii (char_of n) \<and> \<not> is_upper (char_of n)"
  by (auto simp: host_code_def is_ascii_def is_upper_def)

lemma nameprep_low: "nameprep_char n = Some ns \<Longrightarrow> k \<in> set ns \<Longrightarrow> k < 128 \<Longrightarrow> \<not> (65 \<le> n \<and> n \<le> 90) \<Longrightarrow> host_code k"
  unfolding nameprep_char_def host_code_def by (simp split: if_splits) (auto)?

lemma nameprep_char_ascii:
  "nameprep_char (code (lower_char c)) = Some ns \<Longrightarrow> n \<in> set ns \<Longrightarrow> n < 128 \<Longrightarrow> host_code n"
  using lower_char_not_upper [of c] nameprep_low by (simp add: is_upper_def)

lemma those_image: "those (map f xs) = Some ys \<Longrightarrow> y \<in> set ys \<Longrightarrow> \<exists>x\<in>set xs. f x = Some y"
  by (induction xs arbitrary: ys) (auto split: option.splits)

lemma nameprep_ascii: "nameprep s = Some ns \<Longrightarrow> n \<in> set ns \<Longrightarrow> n < 128 \<Longrightarrow> host_code n"
proof -
  assume "nameprep s = Some ns" and n: "n \<in> set ns" "n < 128"
  then obtain nss where nss: "those (map (\<lambda>c. nameprep_char (code (lower_char c))) s) = Some nss" "ns = concat nss"
    by (auto simp: nameprep_def)
  from n(1) nss(2) obtain ms where "ms \<in> set nss" "n \<in> set ms" by auto
  with those_image [OF nss(1)] n(2) show ?thesis by (blast intro: nameprep_char_ascii)
qed

lemma puny_digit_host: "d < 36 \<Longrightarrow> host_code (puny_digit d)"
  by (auto simp: puny_digit_def host_code_def)

lemma puny_threshold_bounds: "0 < puny_threshold j bias" "puny_threshold j bias \<le> 26"
  by (auto simp: puny_threshold_def Let_def)

lemma generalized_integer_host: "m \<in> set (generalized_integer n j bias) \<Longrightarrow> host_code m"
proof (induction n j bias rule: generalized_integer.induct)
  case (1 n j bias)
  let ?t = "puny_threshold j bias"
  have t: "?t \<le> 26" by (rule puny_threshold_bounds)
  then have "?t + (n - ?t) mod (36 - ?t) < ?t + (36 - ?t)" by (intro add_strict_left_mono) simp
  with t have "?t + (n - ?t) mod (36 - ?t) < 36" by simp
  with 1 t show ?case
    by (subst (asm) (2) generalized_integer.simps) (auto simp: Let_def puny_digit_host split: if_splits)
qed

lemma generate_integers_host: "m \<in> set (generate_integers baselen points bias ds) \<Longrightarrow> host_code m"
  by (induction baselen points bias ds rule: generate_integers.induct) (auto dest: generalized_integer_host)

lemma to_ascii_host:
  assumes "to_ascii label = Some bytes" "lower label = label"
  shows "list_all host_code bytes" and "bytes \<noteq> []" and "length bytes < 64"
proof -
  from assms(1) show "bytes \<noteq> []" "length bytes < 64"
    by (auto simp: to_ascii_def label_size_ok_def Let_def split: if_splits option.splits)
  show "list_all host_code bytes"
  proof (cases "list_all is_ascii label")
    case True
    moreover have "\<forall>c\<in>set label. \<not> is_upper c" using assms(2) by (simp add: lower_id_iff)
    ultimately show ?thesis
      using assms(1) by (auto simp: to_ascii_def list_all_iff host_code_def is_ascii_def is_upper_def split: if_splits)
  next
    case False
    with assms(1) obtain prepared where p: "nameprep label = Some prepared"
      and b: "bytes = prepared \<and> list_all (\<lambda>n. n < 128) prepared \<or> bytes = ace_prefix @ punycode prepared"
      by (auto simp: to_ascii_def Let_def split: if_splits option.splits)
    have "list_all host_code (punycode prepared)"
      using nameprep_ascii [OF p] generate_integers_host
      by (auto simp: punycode_def Let_def list_all_iff host_code_def)
    moreover have "list_all host_code ace_prefix" by (simp add: ace_prefix_def host_code_def)
    ultimately show ?thesis using b nameprep_ascii [OF p] by (auto simp: list_all_iff)
  qed
qed

lemma lower_parts: "lower s = s \<Longrightarrow> l \<in> set (split_on c s) \<Longrightarrow> lower l = l"
  using split_on_parts [of l c s] by (auto simp: lower_id_iff)

lemma text_of_host: "list_all host_code ns \<Longrightarrow> c \<in> set (text_of ns) \<Longrightarrow> is_ascii c \<and> \<not> is_upper c"
  by (auto simp: text_of_def list_all_iff dest: host_code_char)

lemma idna_encode_chars:
  assumes "idna_encode s = Some t" "lower s = s" "c \<in> set t"
  shows "is_ascii c \<and> \<not> is_upper c"
proof (cases "list_all is_ascii s")
  case True
  with assms show ?thesis
    by (auto simp: idna_encode_def Let_def list_all_iff lower_id_iff split: if_splits)
next
  case False
  then obtain named bs tl where bs: "those (map to_ascii named) = Some bs" "t = join ''.'' (map text_of bs) @ tl"
    and named: "set named \<subseteq> set (split_on CHR ''.'' s)" and tl: "tl = [] \<or> tl = ''.''"
    using assms(1)
    by (auto simp: idna_encode_def Let_def split: if_splits dest: in_set_butlastD)
  have "list_all host_code b" if "b \<in> set bs" for b
  proof -
    from bs(1) that obtain l where "l \<in> set named" "to_ascii l = Some b"
      by (meson those_image)
    with named assms(2) show ?thesis by (blast intro: to_ascii_host(1) lower_parts)
  qed
  then have "\<forall>c\<in>set (join ''.'' (map text_of bs)). is_ascii c \<and> \<not> is_upper c"
    using set_join [of "''.''" "map text_of bs"] text_of_host by fastforce
  with bs(2) tl assms(3) show ?thesis by auto
qed

lemma idna_encode_id:
  "\<forall>c\<in>set s. is_ascii c \<Longrightarrow> \<forall>l\<in>set (split_on CHR ''.'' s). l \<noteq> [] \<and> length l < 64 \<Longrightarrow> idna_encode s = Some s"
  by (auto simp: idna_encode_def Let_def list_all_iff dest: in_set_butlastD)

text \<open>A percent sign survives the codec, so the codec never turns a scoped address into a hostname.\<close>

lemma nameprep_mark: "nameprep s = Some ns \<Longrightarrow> CHR ''%'' \<in> set s \<Longrightarrow> 37 \<in> set ns"
proof -
  assume "nameprep s = Some ns" and m: "CHR ''%'' \<in> set s"
  then obtain nss where nss: "those (map (\<lambda>c. nameprep_char (code (lower_char c))) s) = Some nss" "ns = concat nss"
    by (auto simp: nameprep_def)
  have "nameprep_char (code (lower_char CHR ''%'')) = Some [37]" by code_simp
  then have "[37] \<in> set nss" using nss(1) m
  proof (induction s arbitrary: nss)
    case (Cons c s)
    then show ?case by (auto split: option.splits)
  qed simp
  with nss(2) show ?thesis by force
qed

lemma to_ascii_mark:
  assumes "to_ascii l = Some bytes" "CHR ''%'' \<in> set l"
  shows "37 \<in> set bytes"
proof (cases "list_all is_ascii l")
  case True
  with assms(1) have "bytes = map code l" by (simp add: to_ascii_def split: if_splits)
  moreover have "code CHR ''%'' \<in> set (map code l)" using assms(2) by simp
  moreover have "code CHR ''%'' = 37" by code_simp
  ultimately show ?thesis by simp
next
  case False
  with assms(1) obtain prepared where p: "nameprep l = Some prepared"
    and b: "bytes = prepared \<or> bytes = ace_prefix @ punycode prepared"
    by (auto simp: to_ascii_def Let_def split: if_splits option.splits)
  have m: "37 \<in> set prepared" by (rule nameprep_mark [OF p assms(2)])
  then have f: "37 \<in> set (filter (\<lambda>n. n < 128) prepared)" by simp
  moreover have "filter (\<lambda>n. n < 128) prepared \<noteq> []" using length_pos_if_in_set [OF f] by (metis length_0_conv less_irrefl)
  ultimately have "37 \<in> set (punycode prepared)" by (simp only: punycode_def Let_def if_False set_append Un_iff simp_thms)
  with m b show ?thesis by auto
qed

lemma those_preimage: "those (map f xs) = Some ys \<Longrightarrow> x \<in> set xs \<Longrightarrow> \<exists>y\<in>set ys. f x = Some y"
  by (induction xs arbitrary: ys) (auto split: option.splits)

lemma set_join_part: "x \<in> set xs \<Longrightarrow> set x \<subseteq> set (join sep xs)"
  by (induction sep xs rule: join.induct) auto

lemma idna_encode_mark:
  assumes "idna_encode s = Some t" "CHR ''%'' \<in> set s"
  shows "CHR ''%'' \<in> set t"
proof (cases "list_all is_ascii s")
  case True
  with assms show ?thesis by (auto simp: idna_encode_def Let_def split: if_splits)
next
  case False
  let ?ls = "split_on CHR ''.'' s"
  define named where "named = (if last ?ls = [] then butlast ?ls else ?ls)"
  from False assms obtain bs tl where bs: "those (map to_ascii named) = Some bs" "t = join ''.'' (map text_of bs) @ tl"
    by (auto simp: idna_encode_def Let_def named_def split: if_splits)
  have "set s \<subseteq> {CHR ''.''} \<union> (\<Union>l\<in>set ?ls. set l)" using set_join [of "''.''" ?ls] by simp
  with assms(2) obtain l where l: "l \<in> set ?ls" "CHR ''%'' \<in> set l" by auto
  have "?ls = butlast ?ls @ [last ?ls]" by simp
  then have "set ?ls = set (butlast ?ls) \<union> {last ?ls}" by (metis list.simps(15) list.set(1) set_append)
  with l have "l \<in> set named" by (auto simp: named_def)
  from those_preimage [OF bs(1) this] obtain b where b: "b \<in> set bs" "to_ascii l = Some b" by blast
  have "code CHR ''%'' = 37" by code_simp
  then have "char_of (37 :: nat) = CHR ''%''" by (metis char_of_char code_def)
  then have "CHR ''%'' \<in> set (text_of b)" using to_ascii_mark [OF b(2) l(2)] by (force simp: text_of_def)
  moreover have "text_of b \<in> set (map text_of bs)" using b(1) by simp
  ultimately show ?thesis using set_join_part bs(2) by fastforce
qed

end
