(* ===== verification/Ip_Address.thy ===== *)
theory Ip_Address
  imports Prelude
begin

text \<open>
  The part of Python's standard \<open>ipaddress\<close> module that the sources use: \<open>ip_address(text)\<close>,
  \<open>ip_network(text, strict=False)\<close> and the text form \<open>str(...)\<close> of their results, IPv4 and IPv6
  (compressed form, IPv4-mapped form and scope identifier). The last section shows that the text
  form parses back to the same address, which the normalisers of the program rest on.
\<close>

datatype ip = IPv4 int | IPv6 int "string option"

fun version :: "ip \<Rightarrow> nat" where
  "version (IPv4 _) = 4"
| "version (IPv6 _ _) = 6"

section \<open>IPv4\<close>

definition parse_octet :: "string \<Rightarrow> int option" where
  "parse_octet s =
     (if \<not> ascii_decimal s \<or> 3 < length s \<or> (s \<noteq> ''0'' \<and> hd s = CHR ''0'') \<or> 255 < int_of_string s
      then None else Some (int_of_string s))"

definition of_digits :: "int \<Rightarrow> int list \<Rightarrow> int" where
  "of_digits b ds = foldl (\<lambda>n d. b * n + d) 0 ds"

definition parse_ipv4 :: "string \<Rightarrow> int option" where
  "parse_ipv4 s =
     (let parts = split_on CHR ''.'' s
      in if length parts = 4 then map_option (of_digits 256) (those (map parse_octet parts)) else None)"

fun to_digits :: "int \<Rightarrow> nat \<Rightarrow> int \<Rightarrow> int list" where
  "to_digits b 0 n = []"
| "to_digits b (Suc k) n = to_digits b k (n div b) @ [n mod b]"

definition show_ipv4 :: "int \<Rightarrow> string" where
  "show_ipv4 n = join ''.'' (map show_nonneg (to_digits 256 4 n))"

section \<open>IPv6\<close>

definition is_hex :: "char \<Rightarrow> bool" where
  "is_hex c = (let n = code c in (48 \<le> n \<and> n \<le> 57) \<or> (65 \<le> n \<and> n \<le> 70) \<or> (97 \<le> n \<and> n \<le> 102))"

definition hex_val :: "char \<Rightarrow> int" where
  "hex_val c = (let n = int (code c) in if n \<le> 57 then n - 48 else if n \<le> 70 then n - 55 else n - 87)"

definition hex_char :: "int \<Rightarrow> char" where
  "hex_char d = char_of (nat (if d < 10 then 48 + d else 87 + d))"

definition parse_hextet :: "string \<Rightarrow> int option" where
  "parse_hextet s =
     (if s = [] \<or> 4 < length s \<or> \<not> list_all is_hex s then None else Some (of_digits 16 (map hex_val s)))"

function string_of_hex :: "int \<Rightarrow> string" where
  "string_of_hex n = (if n < 16 then [hex_char n] else string_of_hex (n div 16) @ [hex_char (n mod 16)])"
  by pat_completeness auto
termination
  by (relation "measure nat") auto

declare string_of_hex.simps [simp del]

text \<open>Positions of the empty parts that are neither the first nor the last.\<close>

definition middle_empties :: "string list \<Rightarrow> nat list" where
  "middle_empties parts = map fst (filter (\<lambda>(i, p). p = []) (enumerate 1 (butlast (tl parts))))"

definition parse_parts :: "string list \<Rightarrow> int list option" where
  "parse_parts parts =
     (if 9 < length parts then None
      else case middle_empties parts of
        [] \<Rightarrow> (if length parts \<noteq> 8 \<or> hd parts = [] \<or> last parts = [] then None
               else those (map parse_hextet parts))
      | [k] \<Rightarrow>
          (let hi = (if hd parts = [] then k - 1 else k);
               lo = (if last parts = [] then length parts - k - 2 else length parts - k - 1)
           in if (hd parts = [] \<and> hi \<noteq> 0) \<or> (last parts = [] \<and> lo \<noteq> 0) \<or> 8 \<le> hi + lo then None
              else (case (those (map parse_hextet (take hi parts)),
                          those (map parse_hextet (drop (length parts - lo) parts))) of
                      (Some a, Some b) \<Rightarrow> Some (a @ replicate (8 - (hi + lo)) 0 @ b)
                    | _ \<Rightarrow> None))
      | _ \<Rightarrow> None)"

text \<open>An IPv4 text after the last colon stands for the last two groups.\<close>

definition expand_ipv4_suffix :: "string list \<Rightarrow> string list option" where
  "expand_ipv4_suffix parts =
     (if CHR ''.'' \<in> set (last parts)
      then map_option (\<lambda>n. butlast parts @ [string_of_hex (n div 65536), string_of_hex (n mod 65536)])
             (parse_ipv4 (last parts))
      else Some parts)"

definition parse_ipv6_int :: "string \<Rightarrow> int option" where
  "parse_ipv6_int s =
     (let parts = split_on CHR '':'' s
      in if length parts < 3 then None
         else (case expand_ipv4_suffix parts of
                 None \<Rightarrow> None
               | Some ps \<Rightarrow> map_option (of_digits 65536) (parse_parts ps)))"

definition parse_ipv6 :: "string \<Rightarrow> ip option" where
  "parse_ipv6 s =
     (if CHR ''/'' \<in> set s then None
      else case split_on CHR ''%'' s of
        [a] \<Rightarrow> map_option (\<lambda>n. IPv6 n None) (parse_ipv6_int a)
      | [a, scope] \<Rightarrow> (if scope = [] then None else map_option (\<lambda>n. IPv6 n (Some scope)) (parse_ipv6_int a))
      | _ \<Rightarrow> None)"

text \<open>The first longest run of zero groups, as (start, length).\<close>

fun best_run :: "int list \<Rightarrow> nat \<Rightarrow> nat \<Rightarrow> nat \<Rightarrow> nat \<Rightarrow> nat \<Rightarrow> nat \<times> nat" where
  "best_run [] i cs cl bs bl = (bs, bl)"
| "best_run (h # hs) i cs cl bs bl =
     (if h = 0
      then (let cs' = (if cl = 0 then i else cs); cl' = Suc cl
            in if bl < cl' then best_run hs (Suc i) cs' cl' cs' cl' else best_run hs (Suc i) cs' cl' bs bl)
      else best_run hs (Suc i) 0 0 bs bl)"

definition compress_hextets :: "int list \<Rightarrow> string list" where
  "compress_hextets hs =
     (let (start, n) = best_run hs 0 0 0 0 0; ss = map string_of_hex hs
      in if 1 < n
         then (if start = 0 then [[]] else []) @ take start ss @ [[]] @ drop (start + n) ss
              @ (if start + n = length hs then [[]] else [])
         else ss)"

definition show_ipv6 :: "int \<Rightarrow> string" where
  "show_ipv6 n =
     (if n div 2 ^ 32 = 65535 then ''::ffff:'' @ show_ipv4 (n mod 2 ^ 32)
      else join '':'' (compress_hextets (to_digits 65536 8 n)))"

section \<open>Addresses and networks\<close>

definition parse_ip :: "string \<Rightarrow> ip option" where
  "parse_ip s = (case parse_ipv4 s of Some n \<Rightarrow> Some (IPv4 n) | None \<Rightarrow> parse_ipv6 s)"

fun show_ip :: "ip \<Rightarrow> string" where
  "show_ip (IPv4 n) = show_ipv4 n"
| "show_ip (IPv6 n None) = show_ipv6 n"
| "show_ip (IPv6 n (Some scope)) = show_ipv6 n @ ''%'' @ scope"

text \<open>A prefix length written in decimal, or for IPv4 as a dotted netmask or hostmask.\<close>

definition parse_prefix_len :: "nat \<Rightarrow> string \<Rightarrow> nat option" where
  "parse_prefix_len w s = (if ascii_decimal s \<and> int_of_string s \<le> int w then Some (nat (int_of_string s)) else None)"

definition prefix_of_mask :: "int \<Rightarrow> nat option" where
  "prefix_of_mask v = find (\<lambda>p. v = 2 ^ 32 - 2 ^ (32 - p)) [0..<33]"

definition parse_ipv4_mask :: "string \<Rightarrow> nat option" where
  "parse_ipv4_mask s =
     (case parse_prefix_len 32 s of
        Some p \<Rightarrow> Some p
      | None \<Rightarrow> (case parse_ipv4 s of
                  None \<Rightarrow> None
                | Some v \<Rightarrow> (case prefix_of_mask v of
                              Some p \<Rightarrow> Some p
                            | None \<Rightarrow> prefix_of_mask (2 ^ 32 - 1 - v))))"

definition mask_host :: "nat \<Rightarrow> nat \<Rightarrow> int \<Rightarrow> int" where
  "mask_host w p n = n div 2 ^ (w - p) * 2 ^ (w - p)"

definition parse_ipv4_net :: "string list \<Rightarrow> (ip \<times> nat) option" where
  "parse_ipv4_net parts =
     (case parse_ipv4 (hd parts) of
        None \<Rightarrow> None
      | Some n \<Rightarrow> (case (if length parts = 1 then Some 32 else parse_ipv4_mask (parts ! 1)) of
                    None \<Rightarrow> None
                  | Some p \<Rightarrow> Some (IPv4 (mask_host 32 p n), p)))"

definition parse_ipv6_net :: "string list \<Rightarrow> (ip \<times> nat) option" where
  "parse_ipv6_net parts =
     (case parse_ipv6 (hd parts) of
        Some (IPv6 n sc) \<Rightarrow>
          (case (if length parts = 1 then Some 128 else parse_prefix_len 128 (parts ! 1)) of
             None \<Rightarrow> None
           | Some p \<Rightarrow> Some (IPv6 (mask_host 128 p n) (if mask_host 128 p n = n then sc else None), p))
      | _ \<Rightarrow> None)"

definition parse_net :: "string \<Rightarrow> (ip \<times> nat) option" where
  "parse_net s =
     (let parts = split_on CHR ''/'' s
      in if 2 < length parts then None
         else (case parse_ipv4_net parts of Some net \<Rightarrow> Some net | None \<Rightarrow> parse_ipv6_net parts))"

definition show_net :: "ip \<times> nat \<Rightarrow> string" where
  "show_net net = show_ip (fst net) @ ''/'' @ show_nonneg (int (snd net))"

section \<open>Text form and parsing agree\<close>

fun wf_ip :: "ip \<Rightarrow> bool" where
  "wf_ip (IPv4 n) = (0 \<le> n \<and> n < 2 ^ 32)"
| "wf_ip (IPv6 n sc) =
     (0 \<le> n \<and> n < 2 ^ 128 \<and> (case sc of None \<Rightarrow> True | Some z \<Rightarrow> z \<noteq> [] \<and> CHR ''%'' \<notin> set z \<and> CHR ''/'' \<notin> set z))"

definition in_base :: "int \<Rightarrow> int list \<Rightarrow> bool" where
  "in_base b ds = (\<forall>d\<in>set ds. 0 \<le> d \<and> d < b)"

lemma of_digits_snoc: "of_digits b (ds @ [d]) = b * of_digits b ds + d"
  by (simp add: of_digits_def)

lemma of_digits_Nil [simp]: "of_digits b [] = 0"
  by (simp add: of_digits_def)

lemma length_to_digits [simp]: "length (to_digits b k n) = k"
  by (induction k arbitrary: n) auto

lemma to_digits_in_base: "0 < b \<Longrightarrow> in_base b (to_digits b k n)"
  by (induction k arbitrary: n) (auto simp: in_base_def)

lemma of_to_digits: "0 < b \<Longrightarrow> 0 \<le> n \<Longrightarrow> n < b ^ k \<Longrightarrow> of_digits b (to_digits b k n) = n"
proof (induction k arbitrary: n)
  case (Suc k)
  have "n div b < b ^ k"
  proof (rule ccontr)
    assume "\<not> n div b < b ^ k"
    then have "b * b ^ k \<le> b * (n div b)" using Suc.prems(1) by simp
    also have "\<dots> = n - n mod b" by (simp add: minus_mod_eq_mult_div)
    also have "\<dots> \<le> n" using Suc.prems(1) by simp
    finally show False using Suc.prems(3) by simp
  qed
  with Suc show ?case by (simp add: of_digits_snoc pos_imp_zdiv_nonneg_iff)
qed simp

lemma of_digits_bounds: "0 < b \<Longrightarrow> in_base b ds \<Longrightarrow> 0 \<le> of_digits b ds \<and> of_digits b ds < b ^ length ds"
proof (induction ds rule: rev_induct)
  case (snoc d ds)
  then have IH: "0 \<le> of_digits b ds" "of_digits b ds + 1 \<le> b ^ length ds" and d: "0 \<le> d" "d < b"
    by (auto simp: in_base_def)
  from IH(2) snoc.prems(1) have "b * (of_digits b ds + 1) \<le> b * b ^ length ds"
    by (simp only: mult_le_cancel_left_pos)
  with IH(1) d snoc.prems(1) show ?case by (simp add: of_digits_snoc distrib_left)
qed simp

lemma those_map: "(\<And>x. x \<in> set xs \<Longrightarrow> f x = Some (g x)) \<Longrightarrow> those (map f xs) = Some (map g xs)"
  by (induction xs) auto

lemma those_Some_iff: "those ms = Some ys \<longleftrightarrow> ms = map Some ys"
  by (induction ms arbitrary: ys) (auto split: option.splits)

lemma those_parse: "those (map f ss) = Some ys \<Longrightarrow> length ys = length ss \<and> (\<forall>y\<in>set ys. \<exists>s\<in>set ss. f s = Some y)"
  by (auto simp: those_Some_iff list_eq_iff_nth_eq in_set_conv_nth) (metis nth_mem)

subsection \<open>IPv4\<close>

lemma parse_octet_show: "0 \<le> d \<Longrightarrow> d < 256 \<Longrightarrow> parse_octet (show_nonneg d) = Some d"
proof -
  assume d: "0 \<le> d" "d < 256"
  then have len: "length (show_nonneg d) \<le> 3" by (intro length_show_nonneg) auto
  have "show_nonneg 0 = ''0''" by (simp add: show_nonneg.simps digit_char_def) code_simp
  then have "hd (show_nonneg d) = CHR ''0'' \<Longrightarrow> show_nonneg d = ''0''"
    using d by (simp add: hd_show_nonneg)
  with d len show ?thesis by (auto simp: parse_octet_def)
qed

lemma parse_octet_bounds: "parse_octet s = Some d \<Longrightarrow> 0 \<le> d \<and> d < 256"
  by (auto simp: parse_octet_def ascii_decimal_def int_of_string_nonneg split: if_splits)

lemma dot_not_digits: "list_all is_digit s \<Longrightarrow> CHR ''.'' \<notin> set s"
  by (auto simp: list_all_iff dest!: bspec)

lemma split_show_ipv4: "split_on CHR ''.'' (show_ipv4 n) = map show_nonneg (to_digits 256 4 n)"
proof -
  have "\<forall>s\<in>set (map show_nonneg (to_digits 256 4 n)). CHR ''.'' \<notin> set s"
    using to_digits_in_base [of 256 4 n] by (auto simp: in_base_def dest!: show_nonneg_digits dot_not_digits)
  moreover have "map show_nonneg (to_digits 256 4 n) \<noteq> []"
    by (metis length_to_digits length_map list.size(3) zero_neq_numeral)
  ultimately show ?thesis unfolding show_ipv4_def by (intro split_join)
qed

lemma parse_show_ipv4: "0 \<le> n \<Longrightarrow> n < 2 ^ 32 \<Longrightarrow> parse_ipv4 (show_ipv4 n) = Some n"
proof -
  assume n: "0 \<le> n" "n < 2 ^ 32"
  let ?ds = "to_digits 256 4 n"
  have "those (map parse_octet (map show_nonneg ?ds)) = Some (map (\<lambda>d. d) ?ds)"
    unfolding list.map_comp using to_digits_in_base [of 256 4 n]
    by (intro those_map) (auto simp: in_base_def parse_octet_show)
  moreover have "of_digits 256 ?ds = n" using n by (intro of_to_digits) auto
  ultimately show ?thesis
    unfolding parse_ipv4_def Let_def split_show_ipv4
    by (simp add: list.map_comp)
qed

lemma parse_ipv4_bounds: "parse_ipv4 s = Some n \<Longrightarrow> 0 \<le> n \<and> n < 2 ^ 32"
proof -
  assume "parse_ipv4 s = Some n"
  then obtain ds where ds: "those (map parse_octet (split_on CHR ''.'' s)) = Some ds"
    "length (split_on CHR ''.'' s) = 4" "n = of_digits 256 ds"
    by (auto simp: parse_ipv4_def Let_def split: if_splits)
  from those_parse [OF ds(1)] ds(2) have "length ds = 4" "in_base 256 ds"
    by (auto simp: in_base_def dest: parse_octet_bounds)
  with of_digits_bounds [of 256 ds] ds(3) show ?thesis by simp
qed

lemma parse_ipv4_chars: "parse_ipv4 s = Some n \<Longrightarrow> c \<in> set s \<Longrightarrow> is_digit c \<or> c = CHR ''.''"
proof -
  assume s: "parse_ipv4 s = Some n" and c: "c \<in> set s"
  from s have "those (map parse_octet (split_on CHR ''.'' s)) \<noteq> None"
    by (auto simp: parse_ipv4_def Let_def split: if_splits)
  then have "\<forall>p\<in>set (split_on CHR ''.'' s). parse_octet p \<noteq> None"
    by (auto simp: those_Some_iff) (metis imageI list.set_map option.distinct(1) image_iff)
  then have "\<forall>p\<in>set (split_on CHR ''.'' s). list_all is_digit p"
    by (auto simp: parse_octet_def ascii_decimal_def split: if_splits)
  moreover have "set s \<subseteq> {CHR ''.''} \<union> (\<Union>p\<in>set (split_on CHR ''.'' s). set p)"
    using set_join [of "[CHR ''.'']" "split_on CHR ''.'' s"] by simp
  ultimately show ?thesis using c by (auto simp: list_all_iff)
qed

subsection \<open>IPv6 groups\<close>

lemma hex_char_facts [simp]:
  "0 \<le> d \<Longrightarrow> d < 16 \<Longrightarrow> is_hex (hex_char d)"
  "0 \<le> d \<Longrightarrow> d < 16 \<Longrightarrow> hex_val (hex_char d) = d"
  by (auto simp: is_hex_def hex_val_def hex_char_def Let_def)

lemma is_hex_not_sep:
  "is_hex c \<Longrightarrow> c \<noteq> CHR '':'' \<and> c \<noteq> CHR ''.'' \<and> c \<noteq> CHR ''/'' \<and> c \<noteq> CHR ''%''"
  by (auto simp: is_hex_def code_def Let_def)

lemma is_digit_not_sep:
  "is_digit c \<Longrightarrow> c \<noteq> CHR '':'' \<and> c \<noteq> CHR ''.'' \<and> c \<noteq> CHR ''/'' \<and> c \<noteq> CHR ''%''"
  by (auto simp: is_digit_def code_def)

lemma hex_val_bounds: "is_hex c \<Longrightarrow> 0 \<le> hex_val c \<and> hex_val c < 16"
  by (auto simp: is_hex_def hex_val_def Let_def)

lemma string_of_hex_spec:
  "0 \<le> n \<Longrightarrow> list_all is_hex (string_of_hex n) \<and> of_digits 16 (map hex_val (string_of_hex n)) = n"
proof (induction n rule: string_of_hex.induct)
  case (1 n)
  show ?case
  proof (cases "n < 16")
    case True
    with 1 show ?thesis by (subst (1 2) string_of_hex.simps) (simp add: of_digits_def)
  next
    case False
    with 1 show ?thesis by (subst (1 2) string_of_hex.simps) (simp add: of_digits_snoc)
  qed
qed

lemma string_of_hex_ne [simp]: "string_of_hex n \<noteq> []" "[] \<noteq> string_of_hex n"
  by (subst string_of_hex.simps, simp)+

lemma length_string_of_hex: "n < 16 ^ Suc k \<Longrightarrow> length (string_of_hex n) \<le> Suc k"
proof (induction n arbitrary: k rule: string_of_hex.induct)
  case (1 n)
  show ?case
  proof (cases "n < 16")
    case True
    then show ?thesis by (subst string_of_hex.simps) simp
  next
    case False
    with 1(2) obtain j where k: "k = Suc j" by (cases k) auto
    with 1(2) have "n < 16 * 16 ^ Suc j" by simp
    then have "n div 16 < 16 ^ Suc j" by linarith
    from 1(1) [OF False this] False k show ?thesis by (subst string_of_hex.simps) simp
  qed
qed

lemma parse_hextet_show: "0 \<le> d \<Longrightarrow> d < 65536 \<Longrightarrow> parse_hextet (string_of_hex d) = Some d"
  using string_of_hex_spec [of d] length_string_of_hex [of d 3] by (auto simp: parse_hextet_def)

lemma parse_hextet_bounds: "parse_hextet s = Some d \<Longrightarrow> 0 \<le> d \<and> d < 65536"
proof -
  assume "parse_hextet s = Some d"
  then have s: "list_all is_hex s" "length s \<le> 4" "d = of_digits 16 (map hex_val s)"
    by (auto simp: parse_hextet_def split: if_splits)
  then have "0 \<le> d \<and> d < 16 ^ length s"
    using of_digits_bounds [of 16 "map hex_val s"] by (auto simp: in_base_def list_all_iff hex_val_bounds)
  moreover have "(16::int) ^ length s \<le> 16 ^ 4" using s(2) by (intro power_increasing) auto
  ultimately show ?thesis by simp
qed

text \<open>The run found consists of zero groups.\<close>

definition zero_run :: "int list \<Rightarrow> nat \<Rightarrow> nat \<Rightarrow> bool" where
  "zero_run xs s n = (s + n \<le> length xs \<and> (\<forall>j<n. xs ! (s + j) = 0))"

lemma best_run_zero:
  assumes "best_run hs i cs cl bs bl = (s, n)" "xs = ys @ hs" "i = length ys"
    "zero_run xs bs bl" "0 < cl \<Longrightarrow> cs + cl = i \<and> zero_run xs cs cl"
  shows "zero_run xs s n"
  using assms
proof (induction hs i cs cl bs bl arbitrary: ys rule: best_run.induct)
  case (2 h hs i cs cl bs bl)
  show ?case
  proof (cases "h = 0")
    case False
    with 2(3-) show ?thesis by (intro 2(3) [of "ys @ [h]"]) auto
  next
    case True
    define cs' where "cs' = (if cl = 0 then i else cs)"
    have cur: "cs' + Suc cl = Suc i \<and> zero_run xs cs' (Suc cl)"
      using 2(5-8) True by (auto simp: cs'_def zero_run_def less_Suc_eq nth_append)
    show ?thesis
    proof (cases "bl < Suc cl")
      case less: True
      show ?thesis
        using 2(4-) True cur less
        by (intro 2(1) [OF True cs'_def refl less, of "ys @ [h]"]) (auto simp: cs'_def Let_def)
    next
      case nless: False
      show ?thesis
        using 2(4-) True cur nless
        by (intro 2(2) [OF True cs'_def refl nless, of "ys @ [h]"]) (auto simp: cs'_def Let_def)
    qed
  qed
qed auto

lemma zero_run_split:
  "zero_run xs s n \<Longrightarrow> take s xs @ replicate n 0 @ drop (s + n) xs = xs"
proof -
  assume z: "zero_run xs s n"
  then have "take n (drop s xs) = replicate n 0"
    by (intro nth_equalityI) (auto simp: zero_run_def)
  then show ?thesis by (metis append_take_drop_id drop_drop add.commute)
qed

lemma no_empty_enumerate: "[] \<notin> set ps \<Longrightarrow> filter (\<lambda>(i, p). p = []) (enumerate k ps) = []"
  by (induction ps arbitrary: k) auto

lemma middle_empties_gap:
  assumes "A' \<noteq> []" "B' \<noteq> []" "[] \<notin> set (tl A')" "[] \<notin> set (butlast B')"
  shows "middle_empties (A' @ [[]] @ B') = [length A']"
proof -
  have "butlast (tl (A' @ [[]] @ B')) = tl A' @ [[]] @ butlast B'"
    using assms(1,2) by (cases A') (auto simp: butlast_append)
  then show ?thesis
    using assms by (simp add: no_empty_enumerate middle_empties_def enumerate_append_eq)
qed

lemma middle_empties_none: "[] \<notin> set ps \<Longrightarrow> middle_empties ps = []"
proof -
  assume "[] \<notin> set ps"
  then have "[] \<notin> set (butlast (tl ps))" by (metis in_set_butlastD list.set_sel(2) tl_Nil)
  then show ?thesis by (simp add: middle_empties_def no_empty_enumerate)
qed

lemma those_hextets: "in_base 65536 hs \<Longrightarrow> those (map parse_hextet (map string_of_hex hs)) = Some hs"
proof -
  assume "in_base 65536 hs"
  then have "those (map (\<lambda>d. parse_hextet (string_of_hex d)) hs) = Some (map (\<lambda>d. d) hs)"
    by (intro those_map) (auto simp: in_base_def parse_hextet_show)
  then show ?thesis by (simp add: comp_def)
qed

lemma parse_parts_gap:
  assumes hs: "in_base 65536 A" "in_base 65536 B" "length A + length B < 8"
    and A': "A' = (if A = [] then [[]] else map string_of_hex A)"
    and B': "B' = (if B = [] then [[]] else map string_of_hex B)"
  shows "parse_parts (A' @ [[]] @ B') = Some (A @ replicate (8 - (length A + length B)) 0 @ B)"
proof -
  let ?parts = "A' @ [[]] @ B'"
  have ne: "A' \<noteq> []" "B' \<noteq> []" by (auto simp: A' B')
  have "[] \<notin> set (tl A')" "[] \<notin> set (butlast B')"
    by (auto simp: A' B' dest!: in_set_butlastD list.set_sel(2) [rotated] split: if_splits)
  then have mid: "middle_empties ?parts = [length A']" by (rule middle_empties_gap [OF ne])
  have hd: "hd ?parts = [] \<longleftrightarrow> A = []" by (cases A) (auto simp: A')
  have last: "last ?parts = [] \<longleftrightarrow> B = []" by (cases B rule: rev_cases) (auto simp: B')
  have hi: "(if hd ?parts = [] then length A' - 1 else length A') = length A"
    using hd by (simp add: A')
  have lo: "(if last ?parts = [] then length ?parts - length A' - 2 else length ?parts - length A' - 1) = length B"
    using last by (simp add: B')
  have tk: "take (length A) ?parts = map string_of_hex A" by (simp add: A')
  have dr: "drop (length ?parts - length B) ?parts = map string_of_hex B" by (simp add: B')
  have len: "\<not> 9 < length ?parts" using hs(3) by (auto simp: A' B')
  have ok: "\<not> ((hd ?parts = [] \<and> length A \<noteq> 0) \<or> (last ?parts = [] \<and> length B \<noteq> 0) \<or> 8 \<le> length A + length B)"
    using hs(3) unfolding hd last by auto
  show ?thesis
    unfolding parse_parts_def mid list.case Let_def hi lo tk dr those_hextets [OF hs(1)] those_hextets [OF hs(2)]
    using len ok by simp
qed

lemma parse_compress:
  assumes hs: "in_base 65536 hs" "length hs = 8"
  shows "parse_parts (compress_hextets hs) = Some hs"
    and "3 \<le> length (compress_hextets hs)"
    and "\<forall>p\<in>set (compress_hextets hs). list_all is_hex p"
proof -
  obtain s n where run: "best_run hs 0 0 0 0 0 = (s, n)" by fastforce
  have z: "zero_run hs s n"
    by (rule best_run_zero [OF run, of hs "[]"]) (auto simp: zero_run_def)
  have hex: "\<forall>d\<in>set hs. list_all is_hex (string_of_hex d)"
    using hs(1) string_of_hex_spec by (auto simp: in_base_def)
  let ?A = "take s hs" and ?B = "drop (s + n) hs"
  define A' where "A' = (if ?A = [] then [[]] else map string_of_hex ?A)"
  define B' where "B' = (if ?B = [] then [[]] else map string_of_hex ?B)"
  have parts: "compress_hextets hs = (if 1 < n then A' @ [[]] @ B' else map string_of_hex hs)"
    using z hs(2)
    by (auto simp: compress_hextets_def run A'_def B'_def zero_run_def take_map drop_map)
  have base: "in_base 65536 ?A" "in_base 65536 ?B"
    using hs(1) by (auto simp: in_base_def dest: in_set_takeD in_set_dropD)
  have n: "length ?A + length ?B = 8 - n" using z hs(2) by (auto simp: zero_run_def)
  have gap: "parse_parts (A' @ [[]] @ B') = Some hs" if "1 < n"
  proof -
    have lt: "length ?A + length ?B < 8" using n that z hs(2) by (auto simp: zero_run_def)
    have "8 - (length ?A + length ?B) = n" using z hs(2) by (auto simp: zero_run_def)
    then show ?thesis
      using parse_parts_gap [OF base lt A'_def B'_def] zero_run_split [OF z] by simp
  qed
  have ungapped: "parse_parts (map string_of_hex hs) = Some hs"
  proof -
    have nn: "[] \<notin> set (map string_of_hex hs)" by auto
    have "hs \<noteq> []" using hs(2) by auto
    with nn have "hd (map string_of_hex hs) \<noteq> []" "last (map string_of_hex hs) \<noteq> []"
      by (auto simp: hd_map last_map)
    then show ?thesis
      unfolding parse_parts_def middle_empties_none [OF nn] list.case those_hextets [OF hs(1)]
      using hs(2) by simp
  qed
  show "parse_parts (compress_hextets hs) = Some hs"
    using gap ungapped parts by simp
  have "A' \<noteq> []" "B' \<noteq> []" by (auto simp: A'_def B'_def)
  then have "1 \<le> length A'" "1 \<le> length B'" by (simp_all add: Suc_le_eq)
  then show "3 \<le> length (compress_hextets hs)"
    unfolding parts using hs(2) by simp
  show "\<forall>p\<in>set (compress_hextets hs). list_all is_hex p"
    unfolding parts A'_def B'_def using hex by (auto dest!: in_set_takeD in_set_dropD)
qed

subsection \<open>IPv6 addresses\<close>

lemma middle_empties_bound: "k \<in> set (middle_empties ps) \<Longrightarrow> 1 \<le> k \<and> k + 1 < length ps"
  by (auto simp: middle_empties_def in_set_enumerate_eq)

lemma parse_parts_bounds: "parse_parts ps = Some hs \<Longrightarrow> length hs = 8 \<and> in_base 65536 hs"
proof -
  have hx: "those (map parse_hextet ss) = Some ys \<Longrightarrow> length ys = length ss \<and> in_base 65536 ys" for ss ys
    using those_parse [of parse_hextet ss ys] by (auto simp: in_base_def dest: parse_hextet_bounds)
  assume ps: "parse_parts ps = Some hs"
  show ?thesis
  proof (cases "middle_empties ps")
    case Nil
    with ps show ?thesis by (auto simp: parse_parts_def split: if_splits dest!: hx)
  next
    case (Cons k ks)
    then have "1 \<le> k \<and> k + 1 < length ps" by (intro middle_empties_bound) simp
    with ps Cons show ?thesis
      by (auto simp: parse_parts_def Let_def in_base_def split: list.splits if_splits option.splits dest!: hx)
  qed
qed

lemma parse_ipv6_int_bounds: "parse_ipv6_int s = Some n \<Longrightarrow> 0 \<le> n \<and> n < 2 ^ 128"
proof -
  assume "parse_ipv6_int s = Some n"
  then obtain ps hs where "parse_parts ps = Some hs" "n = of_digits 65536 hs"
    by (auto simp: parse_ipv6_int_def Let_def split: if_splits option.splits)
  with parse_parts_bounds [of ps hs] of_digits_bounds [of 65536 hs] show ?thesis by simp
qed

lemma parse_show_hextets:
  assumes n: "0 \<le> n" "n < 2 ^ 128"
  shows "parse_ipv6_int (join '':'' (compress_hextets (to_digits 65536 8 n))) = Some n"
proof -
  let ?hs = "to_digits 65536 8 n" and ?ps = "compress_hextets (to_digits 65536 8 n)"
  have hs: "in_base 65536 ?hs" "length ?hs = 8" by (simp_all add: to_digits_in_base)
  note pc = parse_compress [OF hs]
  from pc(2) have ne: "?ps \<noteq> []" by auto
  from pc(3) have chars: "\<forall>p\<in>set ?ps. CHR '':'' \<notin> set p \<and> CHR ''.'' \<notin> set p"
    by (auto simp: list_all_iff dest!: is_hex_not_sep)
  then have split: "split_on CHR '':'' (join '':'' ?ps) = ?ps" using ne by (intro split_join) auto
  have "CHR ''.'' \<notin> set (last ?ps)" using chars ne by simp
  then have "expand_ipv4_suffix ?ps = Some ?ps" by (simp add: expand_ipv4_suffix_def)
  moreover have "of_digits 65536 ?hs = n" using n by (intro of_to_digits) auto
  ultimately show ?thesis
    using pc(1,2) unfolding parse_ipv6_int_def split Let_def by simp
qed

lemma parse_show_mapped:
  assumes m: "0 \<le> m" "m < 2 ^ 32"
  shows "parse_ipv6_int (''::ffff:'' @ show_ipv4 m) = Some (65535 * 2 ^ 32 + m)"
proof -
  have "CHR '':'' \<notin> set (show_ipv4 m)"
    using parse_ipv4_chars [OF parse_show_ipv4 [OF m]] by (fastforce simp: is_digit_def code_def)
  then have split: "split_on CHR '':'' (''::ffff:'' @ show_ipv4 m) = [[], [], ''ffff'', show_ipv4 m]"
    by (simp add: split_on_nosep)
  have "CHR ''.'' \<in> set (show_ipv4 m)"
    by (rule ccontr) (use split_on_nosep [of "CHR ''.''" "show_ipv4 m"] split_show_ipv4 [of m] in
        \<open>auto simp: eval_nat_numeral\<close>)
  then have expand: "expand_ipv4_suffix [[], [], ''ffff'', show_ipv4 m]
      = Some [[], [], ''ffff'', string_of_hex (m div 65536), string_of_hex (m mod 65536)]"
    by (simp add: expand_ipv4_suffix_def parse_show_ipv4 [OF m])
  have h: "parse_hextet (string_of_hex (m div 65536)) = Some (m div 65536)"
    "parse_hextet (string_of_hex (m mod 65536)) = Some (m mod 65536)"
    using m by (auto intro!: parse_hextet_show simp: pos_imp_zdiv_nonneg_iff)
  have f: "parse_hextet ''ffff'' = Some 65535" by code_simp
  have "parse_parts [[], [], ''ffff'', string_of_hex (m div 65536), string_of_hex (m mod 65536)]
      = Some (replicate 5 0 @ [65535, m div 65536, m mod 65536])"
    by (simp add: parse_parts_def middle_empties_def h f)
  then show ?thesis
    unfolding parse_ipv6_int_def split Let_def expand by (simp add: of_digits_def eval_nat_numeral)
qed

lemma show_ipv6_chars: "0 \<le> n \<Longrightarrow> c \<in> set (show_ipv6 n) \<Longrightarrow> is_hex c \<or> c = CHR '':'' \<or> c = CHR ''.''"
proof -
  assume n: "0 \<le> n" and c: "c \<in> set (show_ipv6 n)"
  have hs: "in_base 65536 (to_digits 65536 8 n)" "length (to_digits 65536 8 n) = 8"
    by (simp_all add: to_digits_in_base)
  have v4: "\<forall>c\<in>set (show_ipv4 (n mod 2 ^ 32)). is_hex c \<or> c = CHR ''.''"
    using parse_ipv4_chars [OF parse_show_ipv4, of "n mod 2 ^ 32"] by (auto simp: is_hex_def is_digit_def Let_def)
  have ff: "is_hex CHR ''f''" by code_simp
  have "\<forall>c\<in>set (join '':'' (compress_hextets (to_digits 65536 8 n))). is_hex c \<or> c = CHR '':''"
    using set_join [of "'':''" "compress_hextets (to_digits 65536 8 n)"] parse_compress(3) [OF hs]
    by (fastforce simp: list_all_iff)
  moreover have "\<forall>c\<in>set ''::ffff:''. is_hex c \<or> c = CHR '':''" using ff by simp
  moreover have "c \<in> set ''::ffff:'' \<union> set (show_ipv4 (n mod 2 ^ 32))
      \<union> set (join '':'' (compress_hextets (to_digits 65536 8 n)))"
    using c unfolding show_ipv6_def set_append [symmetric] by (rule rev_subsetD) auto
  ultimately show ?thesis using v4 by blast
qed

lemma show_ipv6_colon: "CHR '':'' \<in> set (show_ipv6 n)"
proof (cases "n div 2 ^ 32 = 65535")
  case False
  have hs: "in_base 65536 (to_digits 65536 8 n)" "length (to_digits 65536 8 n) = 8"
    by (simp_all add: to_digits_in_base)
  have two: "3 \<le> length ps \<Longrightarrow> \<exists>a b qs. ps = a # b # qs" for ps :: "string list"
    by (cases ps; cases "tl ps") auto
  from two [OF parse_compress(2) [OF hs]] obtain a b ps
    where "compress_hextets (to_digits 65536 8 n) = a # b # ps" by blast
  with False show ?thesis by (simp add: show_ipv6_def)
qed (simp add: show_ipv6_def)

lemma parse_show_ipv6_int: "0 \<le> n \<Longrightarrow> n < 2 ^ 128 \<Longrightarrow> parse_ipv6_int (show_ipv6 n) = Some n"
proof -
  assume n: "0 \<le> n" "n < 2 ^ 128"
  show ?thesis
  proof (cases "n div 2 ^ 32 = 65535")
    case True
    have "n = (n div 2 ^ 32) * 2 ^ 32 + n mod 2 ^ 32" by (simp only: div_mult_mod_eq)
    with True parse_show_mapped [of "n mod 2 ^ 32"] show ?thesis by (simp add: show_ipv6_def)
  next
    case False
    with parse_show_hextets [OF n] show ?thesis by (simp add: show_ipv6_def)
  qed
qed

section \<open>Addresses and networks: the laws used by the normalisers\<close>

lemma parse_ipv4_colon: "CHR '':'' \<in> set s \<Longrightarrow> parse_ipv4 s = None"
  using parse_ipv4_chars [of s _ "CHR '':''"] by (cases "parse_ipv4 s") (auto simp: is_digit_def code_def)

lemma parse_show_ip: "wf_ip a \<Longrightarrow> parse_ip (show_ip a) = Some a"
proof (induction a rule: show_ip.induct)
  case (1 n)
  then show ?case by (simp add: parse_ip_def parse_show_ipv4)
next
  case (2 n)
  then have "CHR ''/'' \<notin> set (show_ipv6 n)" "CHR ''%'' \<notin> set (show_ipv6 n)"
    using show_ipv6_chars [of n] by (fastforce dest: is_hex_not_sep)+
  with 2 show ?case
    by (simp add: parse_ip_def parse_ipv4_colon show_ipv6_colon parse_ipv6_def split_on_nosep parse_show_ipv6_int)
next
  case (3 n scope)
  then have "CHR ''/'' \<notin> set (show_ipv6 n)" "CHR ''%'' \<notin> set (show_ipv6 n)"
    using show_ipv6_chars [of n] by (fastforce dest: is_hex_not_sep)+
  with 3 show ?case
    by (simp add: parse_ip_def parse_ipv4_colon show_ipv6_colon parse_ipv6_def split_on_nosep
        split_on_append parse_show_ipv6_int)
qed

lemma parse_ipv6_wf: "parse_ipv6 s = Some a \<Longrightarrow> wf_ip a"
proof -
  assume a: "parse_ipv6 s = Some a"
  have "\<forall>p\<in>set (split_on CHR ''%'' s). CHR ''%'' \<notin> set p \<and> set p \<subseteq> set s"
    using split_on_parts by blast
  with a show ?thesis
    by (auto simp: parse_ipv6_def split: if_splits list.splits dest!: parse_ipv6_int_bounds)
qed

lemma parse_ip_wf: "parse_ip s = Some a \<Longrightarrow> wf_ip a"
  by (auto simp: parse_ip_def split: option.splits dest: parse_ipv6_wf dest!: parse_ipv4_bounds)

fun width :: "ip \<Rightarrow> nat" where
  "width (IPv4 _) = 32"
| "width (IPv6 _ _) = 128"

fun ip_int :: "ip \<Rightarrow> int" where
  "ip_int (IPv4 n) = n"
| "ip_int (IPv6 n _) = n"

definition wf_net :: "ip \<times> nat \<Rightarrow> bool" where
  "wf_net net = (wf_ip (fst net) \<and> snd net \<le> width (fst net)
     \<and> mask_host (width (fst net)) (snd net) (ip_int (fst net)) = ip_int (fst net))"

lemma mask_host_bounds: "0 \<le> n \<Longrightarrow> 0 \<le> mask_host w p n \<and> mask_host w p n \<le> n"
proof -
  assume "0 \<le> n"
  moreover have "n div 2 ^ (w - p) * 2 ^ (w - p) = n - n mod 2 ^ (w - p)" by (simp add: minus_mod_eq_div_mult)
  ultimately show ?thesis by (simp add: mask_host_def zmod_le_nonneg_dividend)
qed

lemma mask_host_idem [simp]: "mask_host w p (mask_host w p n) = mask_host w p n"
  by (simp add: mask_host_def)

lemma parse_prefix_len_show: "p \<le> w \<Longrightarrow> parse_prefix_len w (show_nonneg (int p)) = Some p"
  by (simp add: parse_prefix_len_def)

lemma parse_prefix_len_bound: "parse_prefix_len w s = Some p \<Longrightarrow> p \<le> w"
  by (auto simp: parse_prefix_len_def split: if_splits)

lemma prefix_of_mask_bound: "prefix_of_mask v = Some p \<Longrightarrow> p \<le> 32"
  by (auto simp: prefix_of_mask_def find_Some_iff)

lemma parse_ipv4_mask_bound: "parse_ipv4_mask s = Some p \<Longrightarrow> p \<le> 32"
  by (auto simp: parse_ipv4_mask_def split: option.splits dest: parse_prefix_len_bound prefix_of_mask_bound)

lemma show_ip_no_slash: "wf_ip a \<Longrightarrow> CHR ''/'' \<notin> set (show_ip a)"
proof (induction a rule: show_ip.induct)
  case (1 n)
  then show ?case using parse_ipv4_chars [OF parse_show_ipv4, of n] by (fastforce simp: is_digit_def code_def)
next
  case (2 n)
  then show ?case using show_ipv6_chars [of n] by (fastforce dest: is_hex_not_sep)
next
  case (3 n scope)
  then show ?case using show_ipv6_chars [of n] by (fastforce dest: is_hex_not_sep)
qed

lemma parse_show_net: "wf_net net \<Longrightarrow> parse_net (show_net net) = Some net"
proof -
  assume wf: "wf_net net"
  obtain a p where net: "net = (a, p)" by fastforce
  from wf net have a: "wf_ip a" "p \<le> width a" "mask_host (width a) p (ip_int a) = ip_int a"
    by (auto simp: wf_net_def)
  have "CHR ''/'' \<notin> set (show_nonneg (int p))"
    using show_nonneg_digits [of "int p"] by (auto simp: list_all_iff dest!: bspec is_digit_not_sep)
  then have split: "split_on CHR ''/'' (show_net net) = [show_ip a, show_nonneg (int p)]"
    by (simp add: net show_net_def split_on_append split_on_nosep show_ip_no_slash a(1))
  note parse = parse_show_ip [OF a(1)]
  show ?thesis
  proof (cases a)
    case (IPv4 n)
    with a(1) have "parse_ipv4 (show_ip a) = Some n" by (simp add: parse_show_ipv4)
    with a IPv4 show ?thesis
      unfolding parse_net_def split unfolding net
      by (simp add: parse_ipv4_net_def parse_ipv4_mask_def parse_prefix_len_show)
  next
    case (IPv6 n sc)
    then have "CHR '':'' \<in> set (show_ip a)" by (cases sc) (simp_all add: show_ipv6_colon)
    then have "parse_ipv4 (show_ip a) = None" by (rule parse_ipv4_colon)
    with parse have "parse_ipv6 (show_ip a) = Some a" by (simp add: parse_ip_def)
    with \<open>parse_ipv4 (show_ip a) = None\<close> a IPv6 show ?thesis
      unfolding parse_net_def split unfolding net
      by (simp add: parse_ipv4_net_def parse_ipv6_net_def parse_prefix_len_show)
  qed
qed

lemma parse_net_wf: "parse_net s = Some net \<Longrightarrow> wf_net net"
proof -
  assume "parse_net s = Some net"
  then consider "parse_ipv4_net (split_on CHR ''/'' s) = Some net" | "parse_ipv6_net (split_on CHR ''/'' s) = Some net"
    by (auto simp: parse_net_def Let_def split: if_splits option.splits)
  then show ?thesis
  proof cases
    case 1
    then obtain n p where n: "parse_ipv4 (hd (split_on CHR ''/'' s)) = Some n" "p \<le> 32" "net = (IPv4 (mask_host 32 p n), p)"
      by (auto simp: parse_ipv4_net_def split: option.splits if_splits dest: parse_ipv4_mask_bound)
    with parse_ipv4_bounds [OF n(1)] mask_host_bounds [of n 32 p] show ?thesis by (simp add: wf_net_def)
  next
    case 2
    then obtain n sc p where n: "parse_ipv6 (hd (split_on CHR ''/'' s)) = Some (IPv6 n sc)" "p \<le> 128"
      "net = (IPv6 (mask_host 128 p n) (if mask_host 128 p n = n then sc else None), p)"
      by (auto simp: parse_ipv6_net_def split: option.splits ip.splits if_splits dest: parse_prefix_len_bound)
    with parse_ipv6_wf [OF n(1)] mask_host_bounds [of n 128 p] show ?thesis by (simp add: wf_net_def)
  qed
qed

end
