(* ===== verification/Hostnames.thy ===== *)
theory Hostnames
  imports Prelude Idna_Codec Ip_Address "HOL-Library.Sublist"
begin

text \<open>
  Names and values: \<open>hostnames.py\<close>, \<open>result_values.py\<close>, \<open>target_identity.py\<close>,
  \<open>resolver_selection.py\<close> and the constants of \<open>evidence_types.py\<close>. Every normaliser is
  interpreted as a \<^const>\<open>normaliser\<close>: its results are the fixed points the stores compare with.
\<close>

section \<open>Hostnames (hostnames.py)\<close>

definition label_invalid :: "string \<Rightarrow> bool" where
  "label_invalid label =
     (label = [] \<or> 63 < length label \<or> starts_with ''-'' label \<or> ends_with ''-'' label
      \<or> \<not> list_all (\<lambda>c. is_alnum c \<or> c = CHR ''-'') label)"

definition normalize_hostname :: "string \<Rightarrow> string res" where
  "normalize_hostname v =
     (let hostname = lower (rstrip_dots (strip v))
      in if hostname = [] then Inl (ValueError ''hostname must not be empty'')
         else (case idna_encode hostname of
                 None \<Rightarrow> Inl (ValueError ''hostname must be valid'')
               | Some encoded \<Rightarrow>
                   (if parse_ip encoded \<noteq> None then Inl (ValueError ''hostname must not be an IP address'')
                    else if 253 < length encoded \<or> list_ex label_invalid (split_on CHR ''.'' encoded)
                    then Inl (ValueError ''hostname must be valid'')
                    else Inr encoded)))"

definition normalize_scoped_hostname :: "json \<Rightarrow> string \<Rightarrow> string option" where
  "normalize_scoped_hostname v target =
     (case v of
        JStr s \<Rightarrow>
          (case (normalize_hostname s, normalize_hostname target) of
             (Inr hostname, Inr normalized_target) \<Rightarrow>
               (if hostname = normalized_target \<or> ends_with (''.'' @ normalized_target) hostname
                then Some hostname else None)
           | _ \<Rightarrow> None)
      | _ \<Rightarrow> None)"

section \<open>Result values (result_values.py, evidence_types.py)\<close>

definition MAX_ASN :: int where
  "MAX_ASN = 4294967295"

definition normalize_asn_text :: "string \<Rightarrow> string res" where
  "normalize_asn_text v =
     (let stripped = strip v; text = (if lower (take 2 stripped) = ''as'' then drop 2 stripped else stripped)
      in if \<not> ascii_decimal text then Inl (ValueError ''ASN must be an integer or AS-prefixed integer'')
         else if \<not> (0 \<le> int_of_string text \<and> int_of_string text \<le> MAX_ASN)
         then Inl (ValueError (''ASN must be between 0 and '' @ show_int MAX_ASN))
         else Inr (''AS'' @ show_int (int_of_string text)))"

definition normalize_asn :: "json \<Rightarrow> string res" where
  "normalize_asn v =
     (case v of
        JStr s \<Rightarrow> normalize_asn_text s
      | JInt i \<Rightarrow> normalize_asn_text (show_int i)
      | _ \<Rightarrow> Inl (ValueError ''ASN must be an integer or AS-prefixed integer''))"

definition normalize_prefix :: "json \<Rightarrow> string res" where
  "normalize_prefix v =
     (case v of
        JStr s \<Rightarrow>
          (if strip s = [] then Inl (ValueError ''network prefix must be a non-empty string'')
           else if CHR ''%'' \<in> set s
           then Inl (ValueError ''network prefix must not contain an IPv6 scope identifier'')
           else (case parse_net (strip s) of
                   Some net \<Rightarrow> Inr (show_net net)
                 | None \<Rightarrow> Inl (ValueError ''network prefix must be valid IPv4 or IPv6 CIDR'')))
      | _ \<Rightarrow> Inl (ValueError ''network prefix must be a non-empty string''))"

definition normalize_ip :: "string \<Rightarrow> string \<Rightarrow> string res" where
  "normalize_ip label v =
     (let normalized = strip v
      in if CHR ''%'' \<in> set normalized
         then Inl (ValueError (label @ '' must not contain an IPv6 scope identifier''))
         else (case parse_ip normalized of
                 Some a \<Rightarrow> Inr (show_ip a)
               | None \<Rightarrow> Inl (ValueError (label @ '' must be a valid IPv4 or IPv6 address''))))"

definition RESULT_KINDS :: "string list" where
  "RESULT_KINDS =
     [''analytics'', ''asn'', ''breach'', ''cms'', ''dns-recursive-classification'', ''dns-recursive-finding'',
      ''dns-recursive-summary'', ''email'', ''framework'', ''hostname'', ''infostealer'', ''ip'', ''language'',
      ''linkedin-person'', ''person'', ''prefix'', ''server'', ''screenshot'', ''shodan-host'', ''takeover'',
      ''twitter-person'', ''url'']"

definition EXECUTION_STATUSES :: "string list" where
  "EXECUTION_STATUSES = [''completed'', ''partial'', ''failed'', ''rate-limited'', ''skipped'']"

definition EVIDENCE_STATUSES :: "string list" where
  "EVIDENCE_STATUSES = [''complete'', ''partial'', ''failed'']"

definition normalize_result_value :: "string \<Rightarrow> string \<Rightarrow> string res" where
  "normalize_result_value kind v =
     (let normalized = strip v
      in if kind = ''asn'' then normalize_asn (JStr normalized)
         else if kind = ''hostname'' then normalize_hostname normalized
         else if kind = ''ip'' then normalize_ip ''IP result'' normalized
         else if kind = ''prefix'' then normalize_prefix (JStr normalized)
         else if kind = ''shodan-host'' then normalize_ip ''Shodan host'' normalized
         else if kind = ''takeover'' then normalize_hostname normalized
         else Inr normalized)"

section \<open>Targets (target_identity.py) and resolvers (resolver_selection.py)\<close>

definition is_asn_target :: "string \<Rightarrow> bool" where
  "is_asn_target target = (lower (take 2 target) = ''as'' \<and> ascii_decimal (drop 2 target))"

definition normalize_enumeration_target :: "string \<Rightarrow> string res" where
  "normalize_enumeration_target v =
     (let target = rstrip_dots (strip v)
      in if is_asn_target target then normalize_asn (JStr target)
         else let target = lower target
              in if target = [] \<or> 253 < length target \<or> list_ex (\<lambda>c. c \<in> set target) ''/?#@''
                 then Inl (ValueError ''Target must be a hostname or IP address'')
                 else (case parse_ip target of
                         Some a \<Rightarrow> Inr (show_ip a)
                       | None \<Rightarrow> recoverR (normalize_hostname target)
                                   (Inl (ValueError ''Target must be a valid hostname''))))"

definition saved_prefix :: "string \<Rightarrow> string option" where
  "saved_prefix target =
     (if CHR ''/'' \<in> set target
      then (case normalize_prefix (JStr target) of Inr p \<Rightarrow> Some p | Inl _ \<Rightarrow> None) else None)"

definition normalize_saved_target :: "string \<Rightarrow> string res" where
  "normalize_saved_target v =
     (let target = strip v
      in if is_asn_target target then normalize_asn (JStr target)
         else (case saved_prefix target of
                 Some p \<Rightarrow> Inr p
               | None \<Rightarrow>
                   (case normalize_ip ''target'' target of
                      Inr a \<Rightarrow> Inr a
                    | Inl _ \<Rightarrow>
                        (case normalize_hostname target of
                           Inl _ \<Rightarrow> Inr target
                         | Inr hostname \<Rightarrow> Inr (if CHR ''.'' \<in> set hostname then hostname else target)))))"

fun resolver_addresses :: "string list \<Rightarrow> string list \<Rightarrow> string list res" where
  "resolver_addresses addresses [] =
     (if addresses = [] then Inl (ValueError ''Provide at least one DNS resolver IP address'') else Inr addresses)"
| "resolver_addresses addresses (raw_value # values) =
     (let v = strip raw_value
      in if v = [] then resolver_addresses addresses values
         else (case parse_ip v of
                 None \<Rightarrow> Inl (ValueError (''Invalid DNS resolver address: '' @ v))
               | Some a \<Rightarrow>
                   (if show_ip a \<in> set addresses then resolver_addresses addresses values
                    else resolver_addresses (addresses @ [show_ip a]) values)))"

definition normalize_resolver_addresses :: "string list \<Rightarrow> string list res" where
  "normalize_resolver_addresses values = resolver_addresses [] values"

section \<open>Normal forms\<close>

definition valid_hostname :: "string \<Rightarrow> bool" where
  "valid_hostname h =
     (h \<noteq> [] \<and> length h \<le> 253 \<and> lower h = h \<and> parse_ip h = None
      \<and> list_all (\<lambda>l. \<not> label_invalid l) (split_on CHR ''.'' h))"

lemma label_valid_chars: "\<not> label_invalid l \<Longrightarrow> c \<in> set l \<Longrightarrow> is_alnum c \<or> c = CHR ''-''"
  by (auto simp: label_invalid_def list_all_iff)

lemma label_valid_size: "\<not> label_invalid l \<Longrightarrow> l \<noteq> [] \<and> length l < 64"
  by (simp add: label_invalid_def)

lemma valid_hostname_chars: "valid_hostname h \<Longrightarrow> c \<in> set h \<Longrightarrow> is_alnum c \<or> c = CHR ''-'' \<or> c = CHR ''.''"
proof -
  assume h: "valid_hostname h" and c: "c \<in> set h"
  have "set h \<subseteq> {CHR ''.''} \<union> (\<Union>l\<in>set (split_on CHR ''.'' h). set l)"
    using set_join [of "''.''" "split_on CHR ''.'' h"] by simp
  with h c show ?thesis by (auto simp: valid_hostname_def list_all_iff dest: label_valid_chars)
qed

lemma valid_hostname_no_ws: "valid_hostname h \<Longrightarrow> c \<in> set h \<Longrightarrow> \<not> is_ws c \<and> is_ascii c"
  using valid_hostname_chars [of h c] is_alnum_not_ws is_alnum_ascii by auto

lemma valid_hostname_strip [simp]: "valid_hostname h \<Longrightarrow> strip h = h"
  by (intro strip_no_ws) (auto dest: valid_hostname_no_ws)

lemma valid_hostname_dots [simp]: "valid_hostname h \<Longrightarrow> rstrip_dots h = h"
proof (rule rstrip_dots_id, rule disjI2, rule notI)
  assume h: "valid_hostname h" and dot: "last h = CHR ''.''"
  from h have "h \<noteq> []" by (simp add: valid_hostname_def)
  with dot have "h = butlast h @ CHR ''.'' # []" by (metis append_butlast_last_id)
  then have "split_on CHR ''.'' h = split_on CHR ''.'' (butlast h) @ [[]]"
    by (metis split_on.simps(1) split_on_app)
  with h show False by (simp add: valid_hostname_def label_invalid_def)
qed

lemma valid_hostname_no_mark:
  "valid_hostname h \<Longrightarrow> CHR ''%'' \<notin> set h \<and> CHR ''/'' \<notin> set h"
  using valid_hostname_chars [of h "CHR ''%''"] valid_hostname_chars [of h "CHR ''/''"]
  by (auto simp: is_alnum_def code_def)

lemma valid_hostname_normalize: "valid_hostname h \<Longrightarrow> normalize_hostname h = Inr h"
proof -
  assume h: "valid_hostname h"
  have "\<forall>l\<in>set (split_on CHR ''.'' h). l \<noteq> [] \<and> length l < 64"
    using h label_valid_size unfolding valid_hostname_def list_all_iff by blast
  then have "idna_encode h = Some h" using valid_hostname_no_ws [OF h] by (intro idna_encode_id) auto
  with h show ?thesis
    by (simp add: normalize_hostname_def Let_def valid_hostname_def list_all_iff list_ex_iff
        valid_hostname_strip [OF h] valid_hostname_dots [OF h])
qed

lemma normalize_hostname_valid: "normalize_hostname v = Inr h \<Longrightarrow> valid_hostname h"
proof -
  assume v: "normalize_hostname v = Inr h"
  then obtain encoded where e: "idna_encode (lower (rstrip_dots (strip v))) = Some encoded" "encoded = h"
    by (auto simp: normalize_hostname_def Let_def split: if_splits option.splits)
  then have "lower h = h" using idna_encode_chars [OF e(1)] by (auto simp: lower_id_iff)
  moreover have "h \<noteq> []"
    using v by (auto simp: normalize_hostname_def Let_def label_invalid_def split: if_splits option.splits)
  ultimately show ?thesis
    using v by (auto simp: normalize_hostname_def Let_def valid_hostname_def list_all_iff list_ex_iff
        split: if_splits option.splits)
qed

lemma valid_hostname_iff: "valid_hostname h \<longleftrightarrow> normalize_hostname h = Inr h"
  using valid_hostname_normalize normalize_hostname_valid by blast

text \<open>A label of a normal form: lower-case letters, digits (by their codes) and inner hyphens.\<close>

definition host_char :: "char \<Rightarrow> bool" where
  "host_char c = (let n = code c in (97 \<le> n \<and> n \<le> 122) \<or> (48 \<le> n \<and> n \<le> 57) \<or> c = CHR ''-'')"

definition host_label :: "string \<Rightarrow> bool" where
  "host_label l = (l \<noteq> [] \<and> length l \<le> 63 \<and> list_all host_char l \<and> hd l \<noteq> CHR ''-'' \<and> last l \<noteq> CHR ''-'')"

lemma host_char_iff: "host_char c \<longleftrightarrow> (is_alnum c \<or> c = CHR ''-'') \<and> \<not> is_upper c"
proof -
  have "\<not> is_upper CHR ''-''" by simp
  then show ?thesis by (auto simp: host_char_def is_alnum_def is_upper_def Let_def)
qed

lemma hyphen_ends:
  assumes "l \<noteq> []"
  shows "starts_with ''-'' l = (hd l = CHR ''-'')" "ends_with ''-'' l = (last l = CHR ''-'')"
proof -
  show "starts_with ''-'' l = (hd l = CHR ''-'')" using assms by (cases l) (auto simp: starts_with_def)
  show "ends_with ''-'' l = (last l = CHR ''-'')"
    using assms by (metis append_butlast_last_id ends_with_iff last_snoc)
qed

lemma host_label_iff: "host_label l \<longleftrightarrow> \<not> label_invalid l \<and> lower l = l"
proof (cases "l = []")
  case False
  note ends = hyphen_ends [OF this]
  have "list_all host_char l = (list_all (\<lambda>c. is_alnum c \<or> c = CHR ''-'') l \<and> lower l = l)"
    unfolding list_all_iff lower_id_iff host_char_iff by blast
  with False ends show ?thesis unfolding host_label_def label_invalid_def by auto
qed (simp add: host_label_def label_invalid_def)

lemma lower_join: "lower s = s \<longleftrightarrow> list_all (\<lambda>l. lower l = l) (split_on c s)" if "\<not> is_upper c"
proof
  show "lower s = s \<Longrightarrow> list_all (\<lambda>l. lower l = l) (split_on c s)" by (auto simp: list_all_iff intro: lower_parts)
  assume "list_all (\<lambda>l. lower l = l) (split_on c s)"
  moreover have "set s \<subseteq> {c} \<union> (\<Union>l\<in>set (split_on c s). set l)"
    using set_join [of "[c]" "split_on c s"] by simp
  ultimately show "lower s = s" using that by (auto simp: lower_id_iff list_all_iff)
qed

lemma valid_hostname_spec:
  "valid_hostname h \<longleftrightarrow> h \<noteq> [] \<and> length h \<le> 253 \<and> parse_ip h = None \<and> list_all host_label (split_on CHR ''.'' h)"
  using lower_join [of "CHR ''.''" h]
  by (auto simp: valid_hostname_def host_label_iff list_all_iff)

interpretation hostname_norm: normaliser normalize_hostname
  by unfold_locales (rule valid_hostname_normalize [OF normalize_hostname_valid])

lemma normalize_hostname_err: "normalize_hostname v = Inl e \<Longrightarrow> \<exists>msg. e = ValueError msg"
  by (auto simp: normalize_hostname_def Let_def split: if_splits option.splits)

subsection \<open>ASNs\<close>

definition asn_text :: "int \<Rightarrow> string" where
  "asn_text n = ''AS'' @ show_nonneg n"

lemma ascii_decimal_no_ws: "ascii_decimal s \<Longrightarrow> c \<in> set s \<Longrightarrow> \<not> is_ws c"
  by (auto simp: ascii_decimal_def list_all_iff is_digit_not_ws)

lemma normalize_asn_text_AS:
  "0 \<le> n \<Longrightarrow> n \<le> MAX_ASN \<Longrightarrow> normalize_asn_text (asn_text n) = Inr (asn_text n)"
proof -
  assume n: "0 \<le> n" "n \<le> MAX_ASN"
  have "\<not> is_ws CHR ''A''" "\<not> is_ws CHR ''S''" by (simp_all add: is_ws_def code_def)
  then have "strip (asn_text n) = asn_text n"
    using ascii_decimal_no_ws [OF ascii_decimal_show [OF n(1)]] by (intro strip_no_ws) (auto simp: asn_text_def)
  moreover have "lower ''AS'' = ''as''" by code_simp
  ultimately show ?thesis using n by (simp add: normalize_asn_text_def show_int_def asn_text_def)
qed

lemma normalize_asn_text_result:
  "normalize_asn_text v = Inr t \<Longrightarrow> \<exists>n. 0 \<le> n \<and> n \<le> MAX_ASN \<and> t = asn_text n"
  by (auto simp: normalize_asn_text_def Let_def show_int_def asn_text_def split: if_splits)

lemma normalize_asn_result: "normalize_asn v = Inr t \<Longrightarrow> \<exists>n. 0 \<le> n \<and> n \<le> MAX_ASN \<and> t = asn_text n"
  by (auto simp: normalize_asn_def split: json.splits dest: normalize_asn_text_result)

interpretation asn_norm: normaliser normalize_asn_text
  by unfold_locales (auto dest!: normalize_asn_text_result simp: normalize_asn_text_AS)

lemma normalize_asn_AS:
  "0 \<le> n \<Longrightarrow> n \<le> MAX_ASN \<Longrightarrow> normalize_asn (JStr (asn_text n)) = Inr (asn_text n)"
  by (simp add: normalize_asn_def normalize_asn_text_AS)

subsection \<open>Addresses and prefixes\<close>

lemma show_ip_chars:
  "wf_ip a \<Longrightarrow> CHR ''%'' \<notin> set (show_ip a) \<Longrightarrow> c \<in> set (show_ip a) \<Longrightarrow> is_hex c \<or> c = CHR '':'' \<or> c = CHR ''.''"
proof (induction a rule: show_ip.induct)
  case (1 n)
  then show ?case
    using parse_ipv4_chars [OF parse_show_ipv4, of n c] by (auto simp: is_hex_def is_digit_def Let_def)
next
  case (2 n)
  then show ?case using show_ipv6_chars [of n c] by auto
qed auto

lemma is_hex_not_ws: "is_hex c \<Longrightarrow> \<not> is_ws c"
  by (auto simp: is_hex_def is_ws_def Let_def)

lemma show_ip_strip [simp]: "wf_ip a \<Longrightarrow> CHR ''%'' \<notin> set (show_ip a) \<Longrightarrow> strip (show_ip a) = show_ip a"
proof -
  assume "wf_ip a" "CHR ''%'' \<notin> set (show_ip a)"
  then have "\<forall>c\<in>set (show_ip a). is_hex c \<or> c = CHR '':'' \<or> c = CHR ''.''" using show_ip_chars by blast
  moreover have "\<not> is_ws CHR '':''" "\<not> is_ws CHR ''.''" by (simp_all add: is_ws_def code_def)
  ultimately show ?thesis using is_hex_not_ws by (intro strip_no_ws) metis
qed

lemma parse_ip_no_scope: "parse_ip s = Some a \<Longrightarrow> CHR ''%'' \<notin> set s \<Longrightarrow> CHR ''%'' \<notin> set (show_ip a)"
proof -
  assume a: "parse_ip s = Some a" and s: "CHR ''%'' \<notin> set s"
  then have "split_on CHR ''%'' s = [s]" by (intro split_on_nosep)
  with a have "(\<exists>n. a = IPv4 n) \<or> (\<exists>n. a = IPv6 n None)"
    by (auto simp: parse_ip_def parse_ipv6_def split: option.splits if_splits)
  moreover from a have "wf_ip a" by (rule parse_ip_wf)
  ultimately show ?thesis
  proof (elim disjE exE)
    fix n assume "a = IPv4 n" "wf_ip a"
    then show ?thesis
      using parse_ipv4_chars [OF parse_show_ipv4, of n "CHR ''%''"] by (auto dest: is_digit_not_sep)
  next
    fix n assume "a = IPv6 n None" "wf_ip a"
    then show ?thesis using show_ipv6_chars [of n "CHR ''%''"] by (auto dest: is_hex_not_sep)
  qed
qed

lemma normalize_ip_result:
  "normalize_ip label v = Inr t \<Longrightarrow> \<exists>a. wf_ip a \<and> t = show_ip a \<and> CHR ''%'' \<notin> set t"
  by (auto simp: normalize_ip_def Let_def split: if_splits option.splits dest: parse_ip_wf parse_ip_no_scope)

lemma normalize_ip_show: "wf_ip a \<Longrightarrow> CHR ''%'' \<notin> set (show_ip a) \<Longrightarrow> normalize_ip label (show_ip a) = Inr (show_ip a)"
  by (simp add: normalize_ip_def parse_show_ip)

interpretation ip_norm: normaliser "normalize_ip label"
  by unfold_locales (auto dest!: normalize_ip_result simp: normalize_ip_show)

lemma show_net_no_ws:
  "wf_net net \<Longrightarrow> CHR ''%'' \<notin> set (show_net net) \<Longrightarrow> strip (show_net net) = show_net net \<and> show_net net \<noteq> []"
proof -
  assume net: "wf_net net" "CHR ''%'' \<notin> set (show_net net)"
  then have ip: "\<forall>c\<in>set (show_ip (fst net)). is_hex c \<or> c = CHR '':'' \<or> c = CHR ''.''"
    using show_ip_chars [of "fst net"] by (auto simp: wf_net_def show_net_def)
  have "\<forall>c\<in>set (show_nonneg (int (snd net))). \<not> is_ws c"
    using ascii_decimal_no_ws [OF ascii_decimal_show, of "int (snd net)"] by auto
  moreover have "\<not> is_ws CHR '':''" "\<not> is_ws CHR ''.''" "\<not> is_ws CHR ''/''" by (simp_all add: is_ws_def code_def)
  ultimately have "\<forall>c\<in>set (show_net net). \<not> is_ws c"
    using ip is_hex_not_ws unfolding show_net_def by auto
  then show ?thesis by (simp add: strip_no_ws) (simp add: show_net_def)
qed

lemma parse_net_no_scope: "parse_net s = Some net \<Longrightarrow> CHR ''%'' \<notin> set s \<Longrightarrow> CHR ''%'' \<notin> set (show_net net)"
proof -
  assume net: "parse_net s = Some net" and s: "CHR ''%'' \<notin> set s"
  let ?h = "hd (split_on CHR ''/'' s)"
  have "CHR ''%'' \<notin> set ?h" using s split_on_parts [of ?h "CHR ''/''" s] by auto
  then have "split_on CHR ''%'' ?h = [?h]" by (intro split_on_nosep)
  with net have "(\<exists>n p. net = (IPv4 n, p)) \<or> (\<exists>n p. net = (IPv6 n None, p))"
    by (auto simp: parse_net_def Let_def parse_ipv4_net_def parse_ipv6_net_def parse_ipv6_def
        split: option.splits if_splits ip.splits)
  moreover from net have wf: "wf_ip (fst net)" using parse_net_wf by (auto simp: wf_net_def)
  ultimately have "CHR ''%'' \<notin> set (show_ip (fst net))"
  proof (elim disjE exE)
    fix n p assume "net = (IPv4 n, p)"
    with wf show ?thesis
      using parse_ipv4_chars [OF parse_show_ipv4, of n "CHR ''%''"] by (auto dest: is_digit_not_sep)
  next
    fix n p assume "net = (IPv6 n None, p)"
    with wf show ?thesis using show_ipv6_chars [of n "CHR ''%''"] by (auto dest: is_hex_not_sep)
  qed
  moreover have "CHR ''%'' \<notin> set (show_nonneg (int (snd net)))"
    using show_nonneg_digits [of "int (snd net)"] by (auto simp: list_all_iff dest!: bspec is_digit_not_sep)
  ultimately show ?thesis by (simp add: show_net_def)
qed

lemma normalize_prefix_result:
  "normalize_prefix v = Inr t \<Longrightarrow> \<exists>net. wf_net net \<and> t = show_net net \<and> CHR ''%'' \<notin> set t"
proof -
  assume "normalize_prefix v = Inr t"
  then obtain s net where s: "CHR ''%'' \<notin> set s" "parse_net (strip s) = Some net" "t = show_net net"
    by (auto simp: normalize_prefix_def split: json.splits if_splits option.splits)
  moreover have "CHR ''%'' \<notin> set (strip s)" using s(1) set_strip by auto
  ultimately show ?thesis using parse_net_wf parse_net_no_scope by blast
qed

lemma normalize_prefix_show:
  "wf_net net \<Longrightarrow> CHR ''%'' \<notin> set (show_net net) \<Longrightarrow> normalize_prefix (JStr (show_net net)) = Inr (show_net net)"
  by (simp add: normalize_prefix_def show_net_no_ws parse_show_net)

interpretation prefix_norm: normaliser "\<lambda>s. normalize_prefix (JStr s)"
  by unfold_locales (auto dest!: normalize_prefix_result simp: normalize_prefix_show)

subsection \<open>Result values\<close>

lemma normalize_asn_strip: "normalize_asn (JStr v) = Inr t \<Longrightarrow> strip t = t"
proof -
  assume "normalize_asn (JStr v) = Inr t"
  then obtain n where n: "0 \<le> n" "t = asn_text n" using normalize_asn_result by blast
  have "\<not> is_ws CHR ''A''" "\<not> is_ws CHR ''S''" by (simp_all add: is_ws_def code_def)
  with n show ?thesis
    using ascii_decimal_no_ws [OF ascii_decimal_show [OF n(1)]] by (intro strip_no_ws) (auto simp: asn_text_def)
qed

lemma normalize_asn_stable: "normalize_asn (JStr v) = Inr t \<Longrightarrow> normalize_asn (JStr t) = Inr t"
  by (auto dest!: normalize_asn_result simp: normalize_asn_AS)

lemma normalize_result_value_strip: "normalize_result_value kind v = Inr t \<Longrightarrow> strip t = t"
  by (auto simp: normalize_result_value_def Let_def split: if_splits
      dest: normalize_asn_strip normalize_hostname_valid normalize_ip_result normalize_prefix_result show_net_no_ws
      dest!: normalize_hostname_valid normalize_ip_result normalize_prefix_result)

lemma normalize_result_value_stable:
  "normalize_result_value kind v = Inr t \<Longrightarrow> normalize_result_value kind t = Inr t"
proof -
  assume v: "normalize_result_value kind v = Inr t"
  note t = normalize_result_value_strip [OF v]
  from v show ?thesis
    unfolding normalize_result_value_def Let_def t
    by (simp split: if_split_asm add: normalize_asn_stable hostname_norm.norm_stable ip_norm.norm_stable
        prefix_norm.norm_stable)
qed

interpretation result_norm: normaliser "normalize_result_value kind"
  by unfold_locales (rule normalize_result_value_stable)

section \<open>Properties of names and targets\<close>

lemma ends_with_label_suffix:
  "h = t \<or> ends_with (''.'' @ t) h \<longleftrightarrow> suffix (split_on CHR ''.'' t) (split_on CHR ''.'' h)"
proof
  assume "h = t \<or> ends_with (''.'' @ t) h"
  then show "suffix (split_on CHR ''.'' t) (split_on CHR ''.'' h)"
    by (auto simp: ends_with_iff split_on_app suffix_def)
next
  assume "suffix (split_on CHR ''.'' t) (split_on CHR ''.'' h)"
  then obtain ls where ls: "split_on CHR ''.'' h = ls @ split_on CHR ''.'' t" by (auto simp: suffix_def)
  show "h = t \<or> ends_with (''.'' @ t) h"
  proof (cases "ls = []")
    case True
    with ls show ?thesis by (metis append_Nil join_split)
  next
    case False
    then have "join ''.'' (ls @ split_on CHR ''.'' t) = join ''.'' ls @ ''.'' @ t"
      by (simp only: join_append split_on_ne join_split not_False_eq_True)
    with ls have "h = join ''.'' ls @ ''.'' @ t" by (metis join_split)
    then show ?thesis by (auto simp: ends_with_iff)
  qed
qed

text \<open>C18: the hostnames the program keeps are exactly the texts of 1 to 253 characters that are not an IP
  address and whose labels are 1 to 63 lower-case letters, digits or inner hyphens; each of them is
  accepted, and normalising it returns it unchanged.\<close>

theorem hostname_normal_form:
  "((\<exists>v. normalize_hostname v = Inr h) \<longleftrightarrow>
      h \<noteq> [] \<and> length h \<le> 253 \<and> parse_ip h = None \<and> list_all host_label (split_on CHR ''.'' h))
   \<and> (normalize_hostname h = Inr h \<longleftrightarrow>
      h \<noteq> [] \<and> length h \<le> 253 \<and> parse_ip h = None \<and> list_all host_label (split_on CHR ''.'' h))"
  using valid_hostname_iff [of h] valid_hostname_spec [of h] normalize_hostname_valid by blast

text \<open>C8: a candidate is in scope exactly when both names normalise and the labels of the target are
  the last labels of the candidate, so \<open>notexample.com\<close> is outside \<open>example.com\<close>.\<close>

theorem scope_is_label_suffix:
  "normalize_scoped_hostname (JStr v) target = Some h \<longleftrightarrow>
     (\<exists>t. normalize_hostname v = Inr h \<and> normalize_hostname target = Inr t
        \<and> suffix (split_on CHR ''.'' t) (split_on CHR ''.'' h))"
  by (auto simp: normalize_scoped_hostname_def ends_with_label_suffix simp del: append.simps split: sum.splits if_splits)

text \<open>C20: for every result kind the stored value is a fixed point of its normaliser and has no
  surrounding white space.\<close>

theorem result_value_stable:
  "normalize_result_value kind v = Inr t \<Longrightarrow> normalize_result_value kind t = Inr t \<and> strip t = t"
  by (auto intro: normalize_result_value_strip result_norm.norm_stable)

text \<open>C23: two address texts get the same normal form exactly when they denote the same address.\<close>

theorem ip_text_identifies_address:
  assumes "normalize_ip label s = Inr t" "normalize_ip label s' = Inr t'"
  shows "t = t' \<longleftrightarrow> parse_ip (strip s) = parse_ip (strip s')"
  using assms by (auto simp: normalize_ip_def Let_def split: if_splits option.splits)
    (metis option.inject parse_ip_wf parse_show_ip)+

text \<open>An integer ASN is accepted exactly in the 32-bit range, with the error of the violated check
  outside it.\<close>

theorem asn_integer_range:
  "normalize_asn (JInt i) =
     (if i < 0 then Inl (ValueError ''ASN must be an integer or AS-prefixed integer'')
      else if 4294967295 < i then Inl (ValueError ''ASN must be between 0 and 4294967295'')
      else Inr (''AS'' @ show_int i))"
proof -
  have max: "show_int 4294967295 = ''4294967295''" by code_simp
  have neg: "\<not> is_ws CHR ''-''" "\<not> is_upper CHR ''-''" "CHR ''-'' \<noteq> CHR ''a''" by simp_all
  show ?thesis
  proof (cases "i < 0")
    case True
    then have show_i: "show_int i = CHR ''-'' # show_nonneg (- i)" by (simp add: show_int_def)
    have "strip (show_int i) = show_int i"
      using ascii_decimal_no_ws [OF ascii_decimal_show, of "- i"] True neg(1)
      by (intro strip_no_ws) (auto simp: show_i)
    moreover have "lower (take 2 (show_int i)) \<noteq> ''as''"
      by (simp add: show_i numeral_2_eq_2 lower_def lower_char_def)
    ultimately show ?thesis
      using True by (simp add: normalize_asn_def normalize_asn_text_def show_i ascii_decimal_def)
  next
    case False
    then have show_i: "show_int i = show_nonneg i" by (simp add: show_int_def)
    have dec: "ascii_decimal (show_nonneg i)" using False by simp
    have strip: "strip (show_nonneg i) = show_nonneg i"
      using ascii_decimal_no_ws [OF dec] by (intro strip_no_ws) auto
    have "hd (show_nonneg i) \<in> set (show_nonneg i)" by simp
    with dec have "is_digit (hd (show_nonneg i))" by (simp add: ascii_decimal_def list_all_iff)
    then have "lower_char (hd (show_nonneg i)) \<noteq> CHR ''a''"
      by (auto simp: lower_char_def is_upper_def is_digit_def code_def)
    then have "lower (take 2 (show_nonneg i)) \<noteq> ''as''"
      by (cases "show_nonneg i") (auto simp: lower_def numeral_2_eq_2)
    with False strip dec show ?thesis
      by (simp add: normalize_asn_def normalize_asn_text_def show_i MAX_ASN_def max)
  qed
qed

lemma result_value_stable_witness:
  "normalize_result_value ''hostname'' ''  WWW.Example.com. '' = Inr ''www.example.com''
   \<and> normalize_result_value ''hostname'' ''www.example.com'' = Inr ''www.example.com''"
proof -
  have v: "normalize_result_value ''hostname'' ''  WWW.Example.com. '' = Inr ''www.example.com''" by code_simp
  then show ?thesis using result_value_stable [OF v] by simp
qed

lemma ip_text_identifies_address_witness:
  "parse_ip (strip ''2001:0db8::0:1'') = parse_ip (strip '' 2001:db8:0::1 '')"
proof -
  have a: "normalize_ip ''IP result'' ''2001:0db8::0:1'' = Inr ''2001:db8::1''" by code_simp
  have b: "normalize_ip ''IP result'' '' 2001:db8:0::1 '' = Inr ''2001:db8::1''" by code_simp
  show ?thesis using ip_text_identifies_address [OF a b] by simp
qed

subsection \<open>Saved and enumeration targets\<close>

lemma asn_text_is_target [simp]: "0 \<le> n \<Longrightarrow> is_asn_target (asn_text n)"
proof -
  have "lower ''AS'' = ''as''" by code_simp
  then show "0 \<le> n \<Longrightarrow> is_asn_target (asn_text n)"
    by (simp add: is_asn_target_def asn_text_def numeral_2_eq_2)
qed

lemma asn_target_second: "is_asn_target t \<Longrightarrow> c \<in> set t \<Longrightarrow> c = CHR ''.'' \<or> c = CHR '':'' \<or> c = CHR ''/'' \<Longrightarrow> False"
proof -
  assume t: "is_asn_target t" and c: "c \<in> set t" "c = CHR ''.'' \<or> c = CHR '':'' \<or> c = CHR ''/''"
  have low: "lower_char c = c" using c(2) by (auto simp: lower_char_def is_upper_def code_def)
  have "c \<in> set (take 2 t) \<union> set (drop 2 t)" using c(1) by (metis append_take_drop_id set_append)
  then show False
  proof
    assume "c \<in> set (take 2 t)"
    then have "c \<in> set (lower (take 2 t))" using low unfolding lower_def by force
    with t c(2) show False by (auto simp: is_asn_target_def)
  next
    assume "c \<in> set (drop 2 t)"
    with t have "is_digit c" by (simp add: is_asn_target_def ascii_decimal_def list_all_iff)
    with c(2) show False by (auto simp: is_digit_def code_def)
  qed
qed

lemma show_ipv4_dot: "CHR ''.'' \<in> set (show_ipv4 n)"
proof (rule ccontr)
  assume "CHR ''.'' \<notin> set (show_ipv4 n)"
  then have "length (split_on CHR ''.'' (show_ipv4 n)) = 1" by (simp add: split_on_nosep)
  then show False by (simp add: split_show_ipv4)
qed

lemma show_ip_punct: "CHR ''.'' \<in> set (show_ip a) \<or> CHR '':'' \<in> set (show_ip a)"
  by (induction a rule: show_ip.induct) (simp_all add: show_ipv4_dot show_ipv6_colon)

lemma show_ip_not_asn: "\<not> is_asn_target (show_ip a)"
  using show_ip_punct [of a] asn_target_second [of "show_ip a"] by blast

lemma show_ip_saved:
  "wf_ip a \<Longrightarrow> CHR ''%'' \<notin> set (show_ip a) \<Longrightarrow> normalize_saved_target (show_ip a) = Inr (show_ip a)"
  by (simp add: normalize_saved_target_def Let_def show_ip_not_asn saved_prefix_def show_ip_no_slash normalize_ip_show)

lemma net_saved:
  "wf_net net \<Longrightarrow> CHR ''%'' \<notin> set (show_net net) \<Longrightarrow> normalize_saved_target (show_net net) = Inr (show_net net)"
proof -
  assume net: "wf_net net" "CHR ''%'' \<notin> set (show_net net)"
  have slash: "CHR ''/'' \<in> set (show_net net)" by (simp add: show_net_def)
  then have "\<not> is_asn_target (show_net net)" using asn_target_second by blast
  with net slash show ?thesis
    by (simp add: normalize_saved_target_def Let_def show_net_no_ws saved_prefix_def normalize_prefix_show)
qed

lemma hostname_not_ip: "valid_hostname h \<Longrightarrow> \<exists>e. normalize_ip label h = Inl e"
  by (auto simp: normalize_ip_def Let_def valid_hostname_def)

lemma hostname_saved: "valid_hostname h \<Longrightarrow> \<not> is_asn_target h \<Longrightarrow> normalize_saved_target h = Inr h"
proof -
  assume h: "valid_hostname h" "\<not> is_asn_target h"
  moreover obtain e where "normalize_ip ''target'' h = Inl e" using hostname_not_ip [OF h(1)] by blast
  ultimately show ?thesis
    by (simp add: normalize_saved_target_def Let_def saved_prefix_def valid_hostname_no_mark valid_hostname_normalize)
qed

lemma saved_target_cases:
  assumes "normalize_saved_target v = Inr t"
  obtains (asn) n where "0 \<le> n" "n \<le> MAX_ASN" "t = asn_text n"
    | (prefix) net where "wf_net net" "t = show_net net" "CHR ''%'' \<notin> set t"
    | (ip) a where "wf_ip a" "t = show_ip a" "CHR ''%'' \<notin> set t"
    | (hostname) "valid_hostname t" "CHR ''.'' \<in> set t"
    | (text_kept) "t = strip v"
  using assms
  by (auto simp: normalize_saved_target_def saved_prefix_def Let_def
      split: if_splits option.splits sum.splits dest: normalize_asn_result normalize_prefix_result
        normalize_ip_result normalize_hostname_valid)

text \<open>C19: the saved form of a target is a fixed point of the normaliser that compares runs by target.\<close>

theorem saved_target_stable:
  assumes "normalize_saved_target v = Inr t"
  shows "normalize_saved_target t = Inr t"
  using assms
proof (cases rule: saved_target_cases)
  case (asn n)
  then show ?thesis
    by (simp add: normalize_saved_target_def Let_def normalize_asn_AS normalize_asn_strip [OF normalize_asn_AS])
next
  case hostname
  then show ?thesis using asn_target_second by (blast intro: hostname_saved)
next
  case text_kept
  with assms show ?thesis by (simp add: normalize_saved_target_def)
qed (auto intro: net_saved show_ip_saved)

lemma saved_target_stable_witness:
  "normalize_saved_target '' 10.1.2.3/8 '' = Inr ''10.0.0.0/8''
   \<and> normalize_saved_target ''10.0.0.0/8'' = Inr ''10.0.0.0/8''"
proof -
  have v: "normalize_saved_target '' 10.1.2.3/8 '' = Inr ''10.0.0.0/8''" by code_simp
  then show ?thesis using saved_target_stable [OF v] by simp
qed

lemma enumeration_target_cases:
  assumes "normalize_enumeration_target v = Inr t"
  obtains (asn) n where "0 \<le> n" "n \<le> MAX_ASN" "t = asn_text n"
    | (ip) a where "parse_ip (lower (rstrip_dots (strip v))) = Some a" "t = show_ip a"
    | (hostname) "\<not> is_asn_target (rstrip_dots (strip v))" "normalize_hostname (lower (rstrip_dots (strip v))) = Inr t"
proof (cases "is_asn_target (rstrip_dots (strip v))")
  case True
  with assms have "normalize_asn (JStr (rstrip_dots (strip v))) = Inr t"
    by (simp add: normalize_enumeration_target_def Let_def)
  then show thesis using normalize_asn_result asn by blast
next
  case False
  show thesis
  proof (cases "parse_ip (lower (rstrip_dots (strip v)))")
    case (Some a)
    with assms False show thesis
      by (intro ip [of a]) (simp_all add: normalize_enumeration_target_def Let_def split: if_splits)
  next
    case None
    with assms False have "recoverR (normalize_hostname (lower (rstrip_dots (strip v))))
        (Inl (ValueError ''Target must be a valid hostname'')) = Inr t"
      by (simp add: normalize_enumeration_target_def Let_def split: if_splits)
    then have "normalize_hostname (lower (rstrip_dots (strip v))) = Inr t"
      by (simp add: recoverR_def split: sum.splits err.splits)
    with False show thesis by (rule hostname)
  qed
qed

lemma marked_not_hostname: "CHR ''%'' \<in> set v \<Longrightarrow> strip v = v \<Longrightarrow> \<exists>e. normalize_hostname v = Inl e"
proof (rule ccontr)
  assume m: "CHR ''%'' \<in> set v" "strip v = v" and "\<nexists>e. normalize_hostname v = Inl e"
  then obtain h where h: "normalize_hostname v = Inr h" by (cases "normalize_hostname v") auto
  obtain r where r: "v = rstrip_dots v @ r" "list_all (\<lambda>c. c = CHR ''.'') r"
    using rstrip_by_prefix [of v "\<lambda>c. c = CHR ''.''"] by (auto simp: rstrip_dots_def)
  have "CHR ''%'' \<notin> set r" using r(2) by (auto simp: list_all_iff)
  with m(1) r(1) have "CHR ''%'' \<in> set (rstrip_dots v)" by (metis Un_iff set_append)
  moreover have "lower_char CHR ''%'' = CHR ''%''" by code_simp
  ultimately have "CHR ''%'' \<in> set (lower (rstrip_dots v))" by (force simp: lower_def)
  with h m(2) idna_encode_mark have "CHR ''%'' \<in> set h"
    by (auto simp: normalize_hostname_def Let_def split: if_splits option.splits)
  with normalize_hostname_valid [OF h] valid_hostname_no_mark show False by blast
qed

lemma set_strip_ink: "c \<in> set s \<Longrightarrow> \<not> is_ws c \<Longrightarrow> c \<in> set (strip s)"
proof -
  assume c: "c \<in> set s" "\<not> is_ws c"
  then have "c \<in> set (lstrip_by is_ws s)"
    unfolding lstrip_by_def by (metis Un_iff set_append set_takeWhileD takeWhile_dropWhile_id)
  with c(2) show ?thesis
    using rstrip_by_prefix [of "lstrip_by is_ws s" is_ws] unfolding strip_def list_all_iff
    by (metis Un_iff set_append)
qed

text \<open>C22: a target accepted for a new run is found again under the text it was stored with. Its saved
  form is itself, with two exceptions: one that reads as an ASN is saved in the canonical form of the
  ASN, and the scope of an IPv6 address loses white space at its end.\<close>

theorem enumeration_target_is_saved_form:
  assumes "normalize_enumeration_target v = Inr t"
  shows "normalize_saved_target t = (if is_asn_target t then normalize_asn (JStr t) else Inr (strip t))
    \<and> (CHR ''%'' \<notin> set t \<longrightarrow> strip t = t)"
  using assms(1)
proof (cases rule: enumeration_target_cases)
  case (asn n)
  then show ?thesis
    by (simp add: normalize_saved_target_def Let_def normalize_asn_AS normalize_asn_strip [OF normalize_asn_AS])
next
  case (ip a)
  have wf: "wf_ip a" using ip(1) by (rule parse_ip_wf)
  show ?thesis
  proof (cases "CHR ''%'' \<in> set t")
    case False
    with wf ip(2) show ?thesis by (simp add: show_ip_not_asn show_ip_saved)
  next
    case True
    have punct: "\<not> is_ws CHR ''.''" "\<not> is_ws CHR '':''" "\<not> is_ws CHR ''%''" by (simp_all add: is_ws_def code_def)
    have "CHR ''/'' \<notin> set (strip t)" using show_ip_no_slash [OF wf] ip(2) set_strip [of t] by auto
    moreover have "\<not> is_asn_target (strip t)"
      using show_ip_punct [of a] ip(2) set_strip_ink [OF _ punct(1)] set_strip_ink [OF _ punct(2)] asn_target_second by blast
    moreover have "CHR ''%'' \<in> set (strip t)" by (rule set_strip_ink [OF True punct(3)])
    moreover from marked_not_hostname [OF this strip_idem] obtain e where "normalize_hostname (strip t) = Inl e" by auto
    moreover have "\<not> is_asn_target t" using ip(2) by (simp add: show_ip_not_asn)
    ultimately show ?thesis using True
      by (simp add: normalize_saved_target_def Let_def saved_prefix_def normalize_ip_def)
  qed
next
  case hostname
  then have "valid_hostname t" by (blast intro: normalize_hostname_valid)
  then show ?thesis by (simp add: hostname_saved) (simp add: normalize_saved_target_def)
qed

lemma enumeration_target_is_saved_form_witness:
  "normalize_enumeration_target ''FE80::1%eth0 .'' = Inr ''fe80::1%eth0 ''
   \<and> normalize_saved_target ''fe80::1%eth0 '' = Inr ''fe80::1%eth0''"
proof -
  have v: "normalize_enumeration_target ''FE80::1%eth0 .'' = Inr ''fe80::1%eth0 ''" by code_simp
  have "\<not> is_asn_target ''fe80::1%eth0 ''" "strip ''fe80::1%eth0 '' = ''fe80::1%eth0''" by code_simp+
  then show ?thesis using v enumeration_target_is_saved_form [OF v] by simp
qed

lemma resolver_addresses_spec:
  "resolver_addresses (uniq pre) vs =
     (let named = filter (\<lambda>v. v \<noteq> []) (map strip vs)
      in case find (\<lambda>v. parse_ip v = None) named of
           Some v \<Rightarrow> Inl (ValueError (''Invalid DNS resolver address: '' @ v))
         | None \<Rightarrow> (if pre = [] \<and> named = []
                    then Inl (ValueError ''Provide at least one DNS resolver IP address'')
                    else Inr (uniq (pre @ map (\<lambda>v. show_ip (the (parse_ip v))) named))))"
proof (induction vs arbitrary: pre)
  case (Cons v vs)
  show ?case
  proof (cases "strip v = [] \<or> parse_ip (strip v) = None")
    case True
    with Cons show ?thesis by (auto simp: Let_def)
  next
    case False
    then obtain a where a: "parse_ip (strip v) = Some a" "strip v \<noteq> []" by auto
    show ?thesis
    proof (cases "show_ip a \<in> set pre")
      case True
      with a Cons [of pre] show ?thesis by (auto simp: Let_def uniq_seen split: option.splits)
    next
      case False
      with a Cons [of "pre @ [show_ip a]"] show ?thesis by (simp add: Let_def uniq_snoc split: option.splits)
    qed
  qed
qed (simp add: Let_def)

text \<open>C21: the DNS resolver list is the operator's list without blanks and without repeated addresses,
  in canonical text and in the operator's order; the first invalid entry, or an empty list, is refused.\<close>

theorem resolver_list_spec:
  "normalize_resolver_addresses vs =
     (let named = filter (\<lambda>v. v \<noteq> []) (map strip vs)
      in case find (\<lambda>v. parse_ip v = None) named of
           Some v \<Rightarrow> Inl (ValueError (''Invalid DNS resolver address: '' @ v))
         | None \<Rightarrow> (if named = [] then Inl (ValueError ''Provide at least one DNS resolver IP address'')
                    else Inr (uniq (map (\<lambda>v. show_ip (the (parse_ip v))) named))))"
  unfolding normalize_resolver_addresses_def
  by (rule resolver_addresses_spec [of "[]" vs, unfolded append_Nil uniq_Nil simp_thms])

text \<open>A saved target that reads as an ASN above the 32-bit range is refused although the docstring
  promises that no legacy text is.\<close>

lemma saved_target_rejects_large_asn:
  "normalize_saved_target ''AS4294967296'' = Inl (ValueError ''ASN must be between 0 and 4294967295'')"
  by code_simp

end
