(* ===== verification/Dns_Consensus.thy ===== *)
theory Dns_Consensus
  imports Hostnames
begin

text \<open>
  \<open>dns_consensus.py\<close>: the query budget, one resolver's CNAME-following query, the comparison of
  three resolvers with wildcard controls, and the classification of candidates. What the resolver
  library returns is a parameter: \<open>net round name record_type\<close> is the outcome of one
  \<open>query_dns\<close> call. Exceptions carry the type name the code records.
\<close>

section \<open>Data\<close>

datatype addressability = CURRENT | NOT_CURRENT | RESOLVER_DISPUTED | WILDCARD_INDISTINGUISHABLE

record budget =
  limit :: "int option"
  used :: int
  blocked :: bool

definition new_budget :: "int option \<Rightarrow> budget res" where
  "new_budget bound =
     (case bound of
        Some l \<Rightarrow> (if l \<le> 0 then Inl (ValueError ''DNS query budget must be greater than zero'')
                   else Inr \<lparr>limit = bound, used = 0, blocked = False\<rparr>)
      | None \<Rightarrow> Inr \<lparr>limit = bound, used = 0, blocked = False\<rparr>)"

definition consume :: "int \<Rightarrow> budget \<Rightarrow> (bool \<times> budget) res" where
  "consume count b =
     (if count \<le> 0 then Inl (ValueError ''DNS query count must be greater than zero'')
      else if (case limit b of None \<Rightarrow> False | Some l \<Rightarrow> l < used b + count)
      then Inr (False, b\<lparr>blocked := True\<rparr>)
      else Inr (True, b\<lparr>used := used b + count\<rparr>))"

datatype host_dns_records = HostDnsRecords (rec_ipv4: "string list") (rec_ipv6: "string list") (rec_cnames: "string list")

definition addresses :: "host_dns_records \<Rightarrow> string list" where
  "addresses r = rec_ipv4 r @ rec_ipv6 r"

datatype dns_response = DNSResponse (ipv4: "string list") (ipv6: "string list") (cnames: "string list")
  (rcode: string) (response_error: "string option")

definition records :: "dns_response \<Rightarrow> host_dns_records" where
  "records r = HostDnsRecords (ipv4 r) (ipv6 r) (cnames r)"

section \<open>One resolver (AioDNSResolverVantage)\<close>

text \<open>The outcome of \<open>query_dns\<close>; a record gives the text attributes the code asks for.\<close>

datatype record_type = A | AAAA | CNAME

datatype dns_code = ENOTFOUND | ENODATA | OtherCode int

record dns_data =
  addr :: "string option"
  cname :: "string option"
  dname :: "string option"

datatype dns_result = Answer "dns_data list" | DNSError dns_code | OtherException string | Cancelled

type_synonym net = "nat \<Rightarrow> string \<Rightarrow> record_type \<Rightarrow> dns_result"

record query_state =
  current :: string
  seen :: "string list"
  v4 :: "string list"
  v6 :: "string list"
  chain :: "string list"
  next_cnames :: "string list"
  dns_errors :: "dns_code list"
  errors :: "string list"
  successful :: bool

definition lower_name :: "string \<Rightarrow> string" where
  "lower_name s = rstrip_dots (lower (strip s))"

definition initial_query :: "string \<Rightarrow> query_state" where
  "initial_query hostname =
     \<lparr>current = lower_name hostname, seen = [lower_name hostname], v4 = [], v6 = [], chain = [],
      next_cnames = [], dns_errors = [], errors = [], successful = False\<rparr>"

definition absorb_record :: "record_type \<Rightarrow> dns_data \<Rightarrow> query_state \<Rightarrow> query_state" where
  "absorb_record rtype d s =
     (if rtype = CNAME
      then (case cname d of
              Some v \<Rightarrow> (if lower_name v \<noteq> [] then s\<lparr>next_cnames := next_cnames s @ [lower_name v]\<rparr> else s)
            | None \<Rightarrow> s)
      else (case addr d of
              None \<Rightarrow> s
            | Some v \<Rightarrow>
                (case parse_ip v of
                   None \<Rightarrow> s
                 | Some a \<Rightarrow>
                     (if version a = (if rtype = A then 4 else 6)
                      then (if version a = 4 then s\<lparr>v4 := List.insert (show_ip a) (v4 s)\<rparr>
                            else s\<lparr>v6 := List.insert (show_ip a) (v6 s)\<rparr>)
                      else s))))"

fun absorb :: "record_type \<Rightarrow> dns_result \<Rightarrow> query_state \<Rightarrow> query_state res" where
  "absorb rtype Cancelled s = Inl CancelledError"
| "absorb rtype (DNSError c) s =
     Inr (s\<lparr>dns_errors := dns_errors s @ [c],
            errors := (if c = ENOTFOUND \<or> c = ENODATA then errors s else errors s @ [''DNSError''])\<rparr>)"
| "absorb rtype (OtherException name) s = Inr (s\<lparr>errors := errors s @ [name]\<rparr>)"
| "absorb rtype (Answer ds) s = Inr (fold (absorb_record rtype) ds (s\<lparr>successful := True\<rparr>))"

definition absorb_round :: "(record_type \<Rightarrow> dns_result) \<Rightarrow> query_state \<Rightarrow> query_state res" where
  "absorb_round results s =
     bindR (absorb A (results A) (s\<lparr>next_cnames := []\<rparr>)) (\<lambda>s.
     bindR (absorb AAAA (results AAAA) s) (\<lambda>s. absorb CNAME (results CNAME) s))"

fun extend_chain :: "string list \<Rightarrow> string list \<Rightarrow> string list" where
  "extend_chain cs [] = cs"
| "extend_chain cs (n # ns) = extend_chain (if n \<in> set cs then cs else cs @ [n]) ns"

text \<open>The end of one round: go on with the next name, or leave the loop.\<close>

definition follow :: "string \<Rightarrow> query_state \<Rightarrow> bool \<times> query_state" where
  "follow target s =
     (if next_cnames s = [] then (False, s)
      else let s = s\<lparr>chain := extend_chain (chain s) (next_cnames s), current := last (next_cnames s)\<rparr>
           in if normalize_scoped_hostname (JStr (current s)) target = None then (False, s)
              else if current s \<in> set (seen s)
              then (False, s\<lparr>errors := errors s @ [''CNAME loop detected at '' @ current s]\<rparr>)
              else (True, s\<lparr>seen := current s # seen s\<rparr>))"

definition final_rcode :: "query_state \<Rightarrow> string" where
  "final_rcode s =
     (if successful s then ''NOERROR''
      else if dns_errors s \<noteq> [] \<and> list_all (\<lambda>c. c = ENOTFOUND) (dns_errors s) then ''NXDOMAIN''
      else if dns_errors s \<noteq> [] \<and> list_all (\<lambda>c. c = ENOTFOUND \<or> c = ENODATA) (dns_errors s) then ''NODATA''
      else ''ERROR'')"

definition final_response :: "query_state \<Rightarrow> dns_response" where
  "final_response s =
     DNSResponse (canon (v4 s)) (canon (v6 s)) (chain s) (final_rcode s)
       (if join ''; '' (errors s) = [] then None else Some (join ''; '' (errors s)))"

text \<open>The budget check at the head of a round: \<open>budget is not None and not budget.consume(3)\<close>.\<close>

definition spend :: "int \<Rightarrow> budget option \<Rightarrow> (bool \<times> budget option) res" where
  "spend count bo =
     (case bo of
        None \<Rightarrow> Inr (True, None)
      | Some b \<Rightarrow> bindR (consume count b) (\<lambda>(ok, b'). Inr (ok, Some b')))"

text \<open>
  \<open>query_rounds net target rounds_left bo s\<close>: the loop, \<open>16 - rounds_left\<close> rounds done. What a query
  has taken from the shared budget stays taken when the query raises.
\<close>

fun query_rounds :: "net \<Rightarrow> string \<Rightarrow> nat \<Rightarrow> budget option \<Rightarrow> query_state \<Rightarrow> dns_response res \<times> budget option" where
  "query_rounds net target 0 bo s =
     (Inr (final_response (s\<lparr>errors := errors s @ [''CNAME chain exceeded 16 links'']\<rparr>)), bo)"
| "query_rounds net target (Suc k) bo s =
     (case spend 3 bo of
        Inl e \<Rightarrow> (Inl e, bo)
      | Inr (ok, bo') \<Rightarrow>
          (if \<not> ok then (Inr (final_response (s\<lparr>errors := errors s @ [''query-limit'']\<rparr>)), bo')
           else (case absorb_round (net (15 - k) (current s)) s of
                   Inl e \<Rightarrow> (Inl e, bo')
                 | Inr s' \<Rightarrow>
                     (let (continue, s'') = follow target s'
                      in if continue then query_rounds net target k bo' s'' else (Inr (final_response s''), bo')))))"

definition query :: "net \<Rightarrow> string \<Rightarrow> string \<Rightarrow> budget option \<Rightarrow> dns_response res \<times> budget option" where
  "query net target hostname bo = query_rounds net target 16 bo (initial_query hostname)"

text \<open>\<open>query_ptr\<close>: \<open>ptr name\<close> is the outcome of the PTR query; reverse names follow RFC 1035 and 3596.\<close>

fun reverse_pointer :: "ip \<Rightarrow> string" where
  "reverse_pointer (IPv4 n) = join ''.'' (rev (split_on CHR ''.'' (show_ipv4 n))) @ ''.in-addr.arpa''"
| "reverse_pointer (IPv6 n sc) =
     join ''.'' (map (\<lambda>d. [hex_char d]) (rev (to_digits 16 32 n))) @ ''.ip6.arpa''"

text \<open>The reverse name of an IPv6 address with a scope identifier raises a ValueError in the library.\<close>

fun scope_id :: "ip \<Rightarrow> string option" where
  "scope_id (IPv4 n) = None"
| "scope_id (IPv6 n sc) = sc"

definition query_ptr :: "(string \<Rightarrow> dns_result) \<Rightarrow> string \<Rightarrow> budget option \<Rightarrow> string list res \<times> budget option" where
  "query_ptr ptr address bo =
     (case parse_ip address of
        None \<Rightarrow> (Inr [], bo)
      | Some a \<Rightarrow>
          (if scope_id a \<noteq> None then (Inr [], bo)
           else (case spend 1 bo of
                   Inl e \<Rightarrow> (Inl e, bo)
                 | Inr (ok, bo') \<Rightarrow>
                     (if \<not> ok then (Inr [], bo')
                      else (case ptr (reverse_pointer a) of
                              Cancelled \<Rightarrow> (Inl CancelledError, bo')
                            | DNSError _ \<Rightarrow> (Inr [], bo')
                            | OtherException name \<Rightarrow> (Inl (OtherError name), bo')
                            | Answer ds \<Rightarrow>
                                (Inr (canon (filter (\<lambda>n. n \<noteq> []) (map lower_name (List.map_filter dname ds)))), bo'))))))"

section \<open>Queries that run at the same time\<close>

text \<open>
  Each query is a task of the event loop. Between the budget check and the answers the other tasks
  may run, so a task is \<open>Ready\<close> (before a budget check, with the rounds left), \<open>Waiting\<close> for answers,
  or \<open>Finished\<close> with the number of rounds it sent. A schedule is the list of the tasks that run,
  in order.
\<close>

datatype task = Ready nat query_state | Waiting nat query_state | Finished nat "dns_response res"

fun task_step :: "net \<Rightarrow> string \<Rightarrow> task \<Rightarrow> budget option \<Rightarrow> task \<times> budget option" where
  "task_step net target (Ready 0 s) bo =
     (Finished 16 (Inr (final_response (s\<lparr>errors := errors s @ [''CNAME chain exceeded 16 links'']\<rparr>))), bo)"
| "task_step net target (Ready (Suc k) s) bo =
     (case spend 3 bo of
        Inl e \<Rightarrow> (Finished (15 - k) (Inl e), bo)
      | Inr (ok, bo') \<Rightarrow>
          (if ok then (Waiting k s, bo')
           else (Finished (15 - k) (Inr (final_response (s\<lparr>errors := errors s @ [''query-limit'']\<rparr>))), bo')))"
| "task_step net target (Waiting k s) bo =
     (case absorb_round (net (15 - k) (current s)) s of
        Inl e \<Rightarrow> (Finished (16 - k) (Inl e), bo)
      | Inr s' \<Rightarrow>
          (let (continue, s'') = follow target s'
           in ((if continue then Ready k s'' else Finished (16 - k) (Inr (final_response s''))), bo)))"
| "task_step net target (Finished n r) bo = (Finished n r, bo)"

definition start_task :: "string \<Rightarrow> task" where
  "start_task hostname = Ready 16 (initial_query hostname)"

definition pool_step :: "(nat \<Rightarrow> net) \<Rightarrow> string \<Rightarrow> nat \<Rightarrow> task list \<times> budget option \<Rightarrow> task list \<times> budget option" where
  "pool_step nets target i pool =
     (if i < length (fst pool)
      then (let (t, bo) = task_step (nets i) target (fst pool ! i) (snd pool) in ((fst pool)[i := t], bo))
      else pool)"

text \<open>One task that runs alone: what a query has done when it is cancelled at one of its waits.\<close>

definition run_task :: "net \<Rightarrow> string \<Rightarrow> nat \<Rightarrow> task \<times> budget option \<Rightarrow> task \<times> budget option" where
  "run_task net target n p = ((\<lambda>(t, bo). task_step net target t bo) ^^ n) p"

definition run_pool :: "(nat \<Rightarrow> net) \<Rightarrow> string \<Rightarrow> nat list \<Rightarrow> task list \<times> budget option \<Rightarrow> task list \<times> budget option" where
  "run_pool nets target schedule pool = fold (pool_step nets target) schedule pool"

section \<open>Candidates and wildcard controls\<close>

record dns_validation =
  query_name :: string
  resolver :: string
  response :: dns_response
  wildcard_depth :: "string option"

record candidate_consensus =
  candidate_name :: string
  verdict :: addressability
  validations :: "dns_validation list"

definition consensus_records :: "candidate_consensus \<Rightarrow> host_dns_records" where
  "consensus_records c =
     (let rs = map response (filter (\<lambda>v. wildcard_depth v = None) (validations c))
      in HostDnsRecords (canon (concat (map ipv4 rs))) (canon (concat (map ipv6 rs))) (canon (concat (map cnames rs))))"

definition normalize_response :: "dns_response \<Rightarrow> dns_response res" where
  "normalize_response r =
     (case (those (map parse_ipv4 (ipv4 r)), those (map parse_ipv6 (ipv6 r))) of
        (Some as, Some bs) \<Rightarrow>
          Inr (DNSResponse (canon (map show_ipv4 as)) (canon (map show_ip bs))
                 (canon (map lower_name (filter (\<lambda>v. strip v \<noteq> []) (cnames r)))) (upper (rcode r)) (response_error r))
      | _ \<Rightarrow> Inl (OtherError ''AddressValueError''))"

text \<open>
  A resolver vantage: its name, its two queries with their effect on the shared budget, and the
  budget either query leaves when it is cancelled after so many steps.
\<close>

record vantage =
  vantage_name :: string
  vantage_query :: "string \<Rightarrow> budget option \<Rightarrow> dns_response res \<times> budget option"
  vantage_ptr :: "string \<Rightarrow> budget option \<Rightarrow> string list res \<times> budget option"
  query_cut :: "string \<Rightarrow> nat \<Rightarrow> budget option \<Rightarrow> budget option"
  ptr_cut :: "string \<Rightarrow> nat \<Rightarrow> budget option \<Rightarrow> budget option"

definition aio_vantage :: "net \<Rightarrow> (string \<Rightarrow> dns_result) \<Rightarrow> string \<Rightarrow> string \<Rightarrow> vantage" where
  "aio_vantage net ptr nameserver target =
     \<lparr>vantage_name = nameserver, vantage_query = query net target, vantage_ptr = query_ptr ptr,
      query_cut = (\<lambda>name n bo. snd (run_task net target n (start_task name, bo))),
      ptr_cut = (\<lambda>address n bo. if n = 0 then bo else snd (query_ptr ptr address bo))\<rparr>"

definition validation_query :: "string \<Rightarrow> vantage \<Rightarrow> string option \<Rightarrow> budget option \<Rightarrow> (dns_validation \<times> budget option) res" where
  "validation_query name v depth bo =
     (let (answer, bo') = vantage_query v name bo;
          failed = (\<lambda>e. DNSResponse [] [] [] ''ERROR'' (Some (type_name e)))
      in case bindR answer normalize_response of
           Inl CancelledError \<Rightarrow> Inl CancelledError
         | Inl e \<Rightarrow> Inr (\<lparr>query_name = name, resolver = vantage_name v, response = failed e, wildcard_depth = depth\<rparr>, bo')
         | Inr r \<Rightarrow> Inr (\<lparr>query_name = name, resolver = vantage_name v, response = r, wildcard_depth = depth\<rparr>, bo'))"

definition wildcard_depths :: "string \<Rightarrow> string \<Rightarrow> string list" where
  "wildcard_depths target candidate =
     (let target_labels = split_on CHR ''.'' target; candidate_labels = split_on CHR ''.'' candidate;
          extra = length candidate_labels - length target_labels
      in target # map (\<lambda>i. join ''.'' (drop i candidate_labels)) (rev [1..<extra]))"

definition has_address :: "dns_validation \<Rightarrow> bool" where
  "has_address v = (addresses (records (response v)) \<noteq> [])"

definition has_records :: "dns_validation \<Rightarrow> bool" where
  "has_records v = (addresses (records (response v)) \<noteq> [] \<or> rec_cnames (records (response v)) \<noteq> [])"

definition response_signature :: "dns_validation \<Rightarrow> host_dns_records" where
  "response_signature v = records (response v)"

text \<open>\<open>max(depths, key=lambda value: value.count('.'))\<close>: the first depth with the most dots.\<close>

definition dots :: "string \<Rightarrow> nat" where
  "dots s = length (filter (\<lambda>c. c = CHR ''.'') s)"

definition closest_depth :: "dns_validation list \<Rightarrow> string res" where
  "closest_depth vs =
     (case filter (\<lambda>d. d \<noteq> []) (List.map_filter wildcard_depth vs) of
        [] \<Rightarrow> Inl (ValueError ''max() iterable argument is empty'')
      | d # ds \<Rightarrow> Inr (foldl (\<lambda>m x. if dots m < dots x then x else m) d ds))"

definition negative_answer :: "dns_validation \<Rightarrow> bool" where
  "negative_answer v =
     (\<not> has_address v \<and> response_error (response v) = None
      \<and> rcode (response v) \<in> {''NOERROR'', ''NXDOMAIN'', ''NODATA''})"

definition classify :: "dns_validation list \<Rightarrow> addressability res" where
  "classify vs =
     (let candidates = filter (\<lambda>v. wildcard_depth v = None) vs;
          controls = filter (\<lambda>v. wildcard_depth v \<noteq> None) vs
      in bindR (closest_depth controls) (\<lambda>closest.
           let candidate_signatures = map response_signature (filter has_records candidates);
               control_signatures = map response_signature
                 (filter (\<lambda>v. wildcard_depth v = Some closest \<and> has_records v) controls)
           in if list_ex (\<lambda>s. s \<in> set control_signatures) candidate_signatures then Inr WILDCARD_INDISTINGUISHABLE
              else if 2 \<le> length (filter has_address candidates) then Inr CURRENT
              else if 2 \<le> length (filter negative_answer candidates) then Inr NOT_CURRENT
              else Inr RESOLVER_DISPUTED))"

section \<open>Validation of candidates\<close>

definition resolver_identity :: "vantage \<Rightarrow> string" where
  "resolver_identity v = (case parse_ip (vantage_name v) of Some a \<Rightarrow> show_ip a | None \<Rightarrow> vantage_name v)"

definition control_names :: "(nat \<Rightarrow> string) \<Rightarrow> nat \<Rightarrow> string \<Rightarrow> string \<Rightarrow> (string \<times> string) list" where
  "control_names uuids n target candidate =
     map (\<lambda>(i, depth). (''th-'' @ uuids i @ ''.'' @ depth, depth))
       (enumerate n (concat (map (replicate 3) (wildcard_depths target candidate))))"

definition planned_queries :: "vantage list \<Rightarrow> string \<Rightarrow> (string \<times> string) list \<Rightarrow> (string \<times> vantage \<times> string option) list" where
  "planned_queries resolvers candidate controls =
     map (\<lambda>v. (candidate, v, None)) resolvers
       @ concat (map (\<lambda>(name, depth). map (\<lambda>v. (name, v, Some depth)) resolvers) controls)"

text \<open>\<open>asyncio.gather\<close>, the queries in the order they are created.\<close>

fun gather_queries :: "(string \<times> vantage \<times> string option) list \<Rightarrow> budget option \<Rightarrow> (dns_validation list \<times> budget option) res" where
  "gather_queries [] bo = Inr ([], bo)"
| "gather_queries ((name, v, depth) # qs) bo =
     bindR (validation_query name v depth bo) (\<lambda>(val, bo').
     bindR (gather_queries qs bo') (\<lambda>(vals, bo''). Inr (val # vals, bo'')))"

text \<open>The budget when the gathered queries are cancelled, query number \<open>i\<close> after \<open>steps i\<close> steps.\<close>

definition cancel_queries :: "(nat \<Rightarrow> nat) \<Rightarrow> (string \<times> vantage \<times> string option) list \<Rightarrow> budget option \<Rightarrow> budget option" where
  "cancel_queries steps qs bo =
     fold (\<lambda>(i, name, v, depth) b. query_cut v name (steps i) b) (enumerate 0 qs) bo"

fun validate_each :: "(nat \<Rightarrow> string) \<Rightarrow> nat \<Rightarrow> string \<Rightarrow> vantage list \<Rightarrow> string list \<Rightarrow> budget option
    \<Rightarrow> (candidate_consensus list \<times> budget option) res" where
  "validate_each uuids n target resolvers [] bo = Inr ([], bo)"
| "validate_each uuids n target resolvers (candidate # rest) bo =
     (let controls = control_names uuids n target candidate
      in bindR (gather_queries (planned_queries resolvers candidate controls) bo) (\<lambda>(vals, bo').
         bindR (case bo' of
                  Some b \<Rightarrow> (if blocked b then Inr RESOLVER_DISPUTED else classify vals)
                | None \<Rightarrow> classify vals) (\<lambda>a.
         bindR (validate_each uuids (n + length controls) target resolvers rest bo') (\<lambda>(results, bo'').
         Inr (\<lparr>candidate_name = candidate, verdict = a, validations = vals\<rparr> # results, bo'')))))"

definition scoped_candidates :: "string \<Rightarrow> string list \<Rightarrow> string list" where
  "scoped_candidates target values =
     uniq (List.map_filter (\<lambda>v. normalize_scoped_hostname (JStr v) target) values)"

definition validate_dns_candidates :: "(nat \<Rightarrow> string) \<Rightarrow> string \<Rightarrow> string list \<Rightarrow> vantage list \<Rightarrow> budget option
    \<Rightarrow> (candidate_consensus list \<times> budget option) res" where
  "validate_dns_candidates uuids target candidates resolvers bo =
     (let normalized_target = lower_name target
      in if normalized_target = [] then Inl (ValueError ''target must not be empty'')
         else if length resolvers \<noteq> 3 \<or> \<not> distinct (map resolver_identity resolvers)
         then Inl (ValueError ''DNS consensus requires exactly three distinct resolver vantages'')
         else validate_each uuids 0 normalized_target resolvers (scoped_candidates normalized_target candidates) bo)"

text \<open>
  The same call cancelled at its first wait, the queries of the first candidate; None when it raises
  or returns before it waits.
\<close>

definition cancel_validation :: "(nat \<Rightarrow> string) \<Rightarrow> (nat \<Rightarrow> nat) \<Rightarrow> string \<Rightarrow> string list \<Rightarrow> vantage list \<Rightarrow> budget option
    \<Rightarrow> budget option option" where
  "cancel_validation uuids steps target candidates resolvers bo =
     (let normalized_target = lower_name target
      in if normalized_target = [] \<or> length resolvers \<noteq> 3 \<or> \<not> distinct (map resolver_identity resolvers) then None
         else (case scoped_candidates normalized_target candidates of
                 [] \<Rightarrow> None
               | candidate # _ \<Rightarrow>
                   Some (cancel_queries steps
                     (planned_queries resolvers candidate (control_names uuids 0 normalized_target candidate)) bo)))"

section \<open>The budget under every schedule\<close>

fun rounds_sent :: "task \<Rightarrow> nat" where
  "rounds_sent (Ready k s) = 16 - k"
| "rounds_sent (Waiting k s) = 16 - k"
| "rounds_sent (Finished n r) = n"

fun task_ok :: "task \<Rightarrow> bool" where
  "task_ok (Ready k s) = (k \<le> 16)"
| "task_ok (Waiting k s) = (k \<le> 15)"
| "task_ok (Finished n r) = (n \<le> 16)"

definition total_sent :: "task list \<Rightarrow> int" where
  "total_sent ts = (\<Sum>t\<leftarrow>ts. int (rounds_sent t))"

fun budget_inv :: "int \<Rightarrow> task list \<times> budget option \<Rightarrow> bool" where
  "budget_inv l (ts, Some b) =
     (limit b = Some l \<and> used b = 3 * total_sent ts \<and> used b \<le> l \<and> (\<forall>t\<in>set ts. task_ok t))"
| "budget_inv l (ts, None) = False"

lemma spend_None [simp]: "spend n None = Inr (True, None)"
  by (simp add: spend_def)

lemma spend_three:
  "spend 3 (Some b) = Inr (if (case limit b of None \<Rightarrow> False | Some l \<Rightarrow> l < used b + 3)
     then (False, Some (b\<lparr>blocked := True\<rparr>)) else (True, Some (b\<lparr>used := used b + 3\<rparr>)))"
  by (simp add: spend_def consume_def)

lemma spend_three_total: "\<exists>ok bo'. spend 3 bo = Inr (ok, bo')"
  by (cases bo) (auto simp: spend_three)

lemma total_sent_update:
  "i < length ts \<Longrightarrow> total_sent (ts[i := t]) = total_sent ts - int (rounds_sent (ts ! i)) + int (rounds_sent t)"
proof -
  assume i: "i < length ts"
  then have ts: "ts = take i ts @ ts ! i # drop (Suc i) ts" by (rule id_take_nth_drop)
  have "ts[i := t] = take i ts @ t # drop (Suc i) ts" using i by (rule upd_conv_take_nth_drop)
  then show ?thesis by (subst (2) ts) (simp add: total_sent_def)
qed

lemma task_step_budget:
  assumes "task_step net target t (Some b) = (t', bo)" "task_ok t" "limit b = Some l" "used b \<le> l"
  shows "\<exists>b'. bo = Some b' \<and> limit b' = Some l \<and> used b' \<le> l \<and> task_ok t'
    \<and> used b' = used b + 3 * (int (rounds_sent t') - int (rounds_sent t))"
proof (cases t)
  case (Ready k s)
  with assms show ?thesis by (cases k) (auto simp: spend_three split: if_splits)
next
  case (Waiting k s)
  with assms show ?thesis by (auto simp: Let_def split: sum.splits if_splits prod.splits)
next
  case (Finished n r)
  with assms show ?thesis by auto
qed

lemma pool_step_inv: "budget_inv l pool \<Longrightarrow> budget_inv l (pool_step nets target i pool)"
proof -
  assume inv: "budget_inv l pool"
  obtain ts bo where pool: "pool = (ts, bo)" by fastforce
  with inv obtain b where b: "bo = Some b" by (cases bo) auto
  show ?thesis
  proof (cases "i < length ts")
    case True
    obtain t' bo' where step: "task_step (nets i) target (ts ! i) (Some b) = (t', bo')" by fastforce
    with inv pool b True obtain b' where "bo' = Some b'" "limit b' = Some l" "used b' \<le> l" "task_ok t'"
      "used b' = used b + 3 * (int (rounds_sent t') - int (rounds_sent (ts ! i)))"
      using task_step_budget [OF step, of l] by auto
    with inv pool b True step show ?thesis
      by (auto simp: pool_step_def total_sent_update dest!: set_update_subset_insert [THEN subsetD])
  next
    case False
    with inv pool show ?thesis by (simp add: pool_step_def)
  qed
qed

lemma run_pool_inv: "budget_inv l pool \<Longrightarrow> budget_inv l (run_pool nets target schedule pool)"
  unfolding run_pool_def by (induction schedule arbitrary: pool) (simp_all add: pool_step_inv)

text \<open>C6: whatever the interleaving of the queries, the requests sent never exceed the DNS budget, the
  budget counts exactly the requests sent, and no query sends more than sixteen rounds.\<close>

theorem budget_bounds_every_schedule:
  assumes "new_budget (Some l) = Inr b"
    and "run_pool nets target schedule (map start_task names, Some b) = (ts, bo)"
  shows "3 * total_sent ts \<le> l \<and> (\<exists>b'. bo = Some b' \<and> used b' = 3 * total_sent ts)
    \<and> (\<forall>t\<in>set ts. rounds_sent t \<le> 16)"
proof -
  have "total_sent (map start_task names) = 0"
    by (induction names) (simp_all add: total_sent_def start_task_def)
  with assms(1) have "budget_inv l (map start_task names, Some b)"
    by (auto simp: new_budget_def start_task_def split: if_splits)
  then have inv: "budget_inv l (ts, bo)" using assms(2) run_pool_inv by metis
  moreover have "task_ok t \<Longrightarrow> rounds_sent t \<le> 16" for t by (cases t) auto
  ultimately show ?thesis by (cases bo) auto
qed

section \<open>A query is a task run alone\<close>

lemma run_task_0 [simp]: "run_task net target 0 p = p"
  by (simp add: run_task_def)

lemma run_task_Suc [simp]: "run_task net target (Suc n) (t, bo) = run_task net target n (task_step net target t bo)"
  by (simp add: run_task_def funpow_swap1)

lemma run_task_Finished [simp]: "run_task net target n (Finished m r, bo) = (Finished m r, bo)"
  by (induction n) simp_all

lemma run_task_query:
  "\<exists>m\<le>16. run_task net target (2 * k + 1) (Ready k s, bo)
     = (Finished m (fst (query_rounds net target k bo s)), snd (query_rounds net target k bo s))" if "k \<le> 16"
  using that
proof (induction k arbitrary: s bo)
  case (Suc k)
  obtain ok bo1 where spend: "spend 3 bo = Inr (ok, bo1)" using spend_three_total by blast
  show ?case
  proof (cases ok)
    case False
    with spend Suc.prems show ?thesis by auto
  next
    case True
    show ?thesis
    proof (cases "absorb_round (net (15 - k) (current s)) s")
      case (Inl e)
      with spend True show ?thesis by auto
    next
      case (Inr s')
      obtain c s'' where follow: "follow target s' = (c, s'')" by fastforce
      show ?thesis
      proof (cases c)
        case True
        with Suc spend \<open>ok\<close> Inr follow show ?thesis by simp
      next
        case False
        with spend \<open>ok\<close> Inr follow show ?thesis by auto
      qed
    qed
  qed
qed auto

text \<open>A query that is never cancelled leaves the budget of its 33 steps, as a task that runs alone does.\<close>

lemma query_is_single_task:
  "\<exists>m\<le>16. run_task net target 33 (start_task hostname, bo)
     = (Finished m (fst (query net target hostname bo)), snd (query net target hostname bo))"
  using run_task_query [of 16 net target "initial_query hostname" bo] by (simp add: query_def start_task_def)

lemma budget_bounds_every_schedule_witness:
  "3 * total_sent (fst (run_pool (\<lambda>_ _ _ _. Answer []) ''example.com'' [0, 1, 0, 1]
     (map start_task [''a.example.com'', ''b.example.com''], Some \<lparr>limit = Some 4, used = 0, blocked = False\<rparr>))) \<le> 4"
proof -
  have b: "new_budget (Some 4) = Inr \<lparr>limit = Some 4, used = 0, blocked = False\<rparr>" by code_simp
  show ?thesis by (metis b budget_bounds_every_schedule prod.collapse)
qed

section \<open>What a query returns\<close>

text \<open>What one answer says, as sets: addresses of one IP version, and CNAME targets in order.\<close>

definition answered_addresses :: "nat \<Rightarrow> dns_result \<Rightarrow> string set" where
  "answered_addresses n r =
     (case r of Answer ds \<Rightarrow> {show_ip a | a. version a = n \<and> (\<exists>d\<in>set ds. \<exists>v. addr d = Some v \<and> parse_ip v = Some a)}
      | _ \<Rightarrow> {})"

definition answered_cnames :: "dns_result \<Rightarrow> string list" where
  "answered_cnames r =
     (case r of Answer ds \<Rightarrow> filter (\<lambda>v. v \<noteq> []) (map lower_name (List.map_filter cname ds)) | _ \<Rightarrow> [])"

fun is_answer :: "dns_result \<Rightarrow> bool" where
  "is_answer (Answer ds) = True"
| "is_answer _ = False"

lemma absorb_cnames:
  "fold (absorb_record CNAME) ds s
     = s\<lparr>next_cnames := next_cnames s @ filter (\<lambda>v. v \<noteq> []) (map lower_name (List.map_filter cname ds))\<rparr>"
  by (induction ds arbitrary: s) (auto simp: absorb_record_def List.map_filter_simps split: option.splits)

lemma absorb_addresses:
  assumes "rtype \<noteq> CNAME"
  shows "\<exists>xs ys. fold (absorb_record rtype) ds s = s\<lparr>v4 := xs, v6 := ys\<rparr>
    \<and> set xs = set (v4 s) \<union> (if rtype = A then answered_addresses 4 (Answer ds) else {})
    \<and> set ys = set (v6 s) \<union> (if rtype = A then {} else answered_addresses 6 (Answer ds))"
proof (induction ds arbitrary: s)
  case Nil
  show ?case by (intro exI [of _ "v4 s"] exI [of _ "v6 s"]) (simp add: answered_addresses_def)
next
  case (Cons d ds)
  let ?new = "\<lambda>n. {show_ip a | a. version a = n \<and> (\<exists>v. addr d = Some v \<and> parse_ip v = Some a)}"
  have split: "answered_addresses n (Answer (d # ds)) = ?new n \<union> answered_addresses n (Answer ds)" for n
    by (auto simp: answered_addresses_def)
  have v: "version a = 4 \<or> version a = 6" for a by (cases a) auto
  obtain xs ys where one: "absorb_record rtype d s = s\<lparr>v4 := xs, v6 := ys\<rparr>"
    "set xs = set (v4 s) \<union> (if rtype = A then ?new 4 else {})"
    "set ys = set (v6 s) \<union> (if rtype = A then {} else ?new 6)"
  proof (cases "\<exists>v a. addr d = Some v \<and> parse_ip v = Some a \<and> version a = (if rtype = A then 4 else 6)")
    case False
    then have "absorb_record rtype d s = s\<lparr>v4 := v4 s, v6 := v6 s\<rparr>"
      using assms by (auto simp: absorb_record_def split: option.splits)
    with False show thesis by (intro that) auto
  next
    case True
    then obtain w a where "addr d = Some w" "parse_ip w = Some a" "version a = (if rtype = A then 4 else 6)" by blast
    with assms show thesis
      by (intro that [of "if rtype = A then v6 s else List.insert (show_ip a) (v6 s)"
          "if rtype = A then List.insert (show_ip a) (v4 s) else v4 s"])
        (auto simp: absorb_record_def)
  qed
  from Cons [of "absorb_record rtype d s"] one obtain xs' ys' where
    "fold (absorb_record rtype) (d # ds) s = s\<lparr>v4 := xs', v6 := ys'\<rparr>"
    "set xs' = set xs \<union> (if rtype = A then answered_addresses 4 (Answer ds) else {})"
    "set ys' = set ys \<union> (if rtype = A then {} else answered_addresses 6 (Answer ds))" by auto
  with one split show ?case by (intro exI [of _ xs'] exI [of _ ys']) auto
qed

text \<open>One round: what the three answers add.\<close>

lemma absorb_keeps:
  assumes "absorb rtype r s = Inr s'"
  shows "current s' = current s" "seen s' = seen s" "chain s' = chain s"
    and "successful s' = (successful s \<or> is_answer r)"
    and "set (v4 s') = set (v4 s) \<union> (if rtype = A then answered_addresses 4 r else {})"
    and "set (v6 s') = set (v6 s) \<union> (if rtype = AAAA then answered_addresses 6 r else {})"
    and "next_cnames s' = next_cnames s @ (if rtype = CNAME then answered_cnames r else [])"
proof -
  have "current s' = current s \<and> seen s' = seen s \<and> chain s' = chain s \<and> successful s' = (successful s \<or> is_answer r)
    \<and> set (v4 s') = set (v4 s) \<union> (if rtype = A then answered_addresses 4 r else {})
    \<and> set (v6 s') = set (v6 s) \<union> (if rtype = AAAA then answered_addresses 6 r else {})
    \<and> next_cnames s' = next_cnames s @ (if rtype = CNAME then answered_cnames r else [])"
  proof (cases r)
    case (Answer ds)
    show ?thesis
    proof (cases "rtype = CNAME")
      case True
      with assms Answer show ?thesis by (auto simp: absorb_cnames answered_cnames_def)
    next
      case False
      with assms Answer absorb_addresses [OF False, of ds "s\<lparr>successful := True\<rparr>"] show ?thesis
        by (cases rtype) auto
    qed
  qed (use assms in \<open>auto simp: answered_addresses_def answered_cnames_def\<close>)
  then show "current s' = current s" "seen s' = seen s" "chain s' = chain s"
    "successful s' = (successful s \<or> is_answer r)"
    "set (v4 s') = set (v4 s) \<union> (if rtype = A then answered_addresses 4 r else {})"
    "set (v6 s') = set (v6 s) \<union> (if rtype = AAAA then answered_addresses 6 r else {})"
    "next_cnames s' = next_cnames s @ (if rtype = CNAME then answered_cnames r else [])" by blast+
qed

lemma absorb_round_keeps:
  assumes "absorb_round results s = Inr s'"
  shows "current s' = current s" "seen s' = seen s" "chain s' = chain s"
    and "successful s' = (successful s \<or> is_answer (results A) \<or> is_answer (results AAAA) \<or> is_answer (results CNAME))"
    and "set (v4 s') = set (v4 s) \<union> answered_addresses 4 (results A)"
    and "set (v6 s') = set (v6 s) \<union> answered_addresses 6 (results AAAA)"
    and "next_cnames s' = answered_cnames (results CNAME)"
proof -
  from assms obtain s1 s2 where a: "absorb A (results A) (s\<lparr>next_cnames := []\<rparr>) = Inr s1"
    and b: "absorb AAAA (results AAAA) s1 = Inr s2" and c: "absorb CNAME (results CNAME) s2 = Inr s'"
    by (auto simp: absorb_round_def bindR_Inr_iff)
  note f = absorb_keeps [OF a] absorb_keeps [OF b] absorb_keeps [OF c]
  show "current s' = current s" "seen s' = seen s" "chain s' = chain s"
    "successful s' = (successful s \<or> is_answer (results A) \<or> is_answer (results AAAA) \<or> is_answer (results CNAME))"
    "set (v4 s') = set (v4 s) \<union> answered_addresses 4 (results A)"
    "set (v6 s') = set (v6 s) \<union> answered_addresses 6 (results AAAA)"
    "next_cnames s' = answered_cnames (results CNAME)"
    by (simp_all add: f)
qed

lemma extend_chain_facts:
  "set (extend_chain cs ns) = set cs \<union> set ns \<and> (distinct cs \<longrightarrow> distinct (extend_chain cs ns))"
  by (induction cs ns rule: extend_chain.induct) auto

text \<open>
  The names a query may ask, independently of its loop: the first is the host name, each further one
  the last CNAME of the answer before it, inside the target, and no name comes twice.
\<close>

definition cname_path :: "net \<Rightarrow> string \<Rightarrow> string \<Rightarrow> string list \<Rightarrow> bool" where
  "cname_path net target hostname path \<longleftrightarrow>
     distinct path \<and> (path = [] \<or> hd path = lower_name hostname)
     \<and> (\<forall>i. Suc i < length path \<longrightarrow>
          answered_cnames (net i (path ! i) CNAME) \<noteq> []
          \<and> path ! Suc i = last (answered_cnames (net i (path ! i) CNAME))
          \<and> normalize_scoped_hostname (JStr (path ! Suc i)) target \<noteq> None)"

text \<open>The end of a path: no CNAME, or one that leaves the target.\<close>

definition path_ends :: "net \<Rightarrow> string \<Rightarrow> string list \<Rightarrow> bool" where
  "path_ends net target path =
     (path \<noteq> [] \<and> (let cs = answered_cnames (net (length path - 1) (last path) CNAME)
        in cs = [] \<or> normalize_scoped_hostname (JStr (last cs)) target = None))"

definition gathered :: "net \<Rightarrow> string list \<Rightarrow> query_state \<Rightarrow> bool" where
  "gathered net path s \<longleftrightarrow>
     set (v4 s) = (\<Union>i<length path. answered_addresses 4 (net i (path ! i) A))
     \<and> set (v6 s) = (\<Union>i<length path. answered_addresses 6 (net i (path ! i) AAAA))
     \<and> set (chain s) = (\<Union>i<length path. set (answered_cnames (net i (path ! i) CNAME))) \<and> distinct (chain s)
     \<and> (successful s \<longleftrightarrow> (\<exists>i<length path. \<exists>t. is_answer (net i (path ! i) t)))"

definition describes :: "net \<Rightarrow> string list \<Rightarrow> dns_response \<Rightarrow> bool" where
  "describes net path r \<longleftrightarrow>
     set (ipv4 r) = (\<Union>i<length path. answered_addresses 4 (net i (path ! i) A))
     \<and> set (ipv6 r) = (\<Union>i<length path. answered_addresses 6 (net i (path ! i) AAAA))
     \<and> set (cnames r) = (\<Union>i<length path. set (answered_cnames (net i (path ! i) CNAME))) \<and> distinct (cnames r)
     \<and> (rcode r = ''NOERROR'' \<longleftrightarrow> (\<exists>i<length path. \<exists>t. is_answer (net i (path ! i) t)))"

lemma final_response_describes:
  "gathered net path s \<Longrightarrow> describes net path (final_response (s\<lparr>errors := es\<rparr>))"
  by (auto simp: gathered_def describes_def final_response_def final_rcode_def)

lemma join_snoc_ne: "x \<noteq> [] \<Longrightarrow> join sep (xs @ [x]) \<noteq> []"
  by (cases "xs = []") (simp_all add: join_append)

lemma final_error_snoc: "x \<noteq> [] \<Longrightarrow> response_error (final_response (s\<lparr>errors := es @ [x]\<rparr>)) \<noteq> None"
  by (simp add: final_response_def join_snoc_ne)

lemma gathered_round:
  assumes "gathered net p s" "absorb_round (net (length p) (current s)) s = Inr s1"
    and "chain s2 = extend_chain (chain s1) (next_cnames s1)" "v4 s2 = v4 s1" "v6 s2 = v6 s1" "successful s2 = successful s1"
  shows "gathered net (p @ [current s]) s2"
proof -
  have "(\<exists>t. is_answer (f t)) = (is_answer (f A) \<or> is_answer (f AAAA) \<or> is_answer (f CNAME))" for f
    using record_type.exhaust by metis
  then show ?thesis
    using assms(1,3-6) absorb_round_keeps [OF assms(2)] extend_chain_facts [of "chain s1" "next_cnames s1"]
    by (simp add: gathered_def lessThan_Suc less_Suc_eq nth_append ex_disj_distrib conj_disj_distribR cong: conj_cong) auto
qed

lemma cname_path_snoc:
  assumes "cname_path net target hostname p" "p \<noteq> []" "c \<notin> set p"
    and "c = last (answered_cnames (net (length p - 1) (last p) CNAME))"
    and "answered_cnames (net (length p - 1) (last p) CNAME) \<noteq> []"
    and "normalize_scoped_hostname (JStr c) target \<noteq> None"
  shows "cname_path net target hostname (p @ [c])"
  unfolding cname_path_def
proof (intro conjI allI impI)
  show "distinct (p @ [c])" "p @ [c] = [] \<or> hd (p @ [c]) = lower_name hostname"
    using assms(1-3) by (auto simp: cname_path_def)
  fix i assume "Suc i < length (p @ [c])"
  then consider "Suc i < length p" | "Suc i = length p" by fastforce
  then have "answered_cnames (net i ((p @ [c]) ! i) CNAME) \<noteq> []
    \<and> (p @ [c]) ! Suc i = last (answered_cnames (net i ((p @ [c]) ! i) CNAME))
    \<and> normalize_scoped_hostname (JStr ((p @ [c]) ! Suc i)) target \<noteq> None"
  proof cases
    case 1
    with assms(1) show ?thesis by (auto simp: cname_path_def nth_append)
  next
    case 2
    then have i: "i = length p - 1" by simp
    with assms(2) have "(p @ [c]) ! i = last p" by (simp add: nth_append last_conv_nth)
    moreover have "(p @ [c]) ! Suc i = c" unfolding 2 by simp
    moreover note i
    ultimately have "(p @ [c]) ! i = last p" "(p @ [c]) ! Suc i = c" "i = length p - 1" by blast+
    with assms(4-6) show ?thesis by simp
  qed
  then show "answered_cnames (net i ((p @ [c]) ! i) CNAME) \<noteq> []"
    "(p @ [c]) ! Suc i = last (answered_cnames (net i ((p @ [c]) ! i) CNAME))"
    "normalize_scoped_hostname (JStr ((p @ [c]) ! Suc i)) target \<noteq> None" by blast+
qed

lemma query_rounds_path:
  assumes "query_rounds net target k bo s = (Inr r, bo')" "length p + k = 16"
    and "cname_path net target hostname (p @ [current s])" "set (seen s) = set (p @ [current s])" "gathered net p s"
  shows "\<exists>path. length p \<le> length path \<and> length path \<le> 16 \<and> cname_path net target hostname path \<and> describes net path r
    \<and> (response_error r = None \<longrightarrow> path_ends net target path)
    \<and> map_option used bo' = map_option (\<lambda>b. used b + 3 * (int (length path) - int (length p))) bo"
  using assms
proof (induction k arbitrary: bo s p)
  case 0
  have "cname_path net target hostname p" using 0(3) by (auto simp: cname_path_def nth_append hd_append split: if_splits)
  moreover have "r = final_response (s\<lparr>errors := errors s @ [''CNAME chain exceeded 16 links'']\<rparr>)" "bo' = bo"
    using 0(1) by simp_all
  ultimately show ?case using 0(2,5)
    by (intro exI [of _ p]) (simp add: final_response_describes final_error_snoc option.map_ident)
next
  case (Suc k)
  obtain ok bo1 where sp: "spend 3 bo = Inr (ok, bo1)" using spend_three_total by blast
  have p: "cname_path net target hostname p" using Suc(4) by (auto simp: cname_path_def nth_append hd_append split: if_splits)
  have u: "map_option used bo1 = map_option (\<lambda>b. used b + (if ok then 3 else 0)) bo"
    using sp by (cases bo) (auto simp: spend_three split: if_splits)
  have len: "15 - k = length p" using Suc(3) by simp
  show ?case
  proof (cases ok)
    case False
    with Suc(2) sp have "r = final_response (s\<lparr>errors := errors s @ [''query-limit'']\<rparr>)" "bo' = bo1" by simp_all
    with Suc(3,6) p u False show ?thesis
      by (intro exI [of _ p]) (simp add: final_response_describes final_error_snoc)
  next
    case True
    let ?p = "p @ [current s]"
    from Suc(2) sp True obtain s1 where s1: "absorb_round (net (length p) (current s)) s = Inr s1"
      by (cases "absorb_round (net (length p) (current s)) s") (simp_all add: len)
    note k = absorb_round_keeps [OF s1]
    obtain c s2 where f: "follow target s1 = (c, s2)" by fastforce
    let ?ns = "answered_cnames (net (length p) (current s) CNAME)"
    note g = gathered_round [OF Suc(6) s1]
    let ?s = "s1\<lparr>chain := extend_chain (chain s1) (next_cnames s1), current := last ?ns\<rparr>"
    have go: "follow target s1 =
      (if ?ns = [] then (False, s1)
       else if normalize_scoped_hostname (JStr (last ?ns)) target = None then (False, ?s)
       else if last ?ns \<in> set (seen s) then (False, ?s\<lparr>errors := errors s1 @ [''CNAME loop detected at '' @ last ?ns]\<rparr>)
       else (True, ?s\<lparr>seen := last ?ns # seen s\<rparr>))"
      by (simp add: follow_def Let_def k)
    show ?thesis
    proof (cases c)
      case False
      with Suc(2) sp True s1 f have r: "r = final_response s2" "bo' = bo1" by (simp_all add: len)
      have "describes net ?p r \<and> (response_error r = None \<longrightarrow> path_ends net target ?p)"
      proof (cases "?ns = []")
        case True
        with f go have s2: "s2 = s1" by simp
        have "gathered net ?p s1" using True by (intro g) (simp_all add: k)
        then have "describes net ?p r" using r s2 final_response_describes [of net ?p s1 "errors s1"] by simp
        with True show ?thesis by (simp add: path_ends_def)
      next
        case ne: False
        have "gathered net ?p ?s" by (intro g) simp_all
        then have gs: "describes net ?p (final_response (?s\<lparr>errors := es\<rparr>))" for es by (rule final_response_describes)
        from f go ne \<open>\<not> c\<close> consider "normalize_scoped_hostname (JStr (last ?ns)) target = None" "s2 = ?s"
          | "s2 = ?s\<lparr>errors := errors s1 @ [''CNAME loop detected at '' @ last ?ns]\<rparr>"
          by (auto split: if_splits)
        then show ?thesis
        proof cases
          case 1
          with r gs [of "errors s1"] show ?thesis by (simp add: path_ends_def)
        next
          case 2
          with r gs show ?thesis by (simp add: final_error_snoc)
        qed
      qed
      with Suc(3,4) u True r show ?thesis by (intro exI [of _ ?p]) simp
    next
      case c: True
      with f go have ns: "?ns \<noteq> []" "normalize_scoped_hostname (JStr (last ?ns)) target \<noteq> None" "last ?ns \<notin> set (seen s)"
        and s2: "s2 = ?s\<lparr>seen := last ?ns # seen s\<rparr>"
        by (auto split: if_splits)
      have again: "query_rounds net target k bo1 s2 = (Inr r, bo')" using Suc(2) sp True s1 f c by (simp add: len)
      have cur: "current s2 = last ?ns" "seen s2 = last ?ns # seen s" by (simp_all add: s2)
      have "last ?ns \<notin> set ?p" using ns(3) Suc(5) by blast
      then have "cname_path net target hostname (?p @ [current s2])"
        unfolding cur(1) using ns(1,2) by (intro cname_path_snoc [OF Suc(4)]) simp_all
      moreover have "set (seen s2) = set (?p @ [current s2])" unfolding cur using Suc(5) by auto
      moreover have "gathered net ?p s2" unfolding s2 by (intro g) simp_all
      ultimately obtain path where path: "length ?p \<le> length path" "length path \<le> 16" "cname_path net target hostname path" "describes net path r"
        "response_error r = None \<longrightarrow> path_ends net target path"
        "map_option used bo' = map_option (\<lambda>b. used b + 3 * (int (length path) - int (length ?p))) bo1"
        using Suc(1) [OF again, of ?p] Suc(3) by auto
      have "map_option used bo' = map_option (\<lambda>n. n + 3 * (int (length path) - int (length ?p))) (map_option used bo1)"
        using path(6) by (simp add: option.map_comp comp_def)
      then have "map_option used bo' = map_option (\<lambda>b. used b + 3 * (int (length path) - int (length p))) bo"
        unfolding u using True by (simp add: option.map_comp comp_def)
      with path show ?thesis by (intro exI [of _ path]) simp
    qed
  qed
qed

text \<open>C16: what a query returns. It asks at most sixteen names, each once: the host name, then each time
  the last CNAME of the answer before, as long as that is inside the target. Its addresses and CNAMEs
  are exactly those of these answers, it says NOERROR exactly when one of them arrived, it takes three
  requests from the budget for each name, and it reports no error only where the chain has ended.\<close>

theorem query_follows_the_chain:
  assumes "query net target hostname bo = (Inr r, bo')"
  shows "\<exists>path. length path \<le> 16 \<and> cname_path net target hostname path \<and> describes net path r
    \<and> (response_error r = None \<longrightarrow> path_ends net target path)
    \<and> map_option used bo' = map_option (\<lambda>b. used b + 3 * int (length path)) bo"
proof -
  have "\<exists>path. length ([] :: string list) \<le> length path \<and> length path \<le> 16 \<and> cname_path net target hostname path \<and> describes net path r
    \<and> (response_error r = None \<longrightarrow> path_ends net target path)
    \<and> map_option used bo' = map_option (\<lambda>b. used b + 3 * (int (length path) - int (length ([] :: string list)))) bo"
    by (rule query_rounds_path [OF assms [unfolded query_def]])
      (simp_all add: initial_query_def cname_path_def gathered_def)
  then show ?thesis by simp
qed

definition example_chain :: net where
  "example_chain n name t =
     (if name = ''a.example.com'' \<and> t = CNAME
      then Answer [\<lparr>addr = None, cname = Some ''B.example.com.'', dname = None\<rparr>]
      else if name = ''b.example.com'' \<and> t = A
      then Answer [\<lparr>addr = Some ''192.0.2.7'', cname = None, dname = None\<rparr>]
      else DNSError ENODATA)"

lemma query_follows_the_chain_witness:
  "\<exists>path. cname_path example_chain ''example.com'' ''a.example.com'' path
     \<and> describes example_chain path (DNSResponse [''192.0.2.7''] [] [''b.example.com''] ''NOERROR'' None)
     \<and> length path = 2"
proof -
  have "query example_chain ''example.com'' ''a.example.com'' (Some \<lparr>limit = None, used = 0, blocked = False\<rparr>)
    = (Inr (DNSResponse [''192.0.2.7''] [] [''b.example.com''] ''NOERROR'' None), Some \<lparr>limit = None, used = 6, blocked = False\<rparr>)"
    by code_simp
  from query_follows_the_chain [OF this] show ?thesis by force
qed

section \<open>Wildcard controls\<close>

lemma dots_append [simp]: "dots (s @ t) = dots s + dots t"
  by (simp add: dots_def)

lemma dots_split: "dots s = length (split_on CHR ''.'' s) - 1"
proof (induction s)
  case (Cons c s)
  obtain y ys where "split_on CHR ''.'' s = y # ys" by (metis list.exhaust split_on_ne)
  with Cons show ?case by (simp add: dots_def)
qed (simp add: dots_def)

lemma split_drop: "i < length (split_on c s) \<Longrightarrow> split_on c (join [c] (drop i (split_on c s))) = drop i (split_on c s)"
  by (intro split_join) (auto dest!: in_set_dropD split_on_parts)

text \<open>The parent domain of a candidate inside the target.\<close>

definition parent_depth :: "string \<Rightarrow> string \<Rightarrow> string" where
  "parent_depth target candidate =
     (if length (split_on CHR ''.'' target) < length (split_on CHR ''.'' candidate)
      then join ''.'' (tl (split_on CHR ''.'' candidate)) else target)"

lemma dots_depth:
  "i < length (split_on CHR ''.'' s) \<Longrightarrow>
     dots (join ''.'' (drop i (split_on CHR ''.'' s))) = length (split_on CHR ''.'' s) - i - 1"
  by (simp add: dots_split split_drop)

lemma parent_is_depth:
  assumes "suffix (split_on CHR ''.'' target) (split_on CHR ''.'' candidate)"
  shows "parent_depth target candidate \<in> set (wildcard_depths target candidate)"
    and "d \<in> set (wildcard_depths target candidate) \<Longrightarrow>
      d = parent_depth target candidate \<or> dots d < dots (parent_depth target candidate)"
proof -
  let ?t = "split_on CHR ''.'' target" and ?c = "split_on CHR ''.'' candidate"
  from assms obtain ls where ls: "?c = ls @ ?t" by (auto simp: suffix_def)
  have t: "target = join ''.'' ?t" by simp
  have parent: "length ?t < length ?c \<Longrightarrow> parent_depth target candidate = join ''.'' (drop 1 ?c)"
    by (simp add: parent_depth_def drop_Suc)
  have one: "length ?c = Suc (length ?t) \<Longrightarrow> join ''.'' (drop 1 ?c) = target"
    using ls by (cases ls) auto
  show "parent_depth target candidate \<in> set (wildcard_depths target candidate)"
  proof (cases "length ?c > Suc (length ?t)")
    case True
    with parent have "parent_depth target candidate = join ''.'' (drop 1 ?c)" by simp
    moreover have "1 \<in> {1..<length ?c - length ?t}" using True by auto
    ultimately show ?thesis by (auto simp: wildcard_depths_def Let_def)
  next
    case False
    then show ?thesis
      using parent one by (cases "length ?c = Suc (length ?t)") (auto simp: wildcard_depths_def parent_depth_def)
  qed
  assume d: "d \<in> set (wildcard_depths target candidate)"
  show "d = parent_depth target candidate \<or> dots d < dots (parent_depth target candidate)"
  proof (cases "length ?c > Suc (length ?t)")
    case True
    then have p: "parent_depth target candidate = join ''.'' (drop 1 ?c)"
      and pd: "dots (parent_depth target candidate) = length ?c - 2"
      using parent dots_depth [of 1 candidate] by auto
    have "dots target = length ?t - 1" by (rule dots_split)
    moreover from d have "\<exists>i. d = target \<or> (d = join ''.'' (drop i ?c) \<and> 1 \<le> i \<and> i < length ?c - length ?t)"
      by (auto simp: wildcard_depths_def Let_def)
    then obtain i where "d = target \<or> (d = join ''.'' (drop i ?c) \<and> 1 \<le> i \<and> i < length ?c - length ?t)" ..
    moreover have "1 \<le> i \<Longrightarrow> i < length ?c - length ?t \<Longrightarrow> i = 1 \<or> dots (join ''.'' (drop i ?c)) < length ?c - 2" for i
      using dots_depth [of i candidate] by auto
    moreover have "length ?t - 1 < length ?c - 2" using True by (cases ?t) auto
    ultimately show ?thesis using p pd by auto
  next
    case False
    with d parent one show ?thesis
      by (cases "length ?c = Suc (length ?t)") (auto simp: wildcard_depths_def parent_depth_def)
  qed
qed

lemma foldl_closest:
  "foldl (\<lambda>m x. if dots m < dots x then x else m) d ds \<in> set (d # ds)
   \<and> (\<forall>x\<in>set (d # ds). dots x \<le> dots (foldl (\<lambda>m x. if dots m < dots x then x else m) d ds))"
proof (induction ds arbitrary: d)
  case (Cons x ds)
  from Cons [of d] Cons [of x] show ?case by (auto intro: order_trans less_imp_le)
qed simp

lemma closest_depth_eq:
  assumes "p \<in> D" "\<forall>d\<in>D. d = p \<or> dots d < dots p" "[] \<notin> D"
    and "set (List.map_filter wildcard_depth vs) = D"
  shows "closest_depth vs = Inr p"
proof -
  let ?ds = "filter (\<lambda>d. d \<noteq> []) (List.map_filter wildcard_depth vs)"
  have D: "set ?ds = D" using assms(3,4) by auto
  with assms(1) obtain d ds where ds: "?ds = d # ds" by (cases ?ds) auto
  let ?m = "foldl (\<lambda>m x. if dots m < dots x then x else m) d ds"
  have "?m \<in> D" "dots p \<le> dots ?m"
    using foldl_closest [of d ds] D assms(1) unfolding ds by auto
  with assms(2) have "?m = p" by (auto simp: not_less [symmetric])
  with ds show ?thesis by (simp add: closest_depth_def)
qed

lemma gather_queries_vals:
  "gather_queries qs bo = Inr (vals, bo') \<Longrightarrow>
     map (\<lambda>v. (query_name v, resolver v, wildcard_depth v)) vals
       = map (\<lambda>(name, v, depth). (name, vantage_name v, depth)) qs"
proof (induction qs bo arbitrary: vals rule: gather_queries.induct)
  case (2 name v depth qs bo)
  then obtain val bo1 vals1 where val: "validation_query name v depth bo = Inr (val, bo1)"
    and rest: "gather_queries qs bo1 = Inr (vals1, bo')" "vals = val # vals1"
    by (auto simp: bindR_Inr_iff split: prod.splits)
  have "query_name val = name \<and> resolver val = vantage_name v \<and> wildcard_depth val = depth"
    using val by (auto simp: validation_query_def Let_def split: prod.splits sum.splits err.splits)
  moreover have "map (\<lambda>v. (query_name v, resolver v, wildcard_depth v)) vals1
      = map (\<lambda>(name, v, depth). (name, vantage_name v, depth)) qs"
    using 2(1) [OF rest(1)] .
  ultimately show ?case using rest(2) by simp
qed simp

lemma filter_by_image:
  "map f xs = map g ys \<Longrightarrow> (\<And>x. P x = R (f x)) \<Longrightarrow> (\<And>y. Q y = R (g y)) \<Longrightarrow>
     map f (filter P xs) = map g (filter Q ys)"
proof (induction xs arbitrary: ys)
  case (Cons x xs)
  then obtain y ys' where "ys = y # ys'" "f x = g y" "map f xs = map g ys'" by (cases ys) auto
  with Cons show ?case by simp
qed simp

lemma map_snd_tagged: "map snd (map (\<lambda>(i, d). (f i d, d)) xs) = map snd xs"
  by (induction xs) auto

text \<open>The validations of one candidate: its own answers, one per resolver, and the controls.\<close>

lemma candidate_validations:
  assumes "gather_queries (planned_queries resolvers candidate (control_names uuids n target candidate)) bo = Inr (vals, bo')"
  shows "map resolver (filter (\<lambda>v. wildcard_depth v = None) vals) = map vantage_name resolvers"
    and "v \<in> set vals \<Longrightarrow> wildcard_depth v = None \<Longrightarrow> query_name v = candidate"
    and "resolvers \<noteq> [] \<Longrightarrow>
      set (List.map_filter wildcard_depth (filter (\<lambda>v. wildcard_depth v \<noteq> None) vals)) = set (wildcard_depths target candidate)"
proof -
  let ?controls = "control_names uuids n target candidate"
  let ?qs = "planned_queries resolvers candidate ?controls"
  let ?f = "\<lambda>v. (query_name v, resolver v, wildcard_depth v)"
  let ?g = "\<lambda>(name, v, depth). (name, vantage_name v, depth)"
  note vals = gather_queries_vals [OF assms]
  have own: "filter (\<lambda>(name, v, depth). depth = None) ?qs = map (\<lambda>v. (candidate, v, None)) resolvers"
    by (auto simp: planned_queries_def filter_concat comp_def split_beta)
  have "map ?f (filter (\<lambda>v. wildcard_depth v = None) vals) = map ?g (filter (\<lambda>(name, v, depth). depth = None) ?qs)"
    by (rule filter_by_image [OF vals, where R = "\<lambda>(_, _, d). d = None"]) auto
  then have eq: "map ?f (filter (\<lambda>v. wildcard_depth v = None) vals) = map (\<lambda>v. (candidate, vantage_name v, None)) resolvers"
    unfolding own by (simp add: comp_def)
  have "map resolver (filter (\<lambda>v. wildcard_depth v = None) vals) = map (fst \<circ> snd) (map ?f (filter (\<lambda>v. wildcard_depth v = None) vals))"
    by (simp add: comp_def)
  then show "map resolver (filter (\<lambda>v. wildcard_depth v = None) vals) = map vantage_name resolvers"
    unfolding eq by (simp add: comp_def)
  show "v \<in> set vals \<Longrightarrow> wildcard_depth v = None \<Longrightarrow> query_name v = candidate"
  proof -
    assume "v \<in> set vals" "wildcard_depth v = None"
    then have "?f v \<in> set (map ?f (filter (\<lambda>v. wildcard_depth v = None) vals))" by simp
    then show ?thesis unfolding eq by auto
  qed
  have "(d \<in> set (List.map_filter wildcard_depth (filter (\<lambda>v. wildcard_depth v \<noteq> None) vals)))
      = (Some d \<in> wildcard_depth ` set vals)" for d
    unfolding List.map_filter_def image_iff by (auto simp: eq_commute [of "Some d"]) force
  moreover have "wildcard_depth ` set vals = snd ` snd ` set (map ?f vals)" by (simp add: image_image)
  ultimately have "set (List.map_filter wildcard_depth (filter (\<lambda>v. wildcard_depth v \<noteq> None) vals))
      = {d. Some d \<in> snd ` snd ` set (map ?f vals)}" by blast
  also have "\<dots> = {d. \<exists>name. (name, d) \<in> set ?controls \<and> resolvers \<noteq> []}"
  proof -
    have dep: "snd ` snd ` set (map ?g ?qs) = (\<lambda>(name, v, d). d) ` set ?qs" by (simp add: image_image split_beta)
    have qs: "set ?qs = (\<lambda>v. (candidate, v, None)) ` set resolvers
        \<union> {(name, v, Some d) |name v d. (name, d) \<in> set ?controls \<and> v \<in> set resolvers}"
      unfolding planned_queries_def by auto
    have "Some d \<in> (\<lambda>(name, v, d). d) ` set ?qs
        \<longleftrightarrow> (\<exists>name v. (name, d) \<in> set ?controls \<and> v \<in> set resolvers)" for d
      unfolding qs image_Un by (auto simp: image_iff)
    then have "Some d \<in> snd ` snd ` set (map ?g ?qs)
        \<longleftrightarrow> (\<exists>name v. (name, d) \<in> set ?controls \<and> v \<in> set resolvers)" for d
      unfolding dep .
    then show ?thesis unfolding vals by (cases resolvers) auto
  qed
  also have "\<dots> = {d. d \<in> set (wildcard_depths target candidate) \<and> resolvers \<noteq> []}"
  proof -
    have "map snd ?controls = map snd (enumerate n (concat (map (replicate 3) (wildcard_depths target candidate))))"
      unfolding control_names_def by (rule map_snd_tagged)
    then have "map snd ?controls = concat (map (replicate 3) (wildcard_depths target candidate))" by simp
    then have "snd ` set ?controls = set (concat (map (replicate 3) (wildcard_depths target candidate)))"
      by (metis list.set_map)
    then have "snd ` set ?controls = set (wildcard_depths target candidate)" by auto
    moreover have "(\<exists>name. (name, d) \<in> set ?controls) \<longleftrightarrow> d \<in> snd ` set ?controls" for d
      by (auto intro: rev_image_eqI)
    ultimately show ?thesis by simp
  qed
  finally show "resolvers \<noteq> [] \<Longrightarrow>
      set (List.map_filter wildcard_depth (filter (\<lambda>v. wildcard_depth v \<noteq> None) vals)) = set (wildcard_depths target candidate)"
    by simp
qed


section \<open>What the verdicts mean\<close>

lemma parent_of_candidate:
  assumes "gather_queries (planned_queries resolvers candidate (control_names uuids n target candidate)) bo = Inr (vals, bo')"
    and "resolvers \<noteq> []" "target \<noteq> []" "\<forall>l\<in>set (split_on CHR ''.'' candidate). l \<noteq> []"
    and "suffix (split_on CHR ''.'' target) (split_on CHR ''.'' candidate)"
  shows "closest_depth (filter (\<lambda>v. wildcard_depth v \<noteq> None) vals) = Inr (parent_depth target candidate)"
proof (rule closest_depth_eq [OF parent_is_depth(1) [OF assms(5)] _ _ candidate_validations(3) [OF assms(1,2)]])
  show "\<forall>d\<in>set (wildcard_depths target candidate).
      d = parent_depth target candidate \<or> dots d < dots (parent_depth target candidate)"
    using parent_is_depth(2) [OF assms(5)] by blast
  have "join ''.'' (drop i (split_on CHR ''.'' candidate)) \<noteq> []" if "i < length (split_on CHR ''.'' candidate)" for i
  proof -
    from that obtain l ls where l: "drop i (split_on CHR ''.'' candidate) = l # ls"
      by (metis drop_eq_Nil list.exhaust not_le)
    then have "l \<noteq> []" using assms(4) by (metis in_set_dropD list.set_intros(1))
    with l show ?thesis by (cases ls) auto
  qed
  then have "i < length (split_on CHR ''.'' candidate) \<Longrightarrow> [] \<noteq> join ''.'' (drop i (split_on CHR ''.'' candidate))" for i
    by metis
  with assms(3) show "[] \<notin> set (wildcard_depths target candidate)"
    by (auto simp: wildcard_depths_def Let_def)
qed

lemma validate_each_result:
  assumes "validate_each uuids n target resolvers cands bo = Inr (results, bo')" "r \<in> set results"
  obtains k bo1 bo2 where "candidate_name r \<in> set cands"
    "gather_queries (planned_queries resolvers (candidate_name r) (control_names uuids k target (candidate_name r))) bo1
       = Inr (validations r, bo2)"
    "verdict r = RESOLVER_DISPUTED \<or> classify (validations r) = Inr (verdict r)"
  using assms
proof (induction uuids n target resolvers cands bo arbitrary: results thesis rule: validate_each.induct)
  case (2 uuids n target resolvers candidate rest bo)
  let ?controls = "control_names uuids n target candidate"
  from 2(3) obtain vals bo1 a results1 where v:
    "gather_queries (planned_queries resolvers candidate ?controls) bo = Inr (vals, bo1)"
    "(case bo1 of Some b \<Rightarrow> (if blocked b then Inr RESOLVER_DISPUTED else classify vals) | None \<Rightarrow> classify vals) = Inr a"
    "validate_each uuids (n + length ?controls) target resolvers rest bo1 = Inr (results1, bo')"
    "results = \<lparr>candidate_name = candidate, verdict = a, validations = vals\<rparr> # results1"
    by (auto simp: Let_def bindR_Inr_iff split: prod.splits)
  show ?case
  proof (cases "r = \<lparr>candidate_name = candidate, verdict = a, validations = vals\<rparr>")
    case True
    with v show ?thesis by (intro 2(2) [of n bo bo1]) (auto split: option.splits if_splits)
  next
    case False
    with v(4) 2(4) have "r \<in> set results1" by auto
    show ?thesis
      by (rule 2(1) [OF refl _ v(3) \<open>r \<in> set results1\<close>]) (use 2(2) in auto)
  qed
qed simp

lemma validate_each_names:
  "validate_each uuids n target resolvers cands bo = Inr (results, bo') \<Longrightarrow> map candidate_name results = cands"
proof (induction uuids n target resolvers cands bo arbitrary: results rule: validate_each.induct)
  case (2 uuids n target resolvers candidate rest bo)
  then obtain bo1 r results1 where
    "validate_each uuids (n + length (control_names uuids n target candidate)) target resolvers rest bo1 = Inr (results1, bo')"
    "results = r # results1" "candidate_name r = candidate"
    by (auto simp: Let_def bindR_Inr_iff split: prod.splits)
  with 2(1) show ?case by auto
qed simp

lemma scoped_candidate:
  assumes "candidate \<in> set (scoped_candidates target values)" "valid_hostname target"
  shows "valid_hostname candidate" and "suffix (split_on CHR ''.'' target) (split_on CHR ''.'' candidate)"
proof -
  from assms(1) obtain v where "v \<in> set values" "normalize_scoped_hostname (JStr v) target = Some candidate"
    by (auto simp: scoped_candidates_def List.map_filter_def)
  then have c: "normalize_hostname v = Inr candidate" "candidate = target \<or> ends_with (''.'' @ target) candidate"
    using valid_hostname_normalize [OF assms(2)]
    by (auto simp: normalize_scoped_hostname_def split: sum.splits if_splits)
  then show "valid_hostname candidate" by (blast intro: normalize_hostname_valid)
  show "suffix (split_on CHR ''.'' target) (split_on CHR ''.'' candidate)"
    using c(2) by (simp only: ends_with_label_suffix)
qed

lemma valid_hostname_lower_name [simp]: "valid_hostname h \<Longrightarrow> lower_name h = h"
  by (simp add: lower_name_def valid_hostname_def [THEN iffD1, THEN conjunct2, THEN conjunct2, THEN conjunct1])

lemma validate_dns_result:
  assumes "validate_dns_candidates uuids target values resolvers bo = Inr (results, bo')"
    and "r \<in> set results" "valid_hostname target"
  obtains "length resolvers = 3" "distinct (map vantage_name resolvers)"
    "candidate_name r \<in> set (scoped_candidates target values)"
    "map resolver (filter (\<lambda>v. wildcard_depth v = None) (validations r)) = map vantage_name resolvers"
    "\<forall>v\<in>set (validations r). wildcard_depth v = None \<longrightarrow> query_name v = candidate_name r"
    "closest_depth (filter (\<lambda>v. wildcard_depth v \<noteq> None) (validations r)) = Inr (parent_depth target (candidate_name r))"
    "verdict r = RESOLVER_DISPUTED \<or> classify (validations r) = Inr (verdict r)"
proof -
  from assms(1,3) have checked: "length resolvers = 3" "distinct (map resolver_identity resolvers)"
    "validate_each uuids 0 target resolvers (scoped_candidates target values) bo = Inr (results, bo')"
    by (auto simp: validate_dns_candidates_def split: if_splits)
  have names: "distinct (map vantage_name resolvers)"
  proof -
    have "vantage_name x = vantage_name y \<Longrightarrow> resolver_identity x = resolver_identity y" for x y :: vantage
      by (simp add: resolver_identity_def split: option.splits)
    then show ?thesis using checked(2) unfolding distinct_map inj_on_def by blast
  qed
  obtain k bo1 bo2 where r: "candidate_name r \<in> set (scoped_candidates target values)"
    "gather_queries (planned_queries resolvers (candidate_name r) (control_names uuids k target (candidate_name r))) bo1
       = Inr (validations r, bo2)"
    "verdict r = RESOLVER_DISPUTED \<or> classify (validations r) = Inr (verdict r)"
    using validate_each_result [OF checked(3) assms(2)] by blast
  note c = scoped_candidate [OF r(1) assms(3)]
  have "\<forall>l\<in>set (split_on CHR ''.'' (candidate_name r)). l \<noteq> []"
    using c(1) label_valid_size unfolding valid_hostname_def list_all_iff by blast
  moreover have "resolvers \<noteq> []" "target \<noteq> []" using checked(1) assms(3) by (auto simp: valid_hostname_def)
  ultimately show thesis
    using parent_of_candidate [OF r(2)] candidate_validations(1,2) [OF r(2)] c(2) checked(1) names r
    by (intro that) auto
qed

lemma classify_current:
  assumes "classify vs = Inr CURRENT"
  shows "2 \<le> length (filter has_address (filter (\<lambda>v. wildcard_depth v = None) vs))"
  using assms by (auto simp: classify_def Let_def bindR_Inr_iff split: if_splits)

lemma classify_overlap:
  assumes "classify vs = Inr a" "closest_depth (filter (\<lambda>v. wildcard_depth v \<noteq> None) vs) = Inr p"
  shows "a = WILDCARD_INDISTINGUISHABLE \<longleftrightarrow>
    (\<exists>v\<in>set vs. \<exists>c\<in>set vs. wildcard_depth v = None \<and> wildcard_depth c = Some p
       \<and> has_records v \<and> has_records c \<and> response_signature v = response_signature c)"
  using assms by (auto simp: classify_def Let_def list_ex_iff split: if_splits)

text \<open>C1: a candidate reported as currently addressable is in scope, was answered with an address by two
  different resolvers, and none of its answers equals an answer for a random name under its parent.\<close>

theorem current_needs_two_resolvers:
  assumes "validate_dns_candidates uuids target values resolvers bo = Inr (results, bo')"
    and "valid_hostname target" "r \<in> set results" "verdict r = CURRENT"
  shows "candidate_name r \<in> set (scoped_candidates target values)
    \<and> (\<exists>v\<in>set (validations r). \<exists>w\<in>set (validations r). resolver v \<noteq> resolver w
         \<and> query_name v = candidate_name r \<and> query_name w = candidate_name r \<and> has_address v \<and> has_address w)
    \<and> (\<forall>v\<in>set (validations r). \<forall>c\<in>set (validations r).
         wildcard_depth v = None \<and> wildcard_depth c = Some (parent_depth target (candidate_name r))
         \<and> has_records v \<and> has_records c \<longrightarrow> response_signature v \<noteq> response_signature c)"
proof (rule validate_dns_result [OF assms(1,3,2)])
  let ?own = "filter (\<lambda>v. wildcard_depth v = None) (validations r)"
  assume r: "distinct (map vantage_name resolvers)" "candidate_name r \<in> set (scoped_candidates target values)"
    "map resolver ?own = map vantage_name resolvers"
    "\<forall>v\<in>set (validations r). wildcard_depth v = None \<longrightarrow> query_name v = candidate_name r"
    "closest_depth (filter (\<lambda>v. wildcard_depth v \<noteq> None) (validations r)) = Inr (parent_depth target (candidate_name r))"
    "verdict r = RESOLVER_DISPUTED \<or> classify (validations r) = Inr (verdict r)"
  with assms(4) have c: "classify (validations r) = Inr CURRENT" by simp
  from classify_current [OF c] obtain v w vs where vw: "filter has_address ?own = v # w # vs"
    by (cases "filter has_address ?own"; cases "tl (filter has_address ?own)") auto
  have "distinct (map resolver (filter has_address ?own))"
    using r(1,3) by (metis distinct_map_filter)
  then have "resolver v \<noteq> resolver w" unfolding vw by simp
  moreover have "v \<in> set (filter has_address ?own)" "w \<in> set (filter has_address ?own)" unfolding vw by simp_all
  ultimately show ?thesis
    using r(2,4) classify_overlap [OF c r(5)] by auto
qed

definition example_vantage :: "string \<Rightarrow> vantage" where
  "example_vantage name =
     \<lparr>vantage_name = name,
      vantage_query = (\<lambda>q bo. (Inr (if q = ''www.example.com'' then DNSResponse [''192.0.2.1''] [] [] ''NOERROR'' None
         else DNSResponse [] [] [] ''NXDOMAIN'' None), bo)),
      vantage_ptr = (\<lambda>a bo. (Inr [], bo)), query_cut = (\<lambda>q n bo. bo), ptr_cut = (\<lambda>a n bo. bo)\<rparr>"

definition example_validation :: "(candidate_consensus list \<times> budget option) res" where
  "example_validation =
     validate_dns_candidates (\<lambda>n. show_nonneg (int n)) ''example.com'' [''WWW.example.com'']
       (map example_vantage [''1.1.1.1'', ''8.8.8.8'', ''9.9.9.9'']) None"

lemma example_validation_current:
  "case example_validation of Inl _ \<Rightarrow> False
   | Inr (results, bo) \<Rightarrow> results \<noteq> [] \<and> verdict (hd results) = CURRENT"
  by code_simp

lemma current_needs_two_resolvers_witness:
  "\<exists>results bo. example_validation = Inr (results, bo)
     \<and> (\<exists>v\<in>set (validations (hd results)). \<exists>w\<in>set (validations (hd results)).
          resolver v \<noteq> resolver w \<and> has_address v \<and> has_address w)"
proof -
  obtain results bo where r: "example_validation = Inr (results, bo)" "results \<noteq> []" "verdict (hd results) = CURRENT"
    using example_validation_current by (auto split: sum.splits)
  have "valid_hostname ''example.com''" by code_simp
  with current_needs_two_resolvers [OF r(1) [unfolded example_validation_def], of "hd results"] r
  show ?thesis by auto
qed

text \<open>C9: apart from disputed results, a candidate is wildcard-indistinguishable exactly when one of its
  answers has records and equals an answer for a random name under its parent domain.\<close>

theorem wildcard_verdict_is_parent_match:
  assumes "validate_dns_candidates uuids target values resolvers bo = Inr (results, bo')"
    and "valid_hostname target" "r \<in> set results" "verdict r \<noteq> RESOLVER_DISPUTED"
  shows "verdict r = WILDCARD_INDISTINGUISHABLE \<longleftrightarrow>
    (\<exists>v\<in>set (validations r). \<exists>c\<in>set (validations r).
       wildcard_depth v = None \<and> wildcard_depth c = Some (parent_depth target (candidate_name r))
       \<and> has_records v \<and> has_records c \<and> response_signature v = response_signature c)"
proof (rule validate_dns_result [OF assms(1,3,2)])
  assume "closest_depth (filter (\<lambda>v. wildcard_depth v \<noteq> None) (validations r)) = Inr (parent_depth target (candidate_name r))"
    "verdict r = RESOLVER_DISPUTED \<or> classify (validations r) = Inr (verdict r)"
  with assms(4) show ?thesis by (intro classify_overlap) auto
qed

lemma wildcard_verdict_is_parent_match_witness:
  "\<exists>results bo. example_validation = Inr (results, bo)
     \<and> \<not> (\<exists>v\<in>set (validations (hd results)). \<exists>c\<in>set (validations (hd results)).
          wildcard_depth v = None \<and> wildcard_depth c = Some (parent_depth ''example.com'' (candidate_name (hd results)))
          \<and> has_records v \<and> has_records c \<and> response_signature v = response_signature c)"
proof -
  obtain results bo where r: "example_validation = Inr (results, bo)" "results \<noteq> []" "verdict (hd results) = CURRENT"
    using example_validation_current by (auto split: sum.splits)
  have "valid_hostname ''example.com''" by code_simp
  with wildcard_verdict_is_parent_match [OF r(1) [unfolded example_validation_def], of "hd results"] r
  show ?thesis by auto
qed

text \<open>C17: every distinct in-scope candidate is classified exactly once, in the order of first occurrence.\<close>

theorem candidates_classified_once:
  assumes "validate_dns_candidates uuids target values resolvers bo = Inr (results, bo')"
  shows "map candidate_name results
      = uniq (List.map_filter (\<lambda>v. normalize_scoped_hostname (JStr v) (lower_name target)) values)
    \<and> distinct (map candidate_name results)"
proof -
  have "validate_each uuids 0 (lower_name target) resolvers (scoped_candidates (lower_name target) values) bo = Inr (results, bo')"
    using assms by (simp add: validate_dns_candidates_def Let_def split: if_splits)
  from validate_each_names [OF this] show ?thesis by (simp add: scoped_candidates_def)
qed

lemma candidates_classified_once_witness:
  "\<exists>results bo. example_validation = Inr (results, bo) \<and> distinct (map candidate_name results)"
proof -
  obtain results bo where r: "example_validation = Inr (results, bo)"
    using example_validation_current by (auto split: sum.splits)
  with candidates_classified_once [OF r [unfolded example_validation_def]] show ?thesis by auto
qed

end
