(* ===== verification/Host_Checker.thy ===== *)
theory Host_Checker
  imports Dns_Consensus "HOL-Library.Multiset"
begin

text \<open>
  \<open>hostchecker.py\<close>: resolution of a host list by a fixed number of workers that share one job
  iterator, with the request limit, and \<open>cancellation.py\<close>'s wait for owned tasks. A schedule is
  the list of the workers that run, in order; between the request and the answer other workers run.
\<close>

section \<open>The checker (Checker.__init__)\<close>

record checker =
  hosts :: "string list"
  concurrency :: int
  request_limit :: "int option"
  runtime_seconds :: "rat option"
  checked_records :: "(string \<times> host_dns_records) list"
  realhosts :: "string list"
  checked_addresses :: "string list"
  request_count :: int
  completed_count :: nat
  stop_reason :: "string option"
  query_error_count :: nat
  query_error_types :: "string list"

definition positive_int :: "json \<Rightarrow> int option" where
  "positive_int v = (case v of JInt i \<Rightarrow> (if 0 < i then Some i else None) | _ \<Rightarrow> None)"

definition positive_number :: "json \<Rightarrow> rat option" where
  "positive_number v =
     (case v of
        JInt i \<Rightarrow> (if 0 < i then Some (of_int i) else None)
      | JFloat (Some q) \<Rightarrow> (if 0 < q then Some q else None)
      | _ \<Rightarrow> None)"

definition checked_hosts :: "string list \<Rightarrow> string list" where
  "checked_hosts hs = uniq (map lower_name (filter (\<lambda>h. rstrip_dots (strip h) \<noteq> []) hs))"

definition new_checker :: "string list \<Rightarrow> json \<Rightarrow> json \<Rightarrow> json \<Rightarrow> checker res" where
  "new_checker hs conc bound runtime =
     (case positive_int conc of
        None \<Rightarrow> Inl (ValueError ''DNS concurrency must be a positive integer'')
      | Some c \<Rightarrow>
          (if bound \<noteq> JNull \<and> positive_int bound = None
           then Inl (ValueError ''DNS request limit must be a positive integer'')
           else if runtime \<noteq> JNull \<and> positive_number runtime = None
           then Inl (ValueError ''DNS runtime must be a positive finite number'')
           else Inr \<lparr>hosts = checked_hosts hs, concurrency = c, request_limit = positive_int bound,
                     runtime_seconds = positive_number runtime, checked_records = [], realhosts = [],
                     checked_addresses = [], request_count = 0, completed_count = 0, stop_reason = None,
                     query_error_count = 0, query_error_types = []\<rparr>))"

section \<open>One host (Checker.resolve_host)\<close>

definition is_expected_dns_absence :: "dns_result \<Rightarrow> bool" where
  "is_expected_dns_absence r = (case r of DNSError c \<Rightarrow> c = ENODATA \<or> c = ENOTFOUND | _ \<Rightarrow> False)"

definition result_type :: "dns_result \<Rightarrow> string" where
  "result_type r = (case r of DNSError _ \<Rightarrow> ''DNSError'' | OtherException name \<Rightarrow> name | _ \<Rightarrow> [])"

definition record_value :: "record_type \<Rightarrow> dns_data \<Rightarrow> string option" where
  "record_value rtype d =
     (if rtype = CNAME
      then (case cname d of
              Some v \<Rightarrow> (let n = lower (rstrip_dots v) in if n \<noteq> [] then Some n else None)
            | None \<Rightarrow> None)
      else (case addr d of
              Some v \<Rightarrow> (case parse_ip v of
                          Some a \<Rightarrow> (if version a = (if rtype = A then 4 else 6) then Some (show_ip a) else None)
                        | None \<Rightarrow> None)
            | None \<Rightarrow> None))"

definition answer_values :: "record_type \<Rightarrow> dns_result \<Rightarrow> string list" where
  "answer_values rtype r = (case r of Answer ds \<Rightarrow> List.map_filter (record_value rtype) ds | _ \<Rightarrow> [])"

definition count_error :: "dns_result \<Rightarrow> checker \<Rightarrow> checker" where
  "count_error r ck =
     (case r of
        Answer _ \<Rightarrow> ck
      | _ \<Rightarrow> (if is_expected_dns_absence r then ck
             else ck\<lparr>query_error_count := Suc (query_error_count ck),
                     query_error_types := List.insert (result_type r) (query_error_types ck)\<rparr>))"

text \<open>The error counts of the three results in order; a cancellation ends the loop.\<close>

fun count_errors :: "dns_result list \<Rightarrow> checker \<Rightarrow> bool \<times> checker" where
  "count_errors [] ck = (False, ck)"
| "count_errors (r # rs) ck = (if r = Cancelled then (True, ck) else count_errors rs (count_error r ck))"

definition resolve_host :: "(record_type \<Rightarrow> dns_result) \<Rightarrow> string \<Rightarrow> checker
    \<Rightarrow> (string \<times> host_dns_records) option res \<times> checker" where
  "resolve_host results host ck =
     (let (was_cancelled, ck') = count_errors [results A, results AAAA, results CNAME] ck;
          recs = HostDnsRecords (canon (answer_values A (results A))) (canon (answer_values AAAA (results AAAA)))
                   (canon (answer_values CNAME (results CNAME)))
      in (if was_cancelled then Inl CancelledError
          else Inr (if addresses recs \<noteq> [] \<or> rec_cnames recs \<noteq> [] then Some (host, recs) else None), ck'))"

definition accept_result :: "string \<Rightarrow> host_dns_records \<Rightarrow> checker \<Rightarrow> checker" where
  "accept_result host recs ck =
     ck\<lparr>checked_records := AList.update host recs (checked_records ck), realhosts := realhosts ck @ [host],
        checked_addresses := fold List.insert (addresses recs) (checked_addresses ck)\<rparr>"

section \<open>The workers (Checker.query_all)\<close>

datatype worker = Looping | Resolving string | Returned

record query_all_state =
  jobs :: "string list"
  workers :: "worker list"
  checker_of :: checker
  cancelled :: bool

definition start_query_all :: "checker \<Rightarrow> query_all_state" where
  "start_query_all ck =
     \<lparr>jobs = hosts ck, workers = replicate (min (nat (concurrency ck)) (length (hosts ck))) Looping,
      checker_of = ck, cancelled = False\<rparr>"

text \<open>
  One step of worker \<open>i\<close>: a looping worker takes the next host from the iterator and checks the
  limit; a resolving worker receives the answers \<open>net host\<close>. A cancellation stops every worker.
\<close>

definition worker_step :: "(string \<Rightarrow> record_type \<Rightarrow> dns_result) \<Rightarrow> nat \<Rightarrow> query_all_state \<Rightarrow> query_all_state" where
  "worker_step net i st =
     (if i < length (workers st)
      then (let ck = checker_of st
            in case workers st ! i of
                 Looping \<Rightarrow>
                   (case jobs st of
                      [] \<Rightarrow> st\<lparr>workers := (workers st)[i := Returned]\<rparr>
                    | host # rest \<Rightarrow>
                        (if (case request_limit ck of None \<Rightarrow> False | Some l \<Rightarrow> l < request_count ck + 3)
                         then st\<lparr>jobs := rest, workers := (workers st)[i := Returned],
                                 checker_of := ck\<lparr>stop_reason := Some ''query-limit''\<rparr>\<rparr>
                         else st\<lparr>jobs := rest, workers := (workers st)[i := Resolving host],
                                 checker_of := ck\<lparr>request_count := request_count ck + 3\<rparr>\<rparr>))
               | Resolving host \<Rightarrow>
                   (case resolve_host (net host) host ck of
                      (Inl _, ck') \<Rightarrow>
                        st\<lparr>workers := map (\<lambda>_. Returned) (workers st), cancelled := True, checker_of := ck'\<rparr>
                    | (Inr result, ck') \<Rightarrow>
                        (let ck'' = ck'\<lparr>completed_count := Suc (completed_count ck')\<rparr>
                         in st\<lparr>workers := (workers st)[i := Looping],
                               checker_of := (case result of None \<Rightarrow> ck'' | Some (h, recs) \<Rightarrow> accept_result h recs ck'')\<rparr>))
               | Returned \<Rightarrow> st)
      else st)"

definition run_workers :: "(string \<Rightarrow> record_type \<Rightarrow> dns_result) \<Rightarrow> nat list \<Rightarrow> query_all_state \<Rightarrow> query_all_state" where
  "run_workers net schedule st = fold (worker_step net) schedule st"

section \<open>Results (snapshot, check, resolve_ip_addresses)\<close>

definition host_line :: "checker \<Rightarrow> string \<Rightarrow> string res" where
  "host_line ck host =
     (case map_of (checked_records ck) host of
        None \<Rightarrow> Inl KeyError
      | Some recs \<Rightarrow> Inr (if addresses recs \<noteq> [] then host @ '':'' @ join '','' (addresses recs) else host))"

definition snapshot :: "checker \<Rightarrow> (string list \<times> string list \<times> string list) res" where
  "snapshot ck =
     bindR (mapR (host_line ck) (sort (realhosts ck))) (\<lambda>resolved.
       Inr (sort resolved, sort (realhosts ck), canon (checked_addresses ck)))"

text \<open>
  \<open>check\<close>: the resolver is closed whatever happened, then the first of these is raised: a
  cancellation of the phase, an interruption of the clean-up, an error of the phase, an error of
  closing. A \<open>TimeoutError\<close> of the phase only sets the stop reason.
\<close>

definition check_outcome :: "err option \<Rightarrow> bool \<Rightarrow> err option \<Rightarrow> checker \<Rightarrow> (string list \<times> string list \<times> string list) res \<times> checker" where
  "check_outcome phase interrupted close_error ck =
     (let timeout = (phase = Some (OtherError ''TimeoutError''));
          ck' = (if timeout then ck\<lparr>stop_reason := Some ''runtime-limit''\<rparr> else ck);
          phase_error = (if timeout then None else phase)
      in (if phase_error = Some CancelledError \<or> interrupted then Inl CancelledError
          else case phase_error of
                 Some e \<Rightarrow> Inl e
               | None \<Rightarrow> (case close_error of Some e \<Rightarrow> Inl e | None \<Rightarrow> snapshot ck'), ck'))"

datatype address_family = AF_UNSPEC | AF_INET | AF_INET6

text \<open>The nodes of the answer by the text of their address, None where reading it raises.\<close>

definition node_address :: "address_family \<Rightarrow> string option \<Rightarrow> ip option" where
  "node_address family node =
     (case node of
        None \<Rightarrow> None
      | Some v \<Rightarrow>
          (case parse_ip v of
             None \<Rightarrow> None
           | Some a \<Rightarrow> (if (family = AF_INET \<and> version a \<noteq> 4) \<or> (family = AF_INET6 \<and> version a \<noteq> 6)
                       then None else Some a)))"

definition resolve_ip_addresses :: "address_family \<Rightarrow> string option list \<Rightarrow> string list" where
  "resolve_ip_addresses family nodes =
     canon_by (\<lambda>s. case parse_ip s of Some a \<Rightarrow> (version a, ip_int a) | None \<Rightarrow> (0, 0))
       (map show_ip (List.map_filter (node_address family) nodes))"

section \<open>Every schedule of the workers\<close>

fun held :: "worker \<Rightarrow> string list" where
  "held (Resolving h) = [h]"
| "held _ = []"

definition in_flight :: "worker list \<Rightarrow> string list" where
  "in_flight ws = concat (map held ws)"

lemma in_flight_update:
  "i < length ws \<Longrightarrow> mset (in_flight (ws[i := w])) + mset (held (ws ! i)) = mset (in_flight ws) + mset (held w)"
proof -
  assume i: "i < length ws"
  then have ws: "ws = take i ws @ ws ! i # drop (Suc i) ws" by (rule id_take_nth_drop)
  have "ws[i := w] = take i ws @ w # drop (Suc i) ws" using i by (rule upd_conv_take_nth_drop)
  then show ?thesis by (subst (3) ws) (simp add: in_flight_def)
qed

lemma in_flight_length:
  "i < length ws \<Longrightarrow> length (in_flight (ws[i := w])) + length (held (ws ! i)) = length (in_flight ws) + length (held w)"
  by (metis in_flight_update size_mset size_union)

lemma count_errors_keeps:
  "request_limit (snd (count_errors rs ck)) = request_limit ck
   \<and> request_count (snd (count_errors rs ck)) = request_count ck
   \<and> realhosts (snd (count_errors rs ck)) = realhosts ck
   \<and> completed_count (snd (count_errors rs ck)) = completed_count ck
   \<and> stop_reason (snd (count_errors rs ck)) = stop_reason ck"
  by (induction rs arbitrary: ck) (simp_all add: count_error_def split: dns_result.split)

lemma resolve_host_keeps:
  assumes "resolve_host results host ck = (r, ck')"
  shows "request_limit ck' = request_limit ck" "request_count ck' = request_count ck" "realhosts ck' = realhosts ck"
    "completed_count ck' = completed_count ck" "stop_reason ck' = stop_reason ck"
    "r = Inr (Some (h, recs)) \<Longrightarrow> h = host"
  using assms count_errors_keeps [of "[results A, results AAAA, results CNAME]" ck]
  by (auto simp: resolve_host_def Let_def split: prod.splits if_splits)

text \<open>What one step of a worker does, case by case.\<close>

lemma worker_step_cases:
  obtains (same) "worker_step net i st = st"
    | (ended) "i < length (workers st)" "workers st ! i = Looping" "jobs st = []"
        "worker_step net i st = st\<lparr>workers := (workers st)[i := Returned]\<rparr>"
    | (limited) host rest where "i < length (workers st)" "workers st ! i = Looping" "jobs st = host # rest"
        "worker_step net i st = st\<lparr>jobs := rest, workers := (workers st)[i := Returned],
           checker_of := (checker_of st)\<lparr>stop_reason := Some ''query-limit''\<rparr>\<rparr>"
    | (issued) host rest where "i < length (workers st)" "workers st ! i = Looping" "jobs st = host # rest"
        "case request_limit (checker_of st) of None \<Rightarrow> True | Some l \<Rightarrow> request_count (checker_of st) + 3 \<le> l"
        "worker_step net i st = st\<lparr>jobs := rest, workers := (workers st)[i := Resolving host],
           checker_of := (checker_of st)\<lparr>request_count := request_count (checker_of st) + 3\<rparr>\<rparr>"
    | (aborted) host ck' where "i < length (workers st)" "workers st ! i = Resolving host"
        "worker_step net i st = st\<lparr>workers := map (\<lambda>_. Returned) (workers st), cancelled := True, checker_of := ck'\<rparr>"
        "request_limit ck' = request_limit (checker_of st)" "request_count ck' = request_count (checker_of st)"
        "realhosts ck' = realhosts (checker_of st)"
    | (answered) host ck' where "i < length (workers st)" "workers st ! i = Resolving host"
        "worker_step net i st = st\<lparr>workers := (workers st)[i := Looping], checker_of := ck'\<rparr>"
        "request_limit ck' = request_limit (checker_of st)" "request_count ck' = request_count (checker_of st)"
        "realhosts ck' = realhosts (checker_of st) \<or> realhosts ck' = realhosts (checker_of st) @ [host]"
        "completed_count ck' = Suc (completed_count (checker_of st))" "stop_reason ck' = stop_reason (checker_of st)"
proof (cases "i < length (workers st)")
  case False
  then show thesis by (intro same) (simp add: worker_step_def)
next
  case True
  show thesis
  proof (cases "workers st ! i")
    case Looping
    then show thesis
    proof (cases "jobs st")
      case Nil
      with True Looping show thesis by (intro ended) (simp_all add: worker_step_def)
    next
      case (Cons host rest)
      show thesis
      proof (cases "case request_limit (checker_of st) of None \<Rightarrow> False | Some l \<Rightarrow> l < request_count (checker_of st) + 3")
        case over: True
        with True Looping Cons show thesis by (intro limited) (simp_all add: worker_step_def Let_def)
      next
        case False
        with True Looping Cons show thesis
          by (intro issued [of host rest]) (auto simp: worker_step_def Let_def split: option.splits)
      qed
    qed
  next
    case (Resolving host)
    obtain r ck' where r: "resolve_host (net host) host (checker_of st) = (r, ck')" by fastforce
    note keeps = resolve_host_keeps [OF r]
    show thesis
    proof (cases r)
      case (Inl e)
      with True Resolving r keeps show thesis by (intro aborted [of host ck']) (simp_all add: worker_step_def Let_def)
    next
      case (Inr result)
      let ?ck = "ck'\<lparr>completed_count := Suc (completed_count ck')\<rparr>"
      from Inr True Resolving r keeps show thesis
        by (intro answered [of host "case result of None \<Rightarrow> ?ck | Some (h, recs) \<Rightarrow> accept_result h recs ?ck"])
          (auto simp: worker_step_def Let_def accept_result_def split: option.splits)
    qed
  next
    case Returned
    with True show thesis by (intro same) (simp add: worker_step_def)
  qed
qed

definition within_limit :: "int option \<Rightarrow> query_all_state \<Rightarrow> bool" where
  "within_limit bound st =
     (request_limit (checker_of st) = bound
      \<and> (case bound of None \<Rightarrow> True | Some l \<Rightarrow> request_count (checker_of st) \<le> l))"

lemma within_limit_step: "within_limit bound st \<Longrightarrow> within_limit bound (worker_step net i st)"
  by (cases rule: worker_step_cases [of net i st]) (auto simp: within_limit_def split: option.splits)

definition hosts_once :: "string list \<Rightarrow> query_all_state \<Rightarrow> bool" where
  "hosts_once hs st =
     (mset (realhosts (checker_of st)) + mset (in_flight (workers st)) + mset (jobs st) \<subseteq># mset hs)"

lemma hosts_once_step: "hosts_once hs st \<Longrightarrow> hosts_once hs (worker_step net i st)"
proof (cases rule: worker_step_cases [of net i st])
  case ended
  then show "hosts_once hs st \<Longrightarrow> ?thesis" using in_flight_update [OF ended(1), of Returned] by (simp add: hosts_once_def)
next
  case (limited host rest)
  then show "hosts_once hs st \<Longrightarrow> ?thesis"
    using in_flight_update [OF limited(1), of Returned]
    by (auto simp: hosts_once_def dest: mset_subset_eq_insertD)
next
  case (issued host rest)
  then show "hosts_once hs st \<Longrightarrow> ?thesis"
    using in_flight_update [OF issued(1), of "Resolving host"] by (simp add: hosts_once_def)
next
  case (aborted host ck')
  have "in_flight (map (\<lambda>_. Returned) (workers st)) = []" by (simp add: in_flight_def)
  moreover have "mset (realhosts (checker_of st)) + mset (jobs st)
      \<subseteq># mset (realhosts (checker_of st)) + mset (in_flight (workers st)) + mset (jobs st)" by simp
  note subset_mset.order_trans [OF this, of "mset hs"]
  ultimately show "hosts_once hs st \<Longrightarrow> ?thesis"
    unfolding hosts_once_def aborted by (simp add: aborted(6))
next
  case (answered host ck')
  have upd: "mset (in_flight (workers st)) = add_mset host (mset (in_flight ((workers st)[i := Looping])))"
    using in_flight_update [OF answered(1), of Looping] answered(2) by simp
  from answered(6) show "hosts_once hs st \<Longrightarrow> ?thesis"
    unfolding hosts_once_def upd answered(3) by (auto dest: mset_subset_eq_insertD subset_mset.less_imp_le)
qed simp_all

definition accounted :: "nat \<Rightarrow> query_all_state \<Rightarrow> bool" where
  "accounted host_count st =
     (\<not> cancelled st \<longrightarrow>
        request_count (checker_of st) = 3 * int (completed_count (checker_of st) + length (in_flight (workers st)))
        \<and> (stop_reason (checker_of st) = None \<longrightarrow>
             completed_count (checker_of st) + length (in_flight (workers st)) + length (jobs st) = host_count
             \<and> (Returned \<in> set (workers st) \<longrightarrow> jobs st = [])))"

lemma accounted_step: "accounted host_count st \<Longrightarrow> accounted host_count (worker_step net i st)"
proof (cases rule: worker_step_cases [of net i st])
  case ended
  then show "accounted host_count st \<Longrightarrow> ?thesis"
    using in_flight_length [OF ended(1), of Returned] by (simp add: accounted_def)
next
  case (limited host rest)
  then show "accounted host_count st \<Longrightarrow> ?thesis"
    using in_flight_length [OF limited(1), of Returned] by (simp add: accounted_def)
next
  case (issued host rest)
  have "Returned \<in> set ((workers st)[i := Resolving host]) \<Longrightarrow> Returned \<in> set (workers st)"
    using set_update_subset_insert [of "workers st" i "Resolving host"] by auto
  with issued show "accounted host_count st \<Longrightarrow> ?thesis"
    using in_flight_length [OF issued(1), of "Resolving host"] by (auto simp: accounted_def)
next
  case (aborted host ck')
  then show ?thesis by (simp add: accounted_def)
next
  case (answered host ck')
  have "Returned \<in> set ((workers st)[i := Looping]) \<Longrightarrow> Returned \<in> set (workers st)"
    using set_update_subset_insert [of "workers st" i Looping] by auto
  with answered show "accounted host_count st \<Longrightarrow> ?thesis"
    using in_flight_length [OF answered(1), of Looping] by (auto simp: accounted_def)
qed simp_all

lemma run_workers_inv:
  "within_limit bound st \<and> hosts_once hs st \<and> accounted n st \<Longrightarrow>
     within_limit bound (run_workers net schedule st) \<and> hosts_once hs (run_workers net schedule st)
     \<and> accounted n (run_workers net schedule st)"
  unfolding run_workers_def
  by (induction schedule arbitrary: st) (simp_all add: within_limit_step hosts_once_step accounted_step)

lemma mset_subset_distinct:
  assumes "mset xs \<subseteq># mset ys" "distinct ys"
  shows "distinct xs \<and> set xs \<subseteq> set ys"
proof -
  obtain zs where "mset ys = mset (xs @ zs)" using assms(1) by (metis ex_mset mset_append mset_subset_eq_exists_conv)
  with assms(2) have "distinct (xs @ zs)" "set ys = set (xs @ zs)"
    by (metis mset_eq_imp_distinct_iff) (metis \<open>mset ys = mset (xs @ zs)\<close> mset_eq_setD)
  then show ?thesis by auto
qed

lemma all_returned_in_flight: "set ws \<subseteq> {Returned} \<Longrightarrow> in_flight ws = []"
  by (auto simp: in_flight_def)

lemma workers_step_length: "length (workers (worker_step net i st)) = length (workers st)"
  by (cases rule: worker_step_cases [of net i st]) simp_all

lemma run_workers_length: "length (workers (run_workers net schedule st)) = length (workers st)"
  unfolding run_workers_def by (induction schedule arbitrary: st) (simp_all add: workers_step_length)

text \<open>C14: under every schedule of the workers the requests stay within the limit and every host is
  resolved at most once; when all workers have returned without a stop reason or a cancellation, every
  host has been completed with exactly three requests.\<close>

theorem checker_accounts_for_every_host:
  assumes "new_checker hs conc bound runtime = Inr ck"
    and "st = run_workers net schedule (start_query_all ck)"
  shows "(\<forall>l. bound = JInt l \<longrightarrow> request_count (checker_of st) \<le> l)
    \<and> distinct (realhosts (checker_of st)) \<and> set (realhosts (checker_of st)) \<subseteq> set (checked_hosts hs)
    \<and> (\<not> cancelled st \<and> stop_reason (checker_of st) = None \<and> set (workers st) \<subseteq> {Returned} \<longrightarrow>
         completed_count (checker_of st) = length (checked_hosts hs)
         \<and> request_count (checker_of st) = 3 * int (length (checked_hosts hs)))"
proof -
  from assms(1) have ck: "hosts ck = checked_hosts hs" "request_limit ck = positive_int bound" "request_count ck = 0"
    "realhosts ck = []" "completed_count ck = 0" "stop_reason ck = None" "0 < concurrency ck"
    "bound = JInt l \<Longrightarrow> positive_int bound = Some l \<and> 0 < l" for l
    by (auto simp: new_checker_def positive_int_def split: option.splits if_splits json.splits)
  let ?s = "start_query_all ck"
  have none: "in_flight (workers ?s) = []" by (simp add: start_query_all_def in_flight_def)
  have "within_limit (positive_int bound) ?s"
    using ck(2,3) by (auto simp: within_limit_def start_query_all_def positive_int_def split: json.splits option.splits)
  moreover have "hosts_once (checked_hosts hs) ?s"
    using none ck(1,4) by (simp add: hosts_once_def start_query_all_def)
  moreover have "accounted (length (checked_hosts hs)) ?s"
    using none ck(1,3,5) by (auto simp: accounted_def start_query_all_def)
  ultimately have inv: "within_limit (positive_int bound) st" "hosts_once (checked_hosts hs) st"
    "accounted (length (checked_hosts hs)) st"
    using run_workers_inv [of "positive_int bound" ?s] unfolding assms(2) by blast+
  have "mset (realhosts (checker_of st)) \<subseteq># mset (checked_hosts hs)"
    using inv(2) unfolding hosts_once_def by (meson mset_subset_eq_add_left subset_mset.order_trans)
  then have once: "distinct (realhosts (checker_of st)) \<and> set (realhosts (checker_of st)) \<subseteq> set (checked_hosts hs)"
    by (rule mset_subset_distinct) (simp add: checked_hosts_def)
  have busy: "workers st = [] \<Longrightarrow> checked_hosts hs = []"
    using run_workers_length [of net schedule ?s] ck(1,7) unfolding assms(2)
    by (auto simp: start_query_all_def min_def split: if_splits)
  have "jobs st = []" if "\<not> cancelled st" "stop_reason (checker_of st) = None" "set (workers st) \<subseteq> {Returned}"
  proof (cases "workers st")
    case Nil
    with busy inv(3) that show ?thesis by (auto simp: accounted_def)
  next
    case (Cons w ws)
    with inv(3) that show ?thesis by (auto simp: accounted_def)
  qed
  with once inv ck(8) show ?thesis
    by (auto simp: within_limit_def accounted_def all_returned_in_flight)
qed

lemma example_check:
  "case new_checker [''B.example.com.'', ''a.example.com'', ''b.example.com''] (JInt 2) (JInt 9) JNull of
     Inl _ \<Rightarrow> False
   | Inr ck \<Rightarrow> (let st = run_workers (\<lambda>_ _. Answer []) [0, 1, 0, 1, 0, 1] (start_query_all ck)
       in \<not> cancelled st \<and> stop_reason (checker_of st) = None \<and> workers st = [Returned, Returned])"
  by code_simp

lemma checker_accounts_for_every_host_witness:
  "\<exists>ck. new_checker [''B.example.com.'', ''a.example.com'', ''b.example.com''] (JInt 2) (JInt 9) JNull = Inr ck
     \<and> completed_count (checker_of (run_workers (\<lambda>_ _. Answer []) [0, 1, 0, 1, 0, 1] (start_query_all ck))) = 2"
proof -
  obtain ck where ck: "new_checker [''B.example.com.'', ''a.example.com'', ''b.example.com''] (JInt 2) (JInt 9) JNull = Inr ck"
    using example_check by (auto split: sum.splits)
  have "length (checked_hosts [''B.example.com.'', ''a.example.com'', ''b.example.com'']) = 2" by code_simp
  with checker_accounts_for_every_host [OF ck refl, of "\<lambda>_ _. Answer []" "[0, 1, 0, 1, 0, 1]"] example_check ck
  show ?thesis by (simp add: Let_def)
qed

end
