(* ===== verification/Recursive_Dns.thy ===== *)
theory Recursive_Dns
  imports Dns_Consensus
begin

text \<open>
  \<open>recursive_dns.py\<close>: breadth-first discovery of names below the seeds, in batches of fifty
  candidates drawn from a generator. The clock readings and the moment at which a timed wait is cut
  off are parameters: \<open>cutoff k\<close> is None when the wait after the \<open>k\<close>-th reading completes in time, and
  otherwise says after how many of its steps each query of the wait is cancelled. What the cancelled
  queries have taken from the budget is computed by the queries themselves.
\<close>

section \<open>Limits and results\<close>

record recursive_limits =
  depth :: int
  query_limit :: "int option"
  runtime :: "rat option"

definition new_limits :: "int \<Rightarrow> json \<Rightarrow> json \<Rightarrow> recursive_limits res" where
  "new_limits d queries seconds =
     (let q = (case queries of JInt i \<Rightarrow> (if 0 < i then Some i else None) | _ \<Rightarrow> None);
          s = (case seconds of
                 JInt i \<Rightarrow> (if 0 < i then Some (of_int i) else None)
               | JFloat (Some x) \<Rightarrow> (if 0 < x then Some x else None)
               | _ \<Rightarrow> None)
      in if d \<le> 0 then Inl (ValueError ''recursive DNS depth must be greater than zero'')
         else if queries \<noteq> JNull \<and> q = None
         then Inl (ValueError ''recursive DNS query limit must be greater than zero'')
         else if seconds \<noteq> JNull \<and> s = None
         then Inl (ValueError ''recursive DNS runtime must be finite and greater than zero'')
         else Inr \<lparr>depth = d, query_limit = q, runtime = s\<rparr>)"

record finding =
  found_name :: string
  found_parent :: string
  found_records :: host_dns_records
  found_ptrs :: "string list"

record classification =
  class_name :: string
  class_parent :: string
  class_verdict :: addressability
  class_records :: host_dns_records
  class_ptrs :: "string list"

record recursive_result =
  result_findings :: "finding list"
  query_count :: int
  result_depth :: int
  result_zero_yield :: nat
  result_reason :: string
  result_classifications :: "classification list"

definition normalize_label :: "string \<Rightarrow> string option" where
  "normalize_label v =
     (let label = lower (strip v)
      in if label = [] \<or> CHR ''.'' \<in> set label \<or> 63 < length label \<or> starts_with ''-'' label \<or> ends_with ''-'' label
           \<or> \<not> list_all (\<lambda>c. is_alnum c \<or> c = CHR ''-'' \<or> c = CHR ''_'') label
         then None else Some label)"

section \<open>State of a discovery\<close>

record world =
  clock :: "nat \<Rightarrow> rat"
  cutoff :: "nat \<Rightarrow> (nat \<Rightarrow> nat) option"
  uuid_names :: "nat \<Rightarrow> string"

record discovery =
  dns_budget :: budget
  seen_names :: "string list"
  reason :: string
  ticks :: nat
  findings :: "finding list"
  classifications :: "classification list"
  zero_yield :: nat
  depth_reached :: int
  next_frontier :: "string list"
  stopped :: bool

definition expired :: "world \<Rightarrow> rat option \<Rightarrow> discovery \<Rightarrow> bool \<times> discovery" where
  "expired w deadline st =
     (case deadline of
        None \<Rightarrow> (False, st)
      | Some d \<Rightarrow> (d \<le> clock w (ticks st), st\<lparr>ticks := Suc (ticks st)\<rparr>))"

fun add_seeds :: "world \<Rightarrow> rat option \<Rightarrow> string \<Rightarrow> json list \<Rightarrow> discovery \<Rightarrow> discovery" where
  "add_seeds w deadline target [] st = st"
| "add_seeds w deadline target (v # vs) st =
     (let (late, st') = expired w deadline st
      in if late then st'\<lparr>reason := ''runtime-limit''\<rparr>
         else add_seeds w deadline target vs
                (case normalize_scoped_hostname v target of
                   Some c \<Rightarrow> st'\<lparr>seen_names := List.insert c (seen_names st')\<rparr>
                 | None \<Rightarrow> st'))"

section \<open>The candidate generator (iter_candidates)\<close>

record generator =
  labels_left :: "string list"
  labels_seen :: "string list"
  open_label :: "(string \<times> string list) option"

text \<open>Up to \<open>k\<close> candidates of one label; the parents that are left, None after a runtime stop.\<close>

fun pull_parents :: "world \<Rightarrow> rat option \<Rightarrow> nat \<Rightarrow> string \<Rightarrow> string list \<Rightarrow> discovery
    \<Rightarrow> (string \<times> string) list \<times> string list option \<times> discovery" where
  "pull_parents w deadline 0 label ps st = ([], Some ps, st)"
| "pull_parents w deadline (Suc k) label [] st = ([], Some [], st)"
| "pull_parents w deadline (Suc k) label (p # ps) st =
     (let (late, st') = expired w deadline st; candidate = label @ ''.'' @ p
      in if late then ([], None, st'\<lparr>reason := ''runtime-limit''\<rparr>)
         else if candidate \<in> set (seen_names st') then pull_parents w deadline (Suc k) label ps st'
         else (let (items, rest, st'') = pull_parents w deadline k label ps
                     (st'\<lparr>seen_names := candidate # seen_names st'\<rparr>)
               in ((candidate, p) # items, rest, st'')))"

text \<open>Up to \<open>k\<close> candidates of the labels that are left; None when the generator has returned.\<close>

fun pull_labels :: "world \<Rightarrow> rat option \<Rightarrow> string list \<Rightarrow> nat \<Rightarrow> string list \<Rightarrow> string list \<Rightarrow> discovery
    \<Rightarrow> (string \<times> string) list \<times> generator option \<times> discovery" where
  "pull_labels w deadline parents k [] known st = ([], None, st)"
| "pull_labels w deadline parents k (v # vs) known st =
     (let (late, st') = expired w deadline st
      in if late then ([], None, st'\<lparr>reason := ''runtime-limit''\<rparr>)
         else (case normalize_label v of
                 None \<Rightarrow> pull_labels w deadline parents k vs known st'
               | Some label \<Rightarrow>
                   (if label \<in> set known then pull_labels w deadline parents k vs known st'
                    else (let (items, rest, st'') = pull_parents w deadline k label parents st'
                          in case rest of
                               None \<Rightarrow> (items, None, st'')
                             | Some ps \<Rightarrow>
                                 (if length items = k
                                  then (items, Some \<lparr>labels_left = vs, labels_seen = label # known,
                                                     open_label = Some (label, ps)\<rparr>, st'')
                                  else (let (more, g, st''') = pull_labels w deadline parents (k - length items) vs
                                              (label # known) st''
                                        in (items @ more, g, st''')))))))"

text \<open>\<open>tuple(islice(candidates, k))\<close> for \<open>0 < k\<close>\<close>

definition next_batch :: "world \<Rightarrow> rat option \<Rightarrow> string list \<Rightarrow> nat \<Rightarrow> generator \<Rightarrow> discovery
    \<Rightarrow> (string \<times> string) list \<times> generator option \<times> discovery" where
  "next_batch w deadline parents k g st =
     (case open_label g of
        None \<Rightarrow> pull_labels w deadline parents k (labels_left g) (labels_seen g) st
      | Some (label, ps) \<Rightarrow>
          (let (items, rest, st') = pull_parents w deadline k label ps st
           in case rest of
                None \<Rightarrow> (items, None, st')
              | Some ps' \<Rightarrow>
                  (if length items = k then (items, Some (g\<lparr>open_label := Some (label, ps')\<rparr>), st')
                   else (let (more, g', st'') = pull_labels w deadline parents (k - length items)
                               (labels_left g) (labels_seen g) st'
                         in (items @ more, g', st'')))))"

section \<open>Validation and reverse names\<close>

text \<open>\<open>(consensus,) = await validate_dns_candidates(...)\<close> under the deadline.\<close>

definition budget_or :: "budget \<Rightarrow> budget option \<Rightarrow> budget" where
  "budget_or b bo = (case bo of Some b' \<Rightarrow> b' | None \<Rightarrow> b)"

definition cut_validation :: "world \<Rightarrow> rat option \<Rightarrow> string \<Rightarrow> vantage list \<Rightarrow> string \<Rightarrow> discovery \<Rightarrow> budget option" where
  "cut_validation w deadline target resolvers candidate st =
     (case (if deadline = None then None else cutoff w (ticks st)) of
        None \<Rightarrow> None
      | Some steps \<Rightarrow>
          map_option (budget_or (dns_budget st))
            (cancel_validation (uuid_names w) steps target [candidate] resolvers (Some (dns_budget st))))"

definition validate_candidate :: "world \<Rightarrow> rat option \<Rightarrow> string \<Rightarrow> vantage list \<Rightarrow> string \<Rightarrow> discovery
    \<Rightarrow> (candidate_consensus option \<times> discovery) res" where
  "validate_candidate w deadline target resolvers candidate st =
     (let (late, st') = expired w deadline st
      in if late then Inr (None, st'\<lparr>reason := ''runtime-limit''\<rparr>)
         else (case cut_validation w deadline target resolvers candidate st' of
                 Some b \<Rightarrow> Inr (None, st'\<lparr>dns_budget := b, reason := ''runtime-limit''\<rparr>)
               | None \<Rightarrow>
                   bindR (validate_dns_candidates (uuid_names w) target [candidate] resolvers (Some (dns_budget st')))
                     (\<lambda>(results, bo).
                        case results of
                          [consensus] \<Rightarrow>
                            (let b = budget_or (dns_budget st') bo; st'' = st'\<lparr>dns_budget := b\<rparr>
                             in if blocked b then Inr (None, st''\<lparr>reason := ''query-limit''\<rparr>)
                                else Inr (Some consensus, st''))
                        | _ \<Rightarrow> Inl (ValueError ''not enough values to unpack (expected 1, got 0)''))))"

fun ptr_answers :: "vantage list \<Rightarrow> string \<Rightarrow> budget option \<Rightarrow> string list res list \<times> budget option" where
  "ptr_answers [] address bo = ([], bo)"
| "ptr_answers (v # vs) address bo =
     (let (r, bo') = vantage_ptr v address bo; (rs, bo'') = ptr_answers vs address bo' in (r # rs, bo''))"

definition cut_ptrs :: "world \<Rightarrow> rat option \<Rightarrow> vantage list \<Rightarrow> string \<Rightarrow> discovery \<Rightarrow> budget option" where
  "cut_ptrs w deadline resolvers address st =
     (case (if deadline = None then None else cutoff w (ticks st)) of
        None \<Rightarrow> None
      | Some steps \<Rightarrow>
          Some (budget_or (dns_budget st)
            (fold (\<lambda>(i, v) bo. ptr_cut v address (steps i) bo) (enumerate 0 resolvers) (Some (dns_budget st)))))"

fun collect_ptrs :: "string list res list \<Rightarrow> string list res" where
  "collect_ptrs [] = Inr []"
| "collect_ptrs (Inl e # rs) = (if e = CancelledError then Inl CancelledError else collect_ptrs rs)"
| "collect_ptrs (Inr ns # rs) = bindR (collect_ptrs rs) (\<lambda>more. Inr (ns @ more))"

fun resolve_ptrs :: "world \<Rightarrow> rat option \<Rightarrow> vantage list \<Rightarrow> string list \<Rightarrow> string list \<Rightarrow> discovery
    \<Rightarrow> (string list \<times> discovery) res" where
  "resolve_ptrs w deadline resolvers found [] st = Inr (canon found, st)"
| "resolve_ptrs w deadline resolvers found (address # rest) st =
     (let (late, st') = expired w deadline st
      in if late then Inr (canon found, st'\<lparr>reason := ''runtime-limit''\<rparr>)
         else (case cut_ptrs w deadline resolvers address st' of
                 Some b \<Rightarrow> Inr (canon found, st'\<lparr>dns_budget := b, reason := ''runtime-limit''\<rparr>)
               | None \<Rightarrow>
                   (let (answers, bo) = ptr_answers resolvers address (Some (dns_budget st'));
                        b = budget_or (dns_budget st') bo;
                        st'' = st'\<lparr>dns_budget := b\<rparr>
                    in bindR (collect_ptrs answers) (\<lambda>names.
                         if blocked b then Inr (canon (found @ names), st''\<lparr>reason := ''query-limit''\<rparr>)
                         else resolve_ptrs w deadline resolvers (found @ names) rest st''))))"

section \<open>The discovery\<close>

definition limit_reached :: "discovery \<Rightarrow> bool" where
  "limit_reached st = (reason st = ''query-limit'' \<or> reason st = ''runtime-limit'')"

fun check_seeds :: "world \<Rightarrow> rat option \<Rightarrow> string \<Rightarrow> vantage list \<Rightarrow> string list \<Rightarrow> discovery
    \<Rightarrow> (string list \<times> discovery) res" where
  "check_seeds w deadline target resolvers [] st = Inr ([], st)"
| "check_seeds w deadline target resolvers (seed # rest) st =
     bindR (validate_candidate w deadline target resolvers seed st) (\<lambda>(consensus, st').
       case consensus of
         None \<Rightarrow> Inr ([], st')
       | Some c \<Rightarrow>
           bindR (check_seeds w deadline target resolvers rest st') (\<lambda>(frontier, st'').
             Inr (if verdict c = CURRENT then seed # frontier else frontier, st'')))"

definition retained :: "candidate_consensus \<Rightarrow> bool" where
  "retained c =
     (verdict c \<noteq> NOT_CURRENT \<or> addresses (consensus_records c) \<noteq> [] \<or> rec_cnames (consensus_records c) \<noteq> []
      \<or> list_ex (\<lambda>v. wildcard_depth v = None \<and> response_error (response v) = None
           \<and> rcode (response v) \<in> {''NOERROR'', ''NODATA''}) (validations c))"

definition record_candidate :: "string \<Rightarrow> string \<Rightarrow> candidate_consensus \<Rightarrow> string list \<Rightarrow> discovery \<Rightarrow> discovery" where
  "record_candidate candidate parent c ptrs st =
     (let st1 = (if retained c
                 then st\<lparr>classifications := classifications st @
                   [\<lparr>class_name = candidate, class_parent = parent, class_verdict = verdict c,
                     class_records = consensus_records c, class_ptrs = ptrs\<rparr>]\<rparr>
                 else st)
      in if verdict c = CURRENT
         then st1\<lparr>findings := findings st1 @ [\<lparr>found_name = candidate, found_parent = parent,
                    found_records = consensus_records c, found_ptrs = ptrs\<rparr>],
                  next_frontier := next_frontier st1 @ [candidate]\<rparr>
         else st1)"

text \<open>The candidates of one batch; the number of candidates found is the yield of the batch.\<close>

fun run_batch :: "world \<Rightarrow> rat option \<Rightarrow> string \<Rightarrow> vantage list \<Rightarrow> int \<Rightarrow> (string \<times> string) list \<Rightarrow> nat \<Rightarrow> discovery
    \<Rightarrow> (nat \<times> discovery) res" where
  "run_batch w deadline target resolvers d [] yielded st = Inr (yielded, st)"
| "run_batch w deadline target resolvers d ((candidate, parent) # rest) yielded st =
     bindR (validate_candidate w deadline target resolvers candidate st) (\<lambda>(consensus, st1).
       case consensus of
         None \<Rightarrow> Inr (yielded, st1\<lparr>stopped := True\<rparr>)
       | Some c \<Rightarrow>
           bindR (if verdict c = CURRENT
                  then resolve_ptrs w deadline resolvers [] (addresses (consensus_records c)) (st1\<lparr>depth_reached := d\<rparr>)
                  else Inr ([], st1\<lparr>depth_reached := d\<rparr>)) (\<lambda>(ptrs, st2).
             let st3 = record_candidate candidate parent c ptrs st2;
                 yielded' = (if verdict c = CURRENT then Suc yielded else yielded)
             in if limit_reached st3 then Inr (yielded', st3\<lparr>stopped := True\<rparr>)
                else run_batch w deadline target resolvers d rest yielded' st3))"

text \<open>What a generator can still produce bounds the batches of one depth.\<close>

definition generator_size :: "string list \<Rightarrow> generator \<Rightarrow> nat" where
  "generator_size parents g =
     length (labels_left g) * Suc (length parents) + (case open_label g of None \<Rightarrow> 0 | Some (label, ps) \<Rightarrow> length ps)"

lemma pull_parents_size:
  "pull_parents w deadline k label ps st = (items, Some ps', st') \<Longrightarrow> length items + length ps' \<le> length ps"
proof (induction w deadline k label ps st arbitrary: items ps' st' rule: pull_parents.induct)
  case (3 w deadline k label p ps st)
  then show ?case by (fastforce simp: Let_def intro: le_SucI split: prod.splits if_splits)
qed auto

lemma pull_labels_size:
  "pull_labels w deadline parents k vs known st = (items, Some g, st') \<Longrightarrow>
     generator_size parents g + length items \<le> length vs * Suc (length parents)"
proof (induction w deadline parents k vs known st arbitrary: items g st' rule: pull_labels.induct)
  case (2 w deadline parents k v vs known st)
  obtain late st1 where late: "expired w deadline st = (late, st1)" by fastforce
  show ?case
  proof (cases "late \<or> normalize_label v = None \<or> the (normalize_label v) \<in> set known")
    case True
    with 2 late show ?thesis by (fastforce simp: Let_def split: option.splits if_splits)
  next
    case False
    then obtain label where label: "normalize_label v = Some label" "label \<notin> set known" "\<not> late" by auto
    obtain its rest st2 where p: "pull_parents w deadline k label parents st1 = (its, rest, st2)" by (metis prod_cases3)
    with 2(4) late label obtain ps where ps: "rest = Some ps" by (cases rest) (auto simp: Let_def)
    from pull_parents_size [OF p [unfolded ps]] have le: "length its + length ps \<le> length parents" .
    show ?thesis
    proof (cases "length its = k")
      case True
      with 2(4) late label p ps le show ?thesis by (auto simp: Let_def generator_size_def)
    next
      case k: False
      obtain more g1 st3 where m: "pull_labels w deadline parents (k - length its) vs (label # known) st2 = (more, g1, st3)"
        by (metis prod_cases3)
      with 2(4) late label p ps k have r: "items = its @ more" "g1 = Some g" by (auto simp: Let_def)
      have "generator_size parents g + length more \<le> length vs * Suc (length parents)"
        by (rule 2(3) [OF _ refl _ label(1) label(2) _ refl refl _ k]) (use late label p ps m r in auto)
      with r(1) le show ?thesis by simp
    qed
  qed
qed simp

lemma next_batch_size:
  "next_batch w deadline parents k g st = (items, Some g', st') \<Longrightarrow>
     generator_size parents g' + length items \<le> generator_size parents g"
  by (auto simp: next_batch_def Let_def split: option.splits prod.splits if_splits
      dest!: pull_parents_size pull_labels_size simp: generator_size_def)

lemma next_batch_less:
  "(items, Some g', st') = next_batch w deadline parents k g st \<Longrightarrow> items \<noteq> [] \<Longrightarrow>
     generator_size parents g' < generator_size parents g"
  using next_batch_size [of w deadline parents k g st items g' st'] by (cases items) auto

function run_batches :: "world \<Rightarrow> rat option \<Rightarrow> string \<Rightarrow> vantage list \<Rightarrow> int \<Rightarrow> string list \<Rightarrow> generator \<Rightarrow> discovery
    \<Rightarrow> discovery res" where
  "run_batches w deadline target resolvers d parents g st =
     (case next_batch w deadline parents 50 g st of
        (batch, rest, st1) \<Rightarrow>
          (if batch = [] then Inr st1
           else (case run_batch w deadline target resolvers d batch 0 st1 of
                   Inl e \<Rightarrow> Inl e
                 | Inr (yielded, st2) \<Rightarrow>
                     (if stopped st2 then Inr st2
                      else (let st3 = (if yielded = 0 then st2\<lparr>zero_yield := Suc (zero_yield st2)\<rparr> else st2)
                            in case rest of
                                 None \<Rightarrow> Inr st3
                               | Some g' \<Rightarrow> run_batches w deadline target resolvers d parents g' st3)))))"
  by pat_completeness auto
termination
  by (relation "measure (\<lambda>(w, deadline, target, resolvers, d, parents, g, st). generator_size parents g)")
    (auto intro: next_batch_less)

declare run_batches.simps [simp del]

text \<open>The depths \<open>d, d + 1, ...\<close>, at most \<open>n\<close> of them; running out of depths is the depth limit.\<close>

fun run_depths :: "world \<Rightarrow> rat option \<Rightarrow> string \<Rightarrow> vantage list \<Rightarrow> string list \<Rightarrow> nat \<Rightarrow> int \<Rightarrow> string list \<Rightarrow> discovery
    \<Rightarrow> discovery res" where
  "run_depths w deadline target resolvers labels 0 d frontier st = Inr (st\<lparr>reason := ''depth-limit''\<rparr>)"
| "run_depths w deadline target resolvers labels (Suc n) d frontier st =
     (if stopped st \<or> frontier = [] then Inr st
      else bindR (run_batches w deadline target resolvers d (sort frontier)
                    \<lparr>labels_left = labels, labels_seen = [], open_label = None\<rparr> (st\<lparr>next_frontier := []\<rparr>)) (\<lambda>st1.
        if limit_reached st1 \<or> stopped st1 then Inr (st1\<lparr>stopped := True\<rparr>)
        else if next_frontier st1 = [] then Inr (st1\<lparr>reason := ''frontier-exhausted''\<rparr>)
        else run_depths w deadline target resolvers labels n (d + 1) (next_frontier st1) st1))"

definition discover_recursive_dns :: "world \<Rightarrow> string \<Rightarrow> json list \<Rightarrow> string list \<Rightarrow> vantage list \<Rightarrow> recursive_limits
    \<Rightarrow> recursive_result res" where
  "discover_recursive_dns w target seeds labels resolvers limits =
     (let normalized_target = lower_name target
      in if normalized_target = [] then Inl (ValueError ''target must not be empty'')
         else bindR (new_budget (query_limit limits)) (\<lambda>b.
           let deadline = map_option (\<lambda>s. clock w 0 + s) (runtime limits);
               st0 = \<lparr>dns_budget = b, seen_names = [], reason = ''frontier-exhausted'', ticks = 1, findings = [],
                      classifications = [], zero_yield = 0, depth_reached = 0, next_frontier = [], stopped = False\<rparr>;
               st1 = add_seeds w deadline normalized_target seeds st0
           in bindR (check_seeds w deadline normalized_target resolvers (sort (seen_names st1)) st1) (\<lambda>(frontier, st2).
              bindR (run_depths w deadline normalized_target resolvers labels (nat (depth limits)) 1 frontier
                       (st2\<lparr>stopped := limit_reached st2\<rparr>)) (\<lambda>st3.
                Inr \<lparr>result_findings = findings st3, query_count = used (dns_budget st3), result_depth = depth_reached st3,
                     result_zero_yield = zero_yield st3, result_reason = reason st3,
                     result_classifications = classifications st3\<rparr>))))"

section \<open>What the generator produces\<close>

definition child_of :: "string list \<Rightarrow> string list \<Rightarrow> string \<Rightarrow> string \<Rightarrow> bool" where
  "child_of labels parents c p \<longleftrightarrow>
     p \<in> set parents \<and> (\<exists>v\<in>set labels. \<exists>l. normalize_label v = Some l \<and> c = l @ ''.'' @ p)"

text \<open>The progress that drawing candidates and reading the clock leave alone.\<close>

definition same_progress :: "discovery \<Rightarrow> discovery \<Rightarrow> bool" where
  "same_progress st st' \<longleftrightarrow>
     findings st' = findings st \<and> next_frontier st' = next_frontier st \<and> depth_reached st' = depth_reached st
     \<and> stopped st' = stopped st \<and> (reason st' = reason st \<or> reason st' = ''runtime-limit'')"

definition drawn :: "string list \<Rightarrow> string list \<Rightarrow> discovery \<Rightarrow> (string \<times> string) list \<Rightarrow> discovery \<Rightarrow> bool" where
  "drawn labels parents st items st' \<longleftrightarrow>
     same_progress st st' \<and> distinct (map fst items) \<and> set (map fst items) \<inter> set (seen_names st) = {}
     \<and> set (seen_names st') = set (seen_names st) \<union> set (map fst items)
     \<and> (\<forall>(c, p)\<in>set items. child_of labels parents c p)"

definition generator_ok :: "string list \<Rightarrow> string list \<Rightarrow> generator \<Rightarrow> bool" where
  "generator_ok labels parents g \<longleftrightarrow>
     set (labels_left g) \<subseteq> set labels
     \<and> (case open_label g of
          None \<Rightarrow> True
        | Some (l, ps) \<Rightarrow> set ps \<subseteq> set parents \<and> (\<exists>v\<in>set labels. normalize_label v = Some l))"

lemma same_progress_refl [simp]: "same_progress st st"
  by (simp add: same_progress_def)

lemma same_progress_trans: "same_progress st st1 \<Longrightarrow> same_progress st1 st2 \<Longrightarrow> same_progress st st2"
  by (auto simp: same_progress_def)

lemma expired_state:
  "expired w deadline st = (late, st') \<Longrightarrow> st' = st \<or> st' = st\<lparr>ticks := Suc (ticks st)\<rparr>"
  by (auto simp: expired_def split: option.splits)

lemma expired_facts:
  assumes "expired w deadline st = (late, st')"
  shows "same_progress st st'" "seen_names st' = seen_names st" "same_progress st (st'\<lparr>reason := ''runtime-limit''\<rparr>)"
    "dns_budget st' = dns_budget st" "reason st' = reason st"
  using expired_state [OF assms] by (auto simp: same_progress_def)

lemma drawn_Nil: "same_progress st st' \<Longrightarrow> set (seen_names st') = set (seen_names st) \<Longrightarrow> drawn labels parents st [] st'"
  by (simp add: drawn_def)

lemma drawn_append:
  "drawn labels parents st xs st1 \<Longrightarrow> drawn labels parents st1 ys st2 \<Longrightarrow> drawn labels parents st (xs @ ys) st2"
  unfolding drawn_def by (auto intro: same_progress_trans)

lemma drawn_tick:
  "expired w deadline st = (late, st1) \<Longrightarrow> drawn labels parents st1 xs st2 \<Longrightarrow> drawn labels parents st xs st2"
  using expired_facts [of w deadline st late st1] unfolding drawn_def by (auto intro: same_progress_trans)

lemma pull_parents_drawn:
  assumes "pull_parents w deadline k label ps st = (items, rest, st')" "set ps \<subseteq> set parents"
    and "\<exists>v\<in>set labels. normalize_label v = Some label"
  shows "drawn labels parents st items st' \<and> (\<forall>ps'. rest = Some ps' \<longrightarrow> set ps' \<subseteq> set ps)"
  using assms
proof (induction w deadline k label ps st arbitrary: items rest st' rule: pull_parents.induct)
  case (3 w deadline k label p ps st)
  obtain late st1 where late: "expired w deadline st = (late, st1)" by fastforce
  note e = expired_facts [OF late]
  let ?c = "label @ ''.'' @ p"
  show ?case
  proof (cases "late \<or> ?c \<in> set (seen_names st1)")
    case True
    show ?thesis
    proof (cases late)
      case True
      with 3(3) late e show ?thesis by (auto simp: Let_def intro: drawn_Nil)
    next
      case False
      with True 3(3) late have p: "pull_parents w deadline (Suc k) label ps st1 = (items, rest, st')"
        by (simp add: Let_def)
      have "drawn labels parents st1 items st' \<and> (\<forall>ps'. rest = Some ps' \<longrightarrow> set ps' \<subseteq> set ps)"
        using 3(1) [OF late [symmetric] refl refl _ _ p] 3(4,5) False True by auto
      then show ?thesis using drawn_tick [OF late] by auto
    qed
  next
    case False
    let ?st = "st1\<lparr>seen_names := ?c # seen_names st1\<rparr>"
    obtain its r st2 where p: "pull_parents w deadline k label ps ?st = (its, r, st2)" by (metis prod_cases3)
    have IH: "drawn labels parents ?st its st2 \<and> (\<forall>ps'. r = Some ps' \<longrightarrow> set ps' \<subseteq> set ps)"
      using 3(2) [OF late [symmetric] refl refl _ _ p] 3(4,5) False by auto
    have "child_of labels parents ?c p" using 3(4,5) by (auto simp: child_of_def)
    with False have "drawn labels parents st1 [(?c, p)] ?st" by (auto simp: drawn_def same_progress_def)
    from drawn_append [OF this conjunct1 [OF IH]] have "drawn labels parents st ((?c, p) # its) st2"
      by (simp add: drawn_tick [OF late])
    with 3(3) late p False IH show ?thesis by (auto simp: Let_def)
  qed
qed (auto intro: drawn_Nil)

lemma pull_labels_drawn:
  assumes "pull_labels w deadline parents k vs known st = (items, g, st')" "set vs \<subseteq> set labels"
  shows "drawn labels parents st items st' \<and> (\<forall>g'. g = Some g' \<longrightarrow> generator_ok labels parents g')"
  using assms
proof (induction w deadline parents k vs known st arbitrary: items g st' rule: pull_labels.induct)
  case (2 w deadline parents k v vs known st)
  obtain late st1 where late: "expired w deadline st = (late, st1)" by fastforce
  note e = expired_facts [OF late]
  show ?case
  proof (cases "late \<or> normalize_label v = None \<or> the (normalize_label v) \<in> set known")
    case True
    show ?thesis
    proof (cases late)
      case True
      with 2(4) late e show ?thesis by (auto simp: Let_def intro: drawn_Nil)
    next
      case nlate: False
      with True 2(4) late have p: "pull_labels w deadline parents k vs known st1 = (items, g, st')"
        by (auto simp: Let_def split: option.splits)
      have "drawn labels parents st1 items st' \<and> (\<forall>g'. g = Some g' \<longrightarrow> generator_ok labels parents g')"
      proof (cases "normalize_label v")
        case None
        show ?thesis using 2(1) [OF late [symmetric] refl nlate None p] 2(5) by auto
      next
        case (Some l)
        with True nlate have "l \<in> set known" by auto
        from 2(2) [OF late [symmetric] refl nlate Some this p] 2(5) show ?thesis by auto
      qed
      then show ?thesis using drawn_tick [OF late] by auto
    qed
  next
    case False
    then obtain label where label: "normalize_label v = Some label" "label \<notin> set known" "\<not> late" by auto
    obtain its rest st2 where p: "pull_parents w deadline k label parents st1 = (its, rest, st2)" by (metis prod_cases3)
    have some: "\<exists>v\<in>set labels. normalize_label v = Some label" using label(1) 2(5) by auto
    from pull_parents_drawn [OF p _ some, of parents]
    have d: "drawn labels parents st1 its st2" "\<forall>ps'. rest = Some ps' \<longrightarrow> set ps' \<subseteq> set parents" by auto
    show ?thesis
    proof (cases "rest = None \<or> length its = k")
      case True
      with 2(4,5) late label p d some show ?thesis
        by (auto simp: Let_def generator_ok_def intro: drawn_tick [OF late] split: option.splits if_splits)
    next
      case k: False
      then obtain ps where ps: "rest = Some ps" by auto
      obtain more g1 st3 where m: "pull_labels w deadline parents (k - length its) vs (label # known) st2 = (more, g1, st3)"
        by (metis prod_cases3)
      with 2(4) late label p ps k have r: "items = its @ more" "g1 = g" "st3 = st'" by (auto simp: Let_def)
      have "drawn labels parents st2 more st3 \<and> (\<forall>g'. g1 = Some g' \<longrightarrow> generator_ok labels parents g')"
        using 2(3) [OF late [symmetric] refl _ label(1) label(2) p [symmetric] refl refl ps _ m] k label(3) 2(5) by auto
      with r d(1) show ?thesis by (auto intro: drawn_tick [OF late] drawn_append)
    qed
  qed
qed (auto intro: drawn_Nil)

lemma next_batch_drawn:
  assumes "next_batch w deadline parents k g st = (items, r, st')" "generator_ok labels parents g"
  shows "drawn labels parents st items st' \<and> (\<forall>g'. r = Some g' \<longrightarrow> generator_ok labels parents g')"
proof (cases "open_label g")
  case None
  with assms show ?thesis
    using pull_labels_drawn [of w deadline parents k "labels_left g" "labels_seen g" st items r st' labels]
    by (simp add: next_batch_def generator_ok_def)
next
  case (Some lp)
  then obtain label ps where lp: "open_label g = Some (label, ps)" by (cases lp) auto
  obtain its rest st1 where p: "pull_parents w deadline k label ps st = (its, rest, st1)" by (metis prod_cases3)
  have ok: "set ps \<subseteq> set parents" "\<exists>v\<in>set labels. normalize_label v = Some label" "set (labels_left g) \<subseteq> set labels"
    using assms(2) lp by (auto simp: generator_ok_def)
  note d = pull_parents_drawn [OF p ok(1,2)]
  show ?thesis
  proof (cases "rest = None \<or> length its = k")
    case True
    with assms(1) lp p d ok show ?thesis
      by (auto simp: next_batch_def Let_def generator_ok_def split: option.splits if_splits)
  next
    case False
    obtain more g1 st2 where m: "pull_labels w deadline parents (k - length its) (labels_left g) (labels_seen g) st1 = (more, g1, st2)"
      by (metis prod_cases3)
    with pull_labels_drawn [OF m ok(3)] assms(1) lp p d False show ?thesis
      by (auto simp: next_batch_def Let_def intro: drawn_append split: option.splits)
  qed
qed

section \<open>Findings\<close>

definition in_tree :: "string \<Rightarrow> string \<Rightarrow> bool" where
  "in_tree target n \<longleftrightarrow> suffix (split_on CHR ''.'' target) (split_on CHR ''.'' n)"

definition finding_ok :: "string list \<Rightarrow> finding \<Rightarrow> bool" where
  "finding_ok labels f \<longleftrightarrow>
     (\<exists>v\<in>set labels. \<exists>l. normalize_label v = Some l \<and> found_name f = l @ ''.'' @ found_parent f)"

definition stop_reasons :: "string list" where
  "stop_reasons = [''frontier-exhausted'', ''runtime-limit'', ''query-limit'', ''depth-limit'']"

text \<open>The invariant of a discovery; \<open>pending\<close> are the candidates of the batch still to be validated.\<close>

definition tree_inv :: "string \<Rightarrow> string list \<Rightarrow> int \<Rightarrow> string list \<Rightarrow> discovery \<Rightarrow> bool" where
  "tree_inv target labels dmax pending st \<longleftrightarrow>
     distinct (map found_name (findings st) @ pending)
     \<and> set (map found_name (findings st)) \<union> set pending \<subseteq> set (seen_names st)
     \<and> (\<forall>n\<in>set (seen_names st). in_tree target n) \<and> set (next_frontier st) \<subseteq> set (seen_names st)
     \<and> (\<forall>f\<in>set (findings st). finding_ok labels f) \<and> depth_reached st \<le> dmax \<and> reason st \<in> set stop_reasons"

lemma child_in_tree: "child_of labels parents c p \<Longrightarrow> in_tree target p \<Longrightarrow> in_tree target c"
proof -
  assume c: "child_of labels parents c p" and p: "in_tree target p"
  then obtain v l where l: "normalize_label v = Some l" "c = l @ CHR ''.'' # p" by (auto simp: child_of_def)
  then have "CHR ''.'' \<notin> set l" by (auto simp: normalize_label_def Let_def split: if_splits)
  with l(2) p show ?thesis by (simp add: in_tree_def split_on_append suffix_Cons)
qed

lemma tree_inv_drawn:
  assumes "tree_inv target labels dmax [] st" "drawn labels parents st items st'" "set parents \<subseteq> set (seen_names st)"
  shows "tree_inv target labels dmax (map fst items) st'"
proof -
  have "in_tree target c" if "(c, p) \<in> set items" for c p
  proof -
    from assms(2) that have "child_of labels parents c p" by (auto simp: drawn_def)
    moreover from this assms(1,3) have "in_tree target p" by (auto simp: child_of_def tree_inv_def)
    ultimately show ?thesis by (rule child_in_tree)
  qed
  then have "\<forall>n\<in>set (map fst items). in_tree target n" by auto
  moreover have d: "same_progress st st'" "distinct (map fst items)" "set (map fst items) \<inter> set (seen_names st) = {}"
    "set (seen_names st') = set (seen_names st) \<union> set (map fst items)"
    using assms(2) by (simp_all add: drawn_def)
  ultimately have "\<forall>n\<in>set (seen_names st'). in_tree target n" using assms(1) unfolding d(4) tree_inv_def by blast
  moreover have "distinct (map found_name (findings st) @ map fst items)"
    using assms(1) d(2,3) unfolding tree_inv_def distinct_append by auto
  moreover have "reason st' \<in> set stop_reasons"
    using assms(1) d(1) by (auto simp: tree_inv_def same_progress_def stop_reasons_def)
  ultimately show ?thesis using assms(1) d(1,4) unfolding tree_inv_def same_progress_def by auto
qed

lemma tree_inv_frame:
  assumes "tree_inv target labels dmax pending st"
    and "findings st' = findings st" "next_frontier st' = next_frontier st" "depth_reached st' = depth_reached st"
      "seen_names st' = seen_names st" "reason st' \<in> set stop_reasons"
  shows "tree_inv target labels dmax pending st'"
  using assms by (simp add: tree_inv_def)

text \<open>Validation and reverse queries change the budget, the clock and the stop reason only.\<close>

definition only_budget :: "discovery \<Rightarrow> discovery \<Rightarrow> bool" where
  "only_budget st st' \<longleftrightarrow>
     findings st' = findings st \<and> next_frontier st' = next_frontier st \<and> depth_reached st' = depth_reached st
     \<and> seen_names st' = seen_names st \<and> (reason st' = reason st \<or> reason st' \<in> {''runtime-limit'', ''query-limit''})"

lemma only_budget_trans: "only_budget st st1 \<Longrightarrow> only_budget st1 st2 \<Longrightarrow> only_budget st st2"
  by (auto simp: only_budget_def)

lemma tree_inv_only_budget: "tree_inv target labels dmax pending st \<Longrightarrow> only_budget st st' \<Longrightarrow> tree_inv target labels dmax pending st'"
  by (rule tree_inv_frame) (auto simp: only_budget_def tree_inv_def stop_reasons_def)

lemma expired_only_budget: "expired w deadline st = (late, st') \<Longrightarrow> only_budget st st'"
  using expired_state [of w deadline st late st'] by (auto simp: only_budget_def)

lemma validate_candidate_only_budget:
  assumes "validate_candidate w deadline target resolvers candidate st = Inr (c, st')"
  shows "only_budget st st'"
proof -
  obtain late st1 where late: "expired w deadline st = (late, st1)" by fastforce
  note e = expired_only_budget [OF late]
  show ?thesis
  proof (cases "late \<or> cut_validation w deadline target resolvers candidate st1 \<noteq> None")
    case True
    with assms late e show ?thesis by (auto simp: validate_candidate_def only_budget_def split: if_splits)
  next
    case False
    obtain m where m: "validate_dns_candidates (uuid_names w) target [candidate] resolvers (Some (dns_budget st1)) = m" by simp
    from False assms late m obtain consensus bo where "m = Inr ([consensus], bo)"
      by (cases m) (auto simp: validate_candidate_def split: list.splits)
    with False assms late m e show ?thesis
      by (auto simp: validate_candidate_def Let_def only_budget_def split: if_splits)
  qed
qed

lemma resolve_ptrs_only_budget:
  "resolve_ptrs w deadline resolvers found as st = Inr (ptrs, st') \<Longrightarrow> only_budget st st'"
proof (induction w deadline resolvers found as st arbitrary: ptrs st' rule: resolve_ptrs.induct)
  case (2 w deadline resolvers found address rest st)
  obtain late st1 where late: "expired w deadline st = (late, st1)" by fastforce
  note e = expired_only_budget [OF late]
  obtain answers bo where a: "ptr_answers resolvers address (Some (dns_budget st1)) = (answers, bo)" by fastforce
  let ?b = "budget_or (dns_budget st1) bo"
  have cut: "only_budget st (st1\<lparr>dns_budget := b, reason := ''runtime-limit''\<rparr>)"
    "only_budget st (st1\<lparr>reason := ''runtime-limit''\<rparr>)" for b
    using e by (auto simp: only_budget_def)
  show ?case
  proof (cases "late \<or> cut_ptrs w deadline resolvers address st1 \<noteq> None")
    case True
    with 2(2) late cut show ?thesis by (auto simp: Let_def split: if_splits option.splits)
  next
    case False
    with 2(2) late a obtain names where n: "collect_ptrs answers = Inr names"
      "(if blocked ?b then Inr (canon (found @ names), st1\<lparr>dns_budget := ?b, reason := ''query-limit''\<rparr>)
        else resolve_ptrs w deadline resolvers (found @ names) rest (st1\<lparr>dns_budget := ?b\<rparr>)) = Inr (ptrs, st')"
      by (auto simp: Let_def bindR_Inr_iff)
    show ?thesis
    proof (cases "blocked ?b")
      case True
      with n(2) e show ?thesis by (auto simp: only_budget_def)
    next
      case nb: False
      with n(2) have "resolve_ptrs w deadline resolvers (found @ names) rest (st1\<lparr>dns_budget := ?b\<rparr>) = Inr (ptrs, st')"
        by simp
      then have "only_budget (st1\<lparr>dns_budget := ?b\<rparr>) st'"
        using 2(1) [OF late [symmetric] refl _ _ a [symmetric] refl refl refl nb] False by (auto split: if_splits)
      moreover have "only_budget st (st1\<lparr>dns_budget := ?b\<rparr>)" using e by (simp add: only_budget_def)
      ultimately show ?thesis by (rule only_budget_trans [rotated])
    qed
  qed
qed (auto simp: only_budget_def)

lemma record_candidate_inv:
  assumes "tree_inv target labels dmax (c # pending) st" "child_of labels parents c p"
  shows "tree_inv target labels dmax pending (record_candidate c p cc ptrs st)"
  using assms by (auto simp: tree_inv_def record_candidate_def finding_ok_def child_of_def Let_def)

lemma run_batch_inv:
  assumes "run_batch w deadline tgt resolvers d batch y st = Inr (y', st')"
    and "tree_inv target labels dmax (map fst batch) st" "\<forall>(c, p)\<in>set batch. child_of labels parents c p" "d \<le> dmax"
  shows "tree_inv target labels dmax [] st' \<and> seen_names st' = seen_names st"
  using assms
proof (induction w deadline tgt resolvers d batch y st arbitrary: y' st' rule: run_batch.induct)
  case (2 w deadline tgt resolvers d candidate parent rest yielded st)
  have drop: "tree_inv target labels dmax [] s" if "tree_inv target labels dmax pending s" for pending s
    using that by (auto simp: tree_inv_def)
  from 2(2) obtain consensus st1 where v: "validate_candidate w deadline tgt resolvers candidate st = Inr (consensus, st1)"
    by (auto simp: bindR_Inr_iff)
  note ob = validate_candidate_only_budget [OF v]
  have inv1: "tree_inv target labels dmax (candidate # map fst rest) st1"
    using tree_inv_only_budget [OF 2(3) ob] by simp
  show ?case
  proof (cases consensus)
    case None
    with 2(2) v have "st' = st1\<lparr>stopped := True\<rparr>" by simp
    with drop [OF inv1] ob show ?thesis by (simp add: tree_inv_def only_budget_def)
  next
    case (Some c)
    with 2(2) v obtain ptrs st2 where p:
      "(if verdict c = CURRENT then resolve_ptrs w deadline resolvers [] (addresses (consensus_records c)) (st1\<lparr>depth_reached := d\<rparr>)
        else Inr ([], st1\<lparr>depth_reached := d\<rparr>)) = Inr (ptrs, st2)"
      by (auto simp: bindR_Inr_iff)
    then have ob2: "only_budget (st1\<lparr>depth_reached := d\<rparr>) st2"
      by (auto simp: only_budget_def dest: resolve_ptrs_only_budget split: if_splits)
    have "tree_inv target labels dmax (candidate # map fst rest) (st1\<lparr>depth_reached := d\<rparr>)"
      using inv1 2(5) by (simp add: tree_inv_def)
    from tree_inv_only_budget [OF this ob2] have inv2: "tree_inv target labels dmax (candidate # map fst rest) st2" .
    let ?st3 = "record_candidate candidate parent c ptrs st2"
    have inv3: "tree_inv target labels dmax (map fst rest) ?st3"
      using record_candidate_inv [OF inv2] 2(4) by auto
    have seen3: "seen_names ?st3 = seen_names st"
      using ob ob2 by (simp add: record_candidate_def Let_def only_budget_def)
    show ?thesis
    proof (cases "limit_reached ?st3")
      case True
      with 2(2) v Some p have "st' = ?st3\<lparr>stopped := True\<rparr>" by (auto simp: Let_def)
      with drop [OF inv3] seen3 show ?thesis by (simp add: tree_inv_def)
    next
      case False
      with 2(2) v Some p have "run_batch w deadline tgt resolvers d rest
          (if verdict c = CURRENT then Suc yielded else yielded) ?st3 = Inr (y', st')"
        by (simp add: Let_def)
      with 2(1) [OF refl refl refl False] inv3 2(4,5) seen3 show ?thesis by auto
    qed
  qed
qed simp

lemma run_batches_inv:
  assumes "run_batches w deadline tgt resolvers d parents g st = Inr st'"
    and "tree_inv target labels dmax [] st" "generator_ok labels parents g" "set parents \<subseteq> set (seen_names st)" "d \<le> dmax"
  shows "tree_inv target labels dmax [] st'"
  using assms
proof (induction w deadline tgt resolvers d parents g st rule: run_batches.induct)
  case (1 w deadline tgt resolvers d parents g st)
  obtain batch rest st1 where b: "next_batch w deadline parents 50 g st = (batch, rest, st1)" by (metis prod_cases3)
  note drawn = next_batch_drawn [OF b 1(4)]
  note inv1 = tree_inv_drawn [OF 1(3) conjunct1 [OF drawn] 1(5)]
  note step = 1(2) [unfolded run_batches.simps [of w deadline tgt resolvers d parents g st] b prod.case]
  show ?case
  proof (cases "batch = []")
    case True
    with step inv1 show ?thesis by simp
  next
    case False
    with step obtain yielded st2 where r: "run_batch w deadline tgt resolvers d batch 0 st1 = Inr (yielded, st2)"
      by (auto split: sum.splits)
    have inv2: "tree_inv target labels dmax [] st2" "seen_names st2 = seen_names st1"
      using run_batch_inv [OF r inv1 _ 1(6), of parents] drawn by (auto simp: drawn_def)
    let ?st3 = "if yielded = 0 then st2\<lparr>zero_yield := Suc (zero_yield st2)\<rparr> else st2"
    have inv3: "tree_inv target labels dmax [] ?st3" using inv2(1) by (simp add: tree_inv_def)
    have seen3: "set parents \<subseteq> set (seen_names ?st3)" using inv2(2) drawn 1(5) by (auto simp: drawn_def)
    show ?thesis
    proof (cases "stopped st2")
      case True
      with step False r inv2(1) show ?thesis by simp
    next
      case ns: False
      show ?thesis
      proof (cases rest)
        case None
        with step False r ns inv3 show ?thesis by (simp add: Let_def split: if_splits)
      next
        case (Some g')
        with step False r ns have again: "run_batches w deadline tgt resolvers d parents g' ?st3 = Inr st'"
          by (simp add: Let_def)
        have "generator_ok labels parents g'" using drawn Some by auto
        then show ?thesis
          using 1(1) [OF b [symmetric] refl False r refl ns refl Some again inv3 _ seen3 1(6)] by simp
      qed
    qed
  qed
qed

lemma run_depths_inv:
  assumes "run_depths w deadline tgt resolvers labels n d frontier st = Inr st'"
    and "tree_inv target labels (d + int n - 1) [] st" "set frontier \<subseteq> set (seen_names st)"
  shows "tree_inv target labels (d + int n - 1) [] st'"
  using assms
proof (induction w deadline tgt resolvers labels n d frontier st rule: run_depths.induct)
  case (1 w deadline tgt resolvers labels d frontier st)
  then show ?case by (intro tree_inv_frame [OF 1(2)]) (auto simp: stop_reasons_def)
next
  case (2 w deadline tgt resolvers labels n d frontier st)
  show ?case
  proof (cases "stopped st \<or> frontier = []")
    case True
    with 2 show ?thesis by simp
  next
    case False
    let ?g = "\<lparr>labels_left = labels, labels_seen = [], open_label = None\<rparr>"
    from False 2(2) obtain st1 where b: "run_batches w deadline tgt resolvers d (sort frontier) ?g (st\<lparr>next_frontier := []\<rparr>) = Inr st1"
      by (auto simp: bindR_Inr_iff)
    have inv1: "tree_inv target labels (d + int (Suc n) - 1) [] st1"
      using 2(3,4) by (intro run_batches_inv [OF b]) (auto simp: tree_inv_def generator_ok_def)
    show ?thesis
    proof (cases "limit_reached st1 \<or> stopped st1 \<or> next_frontier st1 = []")
      case True
      with 2(2) False b have "st' = st1\<lparr>stopped := True\<rparr> \<or> st' = st1\<lparr>reason := ''frontier-exhausted''\<rparr>"
        by (auto split: if_splits)
      then show ?thesis
      proof (elim disjE)
        assume "st' = st1\<lparr>stopped := True\<rparr>"
        then show ?thesis using inv1 by (simp add: tree_inv_def)
      next
        assume "st' = st1\<lparr>reason := ''frontier-exhausted''\<rparr>"
        then show ?thesis by (intro tree_inv_frame [OF inv1]) (simp_all add: stop_reasons_def)
      qed
    next
      case go: False
      with 2(2) False b have again: "run_depths w deadline tgt resolvers labels n (d + 1) (next_frontier st1) st1 = Inr st'"
        by simp
      have eq: "d + 1 + int n - 1 = d + int (Suc n) - 1" by simp
      have "\<not> (limit_reached st1 \<or> stopped st1)" "next_frontier st1 \<noteq> []" using go by auto
      moreover have "set (next_frontier st1) \<subseteq> set (seen_names st1)" using inv1 by (simp add: tree_inv_def)
      ultimately show ?thesis using 2(1) [OF False _ _ again, unfolded eq, OF _ _ inv1] by blast
    qed
  qed
qed

lemma scoped_in_tree: "normalize_scoped_hostname v target = Some c \<Longrightarrow> valid_hostname target \<Longrightarrow> in_tree target c"
  using valid_hostname_normalize [of target] ends_with_label_suffix [of c target]
  by (auto simp: normalize_scoped_hostname_def in_tree_def simp del: append.simps split: json.splits sum.splits if_splits)

lemma add_seeds_inv:
  assumes "tree_inv target labels dmax [] st" "valid_hostname target" "findings st = []"
  shows "tree_inv target labels dmax [] (add_seeds w deadline target vs st)"
  using assms(1,3)
proof (induction vs arbitrary: st)
  case (Cons v vs)
  obtain late st1 where late: "expired w deadline st = (late, st1)" by fastforce
  have inv1: "tree_inv target labels dmax [] st1" "findings st1 = []"
    using tree_inv_only_budget [OF Cons(2) expired_only_budget [OF late]] expired_only_budget [OF late] Cons(3)
    by (simp_all add: only_budget_def)
  show ?case
  proof (cases "late")
    case True
    with late inv1 show ?thesis by (simp add: tree_inv_def stop_reasons_def)
  next
    case False
    let ?st = "case normalize_scoped_hostname v target of
      Some c \<Rightarrow> st1\<lparr>seen_names := List.insert c (seen_names st1)\<rparr> | None \<Rightarrow> st1"
    have "tree_inv target labels dmax [] ?st" "findings ?st = []"
      using inv1 scoped_in_tree [OF _ assms(2), of v] by (auto simp: tree_inv_def split: option.splits)
    with Cons(1) [of ?st] late False show ?thesis by simp
  qed
qed simp

lemma check_seeds_inv:
  assumes "check_seeds w deadline tgt resolvers seeds st = Inr (frontier, st')" "tree_inv target labels dmax [] st"
  shows "tree_inv target labels dmax [] st' \<and> set frontier \<subseteq> set seeds \<and> seen_names st' = seen_names st"
  using assms
proof (induction seeds arbitrary: st frontier st')
  case (Cons seed rest)
  then obtain consensus st1 where v: "validate_candidate w deadline tgt resolvers seed st = Inr (consensus, st1)"
    by (auto simp: bindR_Inr_iff)
  note ob = validate_candidate_only_budget [OF v]
  note inv1 = tree_inv_only_budget [OF Cons(3) ob]
  show ?case
  proof (cases consensus)
    case None
    with Cons(2) v inv1 ob show ?thesis by (auto simp: only_budget_def)
  next
    case (Some c)
    with Cons(2) v obtain fr where r: "check_seeds w deadline tgt resolvers rest st1 = Inr (fr, st')"
      "frontier = (if verdict c = CURRENT then seed # fr else fr)"
      by (auto simp: bindR_Inr_iff)
    with Cons(1) [OF r(1) inv1] ob show ?thesis by (auto simp: only_budget_def)
  qed
qed simp

text \<open>C7: the names found by recursive discovery are distinct, lie inside the target, and each is a
  normalised word of the list prepended to its parent; the depth reached is within the limit and the
  stop reason is one of the four documented ones.\<close>

theorem recursive_findings_sound:
  assumes "discover_recursive_dns w target seeds labels resolvers limits = Inr r" "valid_hostname target" "0 \<le> depth limits"
  shows "distinct (map found_name (result_findings r))
    \<and> (\<forall>f\<in>set (result_findings r). in_tree target (found_name f) \<and> finding_ok labels f)
    \<and> result_depth r \<le> depth limits \<and> result_reason r \<in> set stop_reasons"
proof -
  have t: "lower_name target = target" "target \<noteq> []" using assms(2) by (auto simp: valid_hostname_def)
  let ?dl = "map_option (\<lambda>s. clock w 0 + s) (runtime limits)"
  let ?st0 = "\<lambda>b. \<lparr>dns_budget = b, seen_names = [], reason = ''frontier-exhausted'', ticks = 1, findings = [],
     classifications = [], zero_yield = 0, depth_reached = 0, next_frontier = [], stopped = False\<rparr>"
  let ?D = "1 + int (nat (depth limits)) - 1"
  from assms(1) t obtain b frontier st2 st3 where run:
    "check_seeds w ?dl target resolvers (sort (seen_names (add_seeds w ?dl target seeds (?st0 b))))
       (add_seeds w ?dl target seeds (?st0 b)) = Inr (frontier, st2)"
    "run_depths w ?dl target resolvers labels (nat (depth limits)) 1 frontier (st2\<lparr>stopped := limit_reached st2\<rparr>) = Inr st3"
    "result_findings r = findings st3" "result_depth r = depth_reached st3" "result_reason r = reason st3"
    by (auto simp: discover_recursive_dns_def Let_def bindR_Inr_iff split: prod.splits)
  have "tree_inv target labels ?D [] (?st0 b)" by (simp add: tree_inv_def stop_reasons_def)
  then have "tree_inv target labels ?D [] (add_seeds w ?dl target seeds (?st0 b))"
    by (rule add_seeds_inv [OF _ assms(2)]) simp
  from check_seeds_inv [OF run(1) this] have inv2: "tree_inv target labels ?D [] st2" "set frontier \<subseteq> set (seen_names st2)"
    by auto
  have "tree_inv target labels ?D [] st3"
    by (rule run_depths_inv [OF run(2)]) (use inv2 in \<open>simp_all add: tree_inv_def\<close>)
  then show ?thesis using run(3-5) assms(3) by (auto simp: tree_inv_def)
qed

definition example_world :: world where
  "example_world = \<lparr>clock = (\<lambda>n. 0), cutoff = (\<lambda>k. None), uuid_names = (\<lambda>n. show_nonneg (int n))\<rparr>"

definition example_resolver :: "string \<Rightarrow> vantage" where
  "example_resolver name =
     \<lparr>vantage_name = name,
      vantage_query = (\<lambda>q bo. (Inr (if q = ''example.com'' \<or> q = ''www.example.com''
         then DNSResponse [''192.0.2.1''] [] [] ''NOERROR'' None else DNSResponse [] [] [] ''NXDOMAIN'' None), bo)),
      vantage_ptr = (\<lambda>a bo. (Inr [], bo)), query_cut = (\<lambda>q n bo. bo), ptr_cut = (\<lambda>a n bo. bo)\<rparr>"

definition example_discovery :: "string list \<Rightarrow> recursive_result res" where
  "example_discovery labels =
     discover_recursive_dns example_world ''example.com'' [JStr ''example.com''] labels
       (map example_resolver [''1.1.1.1'', ''8.8.8.8'', ''9.9.9.9'']) \<lparr>depth = 1, query_limit = None, runtime = None\<rparr>"

lemma example_discovery_finds:
  "case example_discovery [''www''] of Inl _ \<Rightarrow> False
   | Inr r \<Rightarrow> map found_name (result_findings r) = [''www.example.com'']"
  by code_simp

lemma recursive_findings_sound_witness:
  "\<exists>r. example_discovery [''www''] = Inr r \<and> map found_name (result_findings r) = [''www.example.com'']
     \<and> (\<forall>f\<in>set (result_findings r). in_tree ''example.com'' (found_name f))"
proof -
  obtain r where r: "example_discovery [''www''] = Inr r" "map found_name (result_findings r) = [''www.example.com'']"
    using example_discovery_finds by (auto split: sum.splits)
  have "valid_hostname ''example.com''" by code_simp
  with recursive_findings_sound [OF r(1) [unfolded example_discovery_def]] r show ?thesis by auto
qed

text \<open>
  The label filter lets an underscore pass but the hostname normaliser does not, so a word with an
  underscore yields a candidate for which the consensus is empty and the unpacking raises.
\<close>

lemma underscore_label_aborts_discovery:
  "normalize_label ''_sip'' = Some ''_sip''
   \<and> example_discovery [''_sip''] = Inl (ValueError ''not enough values to unpack (expected 1, got 0)'')"
  by code_simp

section \<open>The query limit\<close>

text \<open>
  The contract of the resolvers towards the budget they share: a query never takes it over its
  limit and never changes the limit. The lemmas of the locale carry it through the validation and
  the reverse queries to the whole discovery.
\<close>

definition spent_within :: "int \<Rightarrow> budget option \<Rightarrow> bool" where
  "spent_within l bo = (case bo of None \<Rightarrow> False | Some b \<Rightarrow> limit b = Some l \<and> used b \<le> l)"

locale metered =
  fixes vantages :: "vantage list" and l :: int
  assumes query_within: "v \<in> set vantages \<Longrightarrow> spent_within l bo \<Longrightarrow> spent_within l (snd (vantage_query v name bo))"
    and ptr_within: "v \<in> set vantages \<Longrightarrow> spent_within l bo \<Longrightarrow> spent_within l (snd (vantage_ptr v name bo))"
    and query_cut_within: "v \<in> set vantages \<Longrightarrow> spent_within l bo \<Longrightarrow> spent_within l (query_cut v name n bo)"
    and ptr_cut_within: "v \<in> set vantages \<Longrightarrow> spent_within l bo \<Longrightarrow> spent_within l (ptr_cut v name n bo)"
begin

lemma validation_query_within:
  "validation_query name v d bo = Inr (val, bo') \<Longrightarrow> v \<in> set vantages \<Longrightarrow> spent_within l bo \<Longrightarrow> spent_within l bo'"
  using query_within [of v bo name]
  by (auto simp: validation_query_def Let_def split: prod.splits sum.splits err.splits)

lemma gather_within:
  "gather_queries qs bo = Inr (vals, bo') \<Longrightarrow> (\<forall>(n, v, d)\<in>set qs. v \<in> set vantages) \<Longrightarrow> spent_within l bo \<Longrightarrow> spent_within l bo'"
proof (induction qs arbitrary: bo vals)
  case (Cons q qs)
  obtain n v d where q: "q = (n, v, d)" by (metis prod_cases3)
  with Cons(2) obtain val bo1 vals1 where "validation_query n v d bo = Inr (val, bo1)"
    "gather_queries qs bo1 = Inr (vals1, bo')" by (auto simp: bindR_Inr_iff)
  with Cons(1) [of bo1 vals1] Cons(3,4) q validation_query_within show ?case by auto
qed simp

lemma planned_in: "(n, v, d) \<in> set (planned_queries vantages c cs) \<Longrightarrow> v \<in> set vantages"
  by (auto simp: planned_queries_def)

lemma validate_each_within:
  "validate_each uuids n target vantages cands bo = Inr (results, bo') \<Longrightarrow> spent_within l bo \<Longrightarrow> spent_within l bo'"
proof (induction cands arbitrary: n bo results)
  case (Cons c cands)
  then obtain vals bo1 m results1 where g: "gather_queries (planned_queries vantages c (control_names uuids n target c)) bo = Inr (vals, bo1)"
    and rest: "validate_each uuids m target vantages cands bo1 = Inr (results1, bo')"
    by (auto simp: Let_def bindR_Inr_iff)
  have "spent_within l bo1" by (rule gather_within [OF g _ Cons(3)]) (auto dest: planned_in)
  with Cons(1) [OF rest] show ?case .
qed simp

lemma validate_within:
  "validate_dns_candidates uuids target cands vantages bo = Inr (results, bo') \<Longrightarrow> spent_within l bo \<Longrightarrow> spent_within l bo'"
  by (auto simp: validate_dns_candidates_def Let_def split: if_splits intro: validate_each_within)

lemma ptr_answers_within:
  "set vs \<subseteq> set vantages \<Longrightarrow> spent_within l bo \<Longrightarrow> spent_within l (snd (ptr_answers vs address bo))"
proof (induction vs arbitrary: bo)
  case (Cons v vs)
  obtain r bo1 where r: "vantage_ptr v address bo = (r, bo1)" by fastforce
  with Cons(2,3) ptr_within [of v bo address] have "spent_within l bo1" by simp
  with Cons(1) [of bo1] Cons(2) r show ?case by (auto simp: Let_def split: prod.splits)
qed simp

lemma fold_within:
  "(\<And>x bo. x \<in> set xs \<Longrightarrow> spent_within l bo \<Longrightarrow> spent_within l (f x bo)) \<Longrightarrow> spent_within l bo \<Longrightarrow> spent_within l (fold f xs bo)"
  by (induction xs arbitrary: bo) auto

lemma budget_or_within: "spent_within l bo \<Longrightarrow> spent_within l (Some (budget_or b bo))"
  by (cases bo) (simp_all add: budget_or_def spent_within_def)

lemma cancel_queries_within:
  assumes "\<forall>(n, v, d)\<in>set qs. v \<in> set vantages" "spent_within l bo"
  shows "spent_within l (cancel_queries steps qs bo)"
  unfolding cancel_queries_def
proof (rule fold_within [OF _ assms(2)])
  fix x bo assume x: "x \<in> set (enumerate 0 qs)" and bo: "spent_within l bo"
  obtain i n v d where "x = (i, n, v, d)" by (metis prod_cases4)
  moreover from this x have "(n, v, d) \<in> set qs" by (auto simp: in_set_enumerate_eq) (metis nth_mem)
  ultimately show "spent_within l ((\<lambda>(i, n, v, d) b. query_cut v n (steps i) b) x bo)"
    using assms(1) bo query_cut_within by auto
qed

lemma cut_validation_within:
  assumes "cut_validation w deadline target vantages c st = Some b" "spent_within l (Some (dns_budget st))"
  shows "spent_within l (Some b)"
proof -
  from assms(1) obtain steps cand cs where
    "b = budget_or (dns_budget st) (cancel_queries steps (planned_queries vantages cand cs) (Some (dns_budget st)))"
    by (auto simp: cut_validation_def cancel_validation_def Let_def split: option.splits if_splits list.splits)
  then show ?thesis
    using assms(2) planned_in by (auto intro!: budget_or_within cancel_queries_within)
qed

lemma cut_ptrs_within:
  "cut_ptrs w deadline vantages address st = Some b \<Longrightarrow> spent_within l (Some (dns_budget st)) \<Longrightarrow> spent_within l (Some b)"
  by (auto simp: cut_ptrs_def in_set_enumerate_eq intro!: budget_or_within fold_within ptr_cut_within split: option.splits if_splits)

end

lemma expired_budget: "expired w deadline st = (late, st') \<Longrightarrow> dns_budget st' = dns_budget st"
  by (rule expired_facts(4))

lemma pull_parents_budget: "pull_parents w deadline k label ps st = (items, rest, st') \<Longrightarrow> dns_budget st' = dns_budget st"
proof (induction ps arbitrary: k st items rest)
  case (Cons p ps)
  then show ?case by (cases k) (auto simp: Let_def expired_budget split: prod.splits if_splits)
next
  case Nil
  then show ?case by (cases k) auto
qed

lemma pull_labels_budget:
  "pull_labels w deadline parents k vs known st = (items, g, st') \<Longrightarrow> dns_budget st' = dns_budget st"
proof (induction vs arbitrary: k known st items g)
  case (Cons v vs)
  then show ?case
    by (fastforce simp: Let_def expired_budget pull_parents_budget split: prod.splits if_splits option.splits)
qed simp

lemma next_batch_budget: "next_batch w deadline parents k g st = (items, r, st') \<Longrightarrow> dns_budget st' = dns_budget st"
  by (auto simp: next_batch_def Let_def split: option.splits prod.splits if_splits
      dest!: pull_parents_budget pull_labels_budget)

context metered
begin

lemma validate_candidate_within:
  assumes "validate_candidate w deadline target vantages c st = Inr (r, st')"
    and "spent_within l (Some (dns_budget st))"
  shows "spent_within l (Some (dns_budget st'))"
proof -
  obtain late st1 where late: "expired w deadline st = (late, st1)" by fastforce
  with assms(2) have in1: "spent_within l (Some (dns_budget st1))" by (simp add: expired_budget)
  show ?thesis
  proof (cases "late \<or> cut_validation w deadline target vantages c st1 \<noteq> None")
    case True
    have "spent_within l (Some b)" if "cut_validation w deadline target vantages c st1 = Some b" for b
      by (rule cut_validation_within [OF that in1])
    with True assms(1) late in1 show ?thesis by (auto simp: validate_candidate_def Let_def split: if_splits)
  next
    case False
    obtain m where m: "validate_dns_candidates (uuid_names w) target [c] vantages (Some (dns_budget st1)) = m" by simp
    from False assms(1) late m obtain results bo where r: "m = Inr (results, bo)"
      by (cases m) (auto simp: validate_candidate_def Let_def split: if_splits option.splits)
    note v = m [unfolded r]
    have b: "dns_budget st' = budget_or (dns_budget st1) bo"
      using False assms(1) late
      by (auto simp: validate_candidate_def Let_def v split: list.splits if_splits option.splits)
    from budget_or_within [OF validate_within [OF v in1]] b show ?thesis by simp
  qed
qed

lemma resolve_ptrs_within:
  assumes "resolve_ptrs w deadline vantages found as st = Inr (ptrs, st')"
    and "spent_within l (Some (dns_budget st))"
  shows "spent_within l (Some (dns_budget st'))"
  using assms
proof (induction as arbitrary: found st)
  case (Cons address rest)
  obtain late st1 where late: "expired w deadline st = (late, st1)" by fastforce
  with Cons(3) have in1: "spent_within l (Some (dns_budget st1))" by (simp add: expired_budget)
  obtain answers bo where a: "ptr_answers vantages address (Some (dns_budget st1)) = (answers, bo)" by fastforce
  with ptr_answers_within [of vantages, OF _ in1, of address] have inb: "spent_within l bo" by simp
  then obtain b where b: "bo = Some b" "budget_or (dns_budget st1) bo = b"
    by (cases bo) (auto simp: spent_within_def budget_or_def)
  show ?case
  proof (cases "late \<or> cut_ptrs w deadline vantages address st1 \<noteq> None")
    case True
    have "spent_within l (Some b)" if "cut_ptrs w deadline vantages address st1 = Some b" for b
      by (rule cut_ptrs_within [OF that in1])
    with True Cons(2) late in1 show ?thesis by (auto simp: Let_def split: if_splits)
  next
    case False
    with Cons(2) late a b obtain names where n: "collect_ptrs answers = Inr names"
      by (cases "collect_ptrs answers") (simp_all add: Let_def)
    with False Cons(2) late a b have "(if blocked b
        then Inr (canon (found @ names), st1\<lparr>dns_budget := b, reason := ''query-limit''\<rparr>)
        else resolve_ptrs w deadline vantages (found @ names) rest (st1\<lparr>dns_budget := b\<rparr>)) = Inr (ptrs, st')"
      by (auto simp: Let_def split: if_splits)
    with Cons(1) [of "found @ names" "st1\<lparr>dns_budget := b\<rparr>"] inb b show ?thesis
      by (auto split: if_splits)
  qed
qed simp

lemma check_seeds_within:
  "check_seeds w deadline target vantages seeds st = Inr (fr, st') \<Longrightarrow>
     spent_within l (Some (dns_budget st)) \<Longrightarrow> spent_within l (Some (dns_budget st'))"
proof (induction seeds arbitrary: st fr)
  case (Cons seed rest)
  then obtain consensus st1 where v: "validate_candidate w deadline target vantages seed st = Inr (consensus, st1)"
    by (auto simp: bindR_Inr_iff)
  note in1 = validate_candidate_within [OF v Cons(3)]
  show ?case
  proof (cases consensus)
    case None
    with Cons(2) v in1 show ?thesis by simp
  next
    case (Some c)
    with Cons(2) v obtain fr1 where "check_seeds w deadline target vantages rest st1 = Inr (fr1, st')"
      by (auto simp: bindR_Inr_iff)
    from Cons(1) [OF this in1] show ?thesis .
  qed
qed simp

lemma run_batch_within:
  "run_batch w deadline target vantages d batch y st = Inr (y', st') \<Longrightarrow>
     spent_within l (Some (dns_budget st)) \<Longrightarrow> spent_within l (Some (dns_budget st'))"
proof (induction batch arbitrary: y st)
  case (Cons cp rest)
  obtain c p where cp: "cp = (c, p)" by fastforce
  with Cons(2) obtain consensus st1 where v: "validate_candidate w deadline target vantages c st = Inr (consensus, st1)"
    by (auto simp: bindR_Inr_iff)
  note in1 = validate_candidate_within [OF v Cons(3)]
  show ?case
  proof (cases consensus)
    case None
    with Cons(2) v cp in1 show ?thesis by auto
  next
    case (Some cc)
    with Cons(2) v cp obtain ptrs st2 where p:
      "(if verdict cc = CURRENT then resolve_ptrs w deadline vantages [] (addresses (consensus_records cc)) (st1\<lparr>depth_reached := d\<rparr>)
        else Inr ([], st1\<lparr>depth_reached := d\<rparr>)) = Inr (ptrs, st2)"
      by (auto simp: bindR_Inr_iff)
    then have in2: "spent_within l (Some (dns_budget st2))"
      using in1 by (auto split: if_splits intro: resolve_ptrs_within)
    let ?st3 = "record_candidate c p cc ptrs st2"
    have "dns_budget ?st3 = dns_budget st2" by (simp add: record_candidate_def Let_def)
    with in2 Cons(1) [of _ ?st3] Cons(2) v cp Some p show ?thesis
      by (auto simp: Let_def split: if_splits)
  qed
qed simp

lemma run_batches_within:
  "run_batches w deadline target vantages d parents g st = Inr st' \<Longrightarrow>
     spent_within l (Some (dns_budget st)) \<Longrightarrow> spent_within l (Some (dns_budget st'))"
proof (induction "generator_size parents g" arbitrary: g st rule: less_induct)
  case less
  obtain batch rest st1 where b: "next_batch w deadline parents 50 g st = (batch, rest, st1)" by (metis prod_cases3)
  have in1: "spent_within l (Some (dns_budget st1))" using less(3) next_batch_budget [OF b] by simp
  note step = less(2) [unfolded run_batches.simps [of w deadline target vantages d parents g st] b prod.case]
  show ?case
  proof (cases "batch = []")
    case True
    with step in1 show ?thesis by simp
  next
    case False
    with step obtain y st2 where r: "run_batch w deadline target vantages d batch 0 st1 = Inr (y, st2)"
      by (auto split: sum.splits)
    note in2 = run_batch_within [OF r in1]
    let ?st3 = "if y = 0 then st2\<lparr>zero_yield := Suc (zero_yield st2)\<rparr> else st2"
    have in3: "spent_within l (Some (dns_budget ?st3))" using in2 by simp
    show ?thesis
    proof (cases "stopped st2 \<or> rest = None")
      case True
      with step False r in2 in3 show ?thesis by (auto simp: Let_def split: if_splits)
    next
      case go: False
      then obtain g' where g': "rest = Some g'" by auto
      with step False r go have "run_batches w deadline target vantages d parents g' ?st3 = Inr st'"
        by (simp add: Let_def)
      from less(1) [OF next_batch_less [OF b [unfolded g', symmetric] False] this in3] show ?thesis .
    qed
  qed
qed

lemma run_depths_within:
  "run_depths w deadline target vantages labels n d frontier st = Inr st' \<Longrightarrow>
     spent_within l (Some (dns_budget st)) \<Longrightarrow> spent_within l (Some (dns_budget st'))"
proof (induction n arbitrary: d frontier st)
  case (Suc n)
  show ?case
  proof (cases "stopped st \<or> frontier = []")
    case True
    with Suc show ?thesis by simp
  next
    case False
    with Suc(2) obtain st1 where b: "run_batches w deadline target vantages d (sort frontier)
        \<lparr>labels_left = labels, labels_seen = [], open_label = None\<rparr> (st\<lparr>next_frontier := []\<rparr>) = Inr st1"
      by (auto simp: bindR_Inr_iff)
    have in1: "spent_within l (Some (dns_budget st1))" using run_batches_within [OF b] Suc(3) by simp
    show ?thesis
      using Suc(2) False b in1 Suc(1) [of "d + 1" "next_frontier st1" st1, OF _ in1]
      by (auto split: if_splits)
  qed
qed auto

end

text \<open>The real resolvers honour the contract: \<open>query\<close> and \<open>query_ptr\<close> ask the budget first.\<close>

lemma spend_within: "spend n bo = Inr (ok, bo') \<Longrightarrow> spent_within l bo \<Longrightarrow> spent_within l bo'"
  by (auto simp: spend_def consume_def spent_within_def split: option.splits if_splits)

lemma query_rounds_within: "spent_within l bo \<Longrightarrow> spent_within l (snd (query_rounds net target k bo s))"
proof (induction k arbitrary: bo s)
  case (Suc k)
  obtain ok bo1 where sp: "spend 3 bo = Inr (ok, bo1)" using spend_three_total by blast
  note in1 = spend_within [OF sp Suc(2)]
  show ?case
  proof (cases "absorb_round (net (15 - k) (current s)) s")
    case (Inl e)
    with sp in1 show ?thesis by simp
  next
    case (Inr s1)
    obtain c s2 where "follow target s1 = (c, s2)" by fastforce
    with Suc(1) [OF in1, of s2] sp Inr in1 show ?thesis by simp
  qed
qed simp

lemma query_ptr_within: "spent_within l bo \<Longrightarrow> spent_within l (snd (query_ptr ptr address bo))"
  by (auto simp: query_ptr_def dest: spend_within split: option.splits sum.splits dns_result.splits)

lemma task_step_within: "spent_within l bo \<Longrightarrow> spent_within l (snd (task_step net target t bo))"
  by (induction net target t bo rule: task_step.induct)
    (auto simp: Let_def dest: spend_within split: sum.splits prod.splits)

lemma run_task_within: "spent_within l bo \<Longrightarrow> spent_within l (snd (run_task net target n (t, bo)))"
proof (induction n arbitrary: t bo)
  case (Suc n)
  obtain t1 bo1 where "task_step net target t bo = (t1, bo1)" by fastforce
  with Suc(1) [of bo1 t1] task_step_within [OF Suc(2), of net target t] show ?case by simp
qed simp

definition aio_vantages :: "(net \<times> (string \<Rightarrow> dns_result) \<times> string) list \<Rightarrow> string \<Rightarrow> vantage list" where
  "aio_vantages ns target = map (\<lambda>(net, ptr, nameserver). aio_vantage net ptr nameserver target) ns"

interpretation aio: metered "aio_vantages ns target" l for ns target l
  by unfold_locales
    (auto simp: aio_vantages_def aio_vantage_def query_def intro: query_rounds_within query_ptr_within run_task_within)

text \<open>C15: with the real resolvers, whatever they answer and wherever the time limit cuts a wait off, a
  recursive discovery with a query limit reports at most that many queries.\<close>

theorem recursive_query_limit:
  assumes "discover_recursive_dns w target seeds labels (aio_vantages ns target) limits = Inr r"
    and "query_limit limits = Some l"
  shows "query_count r \<le> l"
proof -
  let ?t = "lower_name target" and ?dl = "map_option (\<lambda>s. clock w 0 + s) (runtime limits)"
  let ?st0 = "\<lambda>b. \<lparr>dns_budget = b, seen_names = [], reason = ''frontier-exhausted'', ticks = 1, findings = [],
     classifications = [], zero_yield = 0, depth_reached = 0, next_frontier = [], stopped = False\<rparr>"
  from assms(1) obtain b frontier st2 st3 where run: "new_budget (query_limit limits) = Inr b"
    "check_seeds w ?dl ?t (aio_vantages ns target) (sort (seen_names (add_seeds w ?dl ?t seeds (?st0 b))))
       (add_seeds w ?dl ?t seeds (?st0 b)) = Inr (frontier, st2)"
    "run_depths w ?dl ?t (aio_vantages ns target) labels (nat (depth limits)) 1 frontier (st2\<lparr>stopped := limit_reached st2\<rparr>) = Inr st3"
    "query_count r = used (dns_budget st3)"
    by (auto simp: discover_recursive_dns_def Let_def bindR_Inr_iff split: prod.splits if_splits)
  have "dns_budget (add_seeds w ?dl ?t seeds st) = dns_budget st" for st
    by (induction seeds arbitrary: st) (auto simp: Let_def expired_budget split: prod.splits option.splits)
  then have "spent_within l (Some (dns_budget (add_seeds w ?dl ?t seeds (?st0 b))))"
    using run(1) assms(2) by (auto simp: new_budget_def spent_within_def split: if_splits)
  from aio.check_seeds_within [OF run(2) this]
  have "spent_within l (Some (dns_budget (st2\<lparr>stopped := limit_reached st2\<rparr>)))" by simp
  from aio.run_depths_within [OF run(3) this] run(4) show ?thesis by (simp add: spent_within_def)
qed

definition example_net :: net where
  "example_net n name t = (if t = A \<and> (name = ''example.com'' \<or> name = ''www.example.com'')
     then Answer [\<lparr>addr = Some ''192.0.2.1'', cname = None, dname = None\<rparr>] else DNSError ENOTFOUND)"

text \<open>The time limit cuts off the first wait when two of its queries have reached their budget check.\<close>

definition example_limited :: "recursive_result res" where
  "example_limited =
     discover_recursive_dns (example_world\<lparr>cutoff := \<lambda>k. Some (\<lambda>i. if i < 2 then 1 else 0)\<rparr>) ''example.com''
       [JStr ''example.com''] [''www'']
       (aio_vantages (map (\<lambda>n. (example_net, \<lambda>a. DNSError ENOTFOUND, n)) [''1.1.1.1'', ''8.8.8.8'', ''9.9.9.9'']) ''example.com'')
       \<lparr>depth = 1, query_limit = Some 4, runtime = Some 10\<rparr>"

lemma example_limited_result:
  "case example_limited of Inl _ \<Rightarrow> False | Inr r \<Rightarrow> result_reason r = ''runtime-limit'' \<and> query_count r = 3"
  by code_simp

lemma recursive_query_limit_witness:
  "\<exists>r. example_limited = Inr r \<and> query_count r = 3 \<and> query_count r \<le> 4"
proof -
  obtain r where r: "example_limited = Inr r" "query_count r = 3"
    using example_limited_result by (auto split: sum.splits)
  from recursive_query_limit [OF r(1) [unfolded example_limited_def]] have "query_count r \<le> 4" by simp
  with r show ?thesis by blast
qed

end
