(* ===== verification/Calendar.thy ===== *)
theory Calendar
  imports Ip_Address
begin

text \<open>
  The proleptic Gregorian calendar and the text form of Python's timezone-aware \<open>datetime\<close> in UTC,
  as the stores write it: \<open>isoformat()\<close>, with microseconds only when they are not zero. A time is the
  number of microseconds since 0001-01-01T00:00:00 UTC. The main result is that the text order the
  SQL statements use is the order of the times.
\<close>

section \<open>Civil dates\<close>

definition before_year :: "int \<Rightarrow> int" where
  "before_year y = 365 * (y - 1) + (y - 1) div 4 - (y - 1) div 100 + (y - 1) div 400"

definition leap_year :: "int \<Rightarrow> bool" where
  "leap_year y = (y mod 4 = 0 \<and> (y mod 100 \<noteq> 0 \<or> y mod 400 = 0))"

definition year_of :: "int \<Rightarrow> int" where
  "year_of n =
     (let y = 400 * n div 146097 + 1
      in if before_year (y + 1) \<le> n then y + 1 else if n < before_year y then y - 1 else y)"

definition before_month :: "bool \<Rightarrow> nat \<Rightarrow> int" where
  "before_month leap m =
     [0, 31, 59, 90, 120, 151, 181, 212, 243, 273, 304, 334] ! (m - 1) + (if leap \<and> 2 < m then 1 else 0)"

definition month_of :: "bool \<Rightarrow> int \<Rightarrow> nat" where
  "month_of leap doy = length (filter (\<lambda>m. before_month leap m \<le> doy) [1..<13])"

definition civil :: "int \<Rightarrow> int \<times> nat \<times> int" where
  "civil n =
     (let y = year_of n; doy = n - before_year y; m = month_of (leap_year y) doy
      in (y, m, doy - before_month (leap_year y) m + 1))"

definition weekday :: "int \<Rightarrow> int" where
  "weekday n = n mod 7"

lemma div_bounds: "0 < k \<Longrightarrow> k * (z div k) \<le> z \<and> z < k * (z div k) + (k::int)"
  by (metis add.commute add_less_cancel_left le_add_same_cancel1 mult_div_mod_eq pos_mod_bound pos_mod_sign)

lemmas year_div_bounds = div_bounds [of 4] div_bounds [of 100] div_bounds [of 400]

lemma before_year_lower: "146097 * (y - 1) - 800 \<le> 400 * before_year y"
  using year_div_bounds [of "y - 1"] unfolding before_year_def by simp

lemma before_year_upper: "400 * before_year y \<le> 146097 * (y - 1) + 400"
  using year_div_bounds [of "y - 1"] unfolding before_year_def by simp

lemma div_pred: "0 < k \<Longrightarrow> y div k = (y - 1) div k + (if y mod k = 0 then 1 else (0::int))"
proof -
  assume k: "0 < k"
  have y: "y = k * (y div k) + y mod k" by simp
  have "0 \<le> y mod k" "y mod k < k" using k by simp_all
  show ?thesis
  proof (cases "y mod k = 0")
    case True
    have "(y - 1) div k = y div k - 1"
      by (rule int_div_pos_eq [where r = "k - 1"]) (use True y k in \<open>simp_all add: algebra_simps\<close>)
    with True show ?thesis by simp
  next
    case False
    have "(y - 1) div k = y div k"
      by (rule int_div_pos_eq [where r = "y mod k - 1"])
        (use False y \<open>0 \<le> y mod k\<close> \<open>y mod k < k\<close> in \<open>simp_all add: algebra_simps\<close>)
    with False show ?thesis by simp
  qed
qed

lemma mod_multiples:
  "(y::int) mod 400 = 0 \<Longrightarrow> y mod 100 = 0" "(y::int) mod 100 = 0 \<Longrightarrow> y mod 4 = 0"
  using dvd_trans [of 100 400 y] dvd_trans [of 4 100 y] by (simp_all add: mod_eq_0_iff_dvd)

lemma before_year_Suc: "before_year (y + 1) = before_year y + (if leap_year y then 366 else 365)"
proof -
  have "before_year (y + 1) = 365 * y + y div 4 - y div 100 + y div 400" by (simp add: before_year_def)
  also have "\<dots> = 365 * y + ((y - 1) div 4 + (if y mod 4 = 0 then 1 else 0))
      - ((y - 1) div 100 + (if y mod 100 = 0 then 1 else 0)) + ((y - 1) div 400 + (if y mod 400 = 0 then 1 else 0))"
    by (simp only: div_pred [of 4 y] div_pred [of 100 y] div_pred [of 400 y] zero_less_numeral)
  also have "\<dots> = before_year y + (if leap_year y then 366 else 365)"
    using mod_multiples [of y] unfolding before_year_def leap_year_def
    by (cases "y mod 4 = 0"; cases "y mod 100 = 0"; cases "y mod 400 = 0") simp_all
  finally show ?thesis .
qed

lemma before_year_less: "y < y' \<Longrightarrow> before_year y < before_year y'"
proof (induction "nat (y' - y)" arbitrary: y')
  case (Suc k)
  have step: "before_year (y' - 1) < before_year y'" using before_year_Suc [of "y' - 1"] by simp
  show ?case
  proof (cases "y < y' - 1")
    case True
    have "before_year y < before_year (y' - 1)" using Suc(2) True by (intro Suc(1)) simp_all
    with step show ?thesis by simp
  next
    case False
    with Suc(3) have "y = y' - 1" by simp
    with step show ?thesis by simp
  qed
qed simp

lemma year_of_spec: "before_year (year_of n) \<le> n \<and> n < before_year (year_of n + 1)"
proof -
  define y where "y = 400 * n div 146097 + 1"
  have l: "146097 * (y - 1) \<le> 400 * n" 
    using div_bounds [of 146097 "400 * n"] unfolding y_def by simp
  have u: "400 * n < 146097 * (y - 1) + 146097"
    using div_bounds [of 146097 "400 * n"] unfolding y_def by simp
  have "before_year (y - 1) \<le> n" using before_year_upper [of "y - 1"] l by (simp add: algebra_simps)
  moreover have "n < before_year (y + 2)" using before_year_lower [of "y + 2"] u by (simp add: algebra_simps)
  moreover have "before_year (y - 1) < before_year y" "before_year y < before_year (y + 1)"
    using before_year_less by simp_all
  ultimately have "before_year (y - 1) \<le> n" "n < before_year (y + 2)" by simp_all
  then show ?thesis unfolding year_of_def Let_def y_def [symmetric] by (auto simp: add.commute)
qed

lemma year_of_mono: "n \<le> n' \<Longrightarrow> year_of n \<le> year_of n'"
proof (rule ccontr)
  assume n: "n \<le> n'" and "\<not> year_of n \<le> year_of n'"
  then have "year_of n' + 1 \<le> year_of n" by simp
  then have "before_year (year_of n' + 1) \<le> before_year (year_of n)"
    using before_year_less by (cases "year_of n' + 1 = year_of n") (auto intro: less_imp_le)
  also have "\<dots> \<le> n" using year_of_spec by simp
  also have "n < before_year (year_of n' + 1)" using n year_of_spec [of n'] by simp
  finally show False by simp
qed

lemma month_starts:
  "sorted (map (before_month leap) [1..<13])"
  "list_all (\<lambda>k. (if k = 12 then (if leap then 366 else 365) else before_month leap (Suc k)) - before_month leap k \<le> 31) [1..<13]"
proof -
  have months: "[1..<13] = [1, 2, 3, 4, 5, 6, 7, 8, 9, 10, 11, Suc 11]" by (simp add: upt_rec)
  show "sorted (map (before_month leap) [1..<13])" unfolding months by (simp add: before_month_def)
  show "list_all (\<lambda>k. (if k = 12 then (if leap then 366 else 365) else before_month leap (Suc k)) - before_month leap k \<le> 31) [1..<13]"
    unfolding months by (simp add: before_month_def)
qed

lemma filter_prefix: "sorted xs \<Longrightarrow> filter (\<lambda>x. x \<le> d) xs = takeWhile (\<lambda>x. x \<le> d) xs" for d :: int
proof (induction xs)
  case (Cons a xs)
  have "filter (\<lambda>x. x \<le> d) xs = []" if "\<not> a \<le> d" using Cons.prems that by (auto simp: filter_empty_conv)
  then show ?case using Cons by simp
qed simp

lemma month_of_spec:
  assumes "0 \<le> doy" "doy < (if leap then 366 else 365)"
  shows "before_month leap (month_of leap doy) \<le> doy
     \<and> doy - before_month leap (month_of leap doy) < 31 \<and> 1 \<le> month_of leap doy \<and> month_of leap doy \<le> 12"
proof -
  let ?xs = "map (before_month leap) [1..<13]"
  define k where "k = length (takeWhile (\<lambda>x. x \<le> doy) ?xs)"
  have "month_of leap doy = length (filter (\<lambda>x. x \<le> doy) ?xs)" by (simp add: month_of_def filter_map comp_def del: upt_Suc)
  then have m: "month_of leap doy = k" unfolding k_def filter_prefix [OF month_starts(1)] .
  have len: "length ?xs = 12" by (simp del: upt_Suc)
  have nth: "?xs ! n = before_month leap (Suc n)" if "n < 12" for n using that by (simp del: upt_Suc)
  have "k \<le> 12" using length_takeWhile_le [of "\<lambda>x. x \<le> doy" ?xs] len by (simp only: k_def)
  moreover have "k \<noteq> 0"
  proof
    assume z: "k = 0"
    have "\<not> ?xs ! k \<le> doy" using nth_length_takeWhile [of "\<lambda>x. x \<le> doy" ?xs] unfolding len k_def [symmetric] z by simp
    then have "\<not> ?xs ! 0 \<le> doy" unfolding z .
    then show False using assms(1) nth [of 0] by (simp add: before_month_def)
  qed
  ultimately have k: "1 \<le> k" "k \<le> 12" by simp_all
  have low: "before_month leap k \<le> doy"
  proof -
    have "k - 1 < length (takeWhile (\<lambda>x. x \<le> doy) ?xs)" using k(1) unfolding k_def [symmetric] by simp
    then have "?xs ! (k - 1) \<le> doy" by (metis nth_mem set_takeWhileD takeWhile_nth)
    then show ?thesis using nth [of "k - 1"] k by simp
  qed
  have high: "doy < (if k = 12 then (if leap then 366 else 365) else before_month leap (Suc k))"
  proof (cases "k = 12")
    case False
    then have "k < 12" using k(2) by simp
    then have "\<not> ?xs ! k \<le> doy" using nth_length_takeWhile [of "\<lambda>x. x \<le> doy" ?xs] \<open>k < 12\<close> unfolding len k_def [symmetric] by simp
    then show ?thesis using False nth [OF \<open>k < 12\<close>] by simp
  qed (use assms(2) in simp)
  have "k \<in> set [1..<13]" using k by simp
  then have "(if k = 12 then (if leap then 366 else 365) else before_month leap (Suc k)) - before_month leap k \<le> 31"
    using month_starts(2) [of leap] unfolding list_all_iff by blast
  with low high k show ?thesis unfolding m by simp
qed

lemma month_of_mono: "d \<le> d' \<Longrightarrow> month_of leap d \<le> month_of leap d'"
proof -
  assume "d \<le> d'"
  then have "set (filter (\<lambda>m. before_month leap m \<le> d) [1..<13]) \<subseteq> set (filter (\<lambda>m. before_month leap m \<le> d') [1..<13])"
    by auto
  from card_mono [OF finite_set this] show ?thesis
    unfolding month_of_def by (simp only: distinct_card distinct_filter distinct_upt)
qed

lemma civil_less: "n < n' \<Longrightarrow> civil n < civil n'"
proof -
  assume n: "n < n'"
  let ?y = "year_of n" and ?y' = "year_of n'"
  have "?y \<le> ?y'" using n by (intro year_of_mono) simp
  show ?thesis
  proof (cases "?y = ?y'")
    case True
    let ?d = "n - before_year ?y" and ?d' = "n' - before_year ?y"
    have "month_of (leap_year ?y) ?d \<le> month_of (leap_year ?y) ?d'" using n by (intro month_of_mono) simp
    with n True show ?thesis by (auto simp: civil_def Let_def less_prod_def' le_less)
  next
    case False
    with \<open>?y \<le> ?y'\<close> show ?thesis by (simp add: civil_def Let_def less_prod_def')
  qed
qed

lemma civil_bounds:
  assumes "civil n = (y, m, d)" "0 \<le> n" "n < before_year 10000"
  shows "1 \<le> y \<and> y < 10000 \<and> 1 \<le> m \<and> m \<le> 12 \<and> 1 \<le> d \<and> d \<le> 31"
proof -
  let ?doy = "n - before_year y"
  from assms(1) have y: "y = year_of n" and m: "m = month_of (leap_year y) ?doy"
    and d: "d = ?doy - before_month (leap_year y) m + 1"
    by (auto simp: civil_def Let_def)
  from year_of_spec [of n] y have "0 \<le> ?doy" "?doy < (if leap_year y then 366 else 365)"
    by (auto simp: before_year_Suc split: if_splits)
  with month_of_spec [of ?doy "leap_year y"] m d have "1 \<le> m \<and> m \<le> 12 \<and> 1 \<le> d \<and> d \<le> 31" by auto
  moreover have "1 \<le> y"
  proof (rule ccontr)
    assume "\<not> 1 \<le> y"
    then have "before_year (y + 1) \<le> before_year 1"
      using before_year_less [of "y + 1" 1] by (cases "y + 1 = 1") auto
    with year_of_spec [of n] y assms(2) show False by (simp add: before_year_def)
  qed
  moreover have "y < 10000"
  proof (rule ccontr)
    assume "\<not> y < 10000"
    then have "before_year 10000 \<le> before_year y"
      using before_year_less [of 10000 y] by (cases "y = 10000") auto
    with year_of_spec [of n] y assms(3) show False by simp
  qed
  ultimately show ?thesis by blast
qed

section \<open>Text\<close>

definition pad :: "nat \<Rightarrow> int \<Rightarrow> string" where
  "pad k n = map digit_char (to_digits 10 k n)"

definition day_length :: int where
  "day_length = 86400000000"

definition iso_fraction :: "int \<Rightarrow> string" where
  "iso_fraction us = (if us = 0 then [] else ''.'' @ pad 6 us)"

text \<open>\<open>datetime.isoformat()\<close> of a UTC time\<close>

definition isoformat :: "int \<Rightarrow> string" where
  "isoformat t =
     (let (y, m, d) = civil (t div day_length); s = t mod day_length div 1000000
      in pad 4 y @ ''-'' @ pad 2 (int m) @ ''-'' @ pad 2 d @ ''T'' @ pad 2 (s div 3600) @ '':''
         @ pad 2 (s div 60 mod 60) @ '':'' @ pad 2 (s mod 60) @ iso_fraction (t mod 1000000) @ ''+00:00'')"

text \<open>\<open>format_utc\<close> of evidence_types.py\<close>

definition format_utc :: "int \<Rightarrow> string" where
  "format_utc t = take (length (isoformat t) - 6) (isoformat t) @ ''Z''"

definition valid_time :: "int \<Rightarrow> bool" where
  "valid_time t = (0 \<le> t \<and> t < before_year 10000 * day_length)"


text \<open>The order of the texts.\<close>

lemma pad_length [simp]: "length (pad k n) = k"
  by (simp add: pad_def)

lemma append_less_iff:
  "length (a :: string) = length a' \<Longrightarrow> a @ b < a' @ b' \<longleftrightarrow> a < a' \<or> a = a' \<and> b < b'"
proof (induction a a' rule: list_induct2)
  case (Cons x xs y ys)
  then show ?case by (auto simp: Cons_less_Cons)
qed simp

lemma div_mod_less:
  "0 < (k::int) \<Longrightarrow> s < s' \<Longrightarrow> s div k < s' div k \<or> s div k = s' div k \<and> s mod k < s' mod k"
  by (metis div_mult_mod_eq less_le_not_le linorder_neqE_linordered_idom add_strict_left_mono add_less_cancel_left
      zdiv_mono1 le_less)

lemma div_upper: "0 < (k::int) \<Longrightarrow> z < b * k \<Longrightarrow> z div k < b"
  using div_bounds [of k z] by (metis linorder_not_less mult.commute mult_le_cancel_left_pos order_trans)

lemma digit_char_less: "0 \<le> a \<Longrightarrow> a < b \<Longrightarrow> b < 10 \<Longrightarrow> digit_char a < digit_char b"
  unfolding digit_char_def less_char_def by simp

lemma pad_less: "0 \<le> n \<Longrightarrow> n < n' \<Longrightarrow> n' < 10 ^ k \<Longrightarrow> pad k n < pad k n'"
proof (induction k arbitrary: n n')
  case (Suc k)
  have split: "pad (Suc k) m = pad k (m div 10) @ [digit_char (m mod 10)]" for m by (simp add: pad_def)
  have "n' div 10 < 10 ^ k" using Suc(4) by (simp add: div_less_iff_less_mult algebra_simps)
  with Suc div_mod_less [of 10 n n'] show ?case
    unfolding split by (subst append_less_iff) (auto intro: digit_char_less)
qed simp

lemma fraction_less:
  "0 \<le> n \<Longrightarrow> n < n' \<Longrightarrow> n' < 1000000 \<Longrightarrow> iso_fraction n @ ''+00:00'' < iso_fraction n' @ ''+00:00''"
proof -
  assume n: "0 \<le> n" "n < n'" "n' < 1000000"
  have "CHR ''+'' < CHR ''.''" by code_simp
  with n pad_less [of n n' 6] show ?thesis by (auto simp: iso_fraction_def append_less_iff)
qed

definition clock :: "int \<Rightarrow> string" where
  "clock s = pad 2 (s div 3600) @ '':'' @ pad 2 (s div 60 mod 60) @ '':'' @ pad 2 (s mod 60)"

lemma clock_length [simp]: "length (clock s) = 8"
  by (simp add: clock_def)

lemma lex3: "length a = length a' \<Longrightarrow> length b = length b' \<Longrightarrow> a < a' \<or> a = a' \<and> (b < b' \<or> b = b' \<and> c < c') \<Longrightarrow> a @ y @ b @ y @ c < a' @ y @ b' @ y @ c'" for a a' b b' c c' y :: string
  by (auto simp: append_less_iff)

lemma clock_less: "0 \<le> s \<Longrightarrow> s < s' \<Longrightarrow> s' < 86400 \<Longrightarrow> clock s < clock s'"
proof -
  assume s: "0 \<le> s" "s < s'" "s' < 86400"
  have h: "s div 3600 = s div 60 div 60" "s' div 3600 = s' div 60 div 60" 
    using zdiv_zmult2_eq [of 60 s 60] zdiv_zmult2_eq [of 60 s' 60] by simp_all
  have b: "0 \<le> s div 60 div 60" "s' div 60 div 60 < 10 ^ 2" using s by (auto intro!: div_upper simp: pos_imp_zdiv_nonneg_iff)
  have m: "0 \<le> s div 60 mod 60" "s' div 60 mod 60 < 10 ^ 2" "0 \<le> s mod 60" "s' mod 60 < 10 ^ 2"
    using pos_mod_bound [of 60 "s' div 60"] pos_mod_bound [of 60 s'] by simp_all
  have "s div 60 div 60 < s' div 60 div 60
    \<or> s div 60 div 60 = s' div 60 div 60 \<and> (s div 60 mod 60 < s' div 60 mod 60 \<or> s div 60 mod 60 = s' div 60 mod 60 \<and> s mod 60 < s' mod 60)"
  proof -
    have "s div 60 < s' div 60 \<or> s div 60 = s' div 60 \<and> s mod 60 < s' mod 60" using div_mod_less [OF _ s(2), of 60] by simp
    moreover have "s div 60 div 60 < s' div 60 div 60 \<or> s div 60 div 60 = s' div 60 div 60 \<and> s div 60 mod 60 < s' div 60 mod 60"
      if "s div 60 < s' div 60" using div_mod_less [OF _ that, of 60] by simp
    ultimately show ?thesis by argo
  qed
  then have "pad 2 (s div 60 div 60) < pad 2 (s' div 60 div 60)
    \<or> pad 2 (s div 60 div 60) = pad 2 (s' div 60 div 60) \<and> (pad 2 (s div 60 mod 60) < pad 2 (s' div 60 mod 60)
       \<or> pad 2 (s div 60 mod 60) = pad 2 (s' div 60 mod 60) \<and> pad 2 (s mod 60) < pad 2 (s' mod 60))"
    using pad_less [OF b(1) _ b(2)] pad_less [OF m(1) _ m(2)] pad_less [OF m(3) _ m(4)] by metis
  then show ?thesis unfolding clock_def h by (intro lex3) simp_all
qed

definition date_text :: "int \<times> nat \<times> int \<Rightarrow> string" where
  "date_text = (\<lambda>(y, m, d). pad 4 y @ ''-'' @ pad 2 (int m) @ ''-'' @ pad 2 d)"

lemma date_text_length [simp]: "length (date_text c) = 10"
  by (simp add: date_text_def split: prod.split)

lemma date_text_less:
  assumes "0 \<le> n" "n < n'" "n' < before_year 10000"
  shows "date_text (civil n) < date_text (civil n')"
proof -
  obtain y m d y' m' d' where c: "civil n = (y, m, d)" "civil n' = (y', m', d')" by (metis prod_cases3)
  with civil_bounds assms have b: "0 \<le> y" "y' < 10 ^ 4" "0 \<le> int m" "int m' < 10 ^ 2" "0 \<le> d" "d' < 10 ^ 2" by fastforce+
  from civil_less [OF assms(2)] c have "y < y' \<or> y = y' \<and> (int m < int m' \<or> int m = int m' \<and> d < d')"
    by (auto simp: less_prod_def' le_less)
  then have "pad 4 y < pad 4 y' \<or> pad 4 y = pad 4 y' \<and> (pad 2 (int m) < pad 2 (int m') \<or> pad 2 (int m) = pad 2 (int m') \<and> pad 2 d < pad 2 d')"
    using pad_less [OF b(1) _ b(2)] pad_less [OF b(3) _ b(4)] pad_less [OF b(5) _ b(6)] by metis
  then show ?thesis unfolding c date_text_def prod.case by (intro lex3) simp_all
qed

lemma isoformat_parts:
  "isoformat t = date_text (civil (t div day_length)) @ ''T'' @ clock (t mod day_length div 1000000)
     @ iso_fraction (t mod day_length mod 1000000) @ ''+00:00''"
proof -
  have "t mod day_length mod 1000000 = t mod 1000000" by (simp add: day_length_def mod_mod_cancel)
  then show ?thesis
    unfolding isoformat_def date_text_def clock_def Let_def by (cases "civil (t div day_length)") (simp only: prod.case append_assoc)
qed

lemma isoformat_strict: "valid_time t \<Longrightarrow> valid_time t' \<Longrightarrow> t < t' \<Longrightarrow> isoformat t < isoformat t'"
proof -
  assume v: "valid_time t" "valid_time t'" and less: "t < t'"
  let ?u = "t mod day_length" and ?u' = "t' mod day_length"
  have u: "0 \<le> ?u" "?u' < day_length" by (simp_all add: day_length_def)
  have day: "0 \<le> t div day_length" "t' div day_length < before_year 10000"
    using v by (auto intro!: div_upper simp: valid_time_def day_length_def pos_imp_zdiv_nonneg_iff)
  have lex: "a @ ''T'' @ b @ c < a' @ ''T'' @ b' @ c'" if "length a = length a'" "length b = length b'" "a < a' \<or> a = a' \<and> (b < b' \<or> b = b' \<and> c < c')"
    for a a' b b' c c' using that by (auto simp: append_less_iff)
  consider "t div day_length < t' div day_length" | "t div day_length = t' div day_length" "?u < ?u'"
    using div_mod_less [OF _ less, of day_length] by (auto simp: day_length_def)
  then show ?thesis
  proof cases
    case 1
    from date_text_less [OF day(1) 1 day(2)] show ?thesis unfolding isoformat_parts by (intro lex) simp_all
  next
    case 2
    have s: "0 \<le> ?u div 1000000" "?u' div 1000000 < 86400" using u by (simp_all add: day_length_def div_less_iff_less_mult pos_imp_zdiv_nonneg_iff)
    have f: "0 \<le> ?u mod 1000000" "?u' mod 1000000 < 1000000" by simp_all
    from 2(2) div_mod_less [of 1000000 ?u ?u'] have "?u div 1000000 < ?u' div 1000000 \<or> ?u div 1000000 = ?u' div 1000000 \<and> ?u mod 1000000 < ?u' mod 1000000"
      by auto
    then have "clock (?u div 1000000) < clock (?u' div 1000000) \<or> clock (?u div 1000000) = clock (?u' div 1000000)
       \<and> iso_fraction (?u mod 1000000) @ ''+00:00'' < iso_fraction (?u' mod 1000000) @ ''+00:00''"
      using clock_less [OF s(1) _ s(2)] fraction_less [OF f(1) _ f(2)] by metis
    then show ?thesis unfolding isoformat_parts 2(1) by (intro lex) simp_all
  qed
qed

lemma isoformat_order: "valid_time t \<Longrightarrow> valid_time t' \<Longrightarrow> isoformat t < isoformat t' \<longleftrightarrow> t < t'"
  using isoformat_strict [of t t'] isoformat_strict [of t' t] by (metis less_asym' linorder_neqE order_less_irrefl)

lemma isoformat_inject: "valid_time t \<Longrightarrow> valid_time t' \<Longrightarrow> isoformat t = isoformat t' \<longleftrightarrow> t = t'"
  using isoformat_order [of t t'] isoformat_order [of t' t] by (metis linorder_neqE order_less_irrefl)

end
