(* ===== verification/Run_Records.thy ===== *)
theory Run_Records
  imports Calendar
begin

text \<open>
  The lifecycle table of the API runs and the worker lease (\<open>RunLifecycleStore\<close> of lib/database.py).
  A table is the list of its rows in the order of their rowids; every operation below is one SQL
  statement in its own transaction, so a history of the table is a sequence of such steps and each
  interleaving of the callers (API requests, workers, the recovery after a restart) is one of them.
\<close>

section \<open>Rows and statements\<close>

record run_record =
  row_run_id :: string
  row_target :: string
  row_status :: string
  row_origin :: string
  row_created_at :: string
  row_started_at :: "string option"
  row_completed_at :: "string option"
  row_request_json :: string
  row_evidence_run_id :: "string option"
  row_evidence_status :: "string option"
  row_cancellation_requested_at :: "string option"
  row_error :: "string option"
  row_log :: string

type_synonym run_table = "run_record list"

text \<open>\<open>UPDATE ... SET f WHERE p\<close> with the number of rows it changed\<close>

definition update_rows :: "('a \<Rightarrow> bool) \<Rightarrow> ('a \<Rightarrow> 'a) \<Rightarrow> 'a list \<Rightarrow> 'a list \<times> nat" where
  "update_rows p f rows = (map (\<lambda>r. if p r then f r else r) rows, length (filter p rows))"

definition coalesce :: "'a option \<Rightarrow> 'a option \<Rightarrow> 'a option" where
  "coalesce a b = (case a of None \<Rightarrow> b | Some _ \<Rightarrow> a)"

definition get_run :: "run_table \<Rightarrow> string \<Rightarrow> run_record option" where
  "get_run rows run_id = find (\<lambda>r. row_run_id r = run_id) rows"

definition integrity_error :: err where
  "integrity_error = OtherError ''IntegrityError''"

text \<open>The foreign key of \<open>evidence_run_id\<close>: \<open>runs\<close> are the identifiers of the stored results.\<close>

definition foreign_key :: "string list \<Rightarrow> string option \<Rightarrow> bool" where
  "foreign_key runs ref = (case ref of None \<Rightarrow> True | Some run_id \<Rightarrow> run_id \<in> set runs)"

definition create_run :: "string list \<Rightarrow> run_record \<Rightarrow> run_table \<Rightarrow> run_table res" where
  "create_run runs row rows =
     (if row_run_id row \<in> set (map row_run_id rows) \<or> \<not> foreign_key runs (row_evidence_run_id row) then Inl integrity_error
      else Inr (rows @ [row\<lparr>row_cancellation_requested_at := None, row_error := None, row_log := []\<rparr>]))"

text \<open>The number of results is a correlated subquery over the rows of the \<open>results\<close> table.\<close>

definition list_records :: "string list \<Rightarrow> nat \<Rightarrow> nat \<Rightarrow> run_table \<Rightarrow> (run_record \<times> nat) list" where
  "list_records result_rows count_limit offset rows =
     map (\<lambda>r. (r, case row_evidence_run_id r of None \<Rightarrow> 0 | Some e \<Rightarrow> length (filter (\<lambda>x. x = e) result_rows)))
       (take count_limit (drop offset (rev (sort_key (\<lambda>r. (row_created_at r, row_run_id r)) rows))))"

section \<open>Cancelling\<close>

definition cancel_update :: "string \<Rightarrow> string \<Rightarrow> run_table \<Rightarrow> run_table \<times> nat \<times> nat option" where
  "cancel_update run_id requested_at rows =
     (let (rows1, queued) = update_rows (\<lambda>r. row_run_id r = run_id \<and> row_status r = ''queued'')
            (\<lambda>r. r\<lparr>row_status := ''cancelled'', row_cancellation_requested_at := Some requested_at,
                   row_completed_at := Some requested_at\<rparr>) rows
      in if queued \<noteq> 1
         then let (rows2, running) = update_rows (\<lambda>r. row_run_id r = run_id \<and> row_status r = ''running'')
                    (\<lambda>r. r\<lparr>row_status := ''cancelling'', row_cancellation_requested_at := Some requested_at\<rparr>) rows1
              in (rows2, queued, Some running)
         else (rows1, queued, None))"

text \<open>The row is read back in a second transaction, when the table may have changed.\<close>

definition cancel_reply :: "nat \<times> nat option \<Rightarrow> string \<Rightarrow> run_table \<Rightarrow> run_record option res" where
  "cancel_reply counts run_id later =
     (case get_run later run_id of None \<Rightarrow> Inr None
      | Some row \<Rightarrow>
          if fst counts = 1 \<or> snd counts = Some 1 \<or> row_status row \<in> {''cancelling'', ''cancelled''} then Inr (Some row)
          else Inl (ValueError (row_status row)))"

definition cancel_run :: "string \<Rightarrow> string \<Rightarrow> run_table \<Rightarrow> run_table \<times> run_record option res" where
  "cancel_run run_id requested_at rows =
     (let (rows', counts) = cancel_update run_id requested_at rows in (rows', cancel_reply counts run_id rows'))"

section \<open>Claiming\<close>

text \<open>\<open>ORDER BY key LIMIT 1\<close>: the first row with the least key\<close>

fun first_min :: "('a \<Rightarrow> 'k::linorder) \<Rightarrow> 'a list \<Rightarrow> 'a option" where
  "first_min key [] = None"
| "first_min key (x # xs) =
     (case first_min key xs of None \<Rightarrow> Some x | Some y \<Rightarrow> Some (if key x \<le> key y then x else y))"

definition queued_rows :: "run_table \<Rightarrow> run_record list" where
  "queued_rows rows = filter (\<lambda>r. row_status r = ''queued'') rows"

definition claim_update :: "string \<Rightarrow> run_table \<Rightarrow> run_table \<times> string option" where
  "claim_update started_at rows =
     (case first_min row_created_at (queued_rows rows) of None \<Rightarrow> (rows, None)
      | Some candidate \<Rightarrow>
          (fst (update_rows (\<lambda>r. row_run_id r = row_run_id candidate \<and> row_status r = ''queued'')
             (\<lambda>r. r\<lparr>row_status := ''running'', row_started_at := Some started_at\<rparr>) rows), Some (row_run_id candidate)))"

definition claim_next :: "string \<Rightarrow> run_table \<Rightarrow> run_table \<times> run_record option" where
  "claim_next started_at rows =
     (case claim_update started_at rows of (rows', None) \<Rightarrow> (rows', None)
      | (rows', Some run_id) \<Rightarrow> (rows', get_run rows' run_id))"

section \<open>Finishing and failing\<close>

definition finish_run ::
  "string list \<Rightarrow> string \<Rightarrow> string \<Rightarrow> string option \<Rightarrow> string option \<Rightarrow> string \<Rightarrow> run_table \<Rightarrow> run_table res" where
  "finish_run runs run_id completed_at evidence_run_id evidence_status log_text rows =
     (let (rows', n) = update_rows (\<lambda>r. row_run_id r = run_id \<and> row_status r \<in> {''running'', ''cancelling''})
            (\<lambda>r. r\<lparr>row_status := if row_status r = ''cancelling'' then ''cancelled'' else ''completed'',
                   row_completed_at := Some completed_at,
                   row_evidence_run_id := coalesce evidence_run_id (row_evidence_run_id r),
                   row_evidence_status := coalesce evidence_status (row_evidence_status r),
                   row_log := log_text\<rparr>) rows
      in if n \<noteq> 0 \<and> \<not> foreign_key runs evidence_run_id then Inl integrity_error else Inr rows')"

definition fail_run ::
  "string list \<Rightarrow> string \<Rightarrow> string \<Rightarrow> string \<Rightarrow> string \<Rightarrow> string \<Rightarrow> string option \<Rightarrow> string option \<Rightarrow> run_table \<Rightarrow> run_table res" where
  "fail_run runs run_id status completed_at error log_text evidence_run_id evidence_status rows =
     (let (rows', n) = update_rows (\<lambda>r. row_run_id r = run_id)
            (\<lambda>r. r\<lparr>row_status := status, row_completed_at := Some completed_at, row_error := Some error,
                   row_log := log_text,
                   row_evidence_run_id := coalesce evidence_run_id (row_evidence_run_id r),
                   row_evidence_status := coalesce evidence_status (row_evidence_status r)\<rparr>) rows
      in if n \<noteq> 0 \<and> \<not> foreign_key runs evidence_run_id then Inl integrity_error else Inr rows')"

definition running_rows :: "run_table \<Rightarrow> run_record list" where
  "running_rows rows = filter (\<lambda>r. row_status r \<in> {''running'', ''cancelling''}) rows"

section \<open>The worker lease\<close>

record lease =
  lease_owner :: string
  lease_heartbeat :: string

definition acquire_lease :: "string \<Rightarrow> int \<Rightarrow> int \<Rightarrow> lease option \<Rightarrow> lease option \<times> bool" where
  "acquire_lease owner_id now timeout_seconds row =
     (let stale_before = isoformat (now - timeout_seconds * 1000000);
          mine = \<lparr>lease_owner = owner_id, lease_heartbeat = isoformat now\<rparr>
      in case row of None \<Rightarrow> (Some mine, True)
         | Some held \<Rightarrow>
             if lease_owner held = owner_id \<or> lease_heartbeat held < stale_before then (Some mine, True) else (row, False))"

definition heartbeat_lease :: "string \<Rightarrow> int \<Rightarrow> lease option \<Rightarrow> lease option \<times> bool" where
  "heartbeat_lease owner_id now row =
     (case row of None \<Rightarrow> (None, False)
      | Some held \<Rightarrow> if lease_owner held = owner_id then (Some (held\<lparr>lease_heartbeat := isoformat now\<rparr>), True) else (row, False))"

definition release_lease :: "string \<Rightarrow> lease option \<Rightarrow> lease option" where
  "release_lease owner_id row = (case row of None \<Rightarrow> None | Some held \<Rightarrow> if lease_owner held = owner_id then None else row)"

section \<open>The rows the run store creates\<close>

text \<open>\<open>RunStore.create\<close> and the imports of run_store.py\<close>

definition queued_record :: "string \<Rightarrow> string \<Rightarrow> string \<Rightarrow> string \<Rightarrow> run_record" where
  "queued_record run_id target now request_json =
     \<lparr>row_run_id = run_id, row_target = target, row_status = ''queued'', row_origin = ''local'', row_created_at = now,
      row_started_at = None, row_completed_at = None, row_request_json = request_json, row_evidence_run_id = None,
      row_evidence_status = None, row_cancellation_requested_at = None, row_error = None, row_log = []\<rparr>"

definition imported_record ::
  "string \<Rightarrow> string \<Rightarrow> string \<Rightarrow> string \<Rightarrow> string \<Rightarrow> string \<Rightarrow> string \<Rightarrow> run_record" where
  "imported_record run_id target created_at started_at completed_at request_json evidence_status =
     \<lparr>row_run_id = run_id, row_target = target, row_status = ''completed'', row_origin = ''imported'', row_created_at = created_at,
      row_started_at = Some started_at, row_completed_at = Some completed_at, row_request_json = request_json,
      row_evidence_run_id = Some run_id, row_evidence_status = Some evidence_status, row_cancellation_requested_at = None,
      row_error = None, row_log = []\<rparr>"

section \<open>Rows under the statements\<close>

lemma get_run_Some: "get_run rows i = Some r \<Longrightarrow> r \<in> set rows \<and> row_run_id r = i"
  by (auto simp: get_run_def find_Some_iff)

lemma get_run_None: "get_run rows i = None \<longleftrightarrow> i \<notin> row_run_id ` set rows"
  by (auto simp: get_run_def find_None_iff)

lemma get_run_append: "get_run (rows @ rows') i = (case get_run rows i of None \<Rightarrow> get_run rows' i | Some r \<Rightarrow> Some r)"
  by (induction rows) (auto simp: get_run_def)

lemma get_run_in: "distinct (map row_run_id rows) \<Longrightarrow> r \<in> set rows \<Longrightarrow> get_run rows (row_run_id r) = Some r"
  by (induction rows) (auto simp: get_run_def)

lemma get_run_update:
  "(\<And>r. row_run_id (f r) = row_run_id r) \<Longrightarrow>
   get_run (fst (update_rows p f rows)) i = map_option (\<lambda>r. if p r then f r else r) (get_run rows i)"
  by (induction rows) (auto simp: get_run_def update_rows_def)

lemma update_rows_ids:
  "(\<And>r. row_run_id (f r) = row_run_id r) \<Longrightarrow> map row_run_id (fst (update_rows p f rows)) = map row_run_id rows"
  by (simp add: update_rows_def)

lemma update_rows_count:
  "distinct (map row_run_id rows) \<Longrightarrow>
   snd (update_rows (\<lambda>r. row_run_id r = i \<and> q r) f rows) = (case get_run rows i of None \<Rightarrow> 0 | Some r \<Rightarrow> if q r then 1 else 0)"
proof (induction rows)
  case (Cons x rows)
  have "row_run_id x \<notin> row_run_id ` set rows" using Cons(2) by simp
  then have "i = row_run_id x \<Longrightarrow> filter (\<lambda>r. row_run_id r = i \<and> q r) rows = []" by (auto simp: filter_empty_conv) (metis image_eqI)
  with Cons show ?case by (auto simp: get_run_def update_rows_def split: option.splits)
qed (simp add: get_run_def update_rows_def)

lemma update_rows_none: "snd (update_rows p f rows) = 0 \<Longrightarrow> fst (update_rows p f rows) = rows"
  by (auto simp: update_rows_def filter_empty_conv intro: map_idI)

lemma cancel_update_row:
  assumes "distinct (map row_run_id rows)" "cancel_update i now rows = (rows', counts)"
  shows "map row_run_id rows' = map row_run_id rows"
    "get_run rows' j = map_option (\<lambda>r.
       if j = i \<and> row_status r = ''queued'' then
         r\<lparr>row_status := ''cancelled'', row_cancellation_requested_at := Some now, row_completed_at := Some now\<rparr>
       else if j = i \<and> row_status r = ''running'' then
         r\<lparr>row_status := ''cancelling'', row_cancellation_requested_at := Some now\<rparr>
       else r) (get_run rows j)"
    "counts = (case get_run rows i of None \<Rightarrow> (0, Some 0)
       | Some r \<Rightarrow> if row_status r = ''queued'' then (1, None)
           else (0, Some (if row_status r = ''running'' then 1 else 0)))"
proof -
  let ?p = "\<lambda>s r. row_run_id r = i \<and> row_status r = s"
  let ?f = "\<lambda>r. r\<lparr>row_status := ''cancelled'', row_cancellation_requested_at := Some now, row_completed_at := Some now\<rparr>"
  let ?g = "\<lambda>r. r\<lparr>row_status := ''cancelling'', row_cancellation_requested_at := Some now\<rparr>"
  define rows1 n where r1: "rows1 = fst (update_rows (?p ''queued'') ?f rows)" "n = snd (update_rows (?p ''queued'') ?f rows)"
  define rows2 m where r2: "rows2 = fst (update_rows (?p ''running'') ?g rows1)" "m = snd (update_rows (?p ''running'') ?g rows1)"
  have n: "n = (case get_run rows i of None \<Rightarrow> 0 | Some r \<Rightarrow> if row_status r = ''queued'' then 1 else 0)"
    unfolding r1 by (rule update_rows_count [OF assms(1)])
  have ids1: "map row_run_id rows1 = map row_run_id rows" unfolding r1 by (rule update_rows_ids) simp
  have g1: "get_run rows1 j = map_option (\<lambda>r. if ?p ''queued'' r then ?f r else r) (get_run rows j)" for j
    unfolding r1 by (rule get_run_update) simp
  have ids2: "map row_run_id rows2 = map row_run_id rows"
    unfolding r2 ids1 [symmetric] by (rule update_rows_ids) simp
  have g2: "get_run rows2 j = map_option (\<lambda>r. if ?p ''running'' r then ?g r else r) (get_run rows1 j)" for j
    unfolding r2 by (rule get_run_update) simp
  have "distinct (map row_run_id rows1)" using ids1 assms(1) by simp
  then have m: "m = (case get_run rows1 i of None \<Rightarrow> 0 | Some r \<Rightarrow> if row_status r = ''running'' then 1 else 0)"
    unfolding r2 by (rule update_rows_count)
  have r: "(rows', counts) = (if n \<noteq> 1 then (rows2, n, Some m) else (rows1, n, None))"
    using assms(2) unfolding cancel_update_def case_prod_beta Let_def r1 [symmetric] r2 [symmetric] by (simp split: if_splits)
  show "map row_run_id rows' = map row_run_id rows" using r ids1 ids2 by (auto split: if_splits)
  show "get_run rows' j = map_option (\<lambda>r.
       if j = i \<and> row_status r = ''queued'' then ?f r else if j = i \<and> row_status r = ''running'' then ?g r else r)
       (get_run rows j)"
  proof (cases "get_run rows j")
    case None
    with r g1 g2 show ?thesis by (auto split: if_splits)
  next
    case (Some x)
    then have "row_run_id x = j" by (simp add: get_run_Some)
    with r g1 g2 Some n show ?thesis by (auto split: if_splits)
  qed
  show "counts = (case get_run rows i of None \<Rightarrow> (0, Some 0)
       | Some r \<Rightarrow> if row_status r = ''queued'' then (1, None)
           else (0, Some (if row_status r = ''running'' then 1 else 0)))"
    using r n m g1 [of i] by (auto split: option.splits if_splits dest: get_run_Some)
qed

text \<open>C12: Cancelling an API run. An unknown run is reported as absent; a queued run becomes cancelled at
  once and a running one cancelling, and that row is returned; a run that is cancelling or cancelled
  already is returned as it is; a completed or failed one is left alone and its status raised.\<close>

theorem cancel_run_spec:
  assumes "distinct (map row_run_id rows)"
  shows "case get_run rows i of
      None \<Rightarrow> snd (cancel_run i now rows) = Inr None
    | Some r \<Rightarrow>
        (case snd (cancel_run i now rows) of
           Inl e \<Rightarrow> e = ValueError (row_status r) \<and> get_run (fst (cancel_run i now rows)) i = Some r
             \<and> row_status r \<notin> {''queued'', ''running'', ''cancelling'', ''cancelled''}
         | Inr reply \<Rightarrow> reply = get_run (fst (cancel_run i now rows)) i
             \<and> map_option row_status reply =
                 Some (if row_status r = ''queued'' then ''cancelled'' else if row_status r = ''running'' then ''cancelling'' else row_status r)
             \<and> row_status r \<in> {''queued'', ''running'', ''cancelling'', ''cancelled''})"
proof -
  obtain rows' counts where u: "cancel_update i now rows = (rows', counts)" by (metis surj_pair)
  note facts = cancel_update_row(2,3) [OF assms u]
  show ?thesis
    using facts(1) [of i] facts(2)
    by (cases "get_run rows i") (simp_all add: cancel_run_def u cancel_reply_def)
qed

lemma cancel_run_spec_witness:
  "case get_run [queued_record ''a'' ''t'' ''1'' []] ''a'' of
      None \<Rightarrow> snd (cancel_run ''a'' ''2'' [queued_record ''a'' ''t'' ''1'' []]) = Inr None
    | Some r \<Rightarrow> row_status r = ''queued''
        \<and> map_option row_status (get_run (fst (cancel_run ''a'' ''2'' [queued_record ''a'' ''t'' ''1'' []])) ''a'') = Some ''cancelled''"
  using cancel_run_spec [of "[queued_record ''a'' ''t'' ''1'' []]" "''a''" "''2''"]
  by (simp add: get_run_def queued_record_def split: sum.splits)

section \<open>Histories of the table\<close>

datatype run_event =
    Created string
  | CancelRequested string
  | Claimed string
  | Finished string
  | Failed string

text \<open>One transaction of one caller: the run store creates queued and imported records only, and fails runs
  with the status failed or cancelled only. \<open>runs\<close> is any set of stored results.\<close>

inductive run_step :: "run_table \<Rightarrow> run_event \<Rightarrow> run_table \<Rightarrow> bool" where
  step_create: "create_run runs (queued_record i target now request) rows = Inr rows' \<Longrightarrow> run_step rows (Created i) rows'"
| step_import: "create_run runs (imported_record i target created started completed request status) rows = Inr rows' \<Longrightarrow>
    run_step rows (Created i) rows'"
| step_cancel: "fst (cancel_update i now rows) = rows' \<Longrightarrow> run_step rows (CancelRequested i) rows'"
| step_claim: "claim_update now rows = (rows', Some i) \<Longrightarrow> run_step rows (Claimed i) rows'"
| step_finish: "finish_run runs i now evidence evidence_status log_text rows = Inr rows' \<Longrightarrow> run_step rows (Finished i) rows'"
| step_fail: "status \<in> {''failed'', ''cancelled''} \<Longrightarrow>
    fail_run runs i status now error log_text evidence evidence_status rows = Inr rows' \<Longrightarrow> run_step rows (Failed i) rows'"

inductive_cases run_stepE: "run_step rows e rows'"

inductive run_history :: "run_table \<Rightarrow> run_event list \<Rightarrow> run_table \<Rightarrow> bool" where
  history_start: "run_history rows [] rows"
| history_step: "run_history rows es rows' \<Longrightarrow> run_step rows' e rows'' \<Longrightarrow> run_history rows (es @ [e]) rows''"

definition terminal :: "string \<Rightarrow> bool" where
  "terminal status = (status \<in> {''completed'', ''failed'', ''cancelled''})"

definition row_ok :: "run_record \<Rightarrow> bool" where
  "row_ok r =
     (row_status r \<in> {''queued'', ''running'', ''cancelling'', ''completed'', ''failed'', ''cancelled''}
      \<and> (row_completed_at r \<noteq> None \<longleftrightarrow> terminal (row_status r))
      \<and> (row_status r = ''queued'' \<longrightarrow> row_started_at r = None)
      \<and> (row_status r \<in> {''running'', ''cancelling'', ''completed''} \<longrightarrow> row_started_at r \<noteq> None)
      \<and> (row_status r = ''cancelling'' \<longrightarrow> row_cancellation_requested_at r \<noteq> None)
      \<and> (row_status r = ''failed'' \<longrightarrow> row_error r \<noteq> None))"

definition table_ok :: "run_table \<Rightarrow> bool" where
  "table_ok rows = (distinct (map row_run_id rows) \<and> list_all row_ok rows)"

lemma table_ok_get: "table_ok rows \<longleftrightarrow> distinct (map row_run_id rows) \<and> (\<forall>i r. get_run rows i = Some r \<longrightarrow> row_ok r)"
  by (auto simp: table_ok_def list_all_iff dest: get_run_Some intro: get_run_in)

lemma first_min_in: "first_min key xs = Some y \<Longrightarrow> y \<in> set xs \<and> (\<forall>x\<in>set xs. key y \<le> key x)"
proof (induction xs arbitrary: y)
  case (Cons x xs)
  then show ?case by (cases "first_min key xs"; cases xs) (auto split: if_splits option.splits)
qed simp

lemma first_min_None: "first_min key xs = None \<longleftrightarrow> xs = []"
  by (cases xs) (auto split: option.splits)

lemma claim_update_row:
  assumes "distinct (map row_run_id rows)" "claim_update now rows = (rows', Some i)"
  shows "map row_run_id rows' = map row_run_id rows"
    "get_run rows' j = map_option (\<lambda>r. if j = i then r\<lparr>row_status := ''running'', row_started_at := Some now\<rparr> else r) (get_run rows j)"
    "\<exists>r. get_run rows i = Some r \<and> row_status r = ''queued''"
proof -
  let ?f = "\<lambda>r. r\<lparr>row_status := ''running'', row_started_at := Some now\<rparr>"
  let ?p = "\<lambda>r. row_run_id r = i \<and> row_status r = ''queued''"
  from assms(2) obtain c where c: "first_min row_created_at (queued_rows rows) = Some c" "row_run_id c = i"
      and r: "rows' = fst (update_rows ?p ?f rows)"
    by (auto simp: claim_update_def split: option.splits)
  show ids: "map row_run_id rows' = map row_run_id rows" unfolding r by (rule update_rows_ids) simp
  have "c \<in> set rows" "row_status c = ''queued''" using first_min_in [OF c(1)] by (auto simp: queued_rows_def)
  with get_run_in [OF assms(1)] c(2) have i: "get_run rows i = Some c" by auto
  with \<open>row_status c = ''queued''\<close> show "\<exists>r. get_run rows i = Some r \<and> row_status r = ''queued''" by blast
  have "get_run rows' j = map_option (\<lambda>r. if ?p r then ?f r else r) (get_run rows j)"
    unfolding r by (rule get_run_update) simp
  with i \<open>row_status c = ''queued''\<close>
  show "get_run rows' j = map_option (\<lambda>r. if j = i then ?f r else r) (get_run rows j)"
    by (cases "get_run rows j") (auto dest: get_run_Some)
qed

lemma finish_run_row:
  assumes "finish_run runs i now evidence evidence_status log_text rows = Inr rows'"
  shows "map row_run_id rows' = map row_run_id rows"
    "get_run rows' j = map_option (\<lambda>r. if j = i \<and> row_status r \<in> {''running'', ''cancelling''} then
         r\<lparr>row_status := if row_status r = ''cancelling'' then ''cancelled'' else ''completed'',
           row_completed_at := Some now, row_evidence_run_id := coalesce evidence (row_evidence_run_id r),
           row_evidence_status := coalesce evidence_status (row_evidence_status r), row_log := log_text\<rparr> else r) (get_run rows j)"
proof -
  let ?f = "\<lambda>r. r\<lparr>row_status := if row_status r = ''cancelling'' then ''cancelled'' else ''completed'',
           row_completed_at := Some now, row_evidence_run_id := coalesce evidence (row_evidence_run_id r),
           row_evidence_status := coalesce evidence_status (row_evidence_status r), row_log := log_text\<rparr>"
  let ?p = "\<lambda>r. row_run_id r = i \<and> row_status r \<in> {''running'', ''cancelling''}"
  have r: "rows' = fst (update_rows ?p ?f rows)"
    using assms by (auto simp: finish_run_def case_prod_beta split: if_splits)
  show "map row_run_id rows' = map row_run_id rows" unfolding r by (rule update_rows_ids) simp
  have "get_run rows' j = map_option (\<lambda>r. if ?p r then ?f r else r) (get_run rows j)"
    unfolding r by (rule get_run_update) simp
  then show "get_run rows' j = map_option (\<lambda>r. if j = i \<and> row_status r \<in> {''running'', ''cancelling''} then ?f r else r) (get_run rows j)"
    by (cases "get_run rows j") (auto dest: get_run_Some)
qed

lemma fail_run_row:
  assumes "fail_run runs i status now error log_text evidence evidence_status rows = Inr rows'"
  shows "map row_run_id rows' = map row_run_id rows"
    "get_run rows' j = map_option (\<lambda>r. if j = i then
         r\<lparr>row_status := status, row_completed_at := Some now, row_error := Some error, row_log := log_text,
           row_evidence_run_id := coalesce evidence (row_evidence_run_id r),
           row_evidence_status := coalesce evidence_status (row_evidence_status r)\<rparr> else r) (get_run rows j)"
proof -
  let ?f = "\<lambda>r. r\<lparr>row_status := status, row_completed_at := Some now, row_error := Some error, row_log := log_text,
           row_evidence_run_id := coalesce evidence (row_evidence_run_id r),
           row_evidence_status := coalesce evidence_status (row_evidence_status r)\<rparr>"
  let ?p = "\<lambda>r. row_run_id r = i"
  have r: "rows' = fst (update_rows ?p ?f rows)"
    using assms by (auto simp: fail_run_def case_prod_beta split: if_splits)
  show "map row_run_id rows' = map row_run_id rows" unfolding r by (rule update_rows_ids) simp
  have "get_run rows' j = map_option (\<lambda>r. if ?p r then ?f r else r) (get_run rows j)"
    unfolding r by (rule get_run_update) simp
  then show "get_run rows' j = map_option (\<lambda>r. if j = i then ?f r else r) (get_run rows j)"
    by (cases "get_run rows j") (auto dest: get_run_Some)
qed

lemma create_run_row:
  assumes "create_run runs row rows = Inr rows'"
  shows "get_run rows (row_run_id row) = None"
    "get_run rows' j = (if j = row_run_id row
       then Some (row\<lparr>row_cancellation_requested_at := None, row_error := None, row_log := []\<rparr>) else get_run rows j)"
    "map row_run_id rows' = map row_run_id rows @ [row_run_id row]"
proof -
  let ?row = "row\<lparr>row_cancellation_requested_at := None, row_error := None, row_log := []\<rparr>"
  from assms have new: "row_run_id row \<notin> row_run_id ` set rows" and r: "rows' = rows @ [?row]"
    by (auto simp: create_run_def split: if_splits)
  from new show none: "get_run rows (row_run_id row) = None" by (simp add: get_run_None)
  have "get_run [?row] j = (if j = row_run_id row then Some ?row else None)" by (auto simp: get_run_def)
  with none show "get_run rows' j = (if j = row_run_id row then Some ?row else get_run rows j)"
    by (auto simp: r get_run_append split: option.splits)
  show "map row_run_id rows' = map row_run_id rows @ [row_run_id row]" by (simp add: r)
qed

text \<open>The effect of one step on the row of one run.\<close>

lemma run_step_ids: "run_step rows e rows' \<Longrightarrow> distinct (map row_run_id rows) \<Longrightarrow>
    map row_run_id rows' = map row_run_id rows @ (case e of Created i \<Rightarrow> [i] | _ \<Rightarrow> []) \<and> distinct (map row_run_id rows')"
proof (erule run_stepE)
  fix runs i target now request assume d: "distinct (map row_run_id rows)" and e: "e = Created i"
    and c: "create_run runs (queued_record i target now request) rows = Inr rows'"
  from create_run_row(1,3) [OF c] d e show ?thesis by (auto simp: queued_record_def get_run_None)
next
  fix runs i target created started completed request status assume d: "distinct (map row_run_id rows)" and e: "e = Created i"
    and c: "create_run runs (imported_record i target created started completed request status) rows = Inr rows'"
  from create_run_row(1,3) [OF c] d e show ?thesis by (auto simp: imported_record_def get_run_None)
next
  fix i now assume d: "distinct (map row_run_id rows)" and e: "e = CancelRequested i" and r: "fst (cancel_update i now rows) = rows'"
  from cancel_update_row(1) [OF d, of i now rows' "snd (cancel_update i now rows)"] r d e show ?thesis by auto
next
  fix i now assume d: "distinct (map row_run_id rows)" and e: "e = Claimed i" and c: "claim_update now rows = (rows', Some i)"
  from claim_update_row(1) [OF d c] d e show ?thesis by simp
next
  fix runs i now ev es l assume d: "distinct (map row_run_id rows)" and e: "e = Finished i"
    and c: "finish_run runs i now ev es l rows = Inr rows'"
  from finish_run_row(1) [OF c] d e show ?thesis by simp
next
  fix status runs i now error l ev es assume d: "distinct (map row_run_id rows)" and e: "e = Failed i"
    and c: "fail_run runs i status now error l ev es rows = Inr rows'"
  from fail_run_row(1) [OF c] d e show ?thesis by simp
qed

lemma run_step_row:
  assumes "run_step rows e rows'" "distinct (map row_run_id rows)" "get_run rows i = Some r" "row_ok r"
  shows "\<exists>r'. get_run rows' i = Some r' \<and> row_ok r' \<and> row_target r' = row_target r \<and> row_request_json r' = row_request_json r
    \<and> row_created_at r' = row_created_at r \<and> row_origin r' = row_origin r
    \<and> (r' \<noteq> r \<longrightarrow> (e = CancelRequested i \<and> (row_status r, row_status r') \<in> {(''queued'', ''cancelled''), (''running'', ''cancelling'')})
        \<or> (e = Claimed i \<and> (row_status r, row_status r') = (''queued'', ''running''))
        \<or> (e = Finished i \<and> (row_status r, row_status r') \<in> {(''running'', ''completed''), (''cancelling'', ''cancelled'')})
        \<or> (e = Failed i \<and> row_status r' \<in> {''failed'', ''cancelled''}))"
  using assms(1)
proof (rule run_stepE)
  fix runs k target now request assume c: "create_run runs (queued_record k target now request) rows = Inr rows'"
  from create_run_row(1,2) [OF c] assms show ?thesis by (auto simp: queued_record_def)
next
  fix runs k target created started completed request status
  assume c: "create_run runs (imported_record k target created started completed request status) rows = Inr rows'"
  from create_run_row(1,2) [OF c] assms show ?thesis by (auto simp: imported_record_def)
next
  fix k now assume e: "e = CancelRequested k" and r: "fst (cancel_update k now rows) = rows'"
  have "cancel_update k now rows = (rows', snd (cancel_update k now rows))" using r by (metis prod.collapse)
  from cancel_update_row(2) [OF assms(2) this, of i] assms(3)
  have g: "get_run rows' i = Some (if i = k \<and> row_status r = ''queued'' then
         r\<lparr>row_status := ''cancelled'', row_cancellation_requested_at := Some now, row_completed_at := Some now\<rparr>
       else if i = k \<and> row_status r = ''running'' then
         r\<lparr>row_status := ''cancelling'', row_cancellation_requested_at := Some now\<rparr>
       else r)" by simp
  show ?thesis unfolding g e using assms(4) by (simp add: row_ok_def terminal_def)
next
  fix k now assume e: "e = Claimed k" and c: "claim_update now rows = (rows', Some k)"
  from claim_update_row(2) [OF assms(2) c, of i] assms(3)
  have g: "get_run rows' i = Some (if i = k then r\<lparr>row_status := ''running'', row_started_at := Some now\<rparr> else r)" by simp
  have q: "i = k \<Longrightarrow> row_status r = ''queued''" using claim_update_row(3) [OF assms(2) c] assms(3) by simp
  show ?thesis unfolding g e using assms(4) q by (cases "i = k") (simp_all add: row_ok_def terminal_def)
next
  fix runs k now ev es l assume e: "e = Finished k" and c: "finish_run runs k now ev es l rows = Inr rows'"
  from finish_run_row(2) [OF c, of i] assms(3)
  have g: "get_run rows' i = Some (if i = k \<and> row_status r \<in> {''running'', ''cancelling''} then
         r\<lparr>row_status := if row_status r = ''cancelling'' then ''cancelled'' else ''completed'',
           row_completed_at := Some now, row_evidence_run_id := coalesce ev (row_evidence_run_id r),
           row_evidence_status := coalesce es (row_evidence_status r), row_log := l\<rparr> else r)" by simp
  show ?thesis unfolding g e using assms(4) by (simp add: row_ok_def terminal_def)
next
  fix status runs k now error l ev es assume e: "e = Failed k" and st: "status = ''failed'' \<or> status = ''cancelled''"
    and c: "fail_run runs k status now error l ev es rows = Inr rows'"
  from fail_run_row(2) [OF c, of i] assms(3)
  have g: "get_run rows' i = Some (if i = k then
         r\<lparr>row_status := status, row_completed_at := Some now, row_error := Some error, row_log := l,
           row_evidence_run_id := coalesce ev (row_evidence_run_id r),
           row_evidence_status := coalesce es (row_evidence_status r)\<rparr> else r)" by simp
  show ?thesis
  proof (cases "status = ''failed''")
    case True
    then show ?thesis unfolding g e using assms(4) by (simp add: row_ok_def terminal_def)
  next
    case False
    then have "status = ''cancelled''" using st by simp
    then show ?thesis unfolding g e using assms(4) by (simp add: row_ok_def terminal_def)
  qed
qed

lemma run_step_new_row:
  assumes "run_step rows e rows'" "distinct (map row_run_id rows)" "get_run rows i = None"
  shows "get_run rows' i = None \<or> (\<exists>r'. e = Created i \<and> get_run rows' i = Some r' \<and> row_ok r' \<and> row_status r' \<in> {''queued'', ''completed''})"
  using assms(1)
proof (rule run_stepE)
  fix runs k target now request assume e: "e = Created k" and c: "create_run runs (queued_record k target now request) rows = Inr rows'"
  from create_run_row(2) [OF c] e assms(3) show ?thesis by (auto simp: queued_record_def row_ok_def terminal_def)
next
  fix runs k target created started completed request status
  assume e: "e = Created k" and c: "create_run runs (imported_record k target created started completed request status) rows = Inr rows'"
  from create_run_row(2) [OF c] e assms(3) show ?thesis by (auto simp: imported_record_def row_ok_def terminal_def)
next
  fix k now assume r: "fst (cancel_update k now rows) = rows'"
  have "cancel_update k now rows = (rows', snd (cancel_update k now rows))" using r by (metis prod.collapse)
  from cancel_update_row(2) [OF assms(2) this, of i] assms(3) show ?thesis by simp
next
  fix k now assume c: "claim_update now rows = (rows', Some k)"
  from claim_update_row(2) [OF assms(2) c] assms show ?thesis by auto
next
  fix runs k now ev es l assume c: "finish_run runs k now ev es l rows = Inr rows'"
  from finish_run_row(2) [OF c, of i] assms show ?thesis by auto
next
  fix status runs k now error l ev es assume c: "fail_run runs k status now error l ev es rows = Inr rows'"
  from fail_run_row(2) [OF c, of i] assms show ?thesis by auto
qed

lemma run_step_ok: "run_step rows e rows' \<Longrightarrow> table_ok rows \<Longrightarrow> table_ok rows'"
proof -
  assume s: "run_step rows e rows'" and ok: "table_ok rows"
  then have d: "distinct (map row_run_id rows)" by (simp add: table_ok_def)
  have "row_ok r'" if "get_run rows' i = Some r'" for i r'
  proof (cases "get_run rows i")
    case None
    with run_step_new_row [OF s d None] that show ?thesis by auto
  next
    case (Some r)
    with ok have "row_ok r" by (simp add: table_ok_get)
    from run_step_row [OF s d Some this] that show ?thesis by auto
  qed
  moreover have "distinct (map row_run_id rows')" using run_step_ids [OF s d] by blast
  ultimately show ?thesis unfolding table_ok_get by blast
qed

lemma run_history_ok: "run_history rows es rows' \<Longrightarrow> table_ok rows \<Longrightarrow> table_ok rows'"
  by (induction rule: run_history.induct) (auto intro: run_step_ok)

section \<open>The lifecycle the table implements\<close>

datatype run_state = Queued | Running | Cancelling | Completed | Unsuccessful | Withdrawn

fun state_of :: "string \<Rightarrow> run_state option" where
  "state_of status =
     (if status = ''queued'' then Some Queued else if status = ''running'' then Some Running
      else if status = ''cancelling'' then Some Cancelling else if status = ''completed'' then Some Completed
      else if status = ''failed'' then Some Unsuccessful else if status = ''cancelled'' then Some Withdrawn else None)"

inductive lifecycle :: "run_state \<Rightarrow> run_state \<Rightarrow> bool" where
  "lifecycle Queued Running"
| "lifecycle Queued Withdrawn"
| "lifecycle Running Cancelling"
| "lifecycle Running Completed"
| "lifecycle Cancelling Withdrawn"
| "s \<in> {Queued, Running, Cancelling} \<Longrightarrow> lifecycle s Unsuccessful"
| "s \<in> {Queued, Running, Cancelling} \<Longrightarrow> lifecycle s Withdrawn"

inductive_simps lifecycle_simps: "lifecycle s s'"

definition abs_state :: "run_table \<Rightarrow> string \<Rightarrow> run_state option" where
  "abs_state rows i = (case get_run rows i of None \<Rightarrow> None | Some r \<Rightarrow> state_of (row_status r))"

text \<open>C5: The table refines the lifecycle, with the one exception the code has. A transaction leaves the
  abstract state of every other run alone. It leaves its own run alone, or moves it along an edge of the
  lifecycle, or is a failure reported late, which overwrites the state of a run that had ended with a
  failure or a cancellation.\<close>

theorem table_refines_lifecycle:
  assumes "table_ok rows" "run_step rows e rows'" "abs_state rows i = Some s"
  shows "\<exists>s'. abs_state rows' i = Some s'
    \<and> (s' = s \<or> (lifecycle s s' \<and> e \<in> {CancelRequested i, Claimed i, Finished i, Failed i})
       \<or> (e = Failed i \<and> s \<in> {Completed, Unsuccessful, Withdrawn} \<and> s' \<in> {Unsuccessful, Withdrawn}))"
proof -
  from assms(3) obtain r where r: "get_run rows i = Some r" "state_of (row_status r) = Some s"
    by (auto simp: abs_state_def split: option.splits)
  have ok: "row_ok r" "distinct (map row_run_id rows)" using assms(1) r(1) by (auto simp: table_ok_get)
  from run_step_row [OF assms(2) ok(2) r(1) ok(1)] obtain r' where r': "get_run rows' i = Some r'" "row_ok r'"
    "r' \<noteq> r \<longrightarrow> (e = CancelRequested i \<and> (row_status r, row_status r') \<in> {(''queued'', ''cancelled''), (''running'', ''cancelling'')})
        \<or> (e = Claimed i \<and> (row_status r, row_status r') = (''queued'', ''running''))
        \<or> (e = Finished i \<and> (row_status r, row_status r') \<in> {(''running'', ''completed''), (''cancelling'', ''cancelled'')})
        \<or> (e = Failed i \<and> row_status r' \<in> {''failed'', ''cancelled''})" by blast
  show ?thesis
  proof (cases "r' = r")
    case True
    with r r'(1) show ?thesis by (simp add: abs_state_def)
  next
    case False
    have a: "abs_state rows' i = state_of (row_status r')" using r'(1) by (simp add: abs_state_def)
    from r'(3) False show ?thesis
      by (elim impE disjE conjE)
        (use r r'(2) ok(1) in \<open>auto simp: a lifecycle_simps row_ok_def split: if_splits\<close>)
  qed
qed

lemma claimed_was_queued:
  assumes "run_step rows (Claimed i) rows'" "distinct (map row_run_id rows)"
  obtains r where "get_run rows i = Some r" "row_status r = ''queued''"
proof -
  from assms(1) obtain now where "claim_update now rows = (rows', Some i)" by (auto elim: run_stepE)
  from claim_update_row(3) [OF assms(2) this] that show thesis by blast
qed

text \<open>What the histories of a table keep of one run.\<close>

lemma run_history_keeps:
  "run_history rows es rows' \<Longrightarrow> table_ok rows \<Longrightarrow> get_run rows i = Some r \<Longrightarrow>
   \<exists>r'. get_run rows' i = Some r' \<and> row_target r' = row_target r \<and> row_request_json r' = row_request_json r
     \<and> row_created_at r' = row_created_at r \<and> row_origin r' = row_origin r
     \<and> (row_status r \<noteq> ''queued'' \<longrightarrow> row_status r' \<noteq> ''queued'' \<and> Claimed i \<notin> set es)"
proof (induction rule: run_history.induct)
  case (history_step rows es rows' e rows'')
  then obtain r' where r': "get_run rows' i = Some r'" "row_target r' = row_target r" "row_request_json r' = row_request_json r"
    "row_created_at r' = row_created_at r" "row_origin r' = row_origin r"
    "row_status r \<noteq> ''queued'' \<longrightarrow> row_status r' \<noteq> ''queued'' \<and> Claimed i \<notin> set es" by blast
  have ok: "table_ok rows'" using run_history_ok history_step by blast
  then have "distinct (map row_run_id rows')" "row_ok r'" using r'(1) by (auto simp: table_ok_get)
  from run_step_row [OF history_step(2) this(1) r'(1) this(2)] obtain r'' where
    r'': "get_run rows'' i = Some r''" "row_target r'' = row_target r'" "row_request_json r'' = row_request_json r'"
      "row_created_at r'' = row_created_at r'" "row_origin r'' = row_origin r'"
    and m: "r'' \<noteq> r' \<longrightarrow> (e = CancelRequested i \<and> (row_status r', row_status r'') \<in> {(''queued'', ''cancelled''), (''running'', ''cancelling'')})
        \<or> (e = Claimed i \<and> (row_status r', row_status r'') = (''queued'', ''running''))
        \<or> (e = Finished i \<and> (row_status r', row_status r'') \<in> {(''running'', ''completed''), (''cancelling'', ''cancelled'')})
        \<or> (e = Failed i \<and> row_status r'' \<in> {''failed'', ''cancelled''})" by blast
  have c: "e = Claimed i \<Longrightarrow> row_status r' = ''queued''"
    using history_step(2) \<open>distinct (map row_run_id rows')\<close> r'(1) by (auto elim: claimed_was_queued)
  show ?case
    using r' r'' m c by (intro exI [of _ r'']) auto
qed auto

lemma claimed_leaves_queue:
  assumes "run_step rows (Claimed i) rows'" "table_ok rows"
  shows "\<exists>r. get_run rows' i = Some r \<and> row_status r = ''running''"
proof -
  from assms(1) obtain now where "claim_update now rows = (rows', Some i)" by (auto elim: run_stepE)
  moreover have "distinct (map row_run_id rows)" using assms(2) by (simp add: table_ok_def)
  ultimately show ?thesis using claim_update_row(2,3) by fastforce
qed

lemma claims_of_absent: "run_history rows es rows' \<Longrightarrow> table_ok rows \<Longrightarrow>
    length (filter (\<lambda>e. e = Claimed i) es) \<le> 1 \<and>
    (get_run rows' i = None \<or> abs_state rows' i = Some Queued \<longrightarrow> Claimed i \<notin> set es)"
proof (induction rule: run_history.induct)
  case (history_step rows es rows' e rows'')
  have ok: "table_ok rows'" using run_history_ok history_step by blast
  then have d: "distinct (map row_run_id rows')" by (simp add: table_ok_def)
  have ok'': "table_ok rows''" using run_step_ok [OF history_step(2) ok] .
  show ?case
  proof (cases "e = Claimed i")
    case True
    then obtain r where "get_run rows' i = Some r" "row_status r = ''queued''"
      using claimed_was_queued [OF history_step(2) [unfolded True] d] by blast
    then have "Claimed i \<notin> set es" using history_step by (simp add: abs_state_def)
    moreover have "get_run rows'' i \<noteq> None" "abs_state rows'' i \<noteq> Some Queued"
      using claimed_leaves_queue [OF history_step(2) [unfolded True] ok] by (auto simp: abs_state_def)
    ultimately show ?thesis using True by (auto simp: filter_empty_conv)
  next
    case False
    have "get_run rows' i = None \<or> abs_state rows' i = Some Queued"
      if "Claimed i \<in> set es" "get_run rows'' i = None \<or> abs_state rows'' i = Some Queued"
    proof (cases "get_run rows' i")
      case (Some r)
      with ok have "row_ok r" by (simp add: table_ok_get)
      from run_step_row [OF history_step(2) d Some this] that(2) Some show ?thesis
        by (auto simp: abs_state_def split: if_splits)
    qed simp
    with False history_step show ?thesis by auto
  qed
qed simp

text \<open>C2: A run is handed to a worker at most once in the whole history of the table, whatever the workers,
  the cancellations, the restarts and the failures do, and its target, its request and its creation time
  never change.\<close>

theorem run_claimed_at_most_once:
  assumes "run_history rows es rows'" "table_ok rows"
  shows "length (filter (\<lambda>e. e = Claimed i) es) \<le> 1
    \<and> (\<forall>r\<in>set rows. \<exists>r'\<in>set rows'. row_run_id r' = row_run_id r \<and> row_target r' = row_target r
        \<and> row_request_json r' = row_request_json r \<and> row_created_at r' = row_created_at r)"
proof
  show "length (filter (\<lambda>e. e = Claimed i) es) \<le> 1" using claims_of_absent [OF assms] by simp
  show "\<forall>r\<in>set rows. \<exists>r'\<in>set rows'. row_run_id r' = row_run_id r \<and> row_target r' = row_target r
        \<and> row_request_json r' = row_request_json r \<and> row_created_at r' = row_created_at r"
  proof
    fix r assume "r \<in> set rows"
    then have "get_run rows (row_run_id r) = Some r" using assms(2) by (auto simp: table_ok_def intro: get_run_in)
    from run_history_keeps [OF assms this] show "\<exists>r'\<in>set rows'. row_run_id r' = row_run_id r \<and> row_target r' = row_target r
        \<and> row_request_json r' = row_request_json r \<and> row_created_at r' = row_created_at r"
      by (auto dest: get_run_Some)
  qed
qed

text \<open>C13: Every reachable table is well-formed: run identifiers are unique, a run has a completion time exactly
  when its status is completed, failed or cancelled, queued runs have not started, running, cancelling and
  completed ones have, a cancelling one carries the time of the request and a failed one an error.\<close>

theorem run_table_well_formed:
  assumes "run_history [] es rows"
  shows "distinct (map row_run_id rows) \<and>
    (\<forall>r\<in>set rows. (row_completed_at r \<noteq> None \<longleftrightarrow> row_status r \<in> {''completed'', ''failed'', ''cancelled''})
      \<and> (row_completed_at r = None \<longleftrightarrow> row_status r \<in> {''queued'', ''running'', ''cancelling''})
      \<and> (row_status r = ''queued'' \<longrightarrow> row_started_at r = None)
      \<and> (row_status r \<in> {''running'', ''cancelling'', ''completed''} \<longrightarrow> row_started_at r \<noteq> None)
      \<and> (row_status r = ''cancelling'' \<longrightarrow> row_cancellation_requested_at r \<noteq> None)
      \<and> (row_status r = ''failed'' \<longrightarrow> row_error r \<noteq> None))"
proof -
  have ok: "table_ok rows" using run_history_ok [OF assms] by (simp add: table_ok_def)
  show ?thesis
  proof (intro conjI ballI)
    fix r assume "r \<in> set rows"
    with ok have r: "row_ok r" by (simp add: table_ok_def list_all_iff)
    show "row_completed_at r = None \<longleftrightarrow> row_status r \<in> {''queued'', ''running'', ''cancelling''}"
      using r unfolding row_ok_def terminal_def by fastforce
  qed (use ok in \<open>auto simp: table_ok_def list_all_iff row_ok_def terminal_def\<close>)
qed

section \<open>Draining the queue\<close>

lemma first_min_sort: "first_min key xs = Some y \<Longrightarrow> sort_key key xs = y # sort_key key (remove1 y xs)"
proof (induction xs arbitrary: y)
  case (Cons x xs)
  show ?case
  proof (cases "first_min key xs")
    case None
    with Cons(2) show ?thesis by (simp add: first_min_None)
  next
    case (Some z)
    from Cons(1) [OF Some] Cons(2) Some show ?thesis by (auto split: if_splits)
  qed
qed simp

fun claims :: "string list \<Rightarrow> run_table \<Rightarrow> run_table \<times> string option list" where
  "claims [] rows = (rows, [])"
| "claims (now # ts) rows =
     (let (rows1, first) = claim_update now rows; (rows2, rest) = claims ts rows1 in (rows2, first # rest))"

lemma claim_update_queue:
  assumes "distinct (map row_run_id rows)" "first_min row_created_at (queued_rows rows) = Some c"
  shows "\<exists>rows'. claim_update now rows = (rows', Some (row_run_id c)) \<and> distinct (map row_run_id rows')
    \<and> queued_rows rows' = remove1 c (queued_rows rows)"
proof -
  let ?f = "\<lambda>r. r\<lparr>row_status := ''running'', row_started_at := Some now\<rparr>"
  let ?p = "\<lambda>r. row_run_id r = row_run_id c \<and> row_status r = ''queued''"
  let ?rows = "fst (update_rows ?p ?f rows)"
  have "c \<in> set rows" using first_min_in [OF assms(2)] by (simp add: queued_rows_def)
  then have id: "r \<in> set (queued_rows rows) \<Longrightarrow> row_run_id r \<noteq> row_run_id c \<longleftrightarrow> r \<noteq> c" for r
    using assms(1) by (auto simp: queued_rows_def distinct_map inj_on_def)
  have "queued_rows ?rows = filter (\<lambda>r. row_run_id r \<noteq> row_run_id c) (queued_rows rows)"
    by (induction rows) (auto simp: queued_rows_def update_rows_def)
  also have "\<dots> = filter (\<lambda>r. r \<noteq> c) (queued_rows rows)" using id by (rule filter_cong [OF refl])
  also have "\<dots> = remove1 c (queued_rows rows)"
  proof -
    have "distinct (queued_rows rows)" using assms(1) by (auto simp: queued_rows_def distinct_map)
    from distinct_remove1_removeAll [OF this, of c] show ?thesis
      by (simp add: removeAll_filter_not_eq) (metis (mono_tags, lifting) filter_cong)
  qed
  finally have "queued_rows ?rows = remove1 c (queued_rows rows)" .
  moreover have "distinct (map row_run_id ?rows)"
    using update_rows_ids [of ?f ?p rows] assms(1) by simp
  ultimately show ?thesis using assms(2) by (simp add: claim_update_def)
qed

text \<open>C11: The queue drains in order: as many claims as there are queued runs hand out exactly these runs, each
  once, in the order of their creation ts (ties in the order they were created in), and leave
  nothing queued; a further claim returns nothing and changes nothing.\<close>

theorem claims_drain_queue:
  assumes "distinct (map row_run_id rows)" "length ts = length (queued_rows rows)"
  shows "snd (claims ts rows) = map (\<lambda>r. Some (row_run_id r)) (sort_key row_created_at (queued_rows rows))
    \<and> queued_rows (fst (claims ts rows)) = []
    \<and> claim_next now (fst (claims ts rows)) = (fst (claims ts rows), None)"
  using assms
proof (induction ts arbitrary: rows)
  case Nil
  then show ?case by (simp add: claim_next_def claim_update_def)
next
  case (Cons t ts)
  then have "queued_rows rows \<noteq> []" by auto
  then obtain c where c: "first_min row_created_at (queued_rows rows) = Some c" by (metis first_min_None not_None_eq)
  from claim_update_queue [OF Cons(2) c] obtain rows' where
    u: "claim_update t rows = (rows', Some (row_run_id c))" "distinct (map row_run_id rows')"
      "queued_rows rows' = remove1 c (queued_rows rows)" by blast
  have "c \<in> set (queued_rows rows)" using first_min_in [OF c] by simp
  then have "length ts = length (queued_rows rows')" using Cons(3) u(3) by (simp add: length_remove1)
  from Cons(1) [OF u(2) this] u first_min_sort [OF c] show ?case
    by (cases "claims ts rows'") (simp add: Let_def)
qed

section \<open>The lease protects its owner\<close>

datatype lease_call = Acquire string int | Heartbeat string int | Release string

fun lease_step :: "int \<Rightarrow> lease_call \<Rightarrow> lease option \<Rightarrow> lease option \<times> bool option" where
  "lease_step timeout (Acquire owner now) row = map_prod id Some (acquire_lease owner now timeout row)"
| "lease_step timeout (Heartbeat owner now) row = map_prod id Some (heartbeat_lease owner now row)"
| "lease_step timeout (Release owner) row = (release_lease owner row, None)"

fun lease_calls :: "int \<Rightarrow> lease_call list \<Rightarrow> lease option \<Rightarrow> lease option \<times> bool option list" where
  "lease_calls timeout [] row = (row, [])"
| "lease_calls timeout (c # cs) row =
     (let (row1, first) = lease_step timeout c row; (row2, rest) = lease_calls timeout cs row1 in (row2, first # rest))"

fun call_owner :: "lease_call \<Rightarrow> string" where
  "call_owner (Acquire owner now) = owner"
| "call_owner (Heartbeat owner now) = owner"
| "call_owner (Release owner) = owner"

fun call_time :: "lease_call \<Rightarrow> int option" where
  "call_time (Acquire owner now) = Some now"
| "call_time (Heartbeat owner now) = Some now"
| "call_time (Release owner) = None"

lemma acquire_stale:
  assumes "valid_time t" "valid_time (now - timeout * 1000000)" "held \<noteq> owner"
  shows "acquire_lease owner now timeout (Some \<lparr>lease_owner = held, lease_heartbeat = isoformat t\<rparr>) =
    (if timeout * 1000000 < now - t then (Some \<lparr>lease_owner = owner, lease_heartbeat = isoformat now\<rparr>, True)
     else (Some \<lparr>lease_owner = held, lease_heartbeat = isoformat t\<rparr>, False))"
  using isoformat_order [OF assms(1,2)] assms(3) by (auto simp: acquire_lease_def Let_def)

text \<open>C10: Mutual exclusion of the workers. Once a worker has taken or renewed the lease at time t, every call of
  another worker up to t + timeout to acquire or renew it fails and the lease stays as it is; a worker
  that has not renewed it for longer loses it to the next one that asks. The texts of the heartbeats
  are compared, and that decides the order of the times.\<close>

theorem lease_excludes_other_workers:
  assumes "valid_time t" "acquire_lease owner t timeout row = (row1, True) \<or> heartbeat_lease owner t row = (row1, True)"
    and "\<forall>c\<in>set calls. call_owner c \<noteq> owner \<and>
      (case call_time c of None \<Rightarrow> True | Some now \<Rightarrow> now \<le> t + timeout * 1000000 \<and> valid_time (now - timeout * 1000000))"
    and "other \<noteq> owner" "t + timeout * 1000000 < late" "valid_time (late - timeout * 1000000)"
  shows "lease_calls timeout calls row1 = (row1, map (\<lambda>c. map_option (\<lambda>_. False) (call_time c)) calls)
    \<and> snd (acquire_lease other late timeout row1)"
proof -
  have row1: "row1 = Some \<lparr>lease_owner = owner, lease_heartbeat = isoformat t\<rparr>"
    using assms(2) by (auto simp: acquire_lease_def heartbeat_lease_def Let_def split: option.splits if_splits intro: lease.equality)
  have "lease_calls timeout calls row1 = (row1, map (\<lambda>c. map_option (\<lambda>_. False) (call_time c)) calls)"
    using assms(3)
  proof (induction calls)
    case (Cons c cs)
    have "lease_step timeout c row1 = (row1, map_option (\<lambda>_. False) (call_time c))"
    proof (cases c)
      case (Acquire o1 now)
      with Cons(2) acquire_stale [OF assms(1), of now timeout owner o1] show ?thesis by (auto simp: row1)
    next
      case (Heartbeat o1 now)
      with Cons(2) show ?thesis by (auto simp: row1 heartbeat_lease_def)
    next
      case (Release o1)
      with Cons(2) show ?thesis by (auto simp: row1 release_lease_def)
    qed
    with Cons show ?case by (simp add: Let_def)
  qed simp
  moreover have "snd (acquire_lease other late timeout row1)"
    using acquire_stale [OF assms(1,6), of owner other] assms(4,5) by (auto simp: row1)
  ultimately show ?thesis by blast
qed

lemma lease_excludes_other_workers_witness:
  "lease_calls 30 [Acquire ''b'' 1000000100, Heartbeat ''b'' 1000000200, Release ''b'']
     (fst (acquire_lease ''a'' 1000000000 30 None)) =
     (fst (acquire_lease ''a'' 1000000000 30 None), [Some False, Some False, None])"
  using lease_excludes_other_workers [of 1000000000 "''a''" 30 None "fst (acquire_lease ''a'' 1000000000 30 None)"
      "[Acquire ''b'' 1000000100, Heartbeat ''b'' 1000000200, Release ''b'']" "''b''" 2000000000]
  by (simp add: acquire_lease_def valid_time_def day_length_def before_year_def)

section \<open>Examples\<close>

definition example_table :: run_table where
  "example_table = [queued_record ''r2'' ''example.com'' ''2026-01-02T00:00:00+00:00'' [],
     queued_record ''r1'' ''example.com'' ''2026-01-01T00:00:00+00:00'' []]"

lemma example_created:
  "create_run [] (queued_record ''r2'' ''example.com'' ''2026-01-02T00:00:00+00:00'' []) [] = Inr [hd example_table]"
  "create_run [] (queued_record ''r1'' ''example.com'' ''2026-01-01T00:00:00+00:00'' []) [hd example_table] = Inr example_table"
  by code_simp+

definition example_claimed :: run_table where
  "example_claimed = fst (claim_update ''2026-01-03T00:00:00+00:00'' example_table)"

lemma example_claim: "claim_update ''2026-01-03T00:00:00+00:00'' example_table = (example_claimed, Some ''r1'')"
  unfolding example_claimed_def by code_simp

lemma example_history: "run_history [] [Created ''r2'', Created ''r1'', Claimed ''r1''] example_claimed"
proof -
  have "run_history [] ([] @ [Created ''r2'']) [hd example_table]"
    by (rule history_step [OF history_start step_create [OF example_created(1)]])
  from history_step [OF this step_create [OF example_created(2)]]
  have "run_history [] [Created ''r2'', Created ''r1''] example_table" by simp
  from history_step [OF this step_claim [OF example_claim]] show ?thesis by simp
qed

lemma example_table_ok: "table_ok example_table" "table_ok []"
  by (code_simp, code_simp)

lemma run_claimed_at_most_once_witness:
  "length (filter (\<lambda>e. e = Claimed ''r1'') [Created ''r2'', Created ''r1'', Claimed ''r1'']) \<le> 1"
  using run_claimed_at_most_once [OF example_history example_table_ok(2)] by simp

lemma run_table_well_formed_witness: "distinct (map row_run_id example_claimed)"
  using run_table_well_formed [OF example_history] by blast

lemma claims_drain_queue_witness:
  "snd (claims [''t1'', ''t2''] example_table) = [Some ''r1'', Some ''r2'']"
proof -
  have "distinct (map row_run_id example_table)" "length [''t1'', ''t2''] = length (queued_rows example_table)" by code_simp+
  from claims_drain_queue [OF this]
  have "snd (claims [''t1'', ''t2''] example_table) = map (\<lambda>r. Some (row_run_id r)) (sort_key row_created_at (queued_rows example_table))"
    by blast
  also have "\<dots> = [Some ''r1'', Some ''r2'']" by code_simp
  finally show ?thesis .
qed

lemma table_refines_lifecycle_witness:
  "\<exists>s'. abs_state example_claimed ''r1'' = Some s' \<and> (s' = Queued \<or> lifecycle Queued s')"
proof -
  have "abs_state example_table ''r1'' = Some Queued" by code_simp
  with table_refines_lifecycle [OF example_table_ok(1) step_claim [OF example_claim]] show ?thesis by blast
qed

text \<open>\<open>fail\<close> has no guard on the status: a failure that is reported late, by a worker that lost its lease or by
  the recovery after a restart, overwrites a run that has completed.\<close>

lemma late_failure_overwrites_completed:
  assumes "get_run rows i = Some r" "row_status r = ''completed''"
    and "fail_run runs i ''failed'' now error log_text None None rows = Inr rows'"
  shows "\<exists>r'. get_run rows' i = Some r' \<and> row_status r' = ''failed'' \<and> row_error r' = Some error
    \<and> row_evidence_run_id r' = row_evidence_run_id r"
  using fail_run_row(2) [OF assms(3), of i] assms(1) by (simp add: coalesce_def)

end
