(* ===== verification/Evidence_Values.thy ===== *)
theory Evidence_Values
  imports Hostnames Calendar
begin

text \<open>
  What the evidence modules share: Python equality of JSON values, dictionaries as association
  lists with distinct keys, the text form of times read back, the character classes the name checks
  use, and the contract of a structured record that is stored in one canonical form only.
\<close>

section \<open>JSON values\<close>

text \<open>Numbers compare by value, and so do booleans (\<open>True == 1\<close>); a float that is not finite equals nothing.\<close>

fun num_val :: "json \<Rightarrow> rat option" where
  "num_val (JBool b) = Some (if b then 1 else 0)"
| "num_val (JInt i) = Some (of_int i)"
| "num_val (JFloat r) = r"
| "num_val j = None"

function (sequential) json_eq :: "json \<Rightarrow> json \<Rightarrow> bool"
  and json_eq_list :: "json list \<Rightarrow> json list \<Rightarrow> bool"
  and json_eq_obj :: "(string \<times> json) list \<Rightarrow> (string \<times> json) list \<Rightarrow> bool" where
  "json_eq JNull JNull = True"
| "json_eq (JStr s) (JStr t) = (s = t)"
| "json_eq (JList xs) (JList ys) = json_eq_list xs ys"
| "json_eq (JObj a) (JObj b) = (set (map fst a) = set (map fst b) \<and> json_eq_obj a b)"
| "json_eq x y = (case (num_val x, num_val y) of (Some r, Some q) \<Rightarrow> r = q | _ \<Rightarrow> False)"
| "json_eq_list [] [] = True"
| "json_eq_list (x # xs) (y # ys) = (json_eq x y \<and> json_eq_list xs ys)"
| "json_eq_list xs ys = False"
| "json_eq_obj [] b = True"
| "json_eq_obj ((k, v) # a) b = ((case map_of b k of None \<Rightarrow> False | Some w \<Rightarrow> json_eq v w) \<and> json_eq_obj a b)"
  by pat_completeness auto
termination
  by (relation "measure (\<lambda>c. case c of Inl (x, y) \<Rightarrow> size x | Inr (Inl (xs, ys)) \<Rightarrow> size_list size xs
        | Inr (Inr (a, b)) \<Rightarrow> size_list (size_prod (\<lambda>_. 0) size) a)") auto

text \<open>JSON values as the sources build them: dictionaries have distinct keys, floats are finite.\<close>

fun wf_json :: "json \<Rightarrow> bool" where
  "wf_json (JList xs) = list_all wf_json xs"
| "wf_json (JObj a) = (distinct (map fst a) \<and> list_all (\<lambda>p. wf_json (snd p)) a)"
| "wf_json (JFloat r) = (r \<noteq> None)"
| "wf_json j = True"

lemma json_eq_refl:
  "x = y \<Longrightarrow> wf_json x \<Longrightarrow> json_eq x y"
  "xs = ys \<Longrightarrow> list_all wf_json xs \<Longrightarrow> json_eq_list xs ys"
  "distinct (map fst b) \<Longrightarrow> set a \<subseteq> set b \<Longrightarrow> list_all (\<lambda>p. wf_json (snd p)) a \<Longrightarrow> json_eq_obj a b"
proof (induction x y and xs ys and a b rule: json_eq_json_eq_list_json_eq_obj.induct)
  fix k v and a b :: "(string \<times> json) list"
  assume step: "\<And>w. map_of b k = Some w \<Longrightarrow> v = w \<Longrightarrow> wf_json v \<Longrightarrow> json_eq v w"
    and rest: "distinct (map fst b) \<Longrightarrow> set a \<subseteq> set b \<Longrightarrow> list_all (\<lambda>p. wf_json (snd p)) a \<Longrightarrow> json_eq_obj a b"
    and b: "distinct (map fst b)" "set ((k, v) # a) \<subseteq> set b" "list_all (\<lambda>p. wf_json (snd p)) ((k, v) # a)"
  from b(1,2) have m: "map_of b k = Some v" by (auto intro: map_of_is_SomeI)
  have "json_eq v v" using step [OF m refl] b(3) by simp
  with rest b show "json_eq_obj ((k, v) # a) b" unfolding json_eq_obj.simps m by simp
qed auto

lemma json_eq_same [simp]: "wf_json x \<Longrightarrow> json_eq x x"
  by (simp add: json_eq_refl)

definition has_keys :: "string list \<Rightarrow> (string \<times> json) list \<Rightarrow> bool" where
  "has_keys ks fields = (set (map fst fields) = set ks)"

definition only_keys :: "string list \<Rightarrow> (string \<times> json) list \<Rightarrow> bool" where
  "only_keys ks fields = list_all (\<lambda>p. fst p \<in> set ks) fields"

text \<open>\<open>record.get(key)\<close>\<close>

definition field_of :: "(string \<times> json) list \<Rightarrow> string \<Rightarrow> json" where
  "field_of fields k = (case map_of fields k of None \<Rightarrow> JNull | Some v \<Rightarrow> v)"

fun json_str :: "json \<Rightarrow> string option" where
  "json_str (JStr s) = Some s"
| "json_str j = None"

fun json_list :: "json \<Rightarrow> json list option" where
  "json_list (JList xs) = Some xs"
| "json_list j = None"

text \<open>A list of strings, None when some item is not one\<close>

definition json_strs :: "json \<Rightarrow> string list option" where
  "json_strs j = (case j of JList xs \<Rightarrow> those (map json_str xs) | _ \<Rightarrow> None)"

lemma json_strs_JStr [simp]: "json_strs (JList (map JStr xs)) = Some xs"
  by (induction xs) (simp_all add: json_strs_def)

lemma json_strs_Some: "json_strs j = Some xs \<Longrightarrow> j = JList (map JStr xs)"
proof -
  have "those (map json_str ys) = Some xs \<Longrightarrow> ys = map JStr xs" for ys
  proof (induction ys arbitrary: xs)
    case (Cons y ys)
    then show ?case by (cases y) auto
  qed simp
  then show "json_strs j = Some xs \<Longrightarrow> j = JList (map JStr xs)" by (auto simp: json_strs_def split: json.splits)
qed

lemma wf_json_strs [simp]: "list_all (wf_json \<circ> JStr) xs"
  by (induction xs) simp_all

text \<open>Membership of a set hashes the value; lists and dictionaries raise.\<close>

fun hashable :: "json \<Rightarrow> bool" where
  "hashable (JList xs) = False"
| "hashable (JObj a) = False"
| "hashable j = True"

definition unhashable_error :: err where
  "unhashable_error = TypeError ''unhashable type''"

lemma mapR_read_back: "(\<And>x. x \<in> set xs \<Longrightarrow> f (g x) = Inr x) \<Longrightarrow> mapR f (map g xs) = Inr xs"
  by (induction xs) auto

section \<open>Validation\<close>

text \<open>A sequence of checks \<open>if b: raise ValueError(message)\<close>\<close>

fun raise_first :: "(bool \<times> string) list \<Rightarrow> 'a res \<Rightarrow> 'a res" where
  "raise_first [] k = k"
| "raise_first ((b, m) # checks) k = (if b then Inl (ValueError m) else raise_first checks k)"

lemma raise_first_Inr: "raise_first checks k = Inr x \<longleftrightarrow> (\<forall>c\<in>set checks. \<not> fst c) \<and> k = Inr x"
  by (induction checks k rule: raise_first.induct) auto

section \<open>One record per key\<close>

text \<open>The loop of the \<open>canonical_*\<close> functions that refuse two different records with the same key.\<close>

fun collect_unique :: "('a \<Rightarrow> string) \<Rightarrow> ('a \<Rightarrow> err) \<Rightarrow> 'a list \<Rightarrow> (string \<times> 'a) list \<Rightarrow> (string \<times> 'a) list res" where
  "collect_unique key conflict [] by_key = Inr by_key"
| "collect_unique key conflict (x # xs) by_key =
     (case map_of by_key (key x) of
        Some existing \<Rightarrow>
          if existing \<noteq> x then Inl (conflict x) else collect_unique key conflict xs (AList.update (key x) x by_key)
      | None \<Rightarrow> collect_unique key conflict xs (AList.update (key x) x by_key))"

definition keyed :: "('a \<Rightarrow> string) \<Rightarrow> (string \<times> 'a) list \<Rightarrow> bool" where
  "keyed key m = (distinct (map fst m) \<and> (\<forall>p\<in>set m. key (snd p) = fst p))"

lemma update_new: "map_of m k = None \<Longrightarrow> AList.update k x m = m @ [(k, x)]"
  by (induction m) (auto split: if_splits)

lemma collect_unique_Inr:
  "collect_unique key conflict xs acc = Inr m \<Longrightarrow> keyed key acc \<Longrightarrow> keyed key m \<and> snd ` set m = snd ` set acc \<union> set xs"
proof (induction xs arbitrary: acc)
  case (Cons x xs)
  show ?case
  proof (cases "map_of acc (key x)")
    case None
    then have new: "AList.update (key x) x acc = acc @ [(key x, x)]" by (rule update_new)
    have "key x \<notin> fst ` set acc" using None by (simp add: map_of_eq_None_iff)
    with Cons(3) have "keyed key (acc @ [(key x, x)])" by (auto simp: keyed_def)
    with Cons None show ?thesis by (simp add: new)
  next
    case (Some y)
    with Cons(2) have y: "y = x" by (simp split: if_splits)
    then have "AList.update (key x) x acc = acc" using Some by (simp add: AList.update_triv)
    moreover have "x \<in> snd ` set acc" using Some y by (force dest: map_of_SomeD)
    ultimately show ?thesis using Cons Some y by auto
  qed
qed simp

lemma keyed_unique: "keyed key m \<Longrightarrow> x \<in> snd ` set m \<Longrightarrow> y \<in> snd ` set m \<Longrightarrow> key x = key y \<Longrightarrow> x = y"
  by (auto simp: keyed_def) (metis eq_key_imp_eq_value snd_conv fst_conv)

lemma distinct_mapI: "distinct (map f xs) \<Longrightarrow> distinct xs"
  by (induction xs) auto

lemma keyed_sorted:
  assumes "keyed (key :: 'a \<Rightarrow> string) m"
  shows "distinct (map key (map snd m))" and "inj_on key (snd ` set m)"
    and "distinct (map key (sort_key (order :: 'a \<Rightarrow> 'k::linorder) (map snd m)))"
proof -
  have fst: "map key (map snd m) = map fst m" using assms unfolding list.map_comp by (intro map_cong) (auto simp: keyed_def)
  show d: "distinct (map key (map snd m))" unfolding fst using assms by (simp add: keyed_def)
  show inj: "inj_on key (snd ` set m)" using keyed_unique [OF assms] by (intro inj_onI) blast
  have "distinct (map snd m)" using d by (rule distinct_mapI)
  then have "distinct (sort_key order (map snd m))" by simp
  with inj show "distinct (map key (sort_key order (map snd m)))" by (simp add: distinct_map)
qed

lemma collect_unique_Inl:
  "collect_unique key conflict xs acc = Inl e \<Longrightarrow> keyed key acc \<Longrightarrow>
   \<exists>x\<in>set xs. e = conflict x \<and> (\<exists>y\<in>snd ` set acc \<union> set xs. key y = key x \<and> y \<noteq> x)"
proof (induction xs arbitrary: acc)
  case (Cons x xs)
  show ?case
  proof (cases "map_of acc (key x)")
    case None
    then have new: "AList.update (key x) x acc = acc @ [(key x, x)]" by (rule update_new)
    have "key x \<notin> fst ` set acc" using None by (simp add: map_of_eq_None_iff)
    with Cons(3) have "keyed key (acc @ [(key x, x)])" by (auto simp: keyed_def)
    moreover have "collect_unique key conflict xs (acc @ [(key x, x)]) = Inl e" using Cons(2) None by (simp add: new)
    ultimately show ?thesis using Cons(1) by fastforce
  next
    case (Some y)
    then have y: "y \<in> snd ` set acc" "key y = key x" using Cons(3) by (force simp: keyed_def dest: map_of_SomeD)+
    show ?thesis
    proof (cases "y = x")
      case True
      then have "AList.update (key x) x acc = acc" using Some by (simp add: AList.update_triv)
      with Cons(2) Some True have "collect_unique key conflict xs acc = Inl e" by simp
      from Cons(1) [OF this Cons(3)] show ?thesis by fastforce
    next
      case False
      with Cons(2) Some have "e = conflict x" by simp
      with y False show ?thesis by auto
    qed
  qed
qed simp

lemma collect_unique_iff:
  "(\<exists>m. collect_unique key conflict xs [] = Inr m) \<longleftrightarrow> (\<forall>x\<in>set xs. \<forall>y\<in>set xs. key x = key y \<longrightarrow> x = y)"
proof
  assume "\<exists>m. collect_unique key conflict xs [] = Inr m"
  then obtain m where "collect_unique key conflict xs [] = Inr m" by blast
  then have "keyed key m" "snd ` set m = set xs" using collect_unique_Inr [of key conflict xs "[]" m] by (auto simp: keyed_def)
  then show "\<forall>x\<in>set xs. \<forall>y\<in>set xs. key x = key y \<longrightarrow> x = y" using keyed_unique by metis
next
  assume u: "\<forall>x\<in>set xs. \<forall>y\<in>set xs. key x = key y \<longrightarrow> x = y"
  show "\<exists>m. collect_unique key conflict xs [] = Inr m"
  proof (cases "collect_unique key conflict xs []")
    case (Inl e)
    with collect_unique_Inl [of key conflict xs "[]" e] u show ?thesis by (auto simp: keyed_def)
  qed blast
qed

section \<open>Character classes\<close>

text \<open>\<open>unicodedata.category\<close> below 256: Cc and Cf\<close>

definition is_control :: "char \<Rightarrow> bool" where
  "is_control c = (code c < 32 \<or> (127 \<le> code c \<and> code c \<le> 159))"

definition is_format :: "char \<Rightarrow> bool" where
  "is_format c = (code c = 173)"

section \<open>Times\<close>

text \<open>\<open>datetime.fromisoformat\<close> on the two forms the sources write, \<open>isoformat()\<close> and \<open>format_utc\<close>, in UTC. The
  sources compare what they read with what they write, so texts of any other form are refused.\<close>

definition day_number :: "int \<Rightarrow> nat \<Rightarrow> int \<Rightarrow> int" where
  "day_number y m d = before_year y + before_month (leap_year y) m + d - 1"

definition number_at :: "nat \<Rightarrow> nat \<Rightarrow> string \<Rightarrow> int" where
  "number_at i k s = int_of_string (take k (drop i s))"

definition parse_utc :: "string \<Rightarrow> int option" where
  "parse_utc s =
     (let days = day_number (number_at 0 4 s) (nat (number_at 5 2 s)) (number_at 8 2 s);
          secs = number_at 11 2 s * 3600 + number_at 14 2 s * 60 + number_at 17 2 s;
          us = (if take 1 (drop 19 s) = ''.'' then number_at 20 6 s else 0);
          t = days * day_length + secs * 1000000 + us
      in if valid_time t \<and> (isoformat t = s \<or> format_utc t = s) then Some t else None)"

lemma int_of_pad: "0 \<le> n \<Longrightarrow> n < 10 ^ k \<Longrightarrow> int_of_string (pad k n) = n"
proof (induction k arbitrary: n)
  case 0
  then show ?case by (simp add: pad_def int_of_string_def)
next
  case (Suc k)
  have "n div 10 < 10 ^ k" using Suc(3) by (simp add: div_less_iff_less_mult algebra_simps)
  then have "int_of_string (pad k (n div 10)) = n div 10" using Suc by (simp add: pos_imp_zdiv_nonneg_iff)
  then show ?case by (simp add: pad_def int_of_string_snoc)
qed

lemma day_number_civil: "civil n = (y, m, d) \<Longrightarrow> day_number y m d = n"
  by (auto simp: civil_def Let_def day_number_def)

lemma number_at_fields:
  assumes "s = pad 4 y @ ''-'' @ pad 2 m @ ''-'' @ pad 2 d @ ''T'' @ pad 2 h @ '':'' @ pad 2 mi @ '':'' @ pad 2 sec @ rest"
  shows "number_at 0 4 s = int_of_string (pad 4 y)" "number_at 5 2 s = int_of_string (pad 2 m)"
    "number_at 8 2 s = int_of_string (pad 2 d)" "number_at 11 2 s = int_of_string (pad 2 h)"
    "number_at 14 2 s = int_of_string (pad 2 mi)" "number_at 17 2 s = int_of_string (pad 2 sec)"
    "drop 19 s = rest" "drop 20 s = drop 1 rest"
  unfolding assms number_at_def by simp_all

lemma fraction_fields:
  assumes "tail = ''Z'' \<or> tail = ''+00:00''" "0 \<le> us" "us < 1000000"
  shows "(if take 1 (iso_fraction us @ tail) = ''.'' then int_of_string (take 6 (drop 1 (iso_fraction us @ tail))) else 0) = us"
  using assms int_of_pad [of us 6] by (auto simp: iso_fraction_def)

lemma seconds_split: "s div 3600 * 3600 + s div 60 mod 60 * 60 + s mod 60 = (s::int)"
proof -
  define q where "q = s div 60"
  have h: "s div 3600 = q div 60" unfolding q_def using zdiv_zmult2_eq [of 60 s 60] by simp
  have q: "q div 60 * 60 + q mod 60 = q" by (rule div_mult_mod_eq)
  have s: "q * 60 + s mod 60 = s" unfolding q_def by (rule div_mult_mod_eq)
  have "q div 60 * 3600 + q mod 60 * 60 = (q div 60 * 60 + q mod 60) * 60"
    by (simp only: distrib_right mult.assoc)
  also have "\<dots> = q * 60" by (simp only: q)
  finally show ?thesis unfolding h q_def [symmetric] using s by simp
qed

lemma int_of_pad2: "0 \<le> n \<Longrightarrow> n < 100 \<Longrightarrow> int_of_string (pad 2 n) = n"
  by (rule int_of_pad) simp_all

lemma parse_utc_text:
  assumes "valid_time t" "tail = ''Z'' \<or> tail = ''+00:00''"
    and s: "s = date_text (civil (t div day_length)) @ ''T'' @ clock (t mod day_length div 1000000)
      @ iso_fraction (t mod day_length mod 1000000) @ tail" and out: "isoformat t = s \<or> format_utc t = s"
  shows "parse_utc s = Some t"
proof -
  let ?u = "t mod day_length"
  let ?s = "?u div 1000000"
  obtain y m d where c: "civil (t div day_length) = (y, m, d)" by (metis prod_cases3)
  have u: "0 \<le> ?u" "?u < day_length" by (simp_all add: day_length_def)
  have day: "0 \<le> t div day_length" "t div day_length < before_year 10000"
    using assms(1) by (auto intro!: div_upper simp: valid_time_def day_length_def pos_imp_zdiv_nonneg_iff)
  note b = civil_bounds [OF c day]
  have secs: "0 \<le> ?s" "?s < 86400" using u by (auto intro!: div_upper simp: day_length_def pos_imp_zdiv_nonneg_iff)
  have h: "0 \<le> ?s div 3600" "?s div 3600 < 100" using secs by (auto intro!: div_upper simp: pos_imp_zdiv_nonneg_iff)
  have mi: "0 \<le> ?s div 60 mod 60" "?s div 60 mod 60 < 100" "0 \<le> ?s mod 60" "?s mod 60 < 100"
    using pos_mod_bound [of 60 "?s div 60"] pos_mod_bound [of 60 ?s] by simp_all
  have fields: "s = pad 4 y @ ''-'' @ pad 2 (int m) @ ''-'' @ pad 2 d @ ''T'' @ pad 2 (?s div 3600) @ '':''
      @ pad 2 (?s div 60 mod 60) @ '':'' @ pad 2 (?s mod 60) @ iso_fraction (?u mod 1000000) @ tail"
    by (simp add: s c date_text_def clock_def)
  note f = number_at_fields [OF fields]
  have frac: "number_at 20 6 s = int_of_string (take 6 (drop 1 (iso_fraction (?u mod 1000000) @ tail)))"
    by (simp only: number_at_def f(8))
  have us: "(if take 1 (drop 19 s) = ''.'' then number_at 20 6 s else 0) = ?u mod 1000000"
    unfolding f(7) frac by (rule fraction_fields [OF assms(2)]) simp_all
  have days: "day_number (number_at 0 4 s) (nat (number_at 5 2 s)) (number_at 8 2 s) = t div day_length"
    using b day_number_civil [OF c] by (simp add: f int_of_pad)
  have "number_at 11 2 s * 3600 + number_at 14 2 s * 60 + number_at 17 2 s = ?s"
    unfolding f int_of_pad2 [OF h] int_of_pad2 [OF mi(1,2)] int_of_pad2 [OF mi(3,4)] by (rule seconds_split)
  moreover have "t div day_length * day_length + ?s * 1000000 + ?u mod 1000000 = t"
    by (simp only: add.assoc div_mult_mod_eq)
  ultimately show ?thesis using assms(1) out unfolding parse_utc_def Let_def days us by simp
qed

lemma format_utc_parts:
  "format_utc t = date_text (civil (t div day_length)) @ ''T'' @ clock (t mod day_length div 1000000)
     @ iso_fraction (t mod day_length mod 1000000) @ ''Z''"
proof -
  define base where "base = date_text (civil (t div day_length)) @ ''T'' @ clock (t mod day_length div 1000000)
     @ iso_fraction (t mod day_length mod 1000000)"
  have "isoformat t = base @ ''+00:00''" by (simp add: isoformat_parts base_def)
  then have "format_utc t = base @ ''Z''" by (simp add: format_utc_def)
  then show ?thesis by (simp add: base_def)
qed

lemma parse_isoformat [simp]: "valid_time t \<Longrightarrow> parse_utc (isoformat t) = Some t"
  by (rule parse_utc_text [OF _ disjI2 [OF refl] isoformat_parts]) simp_all

lemma parse_format_utc [simp]: "valid_time t \<Longrightarrow> parse_utc (format_utc t) = Some t"
  by (rule parse_utc_text [OF _ disjI1 [OF refl] format_utc_parts]) simp_all

lemma parse_utc_Some: "parse_utc s = Some t \<Longrightarrow> valid_time t \<and> (s = isoformat t \<or> s = format_utc t)"
  by (auto simp: parse_utc_def Let_def split: if_splits)

section \<open>Structured evidence in canonical form\<close>

text \<open>
  The contract of the record types that are stored as JSON details of a result: a constructor that
  validates, the reader of the details and their writer. What the constructor accepts is read back
  from its own details, so that a stored record has exactly one accepted text.
\<close>

locale structured_evidence =
  fixes accepts :: "'a \<Rightarrow> bool" and readable :: "'a \<Rightarrow> bool" and key :: "'a \<Rightarrow> string"
    and from_record :: "string \<Rightarrow> json \<Rightarrow> 'a res" and to_details :: "'a \<Rightarrow> json"
  assumes read_back: "accepts x \<Longrightarrow> readable x \<Longrightarrow> from_record (key x) (to_details x) = Inr x"
    and read_accepts: "from_record k j = Inr x \<Longrightarrow> accepts x"
    and details_wf: "accepts x \<Longrightarrow> wf_json (to_details x)"
begin

lemma read_back_canonical:
  "accepts x \<Longrightarrow> readable x \<Longrightarrow>
   bindR (from_record (key x) (to_details x)) (\<lambda>y. if json_eq (to_details y) (to_details x) then Inr y else Inl e) = Inr x"
  by (simp add: read_back details_wf)

lemma canonical_read_Inr:
  "bindR (from_record k j) (\<lambda>y. if json_eq (to_details y) j then Inr y else Inl e) = Inr x \<Longrightarrow>
   accepts x \<and> json_eq (to_details x) j"
  by (auto simp: bindR_Inr_iff read_accepts split: if_splits)

lemma to_details_inj:
  "accepts x \<Longrightarrow> accepts y \<Longrightarrow> readable x \<Longrightarrow> readable y \<Longrightarrow> key x = key y \<Longrightarrow> to_details x = to_details y \<Longrightarrow> x = y"
  by (metis read_back sum.inject(2))

end

end
