(* ===== verification/Takeover_Evidence.thy ===== *)
theory Takeover_Evidence
  imports Evidence_Values
begin

text \<open>
  Takeover evidence (lib/takeover_evidence.py): DNS and HTTP outcomes, the indicators of the provider
  rules and the candidate outcome with all its consistency checks, each with its constructor, its
  reader and its writer. The main results are that an outcome that carries an indicator is backed by
  agreeing resolvers, and that an accepted outcome is read back from its own details.
\<close>

section \<open>Texts\<close>

definition CLASSIFICATIONS :: "string list" where
  "CLASSIFICATIONS = [''vulnerable-indicator'', ''unverified-indicator'', ''edge-case'']"

definition STATUSES :: "string list" where
  "STATUSES = [''indicator'', ''no-indicator'', ''inconclusive'']"

definition RCODES :: "string list" where
  "RCODES = [''NOERROR'', ''NXDOMAIN'', ''NODATA'', ''ERROR'']"

definition SCHEMES :: "string list" where
  "SCHEMES = [''http'', ''https'']"

definition required_text :: "json \<Rightarrow> string \<Rightarrow> nat \<Rightarrow> string res" where
  "required_text v name count =
     (let error = ValueError (''takeover '' @ name @ '' must be a non-empty string of at most '' @ show_nonneg (int count) @ '' characters'')
      in case v of
           JStr s \<Rightarrow> (let stripped = strip s in if stripped = [] \<or> count < length stripped then Inl error else Inr stripped)
         | _ \<Rightarrow> Inl error)"

definition optional_text :: "json \<Rightarrow> string \<Rightarrow> nat \<Rightarrow> string option res" where
  "optional_text v name count = (if v = JNull then Inr None else bindR (required_text v name count) (\<lambda>s. Inr (Some s)))"

definition opt_json :: "string option \<Rightarrow> json" where
  "opt_json s = (case s of None \<Rightarrow> JNull | Some x \<Rightarrow> JStr x)"

definition opt_field :: "string \<Rightarrow> string option \<Rightarrow> (string \<times> json) list" where
  "opt_field k s = (case s of None \<Rightarrow> [] | Some x \<Rightarrow> [(k, JStr x)])"

definition or_empty :: "string option \<Rightarrow> string" where
  "or_empty s = (case s of None \<Rightarrow> [] | Some x \<Rightarrow> x)"

section \<open>DNS outcomes\<close>

record dns_outcome =
  dns_resolver :: string
  dns_chain :: "string list"
  dns_rcode :: string
  dns_error :: "string option"

definition new_dns_outcome :: "string \<Rightarrow> string list \<Rightarrow> string \<Rightarrow> string option \<Rightarrow> dns_outcome res" where
  "new_dns_outcome resolver cname_chain terminal_rcode error_type =
     (case parse_ip resolver of
        None \<Rightarrow> Inl (ValueError ''takeover resolver must be a canonical IP address'')
      | Some address \<Rightarrow>
          bindR (mapR normalize_hostname cname_chain) (\<lambda>canonical_chain.
          raise_first
            [(canonical_chain \<noteq> cname_chain \<or> \<not> distinct canonical_chain, ''takeover CNAME chain must be canonical and contain no repeats''),
             (terminal_rcode \<notin> set RCODES, ''takeover terminal RCODE is not supported'')]
          (bindR (optional_text (opt_json error_type) ''DNS error type'' 2048) (\<lambda>error.
             if terminal_rcode = ''ERROR'' \<and> error = None
             then Inl (ValueError ''takeover DNS ERROR outcomes require an error type'')
             else Inr \<lparr>dns_resolver = show_ip address, dns_chain = cname_chain, dns_rcode = terminal_rcode, dns_error = error\<rparr>))))"

definition dns_from_record :: "json \<Rightarrow> dns_outcome res" where
  "dns_from_record r =
     (case r of
        JObj obj \<Rightarrow>
          (if \<not> only_keys [''resolver'', ''cname_chain'', ''terminal_rcode'', ''error_type''] obj
           then Inl (ValueError ''takeover DNS evidence contains unsupported fields'')
           else (case json_strs (case map_of obj ''cname_chain'' of None \<Rightarrow> JList [] | Some v \<Rightarrow> v) of
                   None \<Rightarrow> Inl (ValueError ''takeover CNAME chain must be an array of hostnames'')
                 | Some chain \<Rightarrow>
                     bindR (required_text (field_of obj ''resolver'') ''resolver'' 512) (\<lambda>resolver.
                     bindR (required_text (field_of obj ''terminal_rcode'') ''terminal RCODE'' 512) (\<lambda>rcode.
                     bindR (optional_text (field_of obj ''error_type'') ''DNS error type'' 2048) (\<lambda>error.
                     new_dns_outcome resolver chain rcode error)))))
      | _ \<Rightarrow> Inl (ValueError ''takeover DNS evidence contains unsupported fields''))"

definition dns_to_record :: "dns_outcome \<Rightarrow> json" where
  "dns_to_record d =
     JObj ([(''resolver'', JStr (dns_resolver d)), (''cname_chain'', JList (map JStr (dns_chain d))),
            (''terminal_rcode'', JStr (dns_rcode d))] @ opt_field ''error_type'' (dns_error d))"

definition dns_key :: "dns_outcome \<Rightarrow> string \<times> string list \<times> string \<times> string" where
  "dns_key d = (dns_resolver d, dns_chain d, dns_rcode d, or_empty (dns_error d))"

section \<open>HTTP outcomes\<close>

record http_outcome =
  http_scheme :: string
  http_status :: "int option"
  http_location :: "string option"
  http_error :: "string option"
  http_truncated :: bool

definition new_http_outcome :: "string \<Rightarrow> json \<Rightarrow> string option \<Rightarrow> string option \<Rightarrow> json \<Rightarrow> http_outcome res" where
  "new_http_outcome scheme status location error_type body_truncated =
     (if scheme \<notin> set SCHEMES then Inl (ValueError ''takeover HTTP scheme must be http or https'')
      else bindR (case status of JNull \<Rightarrow> Inr None
                  | JInt n \<Rightarrow> if 100 \<le> n \<and> n \<le> 599 then Inr (Some n) else Inl (ValueError ''takeover HTTP status must be between 100 and 599'')
                  | _ \<Rightarrow> Inl (ValueError ''takeover HTTP status must be between 100 and 599'')) (\<lambda>status1.
      bindR (case body_truncated of JBool b \<Rightarrow> Inr b | _ \<Rightarrow> Inl (ValueError ''takeover body_truncated must be a boolean'')) (\<lambda>truncated.
      bindR (optional_text (opt_json location) ''redirect location'' 2048) (\<lambda>location1.
      bindR (optional_text (opt_json error_type) ''HTTP error type'' 2048) (\<lambda>error.
      raise_first
        [(status1 = None \<and> error = None, ''takeover HTTP outcomes require a response status or error type''),
         (truncated \<and> error = None, ''truncated takeover HTTP outcomes require an error type'')]
      (Inr \<lparr>http_scheme = scheme, http_status = status1, http_location = location1, http_error = error, http_truncated = truncated\<rparr>))))))"

definition http_from_record :: "json \<Rightarrow> http_outcome res" where
  "http_from_record r =
     (case r of
        JObj obj \<Rightarrow>
          (if \<not> only_keys [''scheme'', ''status'', ''location'', ''error_type'', ''body_truncated''] obj
           then Inl (ValueError ''takeover HTTP evidence contains unsupported fields'')
           else bindR (required_text (field_of obj ''scheme'') ''HTTP scheme'' 512) (\<lambda>scheme.
                bindR (optional_text (field_of obj ''location'') ''redirect location'' 2048) (\<lambda>location.
                bindR (optional_text (field_of obj ''error_type'') ''HTTP error type'' 2048) (\<lambda>error.
                new_http_outcome scheme (field_of obj ''status'') location error
                  (case map_of obj ''body_truncated'' of None \<Rightarrow> JBool False | Some v \<Rightarrow> v)))))
      | _ \<Rightarrow> Inl (ValueError ''takeover HTTP evidence contains unsupported fields''))"

definition http_to_record :: "http_outcome \<Rightarrow> json" where
  "http_to_record h =
     JObj ([(''scheme'', JStr (http_scheme h))]
           @ (case http_status h of None \<Rightarrow> [] | Some n \<Rightarrow> [(''status'', JInt n)])
           @ opt_field ''location'' (http_location h) @ opt_field ''error_type'' (http_error h)
           @ (if http_truncated h then [(''body_truncated'', JBool True)] else []))"

definition http_key :: "http_outcome \<Rightarrow> string \<times> int \<times> string \<times> string \<times> bool" where
  "http_key h = (http_scheme h, case http_status h of None \<Rightarrow> 0 | Some n \<Rightarrow> n, or_empty (http_location h),
     or_empty (http_error h), http_truncated h)"

section \<open>Indicators\<close>

record indicator =
  ind_classification :: string
  ind_service :: string
  ind_rule_id :: string
  ind_rule_revision :: string
  ind_matched :: "string list"
  ind_scheme :: "string option"

text \<open>\<open>str.isdigit\<close> (the superscripts two, three and one count as digits) and \<open>int\<close> of such a text\<close>

definition is_digits :: "string \<Rightarrow> bool" where
  "is_digits s = (s \<noteq> [] \<and> list_all (\<lambda>c. is_digit c \<or> code c \<in> {178, 179, 185}) s)"

definition int_of_digits :: "string \<Rightarrow> int res" where
  "int_of_digits s =
     (if list_all is_digit s then Inr (int_of_string s)
      else Inl (ValueError (''invalid literal for int() with base 10: '' @ [CHR 0x27] @ s @ [CHR 0x27])))"

definition remove_prefix :: "string \<Rightarrow> string \<Rightarrow> string" where
  "remove_prefix p s = (if starts_with p s then drop (length p) s else s)"

definition DNS_PREFIX :: string where "DNS_PREFIX = ''dns:terminal-rcode=''"
definition STATUS_PREFIX :: string where "STATUS_PREFIX = ''status:''"

fun check_statuses :: "string list \<Rightarrow> unit res" where
  "check_statuses [] = Inr ()"
| "check_statuses (predicate # rest) =
     (if \<not> starts_with STATUS_PREFIX predicate then check_statuses rest
      else (let raw = remove_prefix STATUS_PREFIX predicate
            in if \<not> is_digits raw then Inl (ValueError ''HTTP takeover indicators contain an invalid status predicate'')
               else bindR (int_of_digits raw) (\<lambda>n.
                      if \<not> (100 \<le> n \<and> n \<le> 599) then Inl (ValueError ''HTTP takeover indicators contain an invalid status predicate'')
                      else check_statuses rest)))"

definition new_indicator ::
  "string \<Rightarrow> string \<Rightarrow> string \<Rightarrow> string \<Rightarrow> string list \<Rightarrow> string option \<Rightarrow> indicator res" where
  "new_indicator classification service rule_id rule_revision matched scheme =
     raise_first
       [(classification \<notin> set CLASSIFICATIONS, ''takeover classification is not supported''),
        (matched = [] \<or> matched \<noteq> canon matched, ''takeover matched predicates must be non-empty, deduplicated, and sorted'')]
     (bindR (required_text (JStr service) ''service'' 512) (\<lambda>service1.
      bindR (required_text (JStr rule_id) ''rule ID'' 512) (\<lambda>rule_id1.
      bindR (required_text (JStr rule_revision) ''rule revision'' 512) (\<lambda>revision1.
      if (case scheme of None \<Rightarrow> False | Some x \<Rightarrow> x \<notin> set SCHEMES) then Inl (ValueError ''takeover indicator scheme must be http or https'')
      else bindR (mapR (\<lambda>p. required_text (JStr p) ''matched predicate'' 512) matched) (\<lambda>_.
      (let dns = map (starts_with ''dns:'') matched; dns_only = list_all id dns
       in raise_first
            [(list_ex id dns \<and> \<not> dns_only, ''takeover indicators cannot mix DNS and HTTP predicates''),
             (dns_only \<and> scheme \<noteq> None, ''DNS-only takeover indicators cannot identify an HTTP scheme''),
             (\<not> dns_only \<and> scheme = None, ''HTTP takeover indicators must identify the matching scheme''),
             (dns_only \<and> list_ex (\<lambda>p. remove_prefix DNS_PREFIX p \<notin> set RCODES) matched,
              ''DNS takeover indicators require canonical terminal RCODE predicates''),
             (\<not> dns_only \<and> list_ex (\<lambda>p. \<not> list_ex (\<lambda>q. starts_with q p) [''status:'', ''body:'', ''body-regex:'', ''header:'']) matched,
              ''HTTP takeover indicators contain an unsupported predicate'')]
          (bindR (if dns_only then Inr () else check_statuses matched) (\<lambda>_.
           Inr \<lparr>ind_classification = classification, ind_service = service1, ind_rule_id = rule_id1, ind_rule_revision = revision1,
                ind_matched = matched, ind_scheme = scheme\<rparr>))))))))"

definition indicator_from_record :: "json \<Rightarrow> indicator res" where
  "indicator_from_record r =
     (case r of
        JObj obj \<Rightarrow>
          (if \<not> only_keys [''classification'', ''service'', ''rule_id'', ''rule_revision'', ''scheme'', ''matched''] obj
              \<or> \<not> list_all (\<lambda>k. k \<in> set (map fst obj)) [''classification'', ''service'', ''rule_id'', ''rule_revision'', ''matched'']
           then Inl (ValueError ''takeover indicator must use the canonical fields'')
           else (case json_strs (field_of obj ''matched'') of
                   None \<Rightarrow> Inl (ValueError ''takeover matched predicates must be an array of strings'')
                 | Some matched \<Rightarrow>
                     bindR (required_text (field_of obj ''classification'') ''classification'' 512) (\<lambda>classification.
                     bindR (required_text (field_of obj ''service'') ''service'' 512) (\<lambda>service.
                     bindR (required_text (field_of obj ''rule_id'') ''rule ID'' 512) (\<lambda>rule_id.
                     bindR (required_text (field_of obj ''rule_revision'') ''rule revision'' 512) (\<lambda>revision.
                     bindR (if ''scheme'' \<in> set (map fst obj)
                            then bindR (required_text (field_of obj ''scheme'') ''HTTP scheme'' 512) (\<lambda>s. Inr (Some s)) else Inr None) (\<lambda>scheme.
                     new_indicator classification service rule_id revision matched scheme)))))))
      | _ \<Rightarrow> Inl (ValueError ''takeover indicator must use the canonical fields''))"

definition indicator_to_record :: "indicator \<Rightarrow> json" where
  "indicator_to_record i =
     JObj ([(''classification'', JStr (ind_classification i)), (''service'', JStr (ind_service i)), (''rule_id'', JStr (ind_rule_id i)),
            (''rule_revision'', JStr (ind_rule_revision i)), (''matched'', JList (map JStr (ind_matched i)))]
           @ opt_field ''scheme'' (ind_scheme i))"

definition indicator_key :: "indicator \<Rightarrow> string \<times> string \<times> string \<times> string" where
  "indicator_key i = (ind_rule_id i, ind_service i, ind_classification i, or_empty (ind_scheme i))"

section \<open>Candidates\<close>

record candidate_outcome =
  cand_hostname :: string
  cand_status :: string
  cand_dns :: "dns_outcome list"
  cand_wildcard_dns :: "dns_outcome list"
  cand_http :: "http_outcome list"
  cand_indicators :: "indicator list"
  cand_error_types :: "string list"

definition errors_of :: "'a list \<Rightarrow> ('a \<Rightarrow> string option) \<Rightarrow> string list" where
  "errors_of xs f = map the (filter (\<lambda>e. e \<noteq> None) (map f xs))"

definition resolver_outcome :: "dns_outcome list \<Rightarrow> string \<Rightarrow> dns_outcome option" where
  "resolver_outcome outcomes resolver = find (\<lambda>d. dns_resolver d = resolver) outcomes"

definition same_answer :: "dns_outcome \<Rightarrow> dns_outcome \<Rightarrow> bool" where
  "same_answer a b = (dns_chain a = dns_chain b \<and> dns_rcode a = dns_rcode b)"

text \<open>The matched status codes of an indicator that was constructed: their texts are digits.\<close>

definition matched_statuses :: "indicator \<Rightarrow> int list" where
  "matched_statuses i =
     map (\<lambda>p. int_of_string (remove_prefix STATUS_PREFIX p))
       (filter (\<lambda>p. starts_with STATUS_PREFIX p \<and> is_digits (remove_prefix STATUS_PREFIX p)) (ind_matched i))"

definition check_indicator :: "dns_outcome list \<Rightarrow> http_outcome list \<Rightarrow> indicator \<Rightarrow> unit res" where
  "check_indicator dns http i =
     (case ind_scheme i of
        None \<Rightarrow>
          (let rcodes = remdups (map (remove_prefix DNS_PREFIX) (filter (starts_with DNS_PREFIX) (ind_matched i)))
           in raise_first
                [(length rcodes \<noteq> length (ind_matched i) \<or> \<not> set rcodes \<subseteq> set RCODES,
                  ''DNS takeover indicators require canonical terminal RCODE predicates''),
                 (list_ex (\<lambda>d. dns_rcode d \<notin> set rcodes \<or> dns_error d \<noteq> None) dns,
                  ''DNS takeover indicators must agree with every resolver outcome'')]
              (Inr ()))
      | Some scheme \<Rightarrow>
          (let matching = filter (\<lambda>h. http_scheme h = scheme) http; statuses = matched_statuses i
           in raise_first
                [(length matching \<noteq> 1 \<or> http_status (hd matching) = None \<or> http_error (hd matching) \<noteq> None \<or> http_truncated (hd matching),
                  ''HTTP takeover indicators require one successful outcome for their matching scheme''),
                 (statuses \<noteq> [] \<and> the (http_status (hd matching)) \<notin> set statuses,
                  ''HTTP takeover status predicates must agree with their matching outcome'')]
              (Inr ())))"

definition agreement :: "dns_outcome list \<Rightarrow> bool" where
  "agreement outcomes = (length (remdups (map (\<lambda>d. (dns_chain d, dns_rcode d)) outcomes)) = 1)"

definition shape_checks :: "candidate_outcome \<Rightarrow> (bool \<times> string) list" where
  "shape_checks c =
     [(cand_status c \<notin> set STATUSES, ''takeover candidate status is not supported''),
      (cand_dns c = [] \<or> cand_dns c \<noteq> canon_by dns_key (cand_dns c),
       ''takeover candidate DNS evidence must be non-empty, deduplicated, and sorted''),
      (\<not> distinct (map dns_resolver (cand_dns c)), ''takeover candidate must contain one DNS outcome per resolver''),
      (cand_wildcard_dns c \<noteq> canon_by dns_key (cand_wildcard_dns c), ''takeover wildcard DNS evidence must be deduplicated and sorted''),
      (\<not> distinct (map dns_resolver (cand_wildcard_dns c)), ''takeover candidate must contain one wildcard DNS outcome per resolver''),
      (cand_http c \<noteq> canon_by http_key (cand_http c), ''takeover HTTP evidence must be deduplicated and sorted''),
      (\<not> distinct (map http_scheme (cand_http c)), ''takeover candidate must contain one HTTP outcome per scheme''),
      (cand_indicators c \<noteq> canon_by indicator_key (cand_indicators c), ''takeover indicators must be deduplicated and sorted''),
      (\<not> distinct (map ind_rule_id (cand_indicators c)), ''takeover candidate cannot contain conflicting observations for one rule''),
      (cand_error_types c \<noteq> canon (cand_error_types c), ''takeover candidate errors must be deduplicated and sorted'')]"

definition status_checks :: "candidate_outcome \<Rightarrow> (bool \<times> string) list" where
  "status_checks c =
     [(\<not> list_all (\<lambda>e. e \<in> set (cand_error_types c))
          (errors_of (cand_dns c) dns_error @ errors_of (cand_wildcard_dns c) dns_error @ errors_of (cand_http c) http_error),
       ''takeover candidate errors must include every DNS and HTTP outcome error''),
      (cand_status c = ''indicator'' \<and> cand_indicators c = [], ''takeover indicator status requires at least one indicator''),
      (cand_status c \<noteq> ''indicator'' \<and> cand_indicators c \<noteq> [], ''only takeover indicator status can contain indicators''),
      (cand_status c = ''no-indicator'' \<and> cand_error_types c \<noteq> [], ''complete no-indicator outcomes cannot contain errors''),
      (cand_status c = ''inconclusive'' \<and> cand_error_types c = [], ''inconclusive takeover outcomes require an error type'')]"

definition evaluated :: "candidate_outcome \<Rightarrow> bool" where
  "evaluated c = (cand_indicators c \<noteq> [] \<or> cand_http c \<noteq> [])"

definition control_checks :: "candidate_outcome \<Rightarrow> (bool \<times> string) list" where
  "control_checks c =
     [(evaluated c \<and> (list_ex (\<lambda>d. dns_error d \<noteq> None) (cand_dns c) \<or> list_ex (\<lambda>d. dns_error d \<noteq> None) (cand_wildcard_dns c)),
       ''takeover HTTP evaluation requires error-free candidate and wildcard DNS evidence''),
      (evaluated c \<and> set (map dns_resolver (cand_wildcard_dns c)) \<noteq> set (map dns_resolver (cand_dns c)),
       ''takeover HTTP evaluation requires one wildcard control per resolver''),
      (evaluated c \<and> \<not> agreement (cand_dns c), ''takeover HTTP evaluation requires candidate DNS agreement across resolvers''),
      (evaluated c \<and> \<not> agreement (cand_wildcard_dns c), ''takeover HTTP evaluation requires wildcard DNS agreement across resolvers''),
      (evaluated c \<and> list_ex (\<lambda>w. case resolver_outcome (cand_dns c) (dns_resolver w) of None \<Rightarrow> False | Some d \<Rightarrow> same_answer d w)
         (cand_wildcard_dns c), ''takeover HTTP evaluation requires resolver-distinct wildcard controls'')]"

text \<open>\<open>__post_init__\<close> of the candidate\<close>

definition new_candidate :: "candidate_outcome \<Rightarrow> candidate_outcome res" where
  "new_candidate c =
     bindR (normalize_hostname (cand_hostname c)) (\<lambda>canonical.
     raise_first ((canonical \<noteq> cand_hostname c, ''takeover hostname must be canonical'') # shape_checks c)
     (bindR (mapR (\<lambda>e. required_text (JStr e) ''candidate error type'' 512) (cand_error_types c)) (\<lambda>_.
      raise_first (status_checks c @ control_checks c)
      (bindR (mapR (check_indicator (cand_dns c) (cand_http c)) (cand_indicators c)) (\<lambda>_. Inr c)))))"

definition candidate_from_record :: "string \<Rightarrow> json \<Rightarrow> candidate_outcome res" where
  "candidate_from_record hostname details =
     (case details of
        JObj obj \<Rightarrow>
          (if \<not> has_keys [''status'', ''dns'', ''wildcard_dns'', ''http'', ''indicators'', ''error_types''] obj
           then Inl (ValueError ''takeover details must use the canonical candidate fields'')
           else (case (json_list (field_of obj ''dns''), json_list (field_of obj ''wildcard_dns''), json_list (field_of obj ''http''),
                       json_list (field_of obj ''indicators''), json_list (field_of obj ''error_types'')) of
                   (Some raw_dns, Some raw_wildcard, Some raw_http, Some raw_indicators, Some raw_errors) \<Rightarrow>
                     (case json_strs (JList raw_errors) of
                        None \<Rightarrow> Inl (ValueError ''takeover candidate errors must be an array of strings'')
                      | Some errors \<Rightarrow>
                          bindR (normalize_hostname hostname) (\<lambda>name.
                          bindR (required_text (field_of obj ''status'') ''candidate status'' 512) (\<lambda>status.
                          bindR (mapR dns_from_record raw_dns) (\<lambda>dns.
                          bindR (mapR dns_from_record raw_wildcard) (\<lambda>wildcard.
                          bindR (mapR http_from_record raw_http) (\<lambda>http.
                          bindR (mapR indicator_from_record raw_indicators) (\<lambda>indicators.
                          new_candidate
                            \<lparr>cand_hostname = name, cand_status = status, cand_dns = canon_by dns_key dns,
                             cand_wildcard_dns = canon_by dns_key wildcard, cand_http = canon_by http_key http,
                             cand_indicators = canon_by indicator_key indicators, cand_error_types = canon errors\<rparr>)))))))
                 | _ \<Rightarrow> Inl (ValueError ''takeover detail collections must be arrays'')))
      | _ \<Rightarrow> Inl (ValueError ''takeover details must use the canonical candidate fields''))"

definition candidate_to_details :: "candidate_outcome \<Rightarrow> json" where
  "candidate_to_details c =
     JObj [(''status'', JStr (cand_status c)), (''dns'', JList (map dns_to_record (cand_dns c))),
           (''wildcard_dns'', JList (map dns_to_record (cand_wildcard_dns c))), (''http'', JList (map http_to_record (cand_http c))),
           (''indicators'', JList (map indicator_to_record (cand_indicators c))),
           (''error_types'', JList (map JStr (cand_error_types c)))]"

definition takeover_conflict :: "candidate_outcome \<Rightarrow> err" where
  "takeover_conflict c = ValueError (''conflicting takeover outcomes for '' @ cand_hostname c)"

definition canonical_takeover_outcomes :: "candidate_outcome list \<Rightarrow> candidate_outcome list res" where
  "canonical_takeover_outcomes outcomes =
     bindR (collect_unique cand_hostname takeover_conflict outcomes [])
       (\<lambda>by_hostname. Inr (sort_key cand_hostname (map snd by_hostname)))"

definition parse_takeover_details :: "string \<Rightarrow> json \<Rightarrow> candidate_outcome res" where
  "parse_takeover_details hostname details =
     bindR (candidate_from_record hostname details) (\<lambda>outcome.
       if json_eq (candidate_to_details outcome) details then Inr outcome
       else Inl (ValueError ''takeover details must use canonical structured evidence''))"

section \<open>Reading back\<close>

lemma required_text_Inr: "required_text (JStr s) name k = Inr t \<longleftrightarrow> t = strip s \<and> t \<noteq> [] \<and> length t \<le> k"
  by (auto simp: required_text_def Let_def)

lemma optional_text_opt: "optional_text (opt_json s) name k = Inr t \<longleftrightarrow>
    (case s of None \<Rightarrow> t = None | Some x \<Rightarrow> t = Some (strip x) \<and> strip x \<noteq> [] \<and> length (strip x) \<le> k)"
  by (cases s) (auto simp: optional_text_def opt_json_def bindR_Inr_iff required_text_Inr)

lemma optional_text_keeps: "optional_text (opt_json s) name k = Inr t \<Longrightarrow> optional_text (opt_json t) name k = Inr t"
  by (cases s) (auto simp: optional_text_opt)

definition dns_ok :: "dns_outcome \<Rightarrow> bool" where
  "dns_ok d = (new_dns_outcome (dns_resolver d) (dns_chain d) (dns_rcode d) (dns_error d) = Inr d)"

definition http_ok :: "http_outcome \<Rightarrow> bool" where
  "http_ok h = (new_http_outcome (http_scheme h) (case http_status h of None \<Rightarrow> JNull | Some n \<Rightarrow> JInt n) (http_location h)
     (http_error h) (JBool (http_truncated h)) = Inr h)"

definition indicator_ok :: "indicator \<Rightarrow> bool" where
  "indicator_ok i = (new_indicator (ind_classification i) (ind_service i) (ind_rule_id i) (ind_rule_revision i)
     (ind_matched i) (ind_scheme i) = Inr i)"

lemma new_dns_ok: "new_dns_outcome r c t e = Inr d \<Longrightarrow> dns_ok d"
proof -
  assume new: "new_dns_outcome r c t e = Inr d"
  then obtain a e' where a: "parse_ip r = Some a" and c: "mapR normalize_hostname c = Inr c" "distinct c"
    and t: "t \<in> set RCODES" and e: "optional_text (opt_json e) ''DNS error type'' 2048 = Inr e'" "\<not> (t = ''ERROR'' \<and> e' = None)"
    and d: "d = \<lparr>dns_resolver = show_ip a, dns_chain = c, dns_rcode = t, dns_error = e'\<rparr>"
    by (auto simp: new_dns_outcome_def bindR_Inr_iff raise_first_Inr split: option.splits if_splits)
  have "parse_ip (show_ip a) = Some a" by (rule parse_show_ip [OF parse_ip_wf [OF a]])
  with c t e(2) optional_text_keeps [OF e(1)] show ?thesis
    by (auto simp: dns_ok_def new_dns_outcome_def d)
qed

lemma new_http_ok: "new_http_outcome s st l e b = Inr h \<Longrightarrow> http_ok h"
proof -
  assume new: "new_http_outcome s st l e b = Inr h"
  then obtain st' b' l' e' where s: "s \<in> set SCHEMES" and st': "st = JNull \<and> st' = None \<or> (\<exists>n. st = JInt n \<and> st' = Some n \<and> 100 \<le> n \<and> n \<le> 599)"
    and b: "b = JBool b'" and l: "optional_text (opt_json l) ''redirect location'' 2048 = Inr l'"
    and e: "optional_text (opt_json e) ''HTTP error type'' 2048 = Inr e'"
    and chk: "\<not> (st' = None \<and> e' = None)" "\<not> (b' \<and> e' = None)"
    and h: "h = \<lparr>http_scheme = s, http_status = st', http_location = l', http_error = e', http_truncated = b'\<rparr>"
    by (auto simp: new_http_outcome_def bindR_Inr_iff raise_first_Inr split: json.splits if_splits)
  from s st' b optional_text_keeps [OF l] optional_text_keeps [OF e] chk show ?thesis
    by (auto simp: http_ok_def new_http_outcome_def h raise_first_Inr)
qed

lemma new_indicator_Inr:
  "new_indicator c s r v m sch = Inr i \<Longrightarrow>
   c \<in> set CLASSIFICATIONS \<and> m \<noteq> [] \<and> canon m = m \<and> strip s \<noteq> [] \<and> length (strip s) \<le> 512 \<and> strip r \<noteq> [] \<and> length (strip r) \<le> 512
   \<and> strip v \<noteq> [] \<and> length (strip v) \<le> 512 \<and> (case sch of None \<Rightarrow> True | Some x \<Rightarrow> x \<in> set SCHEMES)
   \<and> i = \<lparr>ind_classification = c, ind_service = strip s, ind_rule_id = strip r, ind_rule_revision = strip v, ind_matched = m, ind_scheme = sch\<rparr>"
  by (auto simp: new_indicator_def bindR_Inr_iff raise_first_Inr required_text_Inr Let_def split: if_splits option.splits)

lemma new_indicator_ok: "new_indicator c s r v m sch = Inr i \<Longrightarrow> indicator_ok i"
proof -
  assume new: "new_indicator c s r v m sch = Inr i"
  note facts = new_indicator_Inr [OF new]
  have keep: "required_text (JStr (strip x)) name 512 = required_text (JStr x) name 512" for x name
    by (simp add: required_text_def Let_def)
  have "new_indicator c (strip s) (strip r) (strip v) m sch = new_indicator c s r v m sch"
    unfolding new_indicator_def keep ..
  with facts new show ?thesis by (simp add: indicator_ok_def)
qed

lemma opt_field_lookup: "map_of (opt_field k v) k = map_option JStr v" "k \<noteq> k' \<Longrightarrow> map_of (opt_field k v) k' = None"
  "set (map fst (opt_field k v)) \<subseteq> {k}" "only_keys ks (opt_field k v) \<longleftrightarrow> v = None \<or> k \<in> set ks"
  "distinct (map fst (opt_field k v))" "list_all (\<lambda>p. wf_json (snd p)) (opt_field k v)"
  by (cases v; auto simp: opt_field_def only_keys_def)+

lemma opt_json_lookup: "(case map_option JStr v of None \<Rightarrow> JNull | Some x \<Rightarrow> x) = opt_json v"
  by (cases v) (simp_all add: opt_json_def)

definition readable_dns :: "dns_outcome \<Rightarrow> bool" where
  "readable_dns d = (CHR ''%'' \<notin> set (dns_resolver d) \<and> length (dns_resolver d) \<le> 512)"

lemma rcode_text: "t \<in> set RCODES \<Longrightarrow> required_text (JStr t) name 512 = Inr t"
  by (auto simp: RCODES_def required_text_def) (code_simp+)

lemma dns_read_back: "dns_ok d \<Longrightarrow> readable_dns d \<Longrightarrow> dns_from_record (dns_to_record d) = Inr d"
proof -
  assume ok: "dns_ok d" and plain: "readable_dns d"
  from ok obtain a where a: "parse_ip (dns_resolver d) = Some a" "show_ip a = dns_resolver d" and t: "dns_rcode d \<in> set RCODES"
    and e: "optional_text (opt_json (dns_error d)) ''DNS error type'' 2048 = Inr (dns_error d)"
    by (auto simp: dns_ok_def new_dns_outcome_def bindR_Inr_iff raise_first_Inr split: option.splits if_splits)
      (metis dns_outcome.select_convs)+
  have "wf_ip a" using parse_ip_wf [OF a(1)] .
  then have "strip (dns_resolver d) = dns_resolver d" "dns_resolver d \<noteq> []"
    using show_ip_strip [of a] plain a(2) show_ip_punct [of a] by (auto simp: readable_dns_def)
  then have r: "required_text (JStr (dns_resolver d)) ''resolver'' 512 = Inr (dns_resolver d)"
    using plain by (simp add: required_text_Inr readable_dns_def)
  show ?thesis using ok r rcode_text [OF t] e
    by (cases "dns_error d") (simp_all add: dns_from_record_def dns_to_record_def dns_ok_def field_of_def only_keys_def opt_field_def opt_json_def)
qed

lemma scheme_text: "t \<in> set SCHEMES \<Longrightarrow> required_text (JStr t) name 512 = Inr t"
  by (auto simp: SCHEMES_def required_text_def) (code_simp+)

lemma http_ok_facts:
  assumes "http_ok h"
  shows "http_scheme h \<in> set SCHEMES" "optional_text (opt_json (http_location h)) ''redirect location'' 2048 = Inr (http_location h)"
    "optional_text (opt_json (http_error h)) ''HTTP error type'' 2048 = Inr (http_error h)"
  using assms unfolding http_ok_def new_http_outcome_def
  by (cases h, auto simp: bindR_Inr_iff raise_first_Inr split: option.splits if_splits)+

lemma http_read_back: "http_ok h \<Longrightarrow> http_from_record (http_to_record h) = Inr h"
proof -
  assume ok: "http_ok h"
  note f = http_ok_facts [OF ok]
  show ?thesis using ok f(2,3) scheme_text [OF f(1)]
    by (cases "http_status h"; cases "http_location h"; cases "http_error h"; cases "http_truncated h")
      (simp_all add: http_from_record_def http_to_record_def http_ok_def field_of_def only_keys_def opt_field_def opt_json_def)
qed

lemma class_text: "t \<in> set CLASSIFICATIONS \<Longrightarrow> required_text (JStr t) name 512 = Inr t"
  by (auto simp: CLASSIFICATIONS_def required_text_def) (code_simp+)

lemma indicator_ok_facts:
  assumes "indicator_ok i"
  shows "ind_classification i \<in> set CLASSIFICATIONS" "required_text (JStr (ind_service i)) name 512 = Inr (ind_service i)"
    "required_text (JStr (ind_rule_id i)) name 512 = Inr (ind_rule_id i)"
    "required_text (JStr (ind_rule_revision i)) name 512 = Inr (ind_rule_revision i)"
    "ind_scheme i = Some sch \<Longrightarrow> sch \<in> set SCHEMES"
  using new_indicator_Inr [OF assms [unfolded indicator_ok_def]]
  by (cases i, auto simp: required_text_Inr)+

lemma indicator_read_back: "indicator_ok i \<Longrightarrow> indicator_from_record (indicator_to_record i) = Inr i"
proof -
  assume ok: "indicator_ok i"
  note f = indicator_ok_facts [OF ok]
  show ?thesis
  proof (cases "ind_scheme i")
    case None
    with ok f class_text [OF f(1)] show ?thesis
      by (simp add: indicator_from_record_def indicator_to_record_def indicator_ok_def field_of_def only_keys_def opt_field_def)
  next
    case (Some sch)
    with ok f class_text [OF f(1)] scheme_text [OF f(5) [OF Some]] show ?thesis
      by (simp add: indicator_from_record_def indicator_to_record_def indicator_ok_def field_of_def only_keys_def opt_field_def)
  qed
qed

text \<open>An accepted candidate: built by the constructor from parts built by theirs.\<close>

definition candidate_ok :: "candidate_outcome \<Rightarrow> bool" where
  "candidate_ok c =
     (new_candidate c = Inr c \<and> list_all dns_ok (cand_dns c) \<and> list_all dns_ok (cand_wildcard_dns c)
      \<and> list_all http_ok (cand_http c) \<and> list_all indicator_ok (cand_indicators c))"

definition readable_candidate :: "candidate_outcome \<Rightarrow> bool" where
  "readable_candidate c = (list_all readable_dns (cand_dns c) \<and> list_all readable_dns (cand_wildcard_dns c))"

lemma new_candidate_Inr:
  "new_candidate c = Inr c' \<longleftrightarrow> c' = c \<and> normalize_hostname (cand_hostname c) = Inr (cand_hostname c)
     \<and> (\<forall>k\<in>set (shape_checks c @ status_checks c @ control_checks c). \<not> fst k)
     \<and> is_ok (mapR (\<lambda>e. required_text (JStr e) ''candidate error type'' 512) (cand_error_types c))
     \<and> is_ok (mapR (check_indicator (cand_dns c) (cand_http c)) (cand_indicators c))"
  by (auto simp: new_candidate_def bindR_Inr_iff raise_first_Inr is_ok_def split: sum.splits)

lemma new_candidate_same: "new_candidate c = Inr c' \<Longrightarrow> c' = c"
  by (simp add: new_candidate_Inr)

lemma candidate_ok_canonical:
  assumes "candidate_ok c"
  shows "canon_by dns_key (cand_dns c) = cand_dns c" "canon_by dns_key (cand_wildcard_dns c) = cand_wildcard_dns c"
    "canon_by http_key (cand_http c) = cand_http c" "canon_by indicator_key (cand_indicators c) = cand_indicators c"
    "canon (cand_error_types c) = cand_error_types c" "cand_status c \<in> set STATUSES"
    "normalize_hostname (cand_hostname c) = Inr (cand_hostname c)"
  using assms by (auto simp: candidate_ok_def new_candidate_Inr shape_checks_def)

lemma status_text: "t \<in> set STATUSES \<Longrightarrow> required_text (JStr t) name 512 = Inr t"
  by (auto simp: STATUSES_def required_text_def) (code_simp+)

lemma candidate_collapse:
  "\<lparr>cand_hostname = cand_hostname c, cand_status = cand_status c, cand_dns = cand_dns c, cand_wildcard_dns = cand_wildcard_dns c,
    cand_http = cand_http c, cand_indicators = cand_indicators c, cand_error_types = cand_error_types c\<rparr> = c"
  by (cases c) simp

lemma dns_from_record_ok: "dns_from_record j = Inr d \<Longrightarrow> dns_ok d"
  by (auto simp: dns_from_record_def bindR_Inr_iff split: json.splits if_splits option.splits dest: new_dns_ok)

lemma http_from_record_ok: "http_from_record j = Inr h \<Longrightarrow> http_ok h"
  by (auto simp: http_from_record_def bindR_Inr_iff split: json.splits if_splits option.splits dest: new_http_ok)

lemma indicator_from_record_ok: "indicator_from_record j = Inr i \<Longrightarrow> indicator_ok i"
  by (cases j) (auto simp: indicator_from_record_def bindR_Inr_iff split: if_splits option.splits dest: new_indicator_ok)

lemma candidate_read_back:
  assumes ok: "candidate_ok c" and plain: "readable_candidate c"
  shows "candidate_from_record (cand_hostname c) (candidate_to_details c) = Inr c"
proof -
  have parts: "mapR dns_from_record (map dns_to_record (cand_dns c)) = Inr (cand_dns c)"
      "mapR dns_from_record (map dns_to_record (cand_wildcard_dns c)) = Inr (cand_wildcard_dns c)"
      "mapR http_from_record (map http_to_record (cand_http c)) = Inr (cand_http c)"
      "mapR indicator_from_record (map indicator_to_record (cand_indicators c)) = Inr (cand_indicators c)"
    using ok plain unfolding candidate_ok_def readable_candidate_def list_all_iff
    by (intro mapR_read_back dns_read_back http_read_back indicator_read_back; simp)+
  note can = candidate_ok_canonical [OF ok]
  have "new_candidate c = Inr c" using ok by (simp add: candidate_ok_def)
  then show ?thesis
    by (simp add: candidate_from_record_def candidate_to_details_def has_keys_def field_of_def parts can status_text [OF can(6)]
        candidate_collapse)
qed

lemma candidate_read_accepts: "candidate_from_record h j = Inr c \<Longrightarrow> candidate_ok c"
proof -
  assume read: "candidate_from_record h j = Inr c"
  then obtain raw_dns raw_wildcard raw_http raw_indicators dns wildcard http indicators name status errors where
    "mapR dns_from_record raw_dns = Inr dns" "mapR dns_from_record raw_wildcard = Inr wildcard"
    "mapR http_from_record raw_http = Inr http" "mapR indicator_from_record raw_indicators = Inr indicators"
    and new: "new_candidate \<lparr>cand_hostname = name, cand_status = status, cand_dns = canon_by dns_key dns,
       cand_wildcard_dns = canon_by dns_key wildcard, cand_http = canon_by http_key http,
       cand_indicators = canon_by indicator_key indicators, cand_error_types = canon errors\<rparr> = Inr c"
    by (auto simp: candidate_from_record_def bindR_Inr_iff split: json.splits if_splits option.splits)
  note maps = this(1-4)
  have "\<forall>d\<in>set dns. dns_ok d" "\<forall>d\<in>set wildcard. dns_ok d" "\<forall>k\<in>set http. http_ok k" "\<forall>i\<in>set indicators. indicator_ok i"
    using maps [THEN mapR_Inr_in] dns_from_record_ok http_from_record_ok indicator_from_record_ok by blast+
  moreover note same = new_candidate_same [OF new]
  ultimately show ?thesis using new unfolding candidate_ok_def same by (simp add: list_all_iff)
qed

lemma candidate_wf: "candidate_ok c \<Longrightarrow> wf_json (candidate_to_details c)"
  by (auto simp: candidate_to_details_def dns_to_record_def http_to_record_def indicator_to_record_def list_all_iff opt_field_def split: option.splits)

interpretation takeover_details: structured_evidence candidate_ok readable_candidate cand_hostname candidate_from_record candidate_to_details
  by unfold_locales (fact candidate_read_back candidate_read_accepts candidate_wf)+

section \<open>Properties\<close>

text \<open>C25: Takeover evidence round trip. Every outcome the constructors accept (with resolvers without an IPv6
  scope) is read back from its own details, unchanged; and what is read was accepted by the constructors
  and has, up to the order of keys, exactly the details it was read from.\<close>

theorem takeover_details_round_trip:
  shows "(candidate_ok c \<and> readable_candidate c \<longrightarrow> parse_takeover_details (cand_hostname c) (candidate_to_details c) = Inr c)
    \<and> (parse_takeover_details h j = Inr c' \<longrightarrow> candidate_ok c' \<and> json_eq (candidate_to_details c') j)"
  unfolding parse_takeover_details_def
  using takeover_details.read_back_canonical [of c] takeover_details.canonical_read_Inr [of h j _ c'] by blast

lemma agreement_same: "agreement ds \<Longrightarrow> d \<in> set ds \<Longrightarrow> d' \<in> set ds \<Longrightarrow> same_answer d d'"
proof -
  assume a: "agreement ds" and d: "d \<in> set ds" "d' \<in> set ds"
  let ?f = "\<lambda>d. (dns_chain d, dns_rcode d)"
  from a obtain x where "remdups (map ?f ds) = [x]" by (auto simp: agreement_def length_Suc_conv)
  then have "?f ` set ds = {x}" by (metis list.set(1) list.set(2) list.set_map set_remdups)
  with d have "?f d = x" "?f d' = x" by auto
  then show ?thesis by (auto simp: same_answer_def)
qed

lemma resolver_outcome_in: "distinct (map dns_resolver ds) \<Longrightarrow> d \<in> set ds \<Longrightarrow> resolver_outcome ds (dns_resolver d) = Some d"
  by (induction ds) (auto simp: resolver_outcome_def)

text \<open>C24: An accepted outcome with the status indicator is backed by its evidence: it has indicators; all resolvers
  gave one and the same error-free answer; every resolver has an error-free wildcard control, and no
  control has the answer of the candidate; a DNS indicator names the response code of every resolver;
  an HTTP indicator has exactly one complete response of its scheme, with one of the matched status
  codes when it matched any.\<close>

theorem takeover_indicator_is_backed:
  assumes "parse_takeover_details h j = Inr c" "cand_status c = ''indicator''"
  shows "cand_indicators c \<noteq> [] \<and> cand_dns c \<noteq> []
    \<and> (\<forall>d\<in>set (cand_dns c). dns_error d = None \<and> (\<forall>d'\<in>set (cand_dns c). same_answer d d')
        \<and> (\<exists>w\<in>set (cand_wildcard_dns c). dns_resolver w = dns_resolver d)
        \<and> (\<forall>w\<in>set (cand_wildcard_dns c). dns_error w = None \<and> \<not> same_answer d w))
    \<and> (\<forall>i\<in>set (cand_indicators c). case ind_scheme i of
          None \<Rightarrow> \<forall>d\<in>set (cand_dns c). \<exists>p\<in>set (ind_matched i). starts_with DNS_PREFIX p \<and> remove_prefix DNS_PREFIX p = dns_rcode d
        | Some scheme \<Rightarrow> \<exists>r n. filter (\<lambda>r. http_scheme r = scheme) (cand_http c) = [r] \<and> http_status r = Some n \<and> http_error r = None
            \<and> \<not> http_truncated r \<and> (matched_statuses i \<noteq> [] \<longrightarrow> n \<in> set (matched_statuses i)))"
proof -
  have ok: "candidate_ok c" using takeover_details.canonical_read_Inr assms(1) unfolding parse_takeover_details_def by blast
  then have chk: "\<forall>k\<in>set (shape_checks c @ status_checks c @ control_checks c). \<not> fst k"
    and each: "is_ok (mapR (check_indicator (cand_dns c) (cand_http c)) (cand_indicators c))"
    by (simp_all add: candidate_ok_def new_candidate_Inr)
  have ind: "cand_indicators c \<noteq> []" using chk assms(2) by (simp add: status_checks_def)
  then have ev: "evaluated c" by (simp add: evaluated_def)
  have dns: "cand_dns c \<noteq> []" "distinct (map dns_resolver (cand_dns c))" using chk by (simp_all add: shape_checks_def)
  have clean: "\<forall>d\<in>set (cand_dns c). dns_error d = None" "\<forall>w\<in>set (cand_wildcard_dns c). dns_error w = None"
    and resolvers: "set (map dns_resolver (cand_wildcard_dns c)) = set (map dns_resolver (cand_dns c))"
    and agree: "agreement (cand_dns c)" "agreement (cand_wildcard_dns c)"
    and differ: "\<forall>w\<in>set (cand_wildcard_dns c). case resolver_outcome (cand_dns c) (dns_resolver w) of None \<Rightarrow> True | Some d \<Rightarrow> \<not> same_answer d w"
    using chk ev by (auto simp: control_checks_def list_ex_iff split: option.splits)
  have controls: "\<not> same_answer d w" if d: "d \<in> set (cand_dns c)" and w: "w \<in> set (cand_wildcard_dns c)" for d w
  proof -
    have "dns_resolver w \<in> dns_resolver ` set (cand_dns c)" using w resolvers by auto
    then obtain e where e: "e \<in> set (cand_dns c)" "dns_resolver e = dns_resolver w" by auto
    have "\<not> same_answer e w" using differ w resolver_outcome_in [OF dns(2) e(1)] e(2) by fastforce
    moreover have "same_answer d e" by (rule agreement_same [OF agree(1) d e(1)])
    ultimately show ?thesis by (simp add: same_answer_def)
  qed
  have parts: "\<forall>d\<in>set (cand_dns c). dns_error d = None \<and> (\<forall>d'\<in>set (cand_dns c). same_answer d d')
        \<and> (\<exists>w\<in>set (cand_wildcard_dns c). dns_resolver w = dns_resolver d)
        \<and> (\<forall>w\<in>set (cand_wildcard_dns c). dns_error w = None \<and> \<not> same_answer d w)"
  proof
    fix d assume d: "d \<in> set (cand_dns c)"
    then have "dns_resolver d \<in> dns_resolver ` set (cand_wildcard_dns c)" using resolvers by auto
    then have "\<exists>w\<in>set (cand_wildcard_dns c). dns_resolver w = dns_resolver d" by auto
    with d clean agreement_same [OF agree(1) d] controls
    show "dns_error d = None \<and> (\<forall>d'\<in>set (cand_dns c). same_answer d d')
        \<and> (\<exists>w\<in>set (cand_wildcard_dns c). dns_resolver w = dns_resolver d)
        \<and> (\<forall>w\<in>set (cand_wildcard_dns c). dns_error w = None \<and> \<not> same_answer d w)" by blast
  qed
  have inds: "case ind_scheme i of
          None \<Rightarrow> \<forall>d\<in>set (cand_dns c). \<exists>p\<in>set (ind_matched i). starts_with DNS_PREFIX p \<and> remove_prefix DNS_PREFIX p = dns_rcode d
        | Some scheme \<Rightarrow> \<exists>r n. filter (\<lambda>r. http_scheme r = scheme) (cand_http c) = [r] \<and> http_status r = Some n \<and> http_error r = None
            \<and> \<not> http_truncated r \<and> (matched_statuses i \<noteq> [] \<longrightarrow> n \<in> set (matched_statuses i))"
    if i: "i \<in> set (cand_indicators c)" for i
  proof -
    from each obtain us where "mapR (check_indicator (cand_dns c) (cand_http c)) (cand_indicators c) = Inr us"
      by (auto simp: is_ok_def split: sum.splits)
    from mapR_Inr_all [OF this i] have one: "check_indicator (cand_dns c) (cand_http c) i = Inr ()" by auto
    show ?thesis
    proof (cases "ind_scheme i")
      case None
      with one have "\<forall>d\<in>set (cand_dns c). dns_rcode d \<in> remove_prefix DNS_PREFIX ` set (filter (starts_with DNS_PREFIX) (ind_matched i))"
        by (auto simp: check_indicator_def Let_def list_ex_iff split: if_splits)
      with None show ?thesis by fastforce
    next
      case (Some scheme)
      with one have "length (filter (\<lambda>h. http_scheme h = scheme) (cand_http c)) = 1" by (simp add: check_indicator_def Let_def split: if_splits)
      then obtain r where "filter (\<lambda>h. http_scheme h = scheme) (cand_http c) = [r]" by (auto simp: length_Suc_conv)
      with one Some show ?thesis by (auto simp: check_indicator_def Let_def split: if_splits)
    qed
  qed
  from ind dns(1) parts inds show ?thesis by blast
qed

text \<open>C26: One outcome per hostname: the collection is refused exactly when two different outcomes name the same
  host, and otherwise holds every outcome once, in the order of the hostnames.\<close>

theorem takeover_outcomes_unique:
  "case canonical_takeover_outcomes outcomes of
     Inl e \<Rightarrow> \<exists>x\<in>set outcomes. \<exists>y\<in>set outcomes. cand_hostname x = cand_hostname y \<and> x \<noteq> y
       \<and> e = takeover_conflict x
   | Inr xs \<Rightarrow> set xs = set outcomes \<and> sorted (map cand_hostname xs) \<and> distinct (map cand_hostname xs)"
proof (cases "collect_unique cand_hostname takeover_conflict outcomes []")
  case (Inl e)
  from collect_unique_Inl [OF this] obtain x y where
    "x \<in> set outcomes" "y \<in> set outcomes" "cand_hostname x = cand_hostname y" "x \<noteq> y" "e = takeover_conflict x"
    by (auto simp: keyed_def)
  then show ?thesis by (auto simp: canonical_takeover_outcomes_def Inl)
next
  case (Inr m)
  from collect_unique_Inr [OF this] have m: "keyed cand_hostname m" "snd ` set m = set outcomes" by (auto simp: keyed_def)
  note keyed_sorted(3) [OF m(1), of cand_hostname]
  with m(2) show ?thesis by (simp add: canonical_takeover_outcomes_def Inr)
qed

section \<open>Example\<close>

definition example_details :: json where
  "example_details = JObj
     [(''status'', JStr ''indicator''),
      (''dns'', JList [JObj [(''resolver'', JStr ''1.1.1.1''), (''cname_chain'', JList [JStr ''old.example-app.net'']), (''terminal_rcode'', JStr ''NXDOMAIN'')]]),
      (''wildcard_dns'', JList [JObj [(''resolver'', JStr ''1.1.1.1''), (''cname_chain'', JList []), (''terminal_rcode'', JStr ''NXDOMAIN'')]]),
      (''http'', JList []),
      (''indicators'', JList [JObj [(''classification'', JStr ''vulnerable-indicator''), (''service'', JStr ''Example''), (''rule_id'', JStr ''example''),
         (''rule_revision'', JStr ''takeover-rules-v1''), (''matched'', JList [JStr ''dns:terminal-rcode=NXDOMAIN''])]]),
      (''error_types'', JList [])]"

lemma example_parses:
  "case parse_takeover_details ''shop.example.com'' example_details of
     Inl _ \<Rightarrow> False | Inr c \<Rightarrow> cand_status c = ''indicator'' \<and> list_all readable_dns (cand_dns c)"
  by code_simp

lemma takeover_details_round_trip_witness:
  "\<exists>c. candidate_ok c \<and> json_eq (candidate_to_details c) example_details"
proof -
  from example_parses obtain c where "parse_takeover_details ''shop.example.com'' example_details = Inr c" by (auto split: sum.splits)
  with takeover_details_round_trip [of c "''shop.example.com''" example_details c] show ?thesis by blast
qed

lemma takeover_indicator_is_backed_witness:
  "\<exists>c. parse_takeover_details ''shop.example.com'' example_details = Inr c \<and> cand_indicators c \<noteq> []"
proof -
  from example_parses obtain c where c: "parse_takeover_details ''shop.example.com'' example_details = Inr c" "cand_status c = ''indicator''"
    by (auto split: sum.splits)
  with takeover_indicator_is_backed [OF c] show ?thesis by blast
qed

lemma takeover_outcomes_unique_witness: "canonical_takeover_outcomes [] = Inr []"
  using takeover_outcomes_unique [of "[]"] by (cases "canonical_takeover_outcomes []") auto

end
