(* ===== verification/Shodan_Evidence.thy ===== *)
theory Shodan_Evidence
  imports Evidence_Values
begin

text \<open>
  Shodan host evidence (lib/shodan_evidence.py): services and hosts with their readers and writers and
  the collection with one record per address. An accepted host is read back from its own details when
  its names carry no white space at their ends; a name that does shows why the condition is there.
\<close>

section \<open>Texts\<close>

definition shodan_text :: "json \<Rightarrow> string \<Rightarrow> string option res" where
  "shodan_text v name =
     (case v of JNull \<Rightarrow> Inr None
      | JStr s \<Rightarrow> Inr (if strip s = [] then None else Some (strip s))
      | _ \<Rightarrow> Inl (ValueError (''Shodan '' @ name @ '' must be a string'')))"

definition string_tuple :: "json \<Rightarrow> string \<Rightarrow> string list res" where
  "string_tuple v name =
     (if v = JNull then Inr []
      else (case json_strs v of
              None \<Rightarrow> Inl (ValueError (''Shodan '' @ name @ '' must be an array of strings''))
            | Some items \<Rightarrow> Inr (canon (filter (\<lambda>s. s \<noteq> []) (map strip items)))))"

text \<open>\<open>str.casefold\<close>: the sharp s becomes ss; the micro sign, whose case folding lies outside the
  characters of the model, is left alone.\<close>

definition casefold :: "string \<Rightarrow> string" where
  "casefold s = concat (map (\<lambda>c. if code c = 223 then ''ss'' else [lower_char c]) s)"

definition hostname_tuple :: "json \<Rightarrow> string \<Rightarrow> string list res" where
  "hostname_tuple v name =
     bindR (string_tuple v name) (\<lambda>items. Inr (canon (filter (\<lambda>s. s \<noteq> []) (map (\<lambda>s. rstrip_dots (casefold s)) items))))"

section \<open>Services\<close>

record shodan_service =
  svc_port :: int
  svc_transport :: string
  svc_product :: "string option"
  svc_version :: "string option"
  svc_observed_at :: "string option"
  svc_cpes :: "string list"
  svc_http_title :: "string option"
  svc_http_server :: "string option"
  svc_http_components :: "string list"
  svc_tls_subject_cn :: "string option"
  svc_tls_subject_alt_names :: "string list"
  svc_tls_issuer_cn :: "string option"
  svc_tls_expires_at :: "string option"
  svc_tls_sha256 :: "string option"
  svc_tls_jarm :: "string option"

text \<open>A nested object of the record: None when it is absent\<close>

definition nested :: "json \<Rightarrow> string list \<Rightarrow> string \<Rightarrow> (string \<times> json) list option res" where
  "nested v allowed message =
     (case v of JNull \<Rightarrow> Inr None
      | JObj obj \<Rightarrow> if only_keys allowed obj then Inr (Some obj) else Inl (ValueError message)
      | _ \<Rightarrow> Inl (ValueError message))"

definition nested_text :: "(string \<times> json) list option \<Rightarrow> string \<Rightarrow> string \<Rightarrow> string option res" where
  "nested_text obj k name = (case obj of None \<Rightarrow> Inr None | Some sub \<Rightarrow> shodan_text (field_of sub k) name)"

definition nested_strings :: "(string \<times> json) list option \<Rightarrow> string \<Rightarrow> string \<Rightarrow> string list res" where
  "nested_strings obj k name = (case obj of None \<Rightarrow> Inr [] | Some sub \<Rightarrow> string_tuple (field_of sub k) name)"

definition nested_names :: "(string \<times> json) list option \<Rightarrow> string \<Rightarrow> string \<Rightarrow> string list res" where
  "nested_names obj k name = (case obj of None \<Rightarrow> Inr [] | Some sub \<Rightarrow> hostname_tuple (field_of sub k) name)"

definition service_port :: "json \<Rightarrow> int res" where
  "service_port v =
     (case v of JInt n \<Rightarrow> if 1 \<le> n \<and> n \<le> 65535 then Inr n else Inl (ValueError ''Shodan service port must be between 1 and 65535'')
      | _ \<Rightarrow> Inl (ValueError ''Shodan service port must be between 1 and 65535''))"

definition service_transport :: "json \<Rightarrow> string res" where
  "service_transport v =
     bindR (shodan_text v ''service transport'') (\<lambda>transport.
       case transport of
         None \<Rightarrow> Inl (ValueError ''Shodan service transport must be tcp or udp'')
       | Some t \<Rightarrow> if casefold t \<in> {''tcp'', ''udp''} then Inr (casefold t)
                  else Inl (ValueError ''Shodan service transport must be tcp or udp''))"

definition service_from_record :: "json \<Rightarrow> shodan_service res" where
  "service_from_record r =
     (case r of
        JObj obj \<Rightarrow>
          if \<not> only_keys [''port'', ''transport'', ''product'', ''version'', ''observed_at'', ''cpes'', ''http'', ''tls''] obj
          then Inl (ValueError ''Shodan service contains unsupported fields'')
          else
          bindR (service_port (field_of obj ''port'')) (\<lambda>port.
          bindR (service_transport (field_of obj ''transport'')) (\<lambda>transport.
          bindR (nested (field_of obj ''http'') [''title'', ''server'', ''components''] ''Shodan HTTP evidence contains unsupported fields'') (\<lambda>http.
          bindR (nested (field_of obj ''tls'') [''subject_cn'', ''subject_alt_names'', ''issuer_cn'', ''expires_at'', ''sha256'', ''jarm'']
             ''Shodan TLS evidence contains unsupported fields'') (\<lambda>tls.
          bindR (shodan_text (field_of obj ''product'') ''service product'') (\<lambda>product.
          bindR (shodan_text (field_of obj ''version'') ''service version'') (\<lambda>version.
          bindR (shodan_text (field_of obj ''observed_at'') ''service observation time'') (\<lambda>observed_at.
          bindR (string_tuple (field_of obj ''cpes'') ''service CPEs'') (\<lambda>cpes.
          bindR (nested_text http ''title'' ''HTTP title'') (\<lambda>http_title.
          bindR (nested_text http ''server'' ''HTTP server'') (\<lambda>http_server.
          bindR (nested_strings http ''components'' ''HTTP components'') (\<lambda>components.
          bindR (nested_text tls ''subject_cn'' ''TLS subject CN'') (\<lambda>subject_cn.
          bindR (nested_names tls ''subject_alt_names'' ''TLS subject alternative names'') (\<lambda>alt_names.
          bindR (nested_text tls ''issuer_cn'' ''TLS issuer CN'') (\<lambda>issuer_cn.
          bindR (nested_text tls ''expires_at'' ''TLS expiry'') (\<lambda>expires_at.
          bindR (nested_text tls ''sha256'' ''TLS SHA-256'') (\<lambda>sha256.
          bindR (nested_text tls ''jarm'' ''TLS JARM'') (\<lambda>jarm.
          Inr \<lparr>svc_port = port, svc_transport = transport, svc_product = product, svc_version = version, svc_observed_at = observed_at,
               svc_cpes = cpes, svc_http_title = http_title, svc_http_server = http_server, svc_http_components = components,
               svc_tls_subject_cn = subject_cn, svc_tls_subject_alt_names = alt_names, svc_tls_issuer_cn = issuer_cn,
               svc_tls_expires_at = expires_at, svc_tls_sha256 = sha256, svc_tls_jarm = jarm\<rparr>)))))))))))))))))
      | _ \<Rightarrow> Inl (ValueError ''Shodan services must be objects''))"

definition or_blank :: "string option \<Rightarrow> string" where
  "or_blank s = (case s of None \<Rightarrow> [] | Some x \<Rightarrow> x)"

definition service_key ::
  "shodan_service \<Rightarrow> int \<times> string \<times> string \<times> string \<times> string \<times> string \<times> string \<times> string list \<times> string \<times> string list
     \<times> string \<times> string \<times> string \<times> string \<times> string list" where
  "service_key s =
     (svc_port s, svc_transport s, or_blank (svc_observed_at s), or_blank (svc_product s), or_blank (svc_version s),
      or_blank (svc_http_title s), or_blank (svc_http_server s), svc_http_components s, or_blank (svc_tls_subject_cn s),
      svc_tls_subject_alt_names s, or_blank (svc_tls_issuer_cn s), or_blank (svc_tls_expires_at s), or_blank (svc_tls_sha256 s),
      or_blank (svc_tls_jarm s), svc_cpes s)"

definition text_field :: "string \<Rightarrow> string option \<Rightarrow> (string \<times> json) list" where
  "text_field k v = (case v of None \<Rightarrow> [] | Some s \<Rightarrow> [(k, JStr s)])"

definition list_field :: "string \<Rightarrow> string list \<Rightarrow> (string \<times> json) list" where
  "list_field k xs = (if xs = [] then [] else [(k, JList (map JStr xs))])"

definition object_field :: "string \<Rightarrow> (string \<times> json) list \<Rightarrow> (string \<times> json) list" where
  "object_field k obj = (if obj = [] then [] else [(k, JObj obj)])"

definition service_to_record :: "shodan_service \<Rightarrow> json" where
  "service_to_record s =
     JObj ([(''port'', JInt (svc_port s)), (''transport'', JStr (svc_transport s))]
       @ text_field ''product'' (svc_product s) @ text_field ''version'' (svc_version s) @ text_field ''observed_at'' (svc_observed_at s)
       @ list_field ''cpes'' (svc_cpes s)
       @ object_field ''http'' (text_field ''title'' (svc_http_title s) @ text_field ''server'' (svc_http_server s)
           @ list_field ''components'' (svc_http_components s))
       @ object_field ''tls'' (list_field ''subject_alt_names'' (svc_tls_subject_alt_names s)
           @ text_field ''subject_cn'' (svc_tls_subject_cn s) @ text_field ''issuer_cn'' (svc_tls_issuer_cn s)
           @ text_field ''expires_at'' (svc_tls_expires_at s) @ text_field ''sha256'' (svc_tls_sha256 s) @ text_field ''jarm'' (svc_tls_jarm s)))"

section \<open>Hosts\<close>

record shodan_host =
  host_ip :: string
  host_services :: "shodan_service list"
  host_asn :: "string option"
  host_organization :: "string option"
  host_isp :: "string option"
  host_hostnames :: "string list"
  host_domains :: "string list"

definition host_asn_of :: "string option \<Rightarrow> string option res" where
  "host_asn_of raw = (case raw of None \<Rightarrow> Inr None | Some a \<Rightarrow> bindR (normalize_asn (JStr a)) (\<lambda>x. Inr (Some x)))"

definition host_from_record :: "string \<Rightarrow> json \<Rightarrow> shodan_host res" where
  "host_from_record v details =
     (if CHR ''%'' \<in> set v then Inl (ValueError ''Shodan host value must be a canonical IP address'')
      else (case parse_ip (strip v) of
        None \<Rightarrow> Inl (ValueError ''Shodan host value must be a canonical IP address'')
      | Some address \<Rightarrow>
        (case details of
           JObj obj \<Rightarrow>
             if \<not> only_keys [''asn'', ''organization'', ''isp'', ''hostnames'', ''domains'', ''services''] obj
             then Inl (ValueError ''Shodan host details contain unsupported fields'')
             else (case field_of obj ''services'' of
                JList (r # rs) \<Rightarrow>
                  bindR (mapR service_from_record (r # rs)) (\<lambda>services.
                  bindR (shodan_text (field_of obj ''asn'') ''ASN'') (\<lambda>raw_asn.
                  bindR (host_asn_of raw_asn) (\<lambda>asn.
                  bindR (shodan_text (field_of obj ''organization'') ''organization'') (\<lambda>organization.
                  bindR (shodan_text (field_of obj ''isp'') ''ISP'') (\<lambda>isp.
                  bindR (hostname_tuple (field_of obj ''hostnames'') ''hostnames'') (\<lambda>hostnames.
                  bindR (hostname_tuple (field_of obj ''domains'') ''domains'') (\<lambda>domains.
                  Inr \<lparr>host_ip = show_ip address, host_services = canon_by service_key services, host_asn = asn,
                       host_organization = organization, host_isp = isp, host_hostnames = hostnames, host_domains = domains\<rparr>)))))))
              | _ \<Rightarrow> Inl (ValueError ''Shodan host details require at least one service''))
         | _ \<Rightarrow> Inl (ValueError ''Shodan host details must be an object''))))"

definition host_key :: "shodan_host \<Rightarrow> int \<times> int" where
  "host_key h = (case parse_ip (host_ip h) of Some (IPv4 n) \<Rightarrow> (4, n) | Some (IPv6 n _) \<Rightarrow> (6, n) | None \<Rightarrow> (0, 0))"

definition host_to_details :: "shodan_host \<Rightarrow> json" where
  "host_to_details h =
     JObj (text_field ''asn'' (host_asn h) @ text_field ''organization'' (host_organization h) @ text_field ''isp'' (host_isp h)
       @ list_field ''hostnames'' (host_hostnames h) @ list_field ''domains'' (host_domains h)
       @ [(''services'', JList (map service_to_record (host_services h)))])"

definition shodan_conflict :: "shodan_host \<Rightarrow> err" where
  "shodan_conflict h = ValueError (''Shodan host '' @ host_ip h @ '' has conflicting evidence'')"

definition canonical_shodan_hosts :: "shodan_host list \<Rightarrow> shodan_host list res" where
  "canonical_shodan_hosts observations =
     bindR (collect_unique host_ip shodan_conflict observations []) (\<lambda>by_ip. Inr (sort_key host_key (map snd by_ip)))"

section \<open>Accepted records\<close>

definition text_ok :: "string option \<Rightarrow> bool" where
  "text_ok v = (case v of None \<Rightarrow> True | Some s \<Rightarrow> s \<noteq> [] \<and> strip s = s)"

definition strings_ok :: "string list \<Rightarrow> bool" where
  "strings_ok xs = (canon xs = xs \<and> list_all (\<lambda>x. x \<noteq> [] \<and> strip x = x) xs)"

definition names_ok :: "string list \<Rightarrow> bool" where
  "names_ok xs = (canon xs = xs \<and> list_all (\<lambda>x. x \<noteq> [] \<and> rstrip_dots (casefold x) = x) xs)"

definition trimmed :: "string list \<Rightarrow> bool" where
  "trimmed xs = list_all (\<lambda>x. strip x = x) xs"

definition service_ok :: "shodan_service \<Rightarrow> bool" where
  "service_ok s =
     (1 \<le> svc_port s \<and> svc_port s \<le> 65535 \<and> svc_transport s \<in> {''tcp'', ''udp''} \<and> text_ok (svc_product s) \<and> text_ok (svc_version s)
      \<and> text_ok (svc_observed_at s) \<and> strings_ok (svc_cpes s) \<and> text_ok (svc_http_title s) \<and> text_ok (svc_http_server s)
      \<and> strings_ok (svc_http_components s) \<and> text_ok (svc_tls_subject_cn s) \<and> names_ok (svc_tls_subject_alt_names s)
      \<and> text_ok (svc_tls_issuer_cn s) \<and> text_ok (svc_tls_expires_at s) \<and> text_ok (svc_tls_sha256 s) \<and> text_ok (svc_tls_jarm s))"

definition host_ok :: "shodan_host \<Rightarrow> bool" where
  "host_ok h =
     (normalize_ip [] (host_ip h) = Inr (host_ip h) \<and> host_services h \<noteq> [] \<and> canon_by service_key (host_services h) = host_services h
      \<and> list_all service_ok (host_services h) \<and> (case host_asn h of None \<Rightarrow> True | Some a \<Rightarrow> normalize_asn (JStr a) = Inr a)
      \<and> text_ok (host_organization h) \<and> text_ok (host_isp h) \<and> names_ok (host_hostnames h) \<and> names_ok (host_domains h))"

definition readable_host :: "shodan_host \<Rightarrow> bool" where
  "readable_host h =
     (trimmed (host_hostnames h) \<and> trimmed (host_domains h) \<and> list_all (\<lambda>s. trimmed (svc_tls_subject_alt_names s)) (host_services h))"

lemma shodan_text_ok: "shodan_text v name = Inr t \<Longrightarrow> text_ok t"
  by (auto simp: shodan_text_def text_ok_def split: json.splits)

lemma string_tuple_ok: "string_tuple v name = Inr xs \<Longrightarrow> strings_ok xs"
  by (auto simp: string_tuple_def strings_ok_def list_all_iff split: if_splits option.splits)

lemma casefold_chars: "c \<in> set (casefold s) \<Longrightarrow> lower_char c = c \<and> code c \<noteq> 223"
proof -
  assume "c \<in> set (casefold s)"
  then obtain d where d: "c \<in> set (if code d = 223 then ''ss'' else [lower_char d])" unfolding casefold_def set_concat set_map by blast
  have "lower_char CHR ''s'' = CHR ''s'' \<and> code CHR ''s'' \<noteq> 223" by code_simp
  moreover have "code d \<noteq> 223 \<Longrightarrow> code (lower_char d) \<noteq> 223"
    by (auto simp: lower_char_def is_upper_def code_less_256)
  ultimately show ?thesis using d by (auto split: if_splits)
qed

lemma casefold_id: "(\<forall>c\<in>set s. lower_char c = c \<and> code c \<noteq> 223) \<Longrightarrow> casefold s = s"
  by (induction s) (auto simp: casefold_def)

lemma hostname_stable: "rstrip_dots (casefold (rstrip_dots (casefold s))) = rstrip_dots (casefold s)"
proof -
  have "set (rstrip_dots (casefold s)) \<subseteq> set (casefold s)" unfolding rstrip_dots_def by (rule set_rstrip_by)
  then have "casefold (rstrip_dots (casefold s)) = rstrip_dots (casefold s)"
    by (intro casefold_id) (use casefold_chars in blast)
  then show ?thesis by (simp add: rstrip_dots_def)
qed

lemma hostname_tuple_ok: "hostname_tuple v name = Inr xs \<Longrightarrow> names_ok xs"
  by (auto simp: hostname_tuple_def bindR_Inr_iff names_ok_def list_all_iff hostname_stable)

lemma field_of_fields:
  "field_of [] k' = JNull"
  "field_of ((k, v) # rest) k' = (if k = k' then v else field_of rest k')"
  "field_of (text_field k t @ rest) k' = (if k = k' \<and> t \<noteq> None then JStr (the t) else field_of rest k')"
  "field_of (list_field k xs @ rest) k' = (if k = k' \<and> xs \<noteq> [] then JList (map JStr xs) else field_of rest k')"
  "field_of (object_field k obj @ rest) k' = (if k = k' \<and> obj \<noteq> [] then JObj obj else field_of rest k')"
  "field_of (text_field k t) k' = (if k = k' \<and> t \<noteq> None then JStr (the t) else JNull)"
  "field_of (list_field k xs) k' = (if k = k' \<and> xs \<noteq> [] then JList (map JStr xs) else JNull)"
  "field_of (object_field k obj) k' = (if k = k' \<and> obj \<noteq> [] then JObj obj else JNull)"
  by (auto simp: field_of_def text_field_def list_field_def object_field_def split: option.splits)

lemma only_keys_fields [simp]:
  "only_keys ks (a @ b) \<longleftrightarrow> only_keys ks a \<and> only_keys ks b"
  "only_keys ks []"
  "only_keys ks ((k, v) # a) \<longleftrightarrow> k \<in> set ks \<and> only_keys ks a"
  "only_keys ks (text_field k t) \<longleftrightarrow> t = None \<or> k \<in> set ks"
  "only_keys ks (list_field k xs) \<longleftrightarrow> xs = [] \<or> k \<in> set ks"
  "only_keys ks (object_field k obj) \<longleftrightarrow> obj = [] \<or> k \<in> set ks"
  by (auto simp: only_keys_def text_field_def list_field_def object_field_def split: option.splits)

lemma empty_fields [simp]:
  "text_field k v = [] \<longleftrightarrow> v = None" "list_field k xs = [] \<longleftrightarrow> xs = []" "object_field k obj = [] \<longleftrightarrow> obj = []"
  by (auto simp: text_field_def list_field_def object_field_def split: option.splits)

lemma text_back: "text_ok v \<Longrightarrow> shodan_text (if v \<noteq> None then JStr (the v) else JNull) name = Inr v"
  by (cases v) (auto simp: shodan_text_def text_ok_def)

lemma strings_back: "strings_ok xs \<Longrightarrow> string_tuple (JList (map JStr xs)) name = Inr xs"
proof -
  assume ok: "strings_ok xs"
  then have "map strip xs = xs" "filter (\<lambda>s. s \<noteq> []) xs = xs" by (auto simp: strings_ok_def list_all_iff intro: map_idI)
  with ok show ?thesis by (simp add: string_tuple_def strings_ok_def)
qed

lemma names_back: "names_ok xs \<Longrightarrow> trimmed xs \<Longrightarrow> hostname_tuple (JList (map JStr xs)) name = Inr xs"
proof -
  assume ok: "names_ok xs" "trimmed xs"
  then have "strings_ok xs" by (auto simp: names_ok_def trimmed_def strings_ok_def list_all_iff)
  moreover have "map (\<lambda>s. rstrip_dots (casefold s)) xs = xs" "filter (\<lambda>s. s \<noteq> []) xs = xs"
    using ok by (auto simp: names_ok_def list_all_iff intro: map_idI)
  ultimately show ?thesis using ok by (simp add: hostname_tuple_def strings_back names_ok_def)
qed

lemma null_back [simp]: "shodan_text JNull name = Inr None" "string_tuple JNull name = Inr []" "hostname_tuple JNull name = Inr []"
  by (simp_all add: shodan_text_def string_tuple_def hostname_tuple_def)

lemma nested_text_ok: "nested_text obj k name = Inr t \<Longrightarrow> text_ok t"
  by (cases obj) (auto simp: nested_text_def text_ok_def dest: shodan_text_ok)

lemma nested_strings_ok: "nested_strings obj k name = Inr t \<Longrightarrow> strings_ok t"
  by (cases obj) (auto simp: nested_strings_def strings_ok_def dest: string_tuple_ok)

lemma nested_names_ok: "nested_names obj k name = Inr t \<Longrightarrow> names_ok t"
  by (cases obj) (auto simp: nested_names_def names_ok_def dest: hostname_tuple_ok)

lemma service_port_ok: "service_port v = Inr n \<Longrightarrow> 1 \<le> n \<and> n \<le> 65535"
  by (auto simp: service_port_def split: json.splits if_splits)

lemma service_transport_ok: "service_transport v = Inr t \<Longrightarrow> t \<in> {''tcp'', ''udp''}"
  by (auto simp: service_transport_def bindR_Inr_iff split: option.splits if_splits)

lemma service_from_record_ok: "service_from_record r = Inr s \<Longrightarrow> service_ok s"
proof (cases r)
  case (JObj obj)
  assume "service_from_record r = Inr s"
  with JObj show ?thesis
    unfolding service_from_record_def service_ok_def json.case
    by (clarsimp simp: bindR_Inr_iff split: if_splits dest!: service_port_ok)
      (intro conjI; (erule shodan_text_ok string_tuple_ok nested_text_ok nested_strings_ok nested_names_ok
         service_transport_ok [unfolded insert_iff empty_iff simp_thms]))
qed (simp_all add: service_from_record_def)

section \<open>Reading back\<close>

lemma transport_back: "t \<in> {''tcp'', ''udp''} \<Longrightarrow> service_transport (JStr t) = Inr t"
  by (elim insertE; simp) (code_simp+)

lemma nested_back:
  "nested_text (if obj = [] then None else Some obj) k name = shodan_text (field_of obj k) name"
  "nested_strings (if obj = [] then None else Some obj) k name = string_tuple (field_of obj k) name"
  "nested_names (if obj = [] then None else Some obj) k name = hostname_tuple (field_of obj k) name"
  by (simp_all add: nested_text_def nested_strings_def nested_names_def field_of_def)

lemma nested_object: "only_keys ks obj \<Longrightarrow> nested (if obj \<noteq> [] then JObj obj else JNull) ks m = Inr (if obj = [] then None else Some obj)"
  by (simp add: nested_def)

lemma list_back:
  "strings_ok xs \<Longrightarrow> string_tuple (if xs \<noteq> [] then JList (map JStr xs) else JNull) name = Inr xs"
  "names_ok xs \<Longrightarrow> trimmed xs \<Longrightarrow> hostname_tuple (if xs \<noteq> [] then JList (map JStr xs) else JNull) name = Inr xs"
  using strings_back [of xs name] names_back [of xs name] by (cases xs; simp)+

lemma service_collapse:
  "\<lparr>svc_port = svc_port s,
    svc_transport = svc_transport s,
    svc_product = svc_product s,
    svc_version = svc_version s,
    svc_observed_at = svc_observed_at s,
    svc_cpes = svc_cpes s,
    svc_http_title = svc_http_title s,
    svc_http_server = svc_http_server s,
    svc_http_components = svc_http_components s,
    svc_tls_subject_cn = svc_tls_subject_cn s,
    svc_tls_subject_alt_names = svc_tls_subject_alt_names s,
    svc_tls_issuer_cn = svc_tls_issuer_cn s,
    svc_tls_expires_at = svc_tls_expires_at s,
    svc_tls_sha256 = svc_tls_sha256 s,
    svc_tls_jarm = svc_tls_jarm s\<rparr> = s"
  by (cases s) simp

lemma service_read_back:
  assumes ok: "service_ok s" and trim: "trimmed (svc_tls_subject_alt_names s)"
  shows "service_from_record (service_to_record s) = Inr s"
proof -
  define http where "http = text_field ''title'' (svc_http_title s) @ text_field ''server'' (svc_http_server s)
           @ list_field ''components'' (svc_http_components s)"
  define tls where "tls = list_field ''subject_alt_names'' (svc_tls_subject_alt_names s)
           @ text_field ''subject_cn'' (svc_tls_subject_cn s) @ text_field ''issuer_cn'' (svc_tls_issuer_cn s)
           @ text_field ''expires_at'' (svc_tls_expires_at s) @ text_field ''sha256'' (svc_tls_sha256 s) @ text_field ''jarm'' (svc_tls_jarm s)"
  define obj where "obj = [(''port'', JInt (svc_port s)), (''transport'', JStr (svc_transport s))]
       @ text_field ''product'' (svc_product s) @ text_field ''version'' (svc_version s) @ text_field ''observed_at'' (svc_observed_at s)
       @ list_field ''cpes'' (svc_cpes s) @ object_field ''http'' http @ object_field ''tls'' tls"
  have rec: "service_to_record s = JObj obj" by (simp add: service_to_record_def obj_def http_def tls_def)
  have keys: "only_keys [''port'', ''transport'', ''product'', ''version'', ''observed_at'', ''cpes'', ''http'', ''tls''] obj"
    "only_keys [''title'', ''server'', ''components''] http"
    "only_keys [''subject_cn'', ''subject_alt_names'', ''issuer_cn'', ''expires_at'', ''sha256'', ''jarm''] tls"
    by (simp_all add: obj_def http_def tls_def)
  note ok1 = ok [unfolded service_ok_def]
  have fo: "field_of obj ''port'' = JInt (svc_port s)" "field_of obj ''transport'' = JStr (svc_transport s)"
    "field_of obj ''product'' = (if svc_product s \<noteq> None then JStr (the (svc_product s)) else JNull)"
    "field_of obj ''version'' = (if svc_version s \<noteq> None then JStr (the (svc_version s)) else JNull)"
    "field_of obj ''observed_at'' = (if svc_observed_at s \<noteq> None then JStr (the (svc_observed_at s)) else JNull)"
    "field_of obj ''cpes'' = (if svc_cpes s \<noteq> [] then JList (map JStr (svc_cpes s)) else JNull)"
    "field_of obj ''http'' = (if http \<noteq> [] then JObj http else JNull)" "field_of obj ''tls'' = (if tls \<noteq> [] then JObj tls else JNull)"
    by (simp_all add: obj_def field_of_fields)
  have fh: "field_of http ''title'' = (if svc_http_title s \<noteq> None then JStr (the (svc_http_title s)) else JNull)"
    "field_of http ''server'' = (if svc_http_server s \<noteq> None then JStr (the (svc_http_server s)) else JNull)"
    "field_of http ''components'' = (if svc_http_components s \<noteq> [] then JList (map JStr (svc_http_components s)) else JNull)"
    by (simp_all add: http_def field_of_fields)
  have ft: "field_of tls ''subject_cn'' = (if svc_tls_subject_cn s \<noteq> None then JStr (the (svc_tls_subject_cn s)) else JNull)"
    "field_of tls ''issuer_cn'' = (if svc_tls_issuer_cn s \<noteq> None then JStr (the (svc_tls_issuer_cn s)) else JNull)"
    "field_of tls ''expires_at'' = (if svc_tls_expires_at s \<noteq> None then JStr (the (svc_tls_expires_at s)) else JNull)"
    "field_of tls ''sha256'' = (if svc_tls_sha256 s \<noteq> None then JStr (the (svc_tls_sha256 s)) else JNull)"
    "field_of tls ''jarm'' = (if svc_tls_jarm s \<noteq> None then JStr (the (svc_tls_jarm s)) else JNull)"
    "field_of tls ''subject_alt_names'' = (if svc_tls_subject_alt_names s \<noteq> [] then JList (map JStr (svc_tls_subject_alt_names s)) else JNull)"
    by (simp_all add: tls_def field_of_fields)
  have top: "service_port (field_of obj ''port'') = Inr (svc_port s)" "service_transport (field_of obj ''transport'') = Inr (svc_transport s)"
    "shodan_text (field_of obj ''product'') name = Inr (svc_product s)" "shodan_text (field_of obj ''version'') name = Inr (svc_version s)"
    "shodan_text (field_of obj ''observed_at'') name = Inr (svc_observed_at s)" "string_tuple (field_of obj ''cpes'') name = Inr (svc_cpes s)"
    for name
    unfolding fo using ok1 by (simp_all only: service_port_def json.case if_True simp_thms transport_back text_back list_back)
  have http: "shodan_text (field_of http ''title'') name = Inr (svc_http_title s)" "shodan_text (field_of http ''server'') name = Inr (svc_http_server s)"
    "string_tuple (field_of http ''components'') name = Inr (svc_http_components s)" for name
    unfolding fh using ok1 by (simp_all only: text_back list_back)
  have tls: "shodan_text (field_of tls ''subject_cn'') name = Inr (svc_tls_subject_cn s)" "shodan_text (field_of tls ''issuer_cn'') name = Inr (svc_tls_issuer_cn s)"
    "shodan_text (field_of tls ''expires_at'') name = Inr (svc_tls_expires_at s)" "shodan_text (field_of tls ''sha256'') name = Inr (svc_tls_sha256 s)"
    "shodan_text (field_of tls ''jarm'') name = Inr (svc_tls_jarm s)" "hostname_tuple (field_of tls ''subject_alt_names'') name = Inr (svc_tls_subject_alt_names s)"
    for name
    unfolding ft using ok1 trim by (simp_all only: text_back list_back)
  have subs: "nested (field_of obj ''http'') [''title'', ''server'', ''components''] m = Inr (if http = [] then None else Some http)"
    "nested (field_of obj ''tls'') [''subject_cn'', ''subject_alt_names'', ''issuer_cn'', ''expires_at'', ''sha256'', ''jarm''] m
       = Inr (if tls = [] then None else Some tls)" for m
    unfolding fo by (rule nested_object [OF keys(2)], rule nested_object [OF keys(3)])
  show ?thesis
    by (simp add: service_from_record_def rec keys(1) top subs nested_back http tls service_collapse)
qed

lemma mapR_nonempty: "mapR f xs = Inr ys \<Longrightarrow> xs \<noteq> [] \<Longrightarrow> ys \<noteq> []"
  by (cases xs) (auto simp: bindR_Inr_iff)

lemma service_key_inj: "service_ok s \<Longrightarrow> service_ok t \<Longrightarrow> service_key s = service_key t \<Longrightarrow> s = t"
proof -
  have or_inj: "text_ok a \<Longrightarrow> text_ok b \<Longrightarrow> or_blank a = or_blank b \<Longrightarrow> a = b" for a b
    by (cases a; cases b) (auto simp: text_ok_def or_blank_def)
  assume "service_ok s" "service_ok t" "service_key s = service_key t"
  then show "s = t" by (intro shodan_service.equality) (auto simp: service_ok_def service_key_def intro: or_inj)
qed

lemma host_from_record_Inr:
  assumes "host_from_record v j = Inr h"
  obtains a obj r rs services raw asn org isp names domains where
    "CHR ''%'' \<notin> set v" "parse_ip (strip v) = Some a" "mapR service_from_record (r # rs) = Inr services" "host_asn_of raw = Inr asn"
    "shodan_text (field_of obj ''organization'') ''organization'' = Inr org" "shodan_text (field_of obj ''isp'') ''ISP'' = Inr isp"
    "hostname_tuple (field_of obj ''hostnames'') ''hostnames'' = Inr names" "hostname_tuple (field_of obj ''domains'') ''domains'' = Inr domains"
    "h = \<lparr>host_ip = show_ip a, host_services = canon_by service_key services, host_asn = asn,
         host_organization = org, host_isp = isp, host_hostnames = names, host_domains = domains\<rparr>"
proof -
  from assms obtain a where v: "CHR ''%'' \<notin> set v" "parse_ip (strip v) = Some a" by (auto simp: host_from_record_def split: if_splits option.splits)
  with assms obtain obj where j: "j = JObj obj" by (cases j) (auto simp: host_from_record_def)
  with assms v obtain r rs where s: "field_of obj ''services'' = JList (r # rs)"
    by (auto simp: host_from_record_def split: if_splits json.splits list.splits)
  from assms [unfolded host_from_record_def j] v s show thesis
    by (auto simp: bindR_Inr_iff simp del: mapR.simps split: if_splits intro: that)
qed

lemma host_read_accepts: "host_from_record v j = Inr h \<Longrightarrow> host_ok h"
proof (erule host_from_record_Inr)
  fix a obj r rs services raw asn org isp names domains
  assume v: "CHR ''%'' \<notin> set v" and a: "parse_ip (strip v) = Some a" and svc: "mapR service_from_record (r # rs) = Inr services"
    and asn: "host_asn_of raw = Inr asn"
    and rest: "shodan_text (field_of obj ''organization'') ''organization'' = Inr org" "shodan_text (field_of obj ''isp'') ''ISP'' = Inr isp"
      "hostname_tuple (field_of obj ''hostnames'') ''hostnames'' = Inr names" "hostname_tuple (field_of obj ''domains'') ''domains'' = Inr domains"
    and h: "h = \<lparr>host_ip = show_ip a, host_services = canon_by service_key services, host_asn = asn,
         host_organization = org, host_isp = isp, host_hostnames = names, host_domains = domains\<rparr>"
  have "CHR ''%'' \<notin> set (strip v)" using v set_strip [of v] by auto
  then have ip: "normalize_ip [] (show_ip a) = Inr (show_ip a)"
    using parse_ip_no_scope [OF a] parse_ip_wf [OF a] by (intro normalize_ip_show)
  have each: "\<forall>s\<in>set services. service_ok s" using mapR_Inr_in [OF svc] service_from_record_ok by blast
  then have "inj_on service_key (set services)" using service_key_inj by (intro inj_onI) blast
  then have "canon_by service_key (canon_by service_key services) = canon_by service_key services" by (rule canon_by_idem)
  moreover have "canon_by service_key services \<noteq> []"
    using mapR_nonempty [OF svc] set_canon_by [of service_key services] by (metis list.distinct(1) set_empty)
  moreover have "case asn of None \<Rightarrow> True | Some x \<Rightarrow> normalize_asn (JStr x) = Inr x"
    using asn by (auto simp: host_asn_of_def bindR_Inr_iff split: option.splits intro: normalize_asn_stable)
  ultimately show "host_ok h"
    using ip each shodan_text_ok [OF rest(1)] shodan_text_ok [OF rest(2)] hostname_tuple_ok [OF rest(3)] hostname_tuple_ok [OF rest(4)]
    by (simp add: host_ok_def h list_all_iff)
qed

lemma host_collapse:
  "\<lparr>host_ip = host_ip h, host_services = host_services h, host_asn = host_asn h, host_organization = host_organization h,
    host_isp = host_isp h, host_hostnames = host_hostnames h, host_domains = host_domains h\<rparr> = h"
  by (cases h) simp

lemma host_read_back:
  assumes ok: "host_ok h" and trim: "readable_host h"
  shows "host_from_record (host_ip h) (host_to_details h) = Inr h"
proof -
  note ok1 = ok [unfolded host_ok_def]
  from ok1 obtain a where a: "wf_ip a" "host_ip h = show_ip a" "CHR ''%'' \<notin> set (show_ip a)" by (metis normalize_ip_result)
  have p: "parse_ip (strip (host_ip h)) = Some a" using a by (simp add: parse_show_ip)
  obtain s ss where svc: "host_services h = s # ss" using ok1 by (cases "host_services h") auto
  have again: "mapR service_from_record (map service_to_record (s # ss)) = Inr (s # ss)"
    using ok1 trim unfolding svc [symmetric] readable_host_def list_all_iff by (intro mapR_read_back) (auto intro: service_read_back)
  have asn: "text_ok (host_asn h) \<and> host_asn_of (host_asn h) = Inr (host_asn h)"
  proof (cases "host_asn h")
    case (Some x)
    with ok1 have x: "normalize_asn (JStr x) = Inr x" by simp
    with normalize_asn_result [OF x] normalize_asn_strip [OF x] Some show ?thesis
      by (auto simp: host_asn_of_def text_ok_def asn_text_def)
  qed (simp add: host_asn_of_def text_ok_def)
  define obj where "obj = text_field ''asn'' (host_asn h) @ text_field ''organization'' (host_organization h) @ text_field ''isp'' (host_isp h)
       @ list_field ''hostnames'' (host_hostnames h) @ list_field ''domains'' (host_domains h)
       @ [(''services'', JList (map service_to_record (s # ss)))]"
  have rec: "host_to_details h = JObj obj" by (simp add: host_to_details_def obj_def svc)
  have keys: "only_keys [''asn'', ''organization'', ''isp'', ''hostnames'', ''domains'', ''services''] obj" by (simp add: obj_def)
  have fo: "field_of obj ''asn'' = (if host_asn h \<noteq> None then JStr (the (host_asn h)) else JNull)"
    "field_of obj ''organization'' = (if host_organization h \<noteq> None then JStr (the (host_organization h)) else JNull)"
    "field_of obj ''isp'' = (if host_isp h \<noteq> None then JStr (the (host_isp h)) else JNull)"
    "field_of obj ''hostnames'' = (if host_hostnames h \<noteq> [] then JList (map JStr (host_hostnames h)) else JNull)"
    "field_of obj ''domains'' = (if host_domains h \<noteq> [] then JList (map JStr (host_domains h)) else JNull)"
    "field_of obj ''services'' = JList (service_to_record s # map service_to_record ss)"
    by (simp_all add: obj_def field_of_fields)
  have fields: "shodan_text (field_of obj ''asn'') name = Inr (host_asn h)" "shodan_text (field_of obj ''organization'') name = Inr (host_organization h)"
    "shodan_text (field_of obj ''isp'') name = Inr (host_isp h)" "hostname_tuple (field_of obj ''hostnames'') name = Inr (host_hostnames h)"
    "hostname_tuple (field_of obj ''domains'') name = Inr (host_domains h)" for name
    unfolding fo using ok1 asn trim [unfolded readable_host_def] by (simp_all only: text_back list_back)
  have "canon_by service_key (s # ss) = s # ss" using ok1 svc by simp
  moreover have "CHR ''%'' \<notin> set (host_ip h)" using a by simp
  moreover have "\<lparr>host_ip = show_ip a, host_services = s # ss, host_asn = host_asn h, host_organization = host_organization h,
    host_isp = host_isp h, host_hostnames = host_hostnames h, host_domains = host_domains h\<rparr> = h"
    using host_collapse [of h] a(2) svc by simp
  ultimately show ?thesis
    using again [unfolded list.map] asn
    by (simp add: host_from_record_def p rec keys fields fo(6) del: mapR.simps)
qed

lemma text_field_wf: "distinct (map fst (text_field k v))" "list_all (\<lambda>p. wf_json (snd p)) (text_field k v)" "fst ` set (text_field k v) \<subseteq> {k}"
  "distinct (map fst (list_field k xs))" "list_all (\<lambda>p. wf_json (snd p)) (list_field k xs)" "fst ` set (list_field k xs) \<subseteq> {k}"
  "distinct (map fst (object_field k obj))" "wf_json (JObj obj) \<Longrightarrow> list_all (\<lambda>p. wf_json (snd p)) (object_field k obj)"
  "fst ` set (object_field k obj) \<subseteq> {k}"
  by (auto simp: text_field_def list_field_def object_field_def list_all_iff split: option.splits)

lemma wf_append: "wf_json (JObj (a @ b)) \<longleftrightarrow> wf_json (JObj a) \<and> wf_json (JObj b) \<and> fst ` set a \<inter> fst ` set b = {}"
  by auto

lemma wf_fields: "wf_json (JObj (text_field k v))" "wf_json (JObj (list_field k xs))" "wf_json (JObj obj) \<Longrightarrow> wf_json (JObj (object_field k obj))"
  by (simp_all only: wf_json.simps text_field_wf simp_thms)

lemma field_keys: "fst ` set (text_field k v) = (if v = None then {} else {k})" "fst ` set (list_field k xs) = (if xs = [] then {} else {k})"
  "fst ` set (object_field k obj) = (if obj = [] then {} else {k})"
  by (auto simp: text_field_def list_field_def object_field_def split: option.splits)

lemma wf_cons: "wf_json (JObj ((k, v) # a)) \<longleftrightarrow> wf_json v \<and> k \<notin> fst ` set a \<and> wf_json (JObj a)"
  by auto

lemma wf_strings: "wf_json (JStr s)" "wf_json (JInt n)" "wf_json (JObj [])"
  by simp_all

lemmas wf_rules = wf_append wf_cons wf_strings wf_fields(1,2) set_append image_Un field_keys list.set list.map

lemma service_record_wf: "wf_json (service_to_record s)"
proof -
  have http: "wf_json (JObj (text_field ''title'' t @ text_field ''server'' u @ list_field ''components'' c))" for t u c
    by (simp only: wf_rules) simp
  have tls: "wf_json (JObj (list_field ''subject_alt_names'' n @ text_field ''subject_cn'' a @ text_field ''issuer_cn'' b
      @ text_field ''expires_at'' c @ text_field ''sha256'' d @ text_field ''jarm'' e))" for n a b c d e
    by (simp only: wf_rules) simp
  show ?thesis unfolding service_to_record_def
    by (simp only: wf_rules wf_fields(3) [OF http] wf_fields(3) [OF tls]) simp
qed

lemma host_details_wf: "wf_json (host_to_details h)"
proof -
  have "wf_json (JList (map service_to_record xs))" for xs by (simp add: list_all_iff service_record_wf)
  then show ?thesis unfolding host_to_details_def by (simp only: wf_rules) simp
qed

interpretation shodan_details: structured_evidence host_ok readable_host host_ip host_from_record host_to_details
  by unfold_locales (fact host_read_back, fact host_read_accepts, rule host_details_wf)

section \<open>Properties\<close>

text \<open>C27: Shodan evidence round trip for trimmed names. A host whose names carry no white space at their ends is read
  back unchanged from its own details and its details determine it; a host with such a name is not
  (\<open>spaced_name_not_read_back\<close>). Everything that is read is a host of canonical address, at least one service, sorted
  duplicate-free services and names.\<close>

theorem shodan_details_round_trip:
  shows "(host_ok h \<and> readable_host h \<longrightarrow> host_from_record (host_ip h) (host_to_details h) = Inr h)
    \<and> (host_ok h \<and> host_ok h' \<and> readable_host h \<and> readable_host h' \<and> host_ip h = host_ip h' \<and> host_to_details h = host_to_details h' \<longrightarrow> h = h')
    \<and> (host_from_record v j = Inr h \<longrightarrow> host_ok h)"
  using shodan_details.read_back [of h] shodan_details.to_details_inj [of h h'] shodan_details.read_accepts [of v j h] by blast

definition example_shodan :: json where
  "example_shodan = JObj
     [(''asn'', JStr ''as64500''), (''organization'', JStr '' Example ''), (''hostnames'', JList [JStr ''WWW.example.com.'', JStr ''api.example.com'']),
      (''services'', JList [JObj [(''port'', JInt 443), (''transport'', JStr ''TCP''), (''tls'', JObj [(''jarm'', JStr ''abc'')])],
                          JObj [(''port'', JInt 80), (''transport'', JStr ''tcp''), (''http'', JObj [(''title'', JStr ''Home'')])]])]"

lemma example_shodan_reads:
  "case host_from_record ''192.0.2.1'' example_shodan of
     Inl _ \<Rightarrow> False
   | Inr h \<Rightarrow> readable_host h \<and> host_asn h = Some ''AS64500'' \<and> host_hostnames h = [''api.example.com'', ''www.example.com'']
       \<and> map svc_port (host_services h) = [80, 443]"
  by code_simp

lemma shodan_details_round_trip_witness:
  "\<exists>h. host_ok h \<and> host_from_record (host_ip h) (host_to_details h) = Inr h \<and> map svc_port (host_services h) = [80, 443]"
proof -
  from example_shodan_reads obtain h where h: "host_from_record ''192.0.2.1'' example_shodan = Inr h" "readable_host h"
    "map svc_port (host_services h) = [80, 443]" by (auto split: sum.splits)
  note trip = shodan_details_round_trip [of h h "''192.0.2.1''" example_shodan]
  from trip have "host_ok h" using h(1) by iprover
  moreover have "host_from_record (host_ip h) (host_to_details h) = Inr h"
    by (rule mp [OF conjunct1 [OF trip] conjI [OF \<open>host_ok h\<close> h(2)]])
  ultimately show ?thesis using h(3) by (intro exI [of _ h] conjI)
qed

text \<open>A name with a space before its final dot is kept with the space at its end; its own details are then read
  back as a different name, so a stored run that holds it is refused.\<close>

lemma spaced_name_not_read_back:
  "hostname_tuple (JList [JStr ''foo .'']) ''hostnames'' = Inr [''foo '']"
  "hostname_tuple (JList [JStr ''foo '']) ''hostnames'' = Inr [''foo'']"
  by code_simp+

end
