(* ===== verification/Attribution.thy ===== *)
theory Attribution
  imports Evidence_Values
begin

text \<open>
  Organization attributions of autonomous systems (lib/asn_attribution.py): the validated observation,
  its canonical order and the reader of the stored details.
\<close>

definition MAX_ORGANIZATION_LABEL_LENGTH :: nat where
  "MAX_ORGANIZATION_LABEL_LENGTH = 255"

definition normalize_name :: "string \<Rightarrow> string \<Rightarrow> nat \<Rightarrow> string res" where
  "normalize_name v label max_length =
     (let normalized = strip v
      in if normalized = [] then Inl (ValueError (label @ '' must not be empty''))
         else if max_length < length normalized \<or> list_ex (\<lambda>c. is_control c \<or> is_format c) normalized
         then Inl (ValueError (label @ '' is invalid''))
         else Inr normalized)"

definition ip_subject_error :: err where
  "ip_subject_error = ValueError ''ASN attribution IP subject must be a canonical IP address''"

definition normalize_subject :: "string \<Rightarrow> string \<Rightarrow> string res" where
  "normalize_subject kind v =
     (if kind = ''hostname'' then normalize_hostname v
      else if kind = ''ip'' then
        (if CHR ''%'' \<in> set v then Inl ip_subject_error
         else (case parse_ip (strip v) of None \<Rightarrow> Inl ip_subject_error | Some a \<Rightarrow> Inr (show_ip a)))
      else Inl (ValueError ''ASN attribution subject type must be hostname or ip''))"

text \<open>Times are aware, hence points of UTC.\<close>

record attribution =
  att_producer_kind :: string
  att_producer :: string
  att_asn :: string
  att_label :: string
  att_subject_kind :: string
  att_subject :: string
  att_time :: int

definition new_attribution ::
  "string \<Rightarrow> string \<Rightarrow> json \<Rightarrow> string \<Rightarrow> string \<Rightarrow> string \<Rightarrow> int \<Rightarrow> attribution res" where
  "new_attribution producer_kind producer asn label subject_kind subject_value collected_at =
     (if producer_kind \<notin> {''source'', ''action''} then Inl (ValueError ''ASN attribution producer kind must be source or action'')
      else bindR (normalize_name producer ''ASN attribution producer'' 255) (\<lambda>producer1.
           bindR (normalize_asn asn) (\<lambda>asn1.
           bindR (normalize_name label ''ASN organization label'' MAX_ORGANIZATION_LABEL_LENGTH) (\<lambda>label1.
           bindR (normalize_subject subject_kind subject_value) (\<lambda>subject1.
           Inr \<lparr>att_producer_kind = producer_kind, att_producer = producer1, att_asn = asn1, att_label = label1,
                att_subject_kind = subject_kind, att_subject = subject1, att_time = collected_at\<rparr>)))))"

definition attribution_key :: "attribution \<Rightarrow> string \<times> string \<times> string \<times> string \<times> string \<times> string \<times> int" where
  "attribution_key a =
     (att_asn a, att_producer_kind a, att_producer a, att_label a, att_subject_kind a, att_subject a, att_time a)"

definition attribution_detail :: "attribution \<Rightarrow> json" where
  "attribution_detail a = JObj
     [(''type'', JStr ''organization-attribution''), (''producer_kind'', JStr (att_producer_kind a)), (''producer'', JStr (att_producer a)),
      (''organization_label'', JStr (att_label a)),
      (''subject'', JObj [(''type'', JStr (att_subject_kind a)), (''value'', JStr (att_subject a))]),
      (''collected_at'', JStr (format_utc (att_time a)))]"

definition canonical_asn_attributions :: "attribution list \<Rightarrow> attribution list" where
  "canonical_asn_attributions observations = canon_by attribution_key observations"

definition asn_attribution_details :: "attribution list \<Rightarrow> json" where
  "asn_attribution_details observations = JList (map attribution_detail (canonical_asn_attributions observations))"

definition objects_error :: err where
  "objects_error = ValueError ''ASN attribution details must contain canonical observation objects''"

definition values_error :: err where
  "values_error = ValueError ''ASN attribution details must contain canonical observation values''"

definition attribution_values :: "string \<Rightarrow> json \<Rightarrow> json \<Rightarrow> json \<Rightarrow> json \<Rightarrow> json \<Rightarrow> json \<Rightarrow> attribution res" where
  "attribution_values asn producer_kind producer label subject_kind subject_value collected_at =
     (if \<not> hashable producer_kind then Inl unhashable_error
      else if producer_kind \<notin> {JStr ''source'', JStr ''action''} \<or> json_str producer = None \<or> json_str label = None then Inl values_error
      else if \<not> hashable subject_kind then Inl unhashable_error
      else if subject_kind \<notin> {JStr ''hostname'', JStr ''ip''} \<or> json_str subject_value = None \<or> json_str collected_at = None
      then Inl values_error
      else (case parse_utc (the (json_str collected_at)) of
              None \<Rightarrow> Inl (ValueError ''ASN attribution collected_at must be a canonical UTC timestamp'')
            | Some time \<Rightarrow> new_attribution (the (json_str producer_kind)) (the (json_str producer)) (JStr asn) (the (json_str label))
                (the (json_str subject_kind)) (the (json_str subject_value)) time))"

text \<open>The body of the loop, up to the comparison with the canonical form\<close>

definition attribution_from_detail :: "string \<Rightarrow> json \<Rightarrow> attribution res" where
  "attribution_from_detail asn detail =
     (case detail of
        JObj obj \<Rightarrow>
          (if \<not> has_keys [''type'', ''producer_kind'', ''producer'', ''organization_label'', ''subject'', ''collected_at''] obj
              \<or> field_of obj ''type'' \<noteq> JStr ''organization-attribution'' then Inl objects_error
           else (case field_of obj ''subject'' of
              JObj subject \<Rightarrow>
                (if \<not> has_keys [''type'', ''value''] subject then Inl objects_error
                 else attribution_values asn (field_of obj ''producer_kind'') (field_of obj ''producer'') (field_of obj ''organization_label'')
                        (field_of subject ''type'') (field_of subject ''value'') (field_of obj ''collected_at''))
            | _ \<Rightarrow> Inl objects_error))
      | _ \<Rightarrow> Inl objects_error)"

definition canonical_attribution :: "string \<Rightarrow> json \<Rightarrow> attribution res" where
  "canonical_attribution asn detail =
     bindR (attribution_from_detail asn detail) (\<lambda>a.
       if json_eq (attribution_detail a) detail then Inr a
       else Inl (ValueError ''ASN attribution details must use canonical structured evidence''))"

definition parse_asn_attribution_details :: "string \<Rightarrow> json \<Rightarrow> attribution list res" where
  "parse_asn_attribution_details asn details =
     (case details of
        JList (d # ds) \<Rightarrow>
          bindR (normalize_asn (JStr asn)) (\<lambda>normalized_asn.
          bindR (mapR (canonical_attribution normalized_asn) (d # ds)) (\<lambda>observations.
          Inr (canonical_asn_attributions observations)))
      | _ \<Rightarrow> Inl (ValueError ''ASN attribution details must be a non-empty array''))"

section \<open>Accepted observations\<close>

definition attribution_ok :: "attribution \<Rightarrow> bool" where
  "attribution_ok a =
     (new_attribution (att_producer_kind a) (att_producer a) (JStr (att_asn a)) (att_label a) (att_subject_kind a) (att_subject a)
        (att_time a) = Inr a)"

lemma normalize_name_stable: "normalize_name v label n = Inr t \<Longrightarrow> normalize_name t label n = Inr t"
  by (auto simp: normalize_name_def Let_def split: if_splits)

lemma normalize_subject_stable: "normalize_subject k v = Inr t \<Longrightarrow> normalize_subject k t = Inr t"
proof -
  assume v: "normalize_subject k v = Inr t"
  show ?thesis
  proof (cases "k = ''hostname''")
    case True
    with v show ?thesis by (auto simp: normalize_subject_def intro: hostname_norm.norm_stable)
  next
    case False
    with v obtain a where a: "k = ''ip''" "CHR ''%'' \<notin> set v" "parse_ip (strip v) = Some a" "t = show_ip a"
      by (auto simp: normalize_subject_def split: if_splits option.splits)
    have "CHR ''%'' \<notin> set (strip v)" using a(2) set_strip [of v] by auto
    with a show ?thesis
      by (simp add: normalize_subject_def parse_ip_no_scope parse_ip_wf parse_show_ip)
  qed
qed

interpretation name_norm: normaliser "\<lambda>v. normalize_name v label n"
  by unfold_locales (rule normalize_name_stable)

interpretation subject_norm: normaliser "normalize_subject kind"
  by unfold_locales (rule normalize_subject_stable)

lemma new_attribution_ok: "new_attribution pk p asn l sk s t = Inr a \<Longrightarrow> attribution_ok a"
proof -
  assume new: "new_attribution pk p asn l sk s t = Inr a"
  then obtain p1 n1 l1 s1 where "pk \<in> {''source'', ''action''}" and parts: "normalize_name p ''ASN attribution producer'' 255 = Inr p1"
    "normalize_asn asn = Inr n1" "normalize_name l ''ASN organization label'' MAX_ORGANIZATION_LABEL_LENGTH = Inr l1"
    "normalize_subject sk s = Inr s1"
    and a: "a = \<lparr>att_producer_kind = pk, att_producer = p1, att_asn = n1, att_label = l1, att_subject_kind = sk, att_subject = s1, att_time = t\<rparr>"
    by (auto simp: new_attribution_def bindR_Inr_iff split: if_splits)
  moreover obtain n where "0 \<le> n" "n \<le> MAX_ASN" "n1 = asn_text n" using normalize_asn_result [OF parts(2)] by blast
  ultimately show ?thesis
    using name_norm.norm_stable [OF parts(1)] name_norm.norm_stable [OF parts(3)] subject_norm.norm_stable [OF parts(4)]
    by (simp add: attribution_ok_def new_attribution_def normalize_asn_AS)
qed

interpretation attribution_order: canonical_collection attribution_key
proof
  fix x y assume "attribution_key x = attribution_key y"
  then show "x = y" by (intro attribution.equality) (auto simp: attribution_key_def)
qed

definition readable_attribution :: "attribution \<Rightarrow> bool" where
  "readable_attribution a = valid_time (att_time a)"

lemma attribution_ok_facts:
  "attribution_ok a \<Longrightarrow> att_producer_kind a \<in> {''source'', ''action''} \<and> att_subject_kind a \<in> {''hostname'', ''ip''}
     \<and> normalize_asn (JStr (att_asn a)) = Inr (att_asn a)"
  by (cases a) (auto simp: attribution_ok_def new_attribution_def bindR_Inr_iff normalize_subject_def split: if_splits)

lemma attribution_read_back:
  "attribution_ok a \<Longrightarrow> readable_attribution a \<Longrightarrow> attribution_from_detail (att_asn a) (attribution_detail a) = Inr a"
  using attribution_ok_facts [of a]
  by (auto simp: attribution_from_detail_def attribution_values_def attribution_detail_def has_keys_def field_of_def readable_attribution_def attribution_ok_def)

lemma attribution_read_accepts: "attribution_from_detail asn j = Inr a \<Longrightarrow> attribution_ok a"
  by (cases j) (auto simp: attribution_from_detail_def attribution_values_def split: if_splits json.splits option.splits intro: new_attribution_ok)

interpretation attribution_details: structured_evidence attribution_ok readable_attribution att_asn attribution_from_detail attribution_detail
  by unfold_locales (fact attribution_read_back, fact attribution_read_accepts, simp add: attribution_detail_def)

lemma new_attribution_asn: "attribution_from_detail asn j = Inr a \<Longrightarrow> normalize_asn (JStr asn) = Inr (att_asn a)"
  by (cases j) (auto simp: attribution_from_detail_def attribution_values_def new_attribution_def bindR_Inr_iff split: if_splits json.splits option.splits)

lemma attribution_details_back:
  assumes "observations \<noteq> []" "\<forall>a\<in>set observations. attribution_ok a \<and> valid_time (att_time a) \<and> att_asn a = asn"
  shows "parse_asn_attribution_details asn (asn_attribution_details observations) = Inr (canonical_asn_attributions observations)"
proof -
  let ?obs = "canonical_asn_attributions observations"
  have set: "set ?obs = set observations" by (simp add: canonical_asn_attributions_def)
  then have "?obs \<noteq> []" using assms(1) by (metis set_empty)
  then obtain x xs where obs: "?obs = x # xs" by (cases ?obs) auto
  have asn: "normalize_asn (JStr asn) = Inr asn" using assms attribution_ok_facts by (metis list.set_intros(1) neq_Nil_conv)
  have "canonical_attribution asn (attribution_detail a) = Inr a" if "a \<in> set ?obs" for a
    using attribution_details.read_back_canonical [of a] that assms(2) set
    unfolding canonical_attribution_def readable_attribution_def by auto
  then have "mapR (canonical_attribution asn) (map attribution_detail ?obs) = Inr ?obs"
    by (rule mapR_read_back)
  moreover have "canonical_asn_attributions (x # xs) = x # xs"
    using attribution_order.stable [of observations] obs by (simp add: canonical_asn_attributions_def)
  ultimately show "parse_asn_attribution_details asn (asn_attribution_details observations) = Inr ?obs"
    using asn by (simp add: parse_asn_attribution_details_def asn_attribution_details_def obs)
qed

text \<open>C28: ASN attribution round trip. The canonical details of accepted observations of one ASN are read back
  as the canonical collection of these observations, whatever the order and the repetitions they were
  given in; and what is read is canonical, accepted and of the ASN it was read for.\<close>

theorem attribution_details_round_trip:
  assumes "observations \<noteq> []" "\<forall>a\<in>set observations. attribution_ok a \<and> valid_time (att_time a) \<and> att_asn a = asn"
  shows "parse_asn_attribution_details asn (asn_attribution_details observations) = Inr (canonical_asn_attributions observations)
    \<and> (parse_asn_attribution_details asn' j = Inr read \<longrightarrow> canonical_asn_attributions read = read
        \<and> (\<forall>a\<in>set read. attribution_ok a \<and> normalize_asn (JStr asn') = Inr (att_asn a)))"
proof
  show "parse_asn_attribution_details asn (asn_attribution_details observations) = Inr (canonical_asn_attributions observations)"
    by (rule attribution_details_back [OF assms])
  show "parse_asn_attribution_details asn' j = Inr read \<longrightarrow> canonical_asn_attributions read = read
        \<and> (\<forall>a\<in>set read. attribution_ok a \<and> normalize_asn (JStr asn') = Inr (att_asn a))"
  proof
    assume "parse_asn_attribution_details asn' j = Inr read"
    then obtain n ds found where n: "normalize_asn (JStr asn') = Inr n" and found: "mapR (canonical_attribution n) ds = Inr found"
      and read: "read = canonical_asn_attributions found"
      by (auto simp: parse_asn_attribution_details_def bindR_Inr_iff simp del: mapR.simps split: json.splits list.splits)
    have "attribution_ok a \<and> normalize_asn (JStr n) = Inr (att_asn a)" if a: "a \<in> set found" for a
    proof -
      from mapR_Inr_in [OF found a] obtain d where d: "canonical_attribution n d = Inr a" by blast
      then have "attribution_from_detail n d = Inr a" by (auto simp: canonical_attribution_def bindR_Inr_iff split: if_splits)
      then show ?thesis by (simp add: attribution_read_accepts new_attribution_asn)
    qed
    moreover have "normalize_asn (JStr n) = Inr n" by (rule normalize_asn_stable [OF n])
    ultimately show "canonical_asn_attributions read = read
        \<and> (\<forall>a\<in>set read. attribution_ok a \<and> normalize_asn (JStr asn') = Inr (att_asn a))"
      using n attribution_order.stable by (auto simp: read canonical_asn_attributions_def)
  qed
qed

definition example_attribution :: attribution where
  "example_attribution =
     \<lparr>att_producer_kind = ''source'', att_producer = ''shodan'', att_asn = ''AS64500'', att_label = ''Example Ltd'',
      att_subject_kind = ''hostname'', att_subject = ''www.example.com'', att_time = 63902649600000000\<rparr>"

lemma example_attribution_ok: "attribution_ok example_attribution" "valid_time (att_time example_attribution)"
  by (code_simp, code_simp)

lemma attribution_details_round_trip_witness:
  "parse_asn_attribution_details ''AS64500'' (asn_attribution_details [example_attribution]) = Inr (canonical_asn_attributions [example_attribution])"
proof -
  have "att_asn example_attribution = ''AS64500''" by (simp add: example_attribution_def)
  then have "\<forall>a\<in>set [example_attribution]. attribution_ok a \<and> valid_time (att_time a) \<and> att_asn a = ''AS64500''"
    using example_attribution_ok by simp
  from conjunct1 [OF attribution_details_round_trip [OF _ this]] show ?thesis by simp
qed

text \<open>A producer kind that is an array raises a TypeError, which the readers of JSONL files do not catch.\<close>

lemma array_producer_kind_raises_type_error:
  "attribution_values asn (JList xs) producer label subject_kind subject_value collected_at = Inl (TypeError ''unhashable type'')"
  by (simp add: attribution_values_def unhashable_error_def)

end
