(* ===== verification/Network_Evidence.thy ===== *)
theory Network_Evidence
  imports Evidence_Values "HOL-Library.Multiset"
begin

text \<open>
  Network evidence (lib/network_evidence.py): observed origins, BGP routes and RPKI validations of a
  prefix, their identities and canonical order, the reader and writer of the stored details, and the
  accumulator that keeps one envelope per prefix within its limits. Times are aware, hence points of UTC.
\<close>

section \<open>Limits and texts\<close>

definition MAX_NETWORK_TEXT_LENGTH :: int where "MAX_NETWORK_TEXT_LENGTH = 65536"
definition MAX_NETWORK_OBSERVATIONS_PER_PREFIX :: int where "MAX_NETWORK_OBSERVATIONS_PER_PREFIX = 10000"
definition MAX_NETWORK_DETAILS_BYTES :: int where "MAX_NETWORK_DETAILS_BYTES = 8388608"

definition peer_ip :: "json \<Rightarrow> string res" where
  "peer_ip v =
     (case v of
        JStr s \<Rightarrow>
          if strip s = [] then Inl (ValueError ''peer address must be a non-empty string'')
          else if CHR ''%'' \<in> set s then Inl (ValueError ''peer address must not contain an IPv6 scope identifier'')
          else (case parse_ip (strip s) of
                  None \<Rightarrow> Inl (ValueError ''peer address must be a valid IPv4 or IPv6 address'')
                | Some a \<Rightarrow> Inr (show_ip a))
      | _ \<Rightarrow> Inl (ValueError ''peer address must be a non-empty string''))"

definition network_name :: "json \<Rightarrow> string \<Rightarrow> string res" where
  "network_name v label =
     (case v of
        JStr s \<Rightarrow>
          if strip s = [] then Inl (ValueError (label @ '' must not be empty''))
          else if 255 < length (strip s) \<or> list_ex is_control (strip s) then Inl (ValueError (label @ '' is invalid''))
          else Inr (strip s)
      | _ \<Rightarrow> Inl (ValueError (label @ '' must not be empty'')))"

definition network_text :: "json \<Rightarrow> string \<Rightarrow> bool \<Rightarrow> string res" where
  "network_text v label allow_empty =
     (case v of
        JStr s \<Rightarrow>
          if \<not> allow_empty \<and> strip s = [] then Inl (ValueError (label @ '' must not be empty''))
          else if MAX_NETWORK_TEXT_LENGTH < int (length s) \<or> list_ex is_control s then Inl (ValueError (label @ '' is invalid''))
          else Inr s
      | _ \<Rightarrow> Inl (ValueError (label @ '' must be a string'')))"

definition parse_time :: "json \<Rightarrow> string \<Rightarrow> int res" where
  "parse_time v label =
     (case v of
        JStr s \<Rightarrow>
          (case parse_utc s of
             None \<Rightarrow> Inl (ValueError (label @ '' must be an ISO-8601 UTC timestamp''))
           | Some t \<Rightarrow> if format_utc t \<noteq> s then Inl (ValueError (label @ '' must be a canonical ISO-8601 UTC timestamp'')) else Inr t)
      | _ \<Rightarrow> Inl (ValueError (label @ '' must be an ISO-8601 UTC timestamp'')))"

section \<open>Observations\<close>

record origin_observation =
  org_action :: string
  org_prefix :: string
  org_asn :: string
  org_collected :: int

record route_observation =
  rte_action :: string
  rte_prefix :: string
  rte_asn :: string
  rte_collector :: string
  rte_peer_asn :: string
  rte_peer_address :: string
  rte_as_path :: string
  rte_communities :: string
  rte_observed :: int
  rte_collected :: int

record rpki_observation =
  rpk_action :: string
  rpk_prefix :: string
  rpk_asn :: string
  rpk_state :: string
  rpk_observed :: int
  rpk_collected :: int

datatype network_observation = Origin origin_observation | Route route_observation | Rpki rpki_observation

definition new_origin :: "json \<Rightarrow> json \<Rightarrow> json \<Rightarrow> int \<Rightarrow> network_observation res" where
  "new_origin action pfx origin_asn collected_at =
     bindR (network_name action ''network observation action'') (\<lambda>action1.
     bindR (normalize_prefix pfx) (\<lambda>prefix1.
     bindR (normalize_asn origin_asn) (\<lambda>asn1.
     Inr (Origin \<lparr>org_action = action1, org_prefix = prefix1, org_asn = asn1, org_collected = collected_at\<rparr>))))"

definition new_route ::
  "json \<Rightarrow> json \<Rightarrow> json \<Rightarrow> json \<Rightarrow> json \<Rightarrow> json \<Rightarrow> json \<Rightarrow> json \<Rightarrow> int \<Rightarrow> int \<Rightarrow> network_observation res" where
  "new_route action pfx origin_asn collector peer_asn peer_address as_path communities observed_at collected_at =
     bindR (network_name action ''network observation action'') (\<lambda>action1.
     bindR (normalize_prefix pfx) (\<lambda>prefix1.
     bindR (normalize_asn origin_asn) (\<lambda>asn1.
     bindR (network_name collector ''collector'') (\<lambda>collector1.
     bindR (normalize_asn peer_asn) (\<lambda>peer1.
     bindR (peer_ip peer_address) (\<lambda>address1.
     bindR (network_text as_path ''AS path'' False) (\<lambda>path1.
     bindR (network_text communities ''communities'' True) (\<lambda>communities1.
     if collected_at < observed_at then Inl (ValueError ''observed_at must not be later than collected_at'')
     else Inr (Route \<lparr>rte_action = action1, rte_prefix = prefix1, rte_asn = asn1, rte_collector = collector1, rte_peer_asn = peer1,
       rte_peer_address = address1, rte_as_path = path1, rte_communities = communities1, rte_observed = observed_at,
       rte_collected = collected_at\<rparr>)))))))))"

definition new_rpki :: "json \<Rightarrow> json \<Rightarrow> json \<Rightarrow> json \<Rightarrow> int \<Rightarrow> int \<Rightarrow> network_observation res" where
  "new_rpki action pfx origin_asn state observed_at collected_at =
     bindR (network_name action ''network observation action'') (\<lambda>action1.
     bindR (normalize_prefix pfx) (\<lambda>prefix1.
     bindR (normalize_asn origin_asn) (\<lambda>asn1.
     bindR (if state \<in> {JStr ''valid'', JStr ''invalid'', JStr ''not-found''} then Inr (the (json_str state))
            else Inl (ValueError ''RPKI state must be valid, invalid, or not-found'')) (\<lambda>state1.
     if collected_at < observed_at then Inl (ValueError ''observed_at must not be later than collected_at'')
     else Inr (Rpki \<lparr>rpk_action = action1, rpk_prefix = prefix1, rpk_asn = asn1, rpk_state = state1, rpk_observed = observed_at,
       rpk_collected = collected_at\<rparr>)))))"

text \<open>\<open>to_record\<close>: all values are texts\<close>

definition origin_record :: "origin_observation \<Rightarrow> (string \<times> string) list" where
  "origin_record o1 =
     [(''type'', ''observed-origin''), (''action'', org_action o1), (''prefix'', org_prefix o1), (''origin_asn'', org_asn o1),
      (''collected_at'', format_utc (org_collected o1))]"

definition route_record :: "route_observation \<Rightarrow> (string \<times> string) list" where
  "route_record r =
     [(''type'', ''bgp-route''), (''action'', rte_action r), (''prefix'', rte_prefix r), (''origin_asn'', rte_asn r),
      (''collector'', rte_collector r), (''peer_asn'', rte_peer_asn r), (''peer_address'', rte_peer_address r),
      (''as_path'', rte_as_path r), (''communities'', rte_communities r), (''observed_at'', format_utc (rte_observed r)),
      (''collected_at'', format_utc (rte_collected r))]"

definition rpki_record :: "rpki_observation \<Rightarrow> (string \<times> string) list" where
  "rpki_record r =
     [(''type'', ''rpki-validation''), (''action'', rpk_action r), (''prefix'', rpk_prefix r), (''origin_asn'', rpk_asn r),
      (''state'', rpk_state r), (''observed_at'', format_utc (rpk_observed r)), (''collected_at'', format_utc (rpk_collected r))]"

declare origin_record_def [simp] route_record_def [simp] rpki_record_def [simp]

fun to_record :: "network_observation \<Rightarrow> (string \<times> string) list" where
  "to_record (Origin o1) = origin_record o1"
| "to_record (Route r) = route_record r"
| "to_record (Rpki r) = rpki_record r"

fun net_prefix :: "network_observation \<Rightarrow> string" where
  "net_prefix (Origin o1) = org_prefix o1"
| "net_prefix (Route r) = rte_prefix r"
| "net_prefix (Rpki r) = rpk_prefix r"

fun net_asn :: "network_observation \<Rightarrow> string" where
  "net_asn (Origin o1) = org_asn o1"
| "net_asn (Route r) = rte_asn r"
| "net_asn (Rpki r) = rpk_asn r"

fun net_action :: "network_observation \<Rightarrow> string" where
  "net_action (Origin o1) = org_action o1"
| "net_action (Route r) = rte_action r"
| "net_action (Rpki r) = rpk_action r"

fun net_collected :: "network_observation \<Rightarrow> int" where
  "net_collected (Origin o1) = org_collected o1"
| "net_collected (Route r) = rte_collected r"
| "net_collected (Rpki r) = rpk_collected r"

definition detail_fields :: "network_observation \<Rightarrow> (string \<times> string) list" where
  "detail_fields obs = filter (\<lambda>p. fst p \<noteq> ''prefix'') (to_record obs)"

definition network_observation_detail :: "network_observation \<Rightarrow> json" where
  "network_observation_detail obs = JObj (map (\<lambda>(k, v). (k, JStr v)) (detail_fields obs))"

text \<open>The bytes of \<open>json.dumps(..., ensure_ascii=False, separators=(',', ':'))\<close> in UTF-8: a character takes two
  bytes when it is escaped with a backslash or is not ASCII, six when it is another control character.\<close>

definition char_bytes :: "char \<Rightarrow> nat" where
  "char_bytes c =
     (if c = CHR 0x22 \<or> c = CHR 0x5C \<or> code c \<in> {8, 9, 10, 12, 13} then 2
      else if code c < 32 then 6 else if code c < 128 then 1 else 2)"

definition text_bytes :: "string \<Rightarrow> nat" where
  "text_bytes s = 2 + sum_list (map char_bytes s)"

definition encoded_detail_size :: "network_observation \<Rightarrow> nat" where
  "encoded_detail_size obs =
     (let fs = detail_fields obs in 2 + sum_list (map (\<lambda>(k, v). text_bytes k + 1 + text_bytes v) fs) + (length fs - 1))"

section \<open>Identities and order\<close>

definition rpki_conflict_identity :: "rpki_observation \<Rightarrow> string \<times> string \<times> string \<times> int" where
  "rpki_conflict_identity r = (rpk_action r, rpk_prefix r, rpk_asn r, rpk_observed r)"

text \<open>The identity: the class, its texts and, for a route, the time it was observed\<close>

fun network_identity :: "network_observation \<Rightarrow> nat \<times> string list \<times> int option" where
  "network_identity (Origin o1) = (0, [org_action o1, org_prefix o1, org_asn o1], None)"
| "network_identity (Route r) =
     (1, [rte_action r, rte_prefix r, rte_asn r, rte_collector r, rte_peer_asn r, rte_peer_address r, rte_as_path r, rte_communities r],
      Some (rte_observed r))"
| "network_identity (Rpki r) = (2, [rpk_action r, rpk_prefix r, rpk_asn r, rpk_state r], None)"

fun type_order :: "network_observation \<Rightarrow> nat" where
  "type_order (Origin o1) = 0"
| "type_order (Route r) = 1"
| "type_order (Rpki r) = 2"

definition network_sort_key :: "network_observation \<Rightarrow> string \<times> string \<times> string \<times> nat \<times> (string \<times> string) list" where
  "network_sort_key obs = (net_prefix obs, net_asn obs, net_action obs, type_order obs, sort_key fst (to_record obs))"

fun rpki_of :: "network_observation \<Rightarrow> rpki_observation option" where
  "rpki_of (Rpki r) = Some r"
| "rpki_of obs = None"

text \<open>Remembers the state of an RPKI observation, unless a different one is known.\<close>

definition note_rpki_state ::
  "network_observation \<Rightarrow> ((string \<times> string \<times> string \<times> int) \<times> string) list \<Rightarrow> ((string \<times> string \<times> string \<times> int) \<times> string) list res" where
  "note_rpki_state obs states =
     (case rpki_of obs of None \<Rightarrow> Inr states
      | Some r \<Rightarrow>
          (let identity = rpki_conflict_identity r
           in case map_of states identity of
                Some existing \<Rightarrow> if existing \<noteq> rpk_state r then Inl (ValueError ''network evidence contains conflicting RPKI states'')
                                 else Inr (AList.update identity (rpk_state r) states)
              | None \<Rightarrow> Inr (AList.update identity (rpk_state r) states)))"

fun deduplicate ::
  "network_observation list \<Rightarrow> ((string \<times> string \<times> string \<times> int) \<times> string) list \<Rightarrow> network_observation list \<Rightarrow> network_observation list res" where
  "deduplicate [] states kept = Inr kept"
| "deduplicate (obs # rest) states kept =
     bindR (note_rpki_state obs states) (\<lambda>states1.
       deduplicate rest states1 (if network_identity obs \<in> set (map network_identity kept) then kept else kept @ [obs]))"

definition too_many_error :: string where
  "too_many_error = ''network evidence contains too many observations for one prefix''"

definition canonical_network_observations :: "network_observation list \<Rightarrow> network_observation list res" where
  "canonical_network_observations observations =
     bindR (deduplicate (canon_by network_sort_key observations) [] []) (\<lambda>kept.
       (let canonical = sort_key network_sort_key kept
        in if list_ex (\<lambda>obs. MAX_NETWORK_OBSERVATIONS_PER_PREFIX < int (length (filter (\<lambda>o2. net_prefix o2 = net_prefix obs) canonical))) canonical
           then Inl (ValueError too_many_error) else Inr canonical))"

section \<open>Details\<close>

definition size_error :: string where
  "size_error = ''network evidence details exceed the serialized size limit''"

fun add_details :: "network_observation list \<Rightarrow> nat \<Rightarrow> json list \<Rightarrow> json list res" where
  "add_details [] size1 details = Inr details"
| "add_details (obs # rest) size1 details =
     (let size2 = size1 + encoded_detail_size obs + (if details \<noteq> [] then 1 else 0)
      in if MAX_NETWORK_DETAILS_BYTES < int size2 then Inl (ValueError size_error)
         else add_details rest size2 (details @ [network_observation_detail obs]))"

definition network_observation_details :: "network_observation list \<Rightarrow> json list res" where
  "network_observation_details observations =
     bindR (canonical_network_observations observations) (\<lambda>canonical. add_details canonical 2 [])"

definition observation_keys :: "string \<Rightarrow> string list option" where
  "observation_keys t =
     (if t = ''observed-origin'' then Some [''type'', ''action'', ''origin_asn'', ''collected_at'']
      else if t = ''bgp-route'' then
        Some [''type'', ''action'', ''origin_asn'', ''collector'', ''peer_asn'', ''peer_address'', ''as_path'', ''communities'',
              ''observed_at'', ''collected_at'']
      else if t = ''rpki-validation'' then Some [''type'', ''action'', ''origin_asn'', ''state'', ''observed_at'', ''collected_at'']
      else None)"

definition observation_from_detail :: "string \<Rightarrow> json \<Rightarrow> network_observation res" where
  "observation_from_detail pfx detail =
     (case detail of
        JObj obj \<Rightarrow>
          (case field_of obj ''type'' of
             JStr t \<Rightarrow>
               (case observation_keys t of
                  None \<Rightarrow> Inl (ValueError ''network evidence detail has unsupported fields'')
                | Some keys \<Rightarrow>
                    if \<not> has_keys keys obj then Inl (ValueError ''network evidence detail has unsupported fields'')
                    else if t = ''observed-origin'' then
                      bindR (parse_time (field_of obj ''collected_at'') ''collected_at'') (\<lambda>collected.
                      new_origin (field_of obj ''action'') (JStr pfx) (field_of obj ''origin_asn'') collected)
                    else
                      bindR (parse_time (field_of obj ''observed_at'') ''observed_at'') (\<lambda>observed.
                      bindR (parse_time (field_of obj ''collected_at'') ''collected_at'') (\<lambda>collected.
                      if t = ''bgp-route'' then
                        new_route (field_of obj ''action'') (JStr pfx) (field_of obj ''origin_asn'') (field_of obj ''collector'')
                          (field_of obj ''peer_asn'') (field_of obj ''peer_address'') (field_of obj ''as_path'') (field_of obj ''communities'')
                          observed collected
                      else new_rpki (field_of obj ''action'') (JStr pfx) (field_of obj ''origin_asn'') (field_of obj ''state'') observed collected)))
           | _ \<Rightarrow> Inl (ValueError ''network evidence detail has unsupported fields''))
      | _ \<Rightarrow> Inl (ValueError ''network evidence details must contain objects''))"

definition parse_network_observation_details :: "string \<Rightarrow> json \<Rightarrow> network_observation list res" where
  "parse_network_observation_details pfx details =
     bindR (normalize_prefix (JStr pfx)) (\<lambda>canonical_prefix.
       if canonical_prefix \<noteq> pfx then Inl (ValueError ''network evidence result value must be a canonical prefix'')
       else (case json_list details of
          None \<Rightarrow> Inl (ValueError ''network evidence details must be a non-empty array'')
        | Some ds \<Rightarrow>
            if ds = [] then Inl (ValueError ''network evidence details must be a non-empty array'')
            else if MAX_NETWORK_OBSERVATIONS_PER_PREFIX < int (length ds) then Inl (ValueError too_many_error)
            else bindR (mapR (observation_from_detail canonical_prefix) ds) (\<lambda>observations.
                 bindR (canonical_network_observations observations) (\<lambda>canonical.
                 bindR (network_observation_details canonical) (\<lambda>written.
                   if json_eq details (JList written) then Inr canonical
                   else Inl (ValueError ''network evidence details must use canonical structured evidence''))))))"

section \<open>The accumulator\<close>

record accumulator =
  acc_max :: nat
  acc_max_bytes :: nat
  acc_observations :: "network_observation list"
  acc_identities :: "(nat \<times> string list \<times> int option) list"
  acc_rpki_states :: "((string \<times> string \<times> string \<times> int) \<times> string) list"
  acc_counts :: "(string \<times> nat) list"
  acc_bytes :: "(string \<times> nat) list"

definition new_accumulator :: "int \<Rightarrow> int \<Rightarrow> accumulator res" where
  "new_accumulator max_observations max_bytes =
     (if \<not> (1 \<le> max_observations \<and> max_observations \<le> MAX_NETWORK_OBSERVATIONS_PER_PREFIX)
         \<or> \<not> (2 \<le> max_bytes \<and> max_bytes \<le> MAX_NETWORK_DETAILS_BYTES)
      then Inl (ValueError ''network evidence limits must stay within the persisted envelope'')
      else Inr \<lparr>acc_max = nat max_observations, acc_max_bytes = nat max_bytes, acc_observations = [], acc_identities = [],
                acc_rpki_states = [], acc_counts = [], acc_bytes = []\<rparr>)"

definition count_of :: "(string \<times> nat) list \<Rightarrow> string \<Rightarrow> nat" where
  "count_of m k = (case map_of m k of None \<Rightarrow> 0 | Some n \<Rightarrow> n)"

definition bytes_of :: "(string \<times> nat) list \<Rightarrow> string \<Rightarrow> nat" where
  "bytes_of m k = (case map_of m k of None \<Rightarrow> 2 | Some n \<Rightarrow> n)"

text \<open>The observations are kept in the order of their arrival; the code keeps them in a set.\<close>

definition add_observation :: "network_observation \<Rightarrow> accumulator \<Rightarrow> (accumulator \<times> bool) res" where
  "add_observation obs acc =
     bindR (note_rpki_state obs (acc_rpki_states acc)) (\<lambda>states.
       if network_identity obs \<in> set (acc_identities acc) then Inr (acc\<lparr>acc_rpki_states := states\<rparr>, False)
       else (let pfx = net_prefix obs; n = count_of (acc_counts acc) pfx + 1
             in if acc_max acc < n then Inl (OtherError ''NetworkEvidenceLimitError'')
                else (let size1 = bytes_of (acc_bytes acc) pfx + encoded_detail_size obs + (if n - 1 \<noteq> 0 then 1 else 0)
                      in if acc_max_bytes acc < size1 then Inl (OtherError ''NetworkEvidenceLimitError'')
                         else Inr (acc\<lparr>acc_observations := acc_observations acc @ [obs],
                                      acc_identities := network_identity obs # acc_identities acc,
                                      acc_counts := AList.update pfx n (acc_counts acc),
                                      acc_bytes := AList.update pfx size1 (acc_bytes acc),
                                      acc_rpki_states := states\<rparr>, True))))"

definition accumulated :: "accumulator \<Rightarrow> network_observation list res" where
  "accumulated acc = canonical_network_observations (acc_observations acc)"

text \<open>A caller that adds observations one by one; one that is refused leaves the accumulator as it was.\<close>

fun add_all :: "network_observation list \<Rightarrow> accumulator \<Rightarrow> accumulator" where
  "add_all [] acc = acc"
| "add_all (obs # rest) acc = add_all rest (case add_observation obs acc of Inl _ \<Rightarrow> acc | Inr (acc', _) \<Rightarrow> acc')"

section \<open>Deduplication\<close>

definition consistent :: "network_observation set \<Rightarrow> bool" where
  "consistent obs = (\<forall>r r'. Rpki r \<in> obs \<and> Rpki r' \<in> obs \<and> rpki_conflict_identity r = rpki_conflict_identity r' \<longrightarrow> rpk_state r = rpk_state r')"

definition states_of :: "((string \<times> string \<times> string \<times> int) \<times> string) list \<Rightarrow> network_observation set \<Rightarrow> bool" where
  "states_of states obs = (\<forall>k s. map_of states k = Some s \<longrightarrow> (\<exists>r. Rpki r \<in> obs \<and> rpki_conflict_identity r = k \<and> rpk_state r = s))"

definition noted :: "((string \<times> string \<times> string \<times> int) \<times> string) list \<Rightarrow> network_observation set \<Rightarrow> bool" where
  "noted states obs = (\<forall>r. Rpki r \<in> obs \<longrightarrow> map_of states (rpki_conflict_identity r) = Some (rpk_state r))"

lemma noted_consistent: "noted states obs \<Longrightarrow> consistent obs"
  by (auto simp: noted_def consistent_def) (metis option.inject)

lemma note_rpki_ok:
  "consistent S \<Longrightarrow> states_of states S \<Longrightarrow> obs \<in> S \<Longrightarrow> \<exists>states'. note_rpki_state obs states = Inr states' \<and> states_of states' S"
proof (cases obs)
  case (Rpki r)
  assume c: "consistent S" and st: "states_of states S" and o: "obs \<in> S"
  have "states_of (AList.update (rpki_conflict_identity r) (rpk_state r) states) S"
    using st o Rpki by (auto simp: states_of_def update_conv' split: if_splits)
  moreover have "map_of states (rpki_conflict_identity r) = Some e \<Longrightarrow> e = rpk_state r" for e
  proof -
    assume "map_of states (rpki_conflict_identity r) = Some e"
    with st obtain r' where "Rpki r' \<in> S" "rpki_conflict_identity r' = rpki_conflict_identity r" "rpk_state r' = e"
      unfolding states_of_def by blast
    then show "e = rpk_state r" using c o Rpki unfolding consistent_def by metis
  qed
  ultimately show ?thesis using Rpki by (cases "map_of states (rpki_conflict_identity r)") (simp_all add: note_rpki_state_def Let_def)
qed (auto simp: note_rpki_state_def)

lemma note_rpki_noted: "note_rpki_state obs states = Inr states' \<Longrightarrow> noted states S \<Longrightarrow> noted states' (insert obs S)"
  by (cases obs) (auto simp: note_rpki_state_def noted_def Let_def update_conv' split: option.splits if_splits,
    (metis option.distinct(1) option.inject)+)

lemma deduplicate_distinct:
  "consistent S \<Longrightarrow> states_of states S \<Longrightarrow> set xs \<subseteq> S \<Longrightarrow> distinct (map network_identity (kept @ xs)) \<Longrightarrow>
   deduplicate xs states kept = Inr (kept @ xs)"
proof (induction xs arbitrary: states kept)
  case (Cons x xs)
  then obtain states' where st: "note_rpki_state x states = Inr states'" "states_of states' S" using note_rpki_ok [of S states x] by auto
  have "network_identity x \<notin> network_identity ` set kept" using Cons(5) by auto
  with st Cons(1) [OF Cons(2) st(2), of "kept @ [x]"] Cons(4,5) show ?case by simp
qed simp

lemma deduplicate_result:
  "deduplicate xs states kept = Inr ys \<Longrightarrow> distinct (map network_identity kept) \<Longrightarrow> noted states (set kept) \<Longrightarrow>
   distinct (map network_identity ys) \<and> consistent (set ys) \<and> set ys \<subseteq> set kept \<union> set xs
   \<and> network_identity ` set ys = network_identity ` (set kept \<union> set xs)"
proof (induction xs arbitrary: states kept)
  case Nil
  then show ?case by (auto intro: noted_consistent)
next
  case (Cons x xs)
  then obtain states' where st: "note_rpki_state x states = Inr states'"
    and rest: "deduplicate xs states' (if network_identity x \<in> set (map network_identity kept) then kept else kept @ [x]) = Inr ys"
    by (auto simp: bindR_Inr_iff)
  let ?k = "if network_identity x \<in> set (map network_identity kept) then kept else kept @ [x]"
  have n: "noted states' (insert x (set kept))" by (rule note_rpki_noted [OF st Cons(4)])
  then have "noted states' (set ?k)" by (auto simp: noted_def)
  moreover have "distinct (map network_identity ?k)" using Cons(3) by simp
  ultimately have "distinct (map network_identity ys) \<and> consistent (set ys) \<and> set ys \<subseteq> set ?k \<union> set xs
     \<and> network_identity ` set ys = network_identity ` (set ?k \<union> set xs)"
    using Cons(1) [OF rest] by blast
  then show ?case by (auto split: if_splits)
qed

definition crowded :: "network_observation list \<Rightarrow> bool" where
  "crowded xs = list_ex (\<lambda>obs. MAX_NETWORK_OBSERVATIONS_PER_PREFIX < int (length (filter (\<lambda>o2. net_prefix o2 = net_prefix obs) xs))) xs"

lemma canonical_network_Inr:
  "canonical_network_observations xs = Inr ys \<Longrightarrow>
   distinct (map network_identity ys) \<and> consistent (set ys) \<and> sorted (map network_sort_key ys) \<and> \<not> crowded ys
   \<and> set ys \<subseteq> set xs \<and> network_identity ` set ys = network_identity ` set xs"
proof -
  assume "canonical_network_observations xs = Inr ys"
  then obtain kept where k: "deduplicate (canon_by network_sort_key xs) [] [] = Inr kept" and ys: "ys = sort_key network_sort_key kept"
    and c: "\<not> crowded ys"
    by (auto simp: canonical_network_observations_def bindR_Inr_iff Let_def crowded_def split: if_splits)
  have "noted [] {}" by (simp add: noted_def)
  with deduplicate_result [OF k] have d: "distinct (map network_identity kept)" "consistent (set kept)" "set kept \<subseteq> set xs"
    "network_identity ` set kept = network_identity ` set xs" by simp_all
  have "inj_on network_identity (set kept)" "distinct kept" using d(1) by (simp_all add: distinct_map)
  then have "distinct (map network_identity ys)" by (simp add: ys distinct_map)
  with d c show ?thesis by (simp add: ys)
qed

lemma canonical_network_fix:
  assumes "distinct (map network_identity xs)" "consistent (set xs)" "\<not> crowded xs" "sorted (map network_sort_key xs)"
  shows "canonical_network_observations xs = Inr xs"
proof -
  have "distinct xs" using assms(1) by (simp add: distinct_map)
  then have "canon_by network_sort_key xs = xs" using assms(4) by (simp add: canon_by_fix_iff)
  moreover have "deduplicate xs [] [] = Inr xs"
    using deduplicate_distinct [OF assms(2), of "[]" xs "[]"] assms(1) by (simp add: states_of_def)
  moreover have "sort_key network_sort_key xs = xs" using assms(4) by (simp add: sort_key_id_if_sorted)
  ultimately show ?thesis using assms(3) by (simp add: canonical_network_observations_def crowded_def)
qed

lemma canonical_network_stable: "canonical_network_observations xs = Inr ys \<Longrightarrow> canonical_network_observations ys = Inr ys"
  by (rule canonical_network_fix) (auto dest!: canonical_network_Inr)

interpretation network_norm: normaliser canonical_network_observations
  by unfold_locales (rule canonical_network_stable)

section \<open>The envelope of a prefix\<close>

definition of_prefix :: "string \<Rightarrow> network_observation list \<Rightarrow> network_observation list" where
  "of_prefix p xs = filter (\<lambda>obs. net_prefix obs = p) xs"

text \<open>The bytes of the JSON array of the details\<close>

definition array_bytes :: "network_observation list \<Rightarrow> nat" where
  "array_bytes xs = 2 + sum_list (map encoded_detail_size xs) + (length xs - 1)"

lemma array_bytes_snoc: "array_bytes (xs @ [x]) = array_bytes xs + encoded_detail_size x + (if xs \<noteq> [] then 1 else 0)"
  by (cases xs) (simp_all add: array_bytes_def)

lemma array_bytes_perm: "mset xs = mset ys \<Longrightarrow> array_bytes xs = array_bytes ys"
  by (metis array_bytes_def mset_map sum_mset_sum_list mset_eq_length)

definition accumulator_ok :: "accumulator \<Rightarrow> bool" where
  "accumulator_ok acc =
     ((\<forall>p. count_of (acc_counts acc) p = length (of_prefix p (acc_observations acc))
          \<and> bytes_of (acc_bytes acc) p = array_bytes (of_prefix p (acc_observations acc))
          \<and> length (of_prefix p (acc_observations acc)) \<le> acc_max acc
          \<and> array_bytes (of_prefix p (acc_observations acc)) \<le> acc_max_bytes acc)
      \<and> set (acc_identities acc) = network_identity ` set (acc_observations acc)
      \<and> distinct (map network_identity (acc_observations acc))
      \<and> noted (acc_rpki_states acc) (set (acc_observations acc)))"

lemma add_observation_ok:
  assumes "add_observation obs acc = Inr (acc', new)" "accumulator_ok acc"
  shows "accumulator_ok acc' \<and> acc_max acc' = acc_max acc \<and> acc_max_bytes acc' = acc_max_bytes acc
    \<and> acc_observations acc' = acc_observations acc @ (if new then [obs] else [])"
proof -
  from assms(1) obtain states where st: "note_rpki_state obs (acc_rpki_states acc) = Inr states"
    and rest: "(if network_identity obs \<in> set (acc_identities acc) then Inr (acc\<lparr>acc_rpki_states := states\<rparr>, False)
       else (let pfx = net_prefix obs; n = count_of (acc_counts acc) pfx + 1
             in if acc_max acc < n then Inl (OtherError ''NetworkEvidenceLimitError'')
                else (let size1 = bytes_of (acc_bytes acc) pfx + encoded_detail_size obs + (if n - 1 \<noteq> 0 then 1 else 0)
                      in if acc_max_bytes acc < size1 then Inl (OtherError ''NetworkEvidenceLimitError'')
                         else Inr (acc\<lparr>acc_observations := acc_observations acc @ [obs],
                                      acc_identities := network_identity obs # acc_identities acc,
                                      acc_counts := AList.update pfx n (acc_counts acc),
                                      acc_bytes := AList.update pfx size1 (acc_bytes acc),
                                      acc_rpki_states := states\<rparr>, True)))) = Inr (acc', new)"
    by (auto simp: add_observation_def bindR_Inr_iff)
  have n: "noted states (insert obs (set (acc_observations acc)))"
    using note_rpki_noted [OF st] assms(2) by (simp add: accumulator_ok_def)
  show ?thesis
  proof (cases "network_identity obs \<in> set (acc_identities acc)")
    case True
    have "noted states (set (acc_observations acc))" using n by (simp add: noted_def)
    with True rest assms(2) show ?thesis by (auto simp: accumulator_ok_def)
  next
    case False
    let ?p = "net_prefix obs" and ?obs = "acc_observations acc"
    have inv: "count_of (acc_counts acc) p = length (of_prefix p ?obs)" "bytes_of (acc_bytes acc) p = array_bytes (of_prefix p ?obs)"
      "length (of_prefix p ?obs) \<le> acc_max acc" "array_bytes (of_prefix p ?obs) \<le> acc_max_bytes acc" for p
      using assms(2) by (auto simp: accumulator_ok_def)
    let ?n = "count_of (acc_counts acc) ?p + 1"
    let ?b = "array_bytes (of_prefix ?p (?obs @ [obs]))"
    have b: "bytes_of (acc_bytes acc) ?p + encoded_detail_size obs + (if ?n - 1 \<noteq> 0 then 1 else 0) = ?b"
      using inv [of ?p] by (simp add: of_prefix_def array_bytes_snoc)
    from rest False b have lim: "?n \<le> acc_max acc" "?b \<le> acc_max_bytes acc" "new"
      and acc': "acc' = acc\<lparr>acc_observations := ?obs @ [obs], acc_identities := network_identity obs # acc_identities acc,
         acc_counts := AList.update ?p ?n (acc_counts acc), acc_bytes := AList.update ?p ?b (acc_bytes acc), acc_rpki_states := states\<rparr>"
      by (auto simp: Let_def split: if_splits)
    have counts: "count_of (AList.update ?p ?n (acc_counts acc)) p = length (of_prefix p (?obs @ [obs]))" for p
      using inv(1) [of p] inv(1) [of ?p] by (cases "p = ?p") (simp_all add: count_of_def update_conv' of_prefix_def)
    have sizes: "bytes_of (AList.update ?p ?b (acc_bytes acc)) p = array_bytes (of_prefix p (?obs @ [obs]))" for p
      using inv(2) [of p] by (cases "p = ?p") (simp_all add: bytes_of_def update_conv' of_prefix_def)
    have "length (of_prefix p (?obs @ [obs])) \<le> acc_max acc" "array_bytes (of_prefix p (?obs @ [obs])) \<le> acc_max_bytes acc" for p
      using inv [of p] lim by (cases "p = ?p"; simp add: of_prefix_def inv)+
    with counts sizes n False assms(2) lim(3) show ?thesis unfolding acc' by (auto simp: accumulator_ok_def)
  qed
qed

lemma add_all_ok:
  "accumulator_ok acc \<Longrightarrow> accumulator_ok (add_all xs acc) \<and> acc_max (add_all xs acc) = acc_max acc
    \<and> acc_max_bytes (add_all xs acc) = acc_max_bytes acc \<and> set (acc_observations (add_all xs acc)) \<subseteq> set (acc_observations acc) \<union> set xs"
proof (induction xs arbitrary: acc)
  case (Cons x xs)
  show ?case
  proof (cases "add_observation x acc")
    case (Inl e)
    with Cons show ?thesis by fastforce
  next
    case (Inr r)
    obtain acc' new where r: "r = (acc', new)" by (cases r)
    from add_observation_ok [OF Inr [unfolded r] Cons(2)] have ok: "accumulator_ok acc'" and same: "acc_max acc' = acc_max acc"
      "acc_max_bytes acc' = acc_max_bytes acc" and obs: "set (acc_observations acc') \<subseteq> insert x (set (acc_observations acc))" by auto
    from Cons(1) [OF ok] same obs Inr r show ?thesis by auto
  qed
qed simp

lemma new_accumulator_ok: "new_accumulator m b = Inr acc \<Longrightarrow> accumulator_ok acc \<and> acc_max acc = nat m \<and> acc_max_bytes acc = nat b
   \<and> int (nat m) \<le> MAX_NETWORK_OBSERVATIONS_PER_PREFIX \<and> int (nat b) \<le> MAX_NETWORK_DETAILS_BYTES \<and> acc_observations acc = []"
  by (auto simp: new_accumulator_def accumulator_ok_def count_of_def bytes_of_def of_prefix_def array_bytes_def noted_def split: if_splits)

lemma add_details_fits:
  "int (s + sum_list (map encoded_detail_size xs) + (if ds = [] then length xs - 1 else length xs)) \<le> MAX_NETWORK_DETAILS_BYTES \<Longrightarrow>
   add_details xs s ds = Inr (ds @ map network_observation_detail xs)"
proof (induction xs arbitrary: s ds)
  case (Cons x xs)
  let ?s = "s + encoded_detail_size x + (if ds \<noteq> [] then 1 else 0)"
  have "int (?s + sum_list (map encoded_detail_size xs) + (if ds @ [network_observation_detail x] = [] then length xs - 1 else length xs))
      \<le> MAX_NETWORK_DETAILS_BYTES" using Cons(2) by (auto split: if_splits)
  from Cons(1) [OF this] Cons(2) show ?case by (auto simp: Let_def split: if_splits)
qed simp

lemma canonical_network_perm:
  assumes "distinct (map network_identity xs)" "consistent (set xs)" "\<not> crowded xs"
  obtains ys where "canonical_network_observations xs = Inr ys" "mset ys = mset xs"
proof -
  let ?ys = "canon_by network_sort_key xs"
  have d: "inj_on network_identity (set xs)" "distinct xs" using assms(1) by (simp_all add: distinct_map)
  then have "distinct (map network_identity ?ys)" by (simp add: distinct_map)
  then have dd: "deduplicate ?ys [] [] = Inr ?ys"
    using deduplicate_distinct [of "set xs" "[]" ?ys "[]"] assms(2) by (simp add: states_of_def)
  have m: "mset (sort_key network_sort_key ?ys) = mset xs" using d(2) by (simp add: canon_by_def distinct_remdups_id)
  then have f: "length (filter q (sort_key network_sort_key ?ys)) = length (filter q xs)" for q by (metis mset_filter size_mset)
  have "set (sort_key network_sort_key ?ys) = set xs" by simp
  then have "\<not> crowded (sort_key network_sort_key ?ys)" using assms(3) unfolding crowded_def list_ex_iff f by blast
  then have "canonical_network_observations xs = Inr (sort_key network_sort_key ?ys)"
    unfolding canonical_network_observations_def crowded_def by (simp add: dd)
  with m that show thesis by blast
qed

text \<open>C29: The accumulator keeps what it accepts storable. Whatever observations arrive, in whatever order and with
  whatever refusals, its final observations are among the arrived ones, contain no identity twice, stay
  within the two limits for every prefix, can be put in canonical order without an error, and the
  observations of every prefix can be written out as details of exactly that many entries.\<close>

theorem accumulator_stays_storable:
  assumes "new_accumulator max_observations max_bytes = Inr acc" and kept_def: "kept = acc_observations (add_all arrivals acc)"
  shows "set kept \<subseteq> set arrivals \<and> distinct (map network_identity kept)
    \<and> int (length (of_prefix p kept)) \<le> max_observations \<and> int (array_bytes (of_prefix p kept)) \<le> max_bytes
    \<and> (\<exists>canonical. accumulated (add_all arrivals acc) = Inr canonical \<and> mset canonical = mset kept
        \<and> (\<exists>details. network_observation_details (of_prefix p canonical) = Inr details
              \<and> length details = length (of_prefix p kept)))"
proof -
  note new = new_accumulator_ok [OF assms(1)]
  let ?acc = "add_all arrivals acc"
  have all: "accumulator_ok ?acc" "acc_max ?acc = nat max_observations" "acc_max_bytes ?acc = nat max_bytes" "set kept \<subseteq> set arrivals"
    using add_all_ok [of acc arrivals] new by (auto simp: kept_def)
  have lim: "length (of_prefix p kept) \<le> nat max_observations" "array_bytes (of_prefix p kept) \<le> nat max_bytes" for p
    using all unfolding accumulator_ok_def kept_def by auto
  have range: "1 \<le> max_observations" "2 \<le> max_bytes" using assms(1) by (auto simp: new_accumulator_def split: if_splits)
  have d: "distinct (map network_identity kept)" and n: "noted (acc_rpki_states ?acc) (set kept)"
    using all(1) by (simp_all add: accumulator_ok_def kept_def)
  note c = noted_consistent [OF n]
  have caps: "int (nat max_observations) \<le> MAX_NETWORK_OBSERVATIONS_PER_PREFIX" "int (nat max_bytes) \<le> MAX_NETWORK_DETAILS_BYTES"
    using new by blast+
  have "int (length (filter (\<lambda>o2. net_prefix o2 = q) kept)) \<le> MAX_NETWORK_OBSERVATIONS_PER_PREFIX" for q
    by (rule order_trans [OF of_nat_mono [OF lim(1) [of q, unfolded of_prefix_def]] caps(1)])
  then have "\<not> crowded kept" by (auto simp: crowded_def list_ex_iff not_less)
  from canonical_network_perm [OF d c this] obtain ys where ys: "canonical_network_observations kept = Inr ys" "mset ys = mset kept" .
  have sub: "set (of_prefix p ys) \<subseteq> set ys" by (auto simp: of_prefix_def)
  note facts = canonical_network_Inr [OF ys(1)]
  have "distinct ys" using facts by (simp add: distinct_map)
  then have "canonical_network_observations (of_prefix p ys) = Inr (of_prefix p ys)"
  proof (intro canonical_network_fix)
    show "distinct (map network_identity (of_prefix p ys))" using facts by (simp add: of_prefix_def distinct_map_filter)
    show "consistent (set (of_prefix p ys))" using facts sub unfolding consistent_def by blast
    show "sorted (map network_sort_key (of_prefix p ys))" using facts by (simp add: of_prefix_def sorted_filter)
    have "filter q (of_prefix p ys) = of_prefix p (filter q ys)" for q unfolding of_prefix_def by (induction ys) auto
    then have "length (filter q (of_prefix p ys)) \<le> length (filter q ys)" for q
      using length_filter_le [of "\<lambda>obs. net_prefix obs = p" "filter q ys"] by (simp only: of_prefix_def)
    moreover have "\<forall>obs\<in>set ys. int (length (filter (\<lambda>o2. net_prefix o2 = net_prefix obs) ys)) \<le> MAX_NETWORK_OBSERVATIONS_PER_PREFIX"
      using facts by (simp add: crowded_def list_ex_iff not_less)
    ultimately have "\<forall>obs\<in>set ys. int (length (filter (\<lambda>o2. net_prefix o2 = net_prefix obs) (of_prefix p ys))) \<le> MAX_NETWORK_OBSERVATIONS_PER_PREFIX"
      by (meson of_nat_mono order_trans)
    then show "\<not> crowded (of_prefix p ys)" using sub by (auto simp: crowded_def list_ex_iff not_less)
  qed
  moreover have perm: "mset (of_prefix p ys) = mset (of_prefix p kept)" using ys(2) by (simp add: of_prefix_def)
  have "int (array_bytes (of_prefix p ys)) \<le> MAX_NETWORK_DETAILS_BYTES" 
    unfolding array_bytes_perm [OF perm] by (rule order_trans [OF of_nat_mono [OF lim(2)] caps(2)])
  then have "add_details (of_prefix p ys) 2 [] = Inr (map network_observation_detail (of_prefix p ys))"
    using add_details_fits [of 2 "of_prefix p ys" "[]"] by (simp add: array_bytes_def)
  ultimately have "network_observation_details (of_prefix p ys) = Inr (map network_observation_detail (of_prefix p ys))"
    by (simp add: network_observation_details_def)
  moreover have "length (of_prefix p ys) = length (of_prefix p kept)" using perm by (metis size_mset)
  ultimately show ?thesis
    using all(4) d lim [of p] range ys by (auto simp: accumulated_def kept_def)
qed

section \<open>Reading back\<close>

definition observation_ok :: "network_observation \<Rightarrow> bool" where
  "observation_ok obs =
     (case obs of
        Origin x \<Rightarrow> new_origin (JStr (org_action x)) (JStr (org_prefix x)) (JStr (org_asn x)) (org_collected x) = Inr obs
      | Route x \<Rightarrow> new_route (JStr (rte_action x)) (JStr (rte_prefix x)) (JStr (rte_asn x)) (JStr (rte_collector x)) (JStr (rte_peer_asn x))
          (JStr (rte_peer_address x)) (JStr (rte_as_path x)) (JStr (rte_communities x)) (rte_observed x) (rte_collected x) = Inr obs
      | Rpki x \<Rightarrow> new_rpki (JStr (rpk_action x)) (JStr (rpk_prefix x)) (JStr (rpk_asn x)) (JStr (rpk_state x)) (rpk_observed x)
          (rpk_collected x) = Inr obs)"

fun observation_times :: "network_observation \<Rightarrow> int list" where
  "observation_times (Origin x) = [org_collected x]"
| "observation_times (Route x) = [rte_observed x, rte_collected x]"
| "observation_times (Rpki x) = [rpk_observed x, rpk_collected x]"

definition readable_observation :: "network_observation \<Rightarrow> bool" where
  "readable_observation obs = list_all valid_time (observation_times obs)"

lemma parse_time_back: "valid_time t \<Longrightarrow> parse_time (JStr (format_utc t)) label = Inr t"
  by (simp add: parse_time_def)

lemma observation_read_back:
  "observation_ok obs \<Longrightarrow> readable_observation obs \<Longrightarrow> observation_from_detail (net_prefix obs) (network_observation_detail obs) = Inr obs"
  by (cases obs)
    (simp_all add: observation_ok_def readable_observation_def observation_from_detail_def network_observation_detail_def detail_fields_def
       observation_keys_def has_keys_def field_of_def parse_time_back)

lemma network_name_stable: "network_name v label = Inr t \<Longrightarrow> network_name (JStr t) label = Inr t"
  by (auto simp: network_name_def split: json.splits if_splits)

lemma network_text_stable: "network_text v label e = Inr t \<Longrightarrow> network_text (JStr t) label e = Inr t"
  by (auto simp: network_text_def split: json.splits if_splits)

lemma peer_ip_stable: "peer_ip v = Inr t \<Longrightarrow> peer_ip (JStr t) = Inr t"
proof -
  assume "peer_ip v = Inr t"
  then obtain s a where "CHR ''%'' \<notin> set s" and a: "parse_ip (strip s) = Some a" and t: "t = show_ip a"
    by (auto simp: peer_ip_def split: json.splits if_splits option.splits)
  then have "CHR ''%'' \<notin> set (strip s)" using set_strip [of s] by auto
  with a have p: "CHR ''%'' \<notin> set (show_ip a)" by (rule parse_ip_no_scope)
  moreover have "show_ip a \<noteq> []" using show_ip_punct [of a] by auto
  ultimately show ?thesis using show_ip_strip [OF parse_ip_wf [OF a] p] parse_show_ip [OF parse_ip_wf [OF a]]
    by (simp add: peer_ip_def t)
qed

lemma normalize_prefix_stable: "normalize_prefix v = Inr t \<Longrightarrow> normalize_prefix (JStr t) = Inr t"
proof (cases v)
  case (JStr s)
  assume "normalize_prefix v = Inr t"
  with JStr show ?thesis using prefix_norm.norm_stable by simp
qed (auto simp: normalize_prefix_def)

lemma asn_any_stable: "normalize_asn v = Inr t \<Longrightarrow> normalize_asn (JStr t) = Inr t"
  by (auto dest!: normalize_asn_result simp: normalize_asn_AS)

lemma new_observation_ok:
  "new_origin a p n c = Inr obs \<Longrightarrow> observation_ok obs"
  "new_route a p n col pa padd path com t c = Inr obs \<Longrightarrow> observation_ok obs"
  "new_rpki a p n st t c = Inr obs \<Longrightarrow> observation_ok obs"
proof -
  assume "new_origin a p n c = Inr obs"
  then show "observation_ok obs"
    by (auto simp: observation_ok_def new_origin_def bindR_Inr_iff network_name_stable normalize_prefix_stable asn_any_stable)
next
  assume "new_route a p n col pa padd path com t c = Inr obs"
  then show "observation_ok obs"
    by (auto simp: observation_ok_def new_route_def bindR_Inr_iff network_name_stable normalize_prefix_stable asn_any_stable
        peer_ip_stable network_text_stable split: if_splits)
next
  assume "new_rpki a p n st t c = Inr obs"
  then show "observation_ok obs"
    by (auto simp: observation_ok_def new_rpki_def bindR_Inr_iff network_name_stable normalize_prefix_stable asn_any_stable split: if_splits)
qed

lemma new_observation_prefix:
  "new_origin a p n c = Inr obs \<Longrightarrow> normalize_prefix p = Inr (net_prefix obs)"
  "new_route a p n col pa padd path com t c = Inr obs \<Longrightarrow> normalize_prefix p = Inr (net_prefix obs)"
  "new_rpki a p n st t c = Inr obs \<Longrightarrow> normalize_prefix p = Inr (net_prefix obs)"
  by (auto simp: new_origin_def new_route_def new_rpki_def bindR_Inr_iff split: if_splits)

lemma observation_ok_prefix: "observation_ok obs \<Longrightarrow> normalize_prefix (JStr (net_prefix obs)) = Inr (net_prefix obs)"
  by (cases obs) (auto simp: observation_ok_def dest: new_observation_prefix)

lemma observation_read_accepts: "observation_from_detail p j = Inr obs \<Longrightarrow> observation_ok obs"
  by (cases j) (auto simp: observation_from_detail_def bindR_Inr_iff split: json.splits option.splits if_splits intro: new_observation_ok)

lemma detail_wf: "wf_json (network_observation_detail obs)"
  by (cases obs) (simp_all add: network_observation_detail_def detail_fields_def)

interpretation network_details: structured_evidence observation_ok readable_observation net_prefix observation_from_detail network_observation_detail
  by unfold_locales (fact observation_read_back, fact observation_read_accepts, rule detail_wf)

lemma add_details_written: "add_details xs s ds = Inr written \<Longrightarrow> written = ds @ map network_observation_detail xs"
  by (induction xs s ds rule: add_details.induct) (auto simp: Let_def split: if_splits)

lemma network_details_back:
  assumes "canonical_network_observations observations = Inr canonical" "network_observation_details canonical = Inr written" "canonical \<noteq> []"
    and "\<forall>obs\<in>set canonical. observation_ok obs \<and> readable_observation obs \<and> net_prefix obs = p"
  shows "parse_network_observation_details p (JList written) = Inr canonical"
proof -
  have stable: "canonical_network_observations canonical = Inr canonical" by (rule canonical_network_stable [OF assms(1)])
  with assms(2) have written: "written = map network_observation_detail canonical"
    by (auto simp: network_observation_details_def dest: add_details_written)
  obtain x xs where x: "canonical = x # xs" using assms(3) by (cases canonical) auto
  then have ox: "observation_ok x" "net_prefix x = p" using assms(4) by simp_all
  then have p: "normalize_prefix (JStr p) = Inr p"
    using observation_ok_prefix [OF ox(1)] by simp
  have "filter (\<lambda>o2. net_prefix o2 = net_prefix x) canonical = canonical" using assms(4) ox by simp
  then have "int (length canonical) \<le> MAX_NETWORK_OBSERVATIONS_PER_PREFIX"
    using canonical_network_Inr [OF assms(1)] x by (auto simp: crowded_def list_ex_iff)
  then have len: "\<not> MAX_NETWORK_OBSERVATIONS_PER_PREFIX < int (length written)" "written \<noteq> []" using written assms(3) by simp_all
  have read: "mapR (observation_from_detail p) written = Inr canonical"
    unfolding written
  proof (rule mapR_read_back)
    fix obs
    assume "obs \<in> set canonical"
    with assms(4) have "observation_ok obs" "readable_observation obs" "net_prefix obs = p" by simp_all
    then show "observation_from_detail p (network_observation_detail obs) = Inr obs" using observation_read_back by metis
  qed
  have "wf_json (JList written)" by (simp add: written list_all_iff detail_wf)
  then have "json_eq (JList written) (JList written)" by (rule json_eq_same)
  then show "parse_network_observation_details p (JList written) = Inr canonical"
    by (simp add: parse_network_observation_details_def p len read stable assms(2))
qed

text \<open>C30: Network evidence round trip. The details written for a canonical collection of accepted observations of
  one prefix are read back as this collection; and what is read for a prefix is a canonical collection
  of accepted observations whose written details equal the ones that were read.\<close>

theorem network_details_round_trip:
  assumes "canonical_network_observations observations = Inr canonical" "network_observation_details canonical = Inr written" "canonical \<noteq> []"
    and "\<forall>obs\<in>set canonical. observation_ok obs \<and> readable_observation obs \<and> net_prefix obs = p"
  shows "parse_network_observation_details p (JList written) = Inr canonical
    \<and> (parse_network_observation_details q j = Inr read \<longrightarrow> canonical_network_observations read = Inr read \<and> list_all observation_ok read
        \<and> (\<exists>details. network_observation_details read = Inr details \<and> json_eq j (JList details)))"
proof
  show "parse_network_observation_details p (JList written) = Inr canonical"
    by (rule network_details_back [OF assms])
  show "parse_network_observation_details q j = Inr read \<longrightarrow> canonical_network_observations read = Inr read \<and> list_all observation_ok read
        \<and> (\<exists>details. network_observation_details read = Inr details \<and> json_eq j (JList details))"
  proof
    assume "parse_network_observation_details q j = Inr read"
    then obtain ds found details where found: "mapR (observation_from_detail q) ds = Inr found" and can: "canonical_network_observations found = Inr read"
      and details: "network_observation_details read = Inr details" "json_eq j (JList details)"
      by (auto simp: parse_network_observation_details_def bindR_Inr_iff split: if_splits option.splits)
    have "\<forall>obs\<in>set found. observation_ok obs" using mapR_Inr_in [OF found] observation_read_accepts by blast
    with canonical_network_Inr [OF can] have "list_all observation_ok read" by (auto simp: list_all_iff)
    with canonical_network_stable [OF can] details
    show "canonical_network_observations read = Inr read \<and> list_all observation_ok read
        \<and> (\<exists>details. network_observation_details read = Inr details \<and> json_eq j (JList details))" by blast
  qed
qed

section \<open>Examples\<close>

definition example_observations :: "network_observation list" where
  "example_observations =
     [Origin \<lparr>org_action = ''routeviews'', org_prefix = ''192.0.2.0/24'', org_asn = ''AS64500'', org_collected = 63902649700000000\<rparr>,
      Rpki \<lparr>rpk_action = ''routeviews'', rpk_prefix = ''192.0.2.0/24'', rpk_asn = ''AS64500'', rpk_state = ''valid'',
        rpk_observed = 63902649600000000, rpk_collected = 63902649700000000\<rparr>]"

lemma example_observations_ok:
  "list_all (\<lambda>obs. observation_ok obs \<and> readable_observation obs \<and> net_prefix obs = ''192.0.2.0/24'') example_observations"
  by code_simp

lemma example_canonical: "canonical_network_observations example_observations = Inr example_observations"
  by (rule canonical_network_fix)
    (simp_all add: example_observations_def consistent_def crowded_def network_sort_key_def less_eq_prod_def MAX_NETWORK_OBSERVATIONS_PER_PREFIX_def)

lemma example_written:
  "network_observation_details example_observations = Inr (map network_observation_detail example_observations)"
proof -
  have "array_bytes example_observations < 300" by code_simp
  then have "int (2 + sum_list (map encoded_detail_size example_observations) + (length example_observations - 1)) \<le> MAX_NETWORK_DETAILS_BYTES"
    unfolding array_bytes_def MAX_NETWORK_DETAILS_BYTES_def by linarith
  then show ?thesis using add_details_fits [of 2 example_observations "[]"] by (simp add: network_observation_details_def example_canonical)
qed

lemma network_details_round_trip_witness:
  "parse_network_observation_details ''192.0.2.0/24'' (JList (map network_observation_detail example_observations)) = Inr example_observations"
proof -
  have "\<forall>obs\<in>set example_observations. observation_ok obs \<and> readable_observation obs \<and> net_prefix obs = ''192.0.2.0/24''"
    using example_observations_ok by (simp add: list_all_iff)
  from conjunct1 [OF network_details_round_trip [OF example_canonical example_written _ this]] show ?thesis
    by (simp add: example_observations_def)
qed

lemma accumulator_stays_storable_witness:
  "\<exists>acc. new_accumulator 1 1000 = Inr acc \<and> length (of_prefix ''192.0.2.0/24'' (acc_observations (add_all example_observations acc))) \<le> 1"
proof -
  obtain acc where acc: "new_accumulator 1 1000 = Inr acc"
    by (simp add: new_accumulator_def MAX_NETWORK_OBSERVATIONS_PER_PREFIX_def MAX_NETWORK_DETAILS_BYTES_def)
  from accumulator_stays_storable [OF acc refl, of example_observations "''192.0.2.0/24''"] acc show ?thesis by auto
qed

end
