(* ===== verification/Endpoint_Url.thy ===== *)
theory Endpoint_Url
  imports Hostnames
begin

text \<open>
  Endpoints of virtual-host probes (\<open>normalize_virtual_host_endpoint\<close> and \<open>_authority\<close> of
  lib/virtual_host.py), over \<open>urllib.parse.urlsplit\<close> of the standard library as far as the module
  uses it: a URL with scheme, literal address and port in one normal form. (The check of \<open>urlsplit\<close> for
  characters that Unicode normalisation turns into delimiters has no effect on code points below 256.)
\<close>

section \<open>urlsplit\<close>

definition before :: "char \<Rightarrow> string \<Rightarrow> string" where
  "before c s = takeWhile (\<lambda>x. x \<noteq> c) s"

definition after :: "char \<Rightarrow> string \<Rightarrow> string" where
  "after c s = drop 1 (dropWhile (\<lambda>x. x \<noteq> c) s)"

definition after_last :: "char \<Rightarrow> string \<Rightarrow> string" where
  "after_last c s = rev (before c (rev s))"

record split_url =
  url_scheme :: string
  url_netloc :: string
  url_path :: string
  url_query :: string
  url_fragment :: string

definition is_alpha :: "char \<Rightarrow> bool" where
  "is_alpha c = (is_alnum c \<and> \<not> is_digit c)"

definition scheme_char :: "char \<Rightarrow> bool" where
  "scheme_char c = (is_alnum c \<or> c = CHR ''+'' \<or> c = CHR ''-'' \<or> c = CHR ''.'')"

definition netloc_end :: "char \<Rightarrow> bool" where
  "netloc_end c = (c = CHR ''/'' \<or> c = CHR ''?'' \<or> c = CHR ''#'')"

text \<open>The address between brackets: IPvFuture or IPv6\<close>

definition bracketed_host_ok :: "string \<Rightarrow> bool" where
  "bracketed_host_ok h =
     (if starts_with ''v'' h
      then (let r = drop 1 h in takeWhile is_hex r \<noteq> []
              \<and> (case dropWhile is_hex r of d # x # _ \<Rightarrow> d = CHR ''.'' | _ \<Rightarrow> False))
      else (case parse_ip h of Some (IPv6 n sc) \<Rightarrow> True | _ \<Rightarrow> False))"

definition brackets_ok :: "string \<Rightarrow> bool" where
  "brackets_ok netloc =
     (let open1 = CHR ''['' \<in> set netloc; close1 = CHR '']'' \<in> set netloc
      in if open1 \<noteq> close1 then False
         else if \<not> open1 then True
         else (let h = after_last CHR ''@'' netloc
               in if CHR ''['' \<in> set h
                  then (let b = after CHR ''['' h; port = after CHR '']'' b
                        in before CHR ''['' h = [] \<and> (port = [] \<or> hd port = CHR '':'') \<and> bracketed_host_ok (before CHR '']'' b))
                  else bracketed_host_ok (before CHR '':'' h)))"

definition clean_url :: "string \<Rightarrow> string" where
  "clean_url s = filter (\<lambda>c. code c \<notin> {9, 10, 13}) (dropWhile (\<lambda>c. code c \<le> 32) s)"

text \<open>The scheme and what follows it\<close>

definition take_scheme :: "string \<Rightarrow> string \<times> string" where
  "take_scheme url =
     (let sch = before CHR '':'' url
      in if CHR '':'' \<in> set url \<and> sch \<noteq> [] \<and> is_alpha (hd sch) \<and> list_all scheme_char sch
         then (lower sch, after CHR '':'' url) else ([], url))"

definition urlsplit :: "string \<Rightarrow> split_url res" where
  "urlsplit s =
     (let (scheme1, rest) = take_scheme (clean_url s);
          has_netloc = starts_with ''//'' rest;
          netloc = (if has_netloc then takeWhile (\<lambda>c. \<not> netloc_end c) (drop 2 rest) else []);
          tail1 = (if has_netloc then dropWhile (\<lambda>c. \<not> netloc_end c) (drop 2 rest) else rest);
          before_fragment = before CHR ''#'' tail1
      in if \<not> brackets_ok netloc then Inl (ValueError ''Invalid IPv6 URL'')
         else Inr \<lparr>url_scheme = scheme1, url_netloc = netloc, url_path = before CHR ''?'' before_fragment,
                   url_query = after CHR ''?'' before_fragment, url_fragment = after CHR ''#'' tail1\<rparr>)"

text \<open>\<open>_hostinfo\<close> and the properties \<open>hostname\<close> (empty for None) and \<open>port\<close>\<close>

definition host_and_port :: "string \<Rightarrow> string \<times> string" where
  "host_and_port netloc =
     (let h = after_last CHR ''@'' netloc
      in if CHR ''['' \<in> set h
         then (let b = after CHR ''['' h in (before CHR '']'' b, after CHR '':'' (after CHR '']'' b)))
         else (before CHR '':'' h, after CHR '':'' h))"

definition url_hostname :: "split_url \<Rightarrow> string" where
  "url_hostname u =
     (let h = fst (host_and_port (url_netloc u))
      in if CHR ''%'' \<in> set h then lower (before CHR ''%'' h) @ ''%'' @ after CHR ''%'' h else lower h)"

definition url_port :: "split_url \<Rightarrow> int option res" where
  "url_port u =
     (let port = snd (host_and_port (url_netloc u))
      in if port = [] then Inr None
         else if \<not> ascii_decimal port then Inl (ValueError ''Port could not be cast to integer value'')
         else if 65535 < int_of_string port then Inl (ValueError ''Port out of range 0-65535'')
         else Inr (Some (int_of_string port)))"

section \<open>Endpoints (virtual_host.py)\<close>

definition address_authority :: "ip \<Rightarrow> string" where
  "address_authority a = (if version a = 6 then ''['' @ show_ip a @ '']'' else show_ip a)"

definition default_port :: "string \<Rightarrow> int" where
  "default_port scheme = (if scheme = ''https'' then 443 else 80)"

definition endpoint_text :: "string \<Rightarrow> ip \<Rightarrow> int \<Rightarrow> string" where
  "endpoint_text scheme a port = scheme @ ''://'' @ address_authority a @ '':'' @ show_int port @ ''/''"

definition endpoint_port_error :: err where
  "endpoint_port_error = ValueError ''virtual-host endpoint port must be between 1 and 65535''"

definition normalize_virtual_host_endpoint :: "string \<Rightarrow> string res" where
  "normalize_virtual_host_endpoint endpoint =
     bindR (urlsplit (strip endpoint)) (\<lambda>u.
       if url_scheme u \<notin> {''http'', ''https''} then Inl (ValueError ''virtual-host endpoint scheme must be http or https'')
       else if CHR ''@'' \<in> set (url_netloc u) then Inl (ValueError ''virtual-host endpoint must not contain user information'')
       else if url_path u \<notin> {[], ''/''} \<or> url_query u \<noteq> [] \<or> url_fragment u \<noteq> []
       then Inl (ValueError ''virtual-host endpoint must contain only scheme, literal IP, and optional port'')
       else (case parse_ip (url_hostname u) of
               None \<Rightarrow> Inl (ValueError ''virtual-host endpoint must use a literal IP address'')
             | Some a \<Rightarrow>
                 (case url_port u of
                    Inl _ \<Rightarrow> Inl endpoint_port_error
                  | Inr p \<Rightarrow>
                      (let port = (case p of Some n \<Rightarrow> n | None \<Rightarrow> default_port (url_scheme u))
                       in if \<not> (1 \<le> port \<and> port \<le> 65535) then Inl endpoint_port_error
                          else Inr (endpoint_text (url_scheme u) a port)))))"

text \<open>\<open>_authority\<close>: the HTTP host of a name at a port\<close>

definition http_authority :: "string \<Rightarrow> string \<Rightarrow> int \<Rightarrow> string" where
  "http_authority hostname scheme port =
     (let h = (case parse_ip hostname of Some a \<Rightarrow> address_authority a | None \<Rightarrow> hostname)
      in if port = default_port scheme then h else h @ '':'' @ show_int port)"

section \<open>Splitting the normal form\<close>

lemma before_append [simp]: "c \<notin> set s \<Longrightarrow> before c (s @ c # t) = s"
  by (induction s) (auto simp: before_def)

lemma after_append [simp]: "c \<notin> set s \<Longrightarrow> after c (s @ c # t) = t"
  by (induction s) (auto simp: after_def)

lemma before_after_hit [simp]: "before c (c # s) = []" "after c (c # s) = s"
  by (simp_all add: before_def after_def)

lemma before_id [simp]: "c \<notin> set s \<Longrightarrow> before c s = s"
  by (induction s) (auto simp: before_def)

lemma after_none [simp]: "c \<notin> set s \<Longrightarrow> after c s = []"
  by (induction s) (auto simp: after_def)

lemma after_last_id [simp]: "c \<notin> set s \<Longrightarrow> after_last c s = s"
  by (simp add: after_last_def)

lemma set_before: "set (before c s) \<subseteq> set s" "c \<notin> set (before c s)"
  by (auto simp: before_def dest: set_takeWhileD)

lemma set_after: "set (after c s) \<subseteq> set s"
  unfolding after_def by (meson set_drop_subset set_dropWhileD subset_code(1) subsetD)

lemma set_after_last: "set (after_last c s) \<subseteq> set s"
  using set_before(1) [of c "rev s"] by (simp add: after_last_def)

definition plain_ip :: "ip \<Rightarrow> bool" where
  "plain_ip a = (\<forall>c\<in>set (show_ip a). code c \<notin> {9, 10, 13, 35, 47, 63, 64, 93})"

lemma string_of_hex_no_upper: "0 \<le> n \<Longrightarrow> list_all (\<lambda>c. \<not> is_upper c) (string_of_hex n)"
proof (induction n rule: string_of_hex.induct)
  case (1 n)
  have digit: "0 \<le> d \<Longrightarrow> d < 16 \<Longrightarrow> \<not> is_upper (hex_char d)" for d
    by (auto simp: hex_char_def is_upper_def)
  show ?case
  proof (cases "n < 16")
    case True
    with 1 digit show ?thesis by (subst string_of_hex.simps) simp
  next
    case False
    with 1 digit [of "n mod 16"] show ?thesis by (subst string_of_hex.simps) simp
  qed
qed

lemma show_ipv4_chars: "0 \<le> n \<Longrightarrow> n < 2 ^ 32 \<Longrightarrow> c \<in> set (show_ipv4 n) \<Longrightarrow> is_digit c \<or> c = CHR ''.''"
  using parse_ipv4_chars [OF parse_show_ipv4] by blast

lemma show_ipv6_no_upper: "0 \<le> n \<Longrightarrow> c \<in> set (show_ipv6 n) \<Longrightarrow> \<not> is_upper c"
proof -
  assume n: "0 \<le> n" and c: "c \<in> set (show_ipv6 n)"
  let ?hs = "to_digits 65536 8 n"
  have hs: "\<forall>d\<in>set ?hs. 0 \<le> d" using to_digits_in_base [of 65536 8 n] by (simp add: in_base_def)
  have "p \<in> set (compress_hextets ?hs) \<Longrightarrow> p = [] \<or> (\<exists>d\<in>set ?hs. p = string_of_hex d)" for p
    by (auto simp: compress_hextets_def Let_def split: prod.splits if_splits dest!: in_set_takeD in_set_dropD)
  then have "\<forall>p\<in>set (compress_hextets ?hs). \<forall>c\<in>set p. \<not> is_upper c"
    using string_of_hex_no_upper hs by (fastforce simp: list_all_iff)
  moreover have "\<not> is_upper CHR '':''" by (simp add: is_upper_def code_def)
  ultimately have parts: "\<forall>c\<in>set (join '':'' (compress_hextets ?hs)). \<not> is_upper c"
    using set_join [of "'':''" "compress_hextets ?hs"] by fastforce
  have "is_digit c \<or> c = CHR ''.'' \<Longrightarrow> \<not> is_upper c" for c by (auto simp: is_digit_def is_upper_def code_def)
  then have "\<forall>c\<in>set (show_ipv4 (n mod 2 ^ 32)). \<not> is_upper c"
    using show_ipv4_chars [of "n mod 2 ^ 32"] by auto
  moreover have "\<forall>c\<in>set ''::ffff:''. \<not> is_upper c" by (simp add: is_upper_def code_def)
  moreover have "c \<in> set ''::ffff:'' \<union> set (show_ipv4 (n mod 2 ^ 32)) \<union> set (join '':'' (compress_hextets ?hs))"
    using c unfolding show_ipv6_def set_append [symmetric] by (rule rev_subsetD) auto
  ultimately show ?thesis using parts by blast
qed

lemma ipv4_marks:
  "0 \<le> n \<Longrightarrow> n < 2 ^ 32 \<Longrightarrow> CHR '':'' \<notin> set (show_ipv4 n) \<and> CHR ''['' \<notin> set (show_ipv4 n) \<and> CHR '']'' \<notin> set (show_ipv4 n)
     \<and> CHR ''%'' \<notin> set (show_ipv4 n) \<and> lower (show_ipv4 n) = show_ipv4 n"
proof -
  assume n: "0 \<le> n" "n < 2 ^ 32"
  have "is_digit c \<or> c = CHR ''.'' \<Longrightarrow> c \<noteq> CHR '':'' \<and> c \<noteq> CHR ''['' \<and> c \<noteq> CHR '']'' \<and> c \<noteq> CHR ''%'' \<and> \<not> is_upper c" for c
    by (auto simp: is_digit_def is_upper_def code_def)
  with show_ipv4_chars [OF n] show ?thesis unfolding lower_id_iff by blast
qed

lemma ipv6_marks: "0 \<le> n \<Longrightarrow> CHR ''%'' \<notin> set (show_ipv6 n) \<and> lower (show_ipv6 n) = show_ipv6 n"
  using show_ipv6_chars [of n "CHR ''%''"] show_ipv6_no_upper [of n] is_hex_not_sep [of "CHR ''%''"] by (auto simp: lower_id_iff)

lemma authority_split:
  assumes "wf_ip a" "plain_ip a" "CHR ''@'' \<notin> set p" "CHR ''['' \<notin> set p" "CHR '']'' \<notin> set p"
  shows "host_and_port (address_authority a @ CHR '':'' # p) = (show_ip a, p)" "brackets_ok (address_authority a @ CHR '':'' # p)"
proof -
  let ?n = "address_authority a @ CHR '':'' # p"
  have at: "CHR ''@'' \<notin> set ?n" using assms by (auto simp: address_authority_def plain_ip_def code_def)
  have close1: "CHR '']'' \<notin> set (show_ip a)" using assms(2) by (auto simp: plain_ip_def code_def)
  have "host_and_port ?n = (show_ip a, p) \<and> brackets_ok ?n"
  proof (cases a)
    case (IPv4 n)
    with assms(1) ipv4_marks [of n] have m: "CHR '':'' \<notin> set (show_ipv4 n)" "CHR ''['' \<notin> set (show_ipv4 n)" "CHR '']'' \<notin> set (show_ipv4 n)"
      by simp_all
    have n: "?n = show_ipv4 n @ CHR '':'' # p" using IPv4 by (simp add: address_authority_def)
    from m assms(4,5) at show ?thesis unfolding n by (simp add: host_and_port_def brackets_ok_def IPv4)
  next
    case (IPv6 n sc)
    have n: "?n = CHR ''['' # (show_ip a @ CHR '']'' # CHR '':'' # p)" using IPv6 by (simp add: address_authority_def)
    have after1: "after CHR ''['' ?n = show_ip a @ CHR '']'' # CHR '':'' # p" and before1: "before CHR ''['' ?n = []"
      unfolding n by (rule before_after_hit)+
    have inner: "before CHR '']'' (show_ip a @ CHR '']'' # CHR '':'' # p) = show_ip a" "after CHR '']'' (show_ip a @ CHR '']'' # CHR '':'' # p) = CHR '':'' # p"
      using close1 by simp_all
    have "parse_ip (show_ip a) = Some a" by (rule parse_show_ip [OF assms(1)])
    moreover have "\<not> starts_with ''v'' (show_ip a)"
    proof -
      have "hd (show_ipv6 n) \<noteq> CHR ''v''"
        using show_ipv6_chars [of n "hd (show_ipv6 n)"] show_ipv6_colon [of n] assms(1) IPv6
        by (cases "show_ipv6 n") (auto simp: is_hex_def code_def)
      moreover have "show_ipv6 n \<noteq> []" using show_ipv6_colon [of n] by auto
      ultimately show ?thesis using IPv6 by (cases sc; cases "show_ipv6 n") (auto simp: starts_with_def)
    qed
    ultimately have "bracketed_host_ok (show_ip a)" by (simp add: bracketed_host_ok_def IPv6)
    moreover have set1: "CHR ''['' \<in> set ?n" "CHR '']'' \<in> set ?n" unfolding n by simp_all
    ultimately show ?thesis
      by (simp only: host_and_port_def brackets_ok_def Let_def after_last_id [OF at] after1 before1 inner before_after_hit) simp
  qed
  then show "host_and_port ?n = (show_ip a, p)" "brackets_ok ?n" by simp_all
qed

lemma show_ip_lower:
  "wf_ip a \<Longrightarrow> (if CHR ''%'' \<in> set (show_ip a) then lower (before CHR ''%'' (show_ip a)) @ ''%'' @ after CHR ''%'' (show_ip a)
      else lower (show_ip a)) = show_ip a"
proof (induction a rule: show_ip.induct)
  case (1 n)
  then show ?case using ipv4_marks [of n] by simp
next
  case (2 n)
  then show ?case using ipv6_marks [of n] by simp
next
  case (3 n scope)
  then show ?case using ipv6_marks [of n] by simp
qed

lemma endpoint_text_strip: "scheme \<in> {''http'', ''https''} \<Longrightarrow> strip (endpoint_text scheme a port) = endpoint_text scheme a port"
  by (intro strip_id) (auto simp: endpoint_text_def is_ws_def code_def)

text \<open>What a URL that consists of scheme, address and port is split into\<close>

lemma endpoint_split:
  assumes "scheme \<in> {''http'', ''https''}" "wf_ip a" "plain_ip a" "1 \<le> port" "port \<le> 65535"
  shows "\<exists>u. urlsplit (strip (endpoint_text scheme a port)) = Inr u \<and> url_scheme u = scheme \<and> CHR ''@'' \<notin> set (url_netloc u)
    \<and> url_path u = ''/'' \<and> url_query u = [] \<and> url_fragment u = [] \<and> url_hostname u = show_ip a \<and> url_port u = Inr (Some port)"
proof -
  have sch: "CHR '':'' \<notin> set scheme" "scheme \<noteq> []" "is_alpha (hd scheme)" "list_all scheme_char scheme" "lower scheme = scheme"
    "hd scheme = CHR ''h''"
    using assms(1) by (auto simp: is_alpha_def scheme_char_def is_alnum_def is_digit_def lower_def lower_char_def is_upper_def code_def)
  let ?p = "show_int port"
  have p: "?p = show_nonneg port" using assms(4) by (simp add: show_int_def)
  have digits: "\<forall>c\<in>set ?p. is_digit c" using show_nonneg_digits [of port] assms(4) by (simp add: p list_all_iff)
  then have marks: "CHR ''@'' \<notin> set ?p" "CHR ''['' \<notin> set ?p" "CHR '']'' \<notin> set ?p"
    by (auto simp: is_digit_def code_def)
  let ?n = "address_authority a @ CHR '':'' # ?p"
  note split = authority_split [OF assms(2,3) marks]
  have e: "endpoint_text scheme a port = scheme @ CHR '':'' # ''//'' @ ?n @ ''/''" by (simp add: endpoint_text_def)
  have clean: "\<forall>c\<in>set ?n. \<not> netloc_end c \<and> code c \<notin> {9, 10, 13}"
    using assms(3) digits by (auto simp: plain_ip_def address_authority_def netloc_end_def is_digit_def code_def)
  have st: "strip (endpoint_text scheme a port) = endpoint_text scheme a port" by (rule endpoint_text_strip [OF assms(1)])
  have dw: "dropWhile (\<lambda>c. code c \<le> 32) (endpoint_text scheme a port) = endpoint_text scheme a port"
    using sch by (cases scheme) (simp_all add: endpoint_text_def code_def)
  have "\<forall>c\<in>set scheme. code c \<notin> {9, 10, 13}" using sch(4) by (auto simp: list_all_iff scheme_char_def is_alnum_def code_def)
  then have "filter (\<lambda>c. code c \<notin> {9, 10, 13}) (endpoint_text scheme a port) = endpoint_text scheme a port"
    using clean by (intro filter_True) (auto simp: e code_def)
  then have url: "clean_url (endpoint_text scheme a port) = endpoint_text scheme a port" by (simp only: clean_url_def dw)
  have e1: "before CHR '':'' (endpoint_text scheme a port) = scheme" "after CHR '':'' (endpoint_text scheme a port) = ''//'' @ ?n @ ''/''"
    "CHR '':'' \<in> set (endpoint_text scheme a port)"
    unfolding e by (rule before_append [OF sch(1)], rule after_append [OF sch(1)], simp)
  have take: "take_scheme (endpoint_text scheme a port) = (scheme, ''//'' @ ?n @ ''/'')"
    unfolding take_scheme_def e1 Let_def using sch e1(3) by simp
  have n1: "drop 2 (''//'' @ ?n @ ''/'') = ?n @ ''/''" "starts_with ''//'' (''//'' @ ?n @ ''/'')"
    by (simp_all add: starts_with_def)
  have slash: "netloc_end CHR ''/''" by (simp add: netloc_end_def)
  have stay: "c \<in> set ?n \<Longrightarrow> \<not> netloc_end c" for c using clean by blast
  have t1: "takeWhile (\<lambda>c. \<not> netloc_end c) (?n @ ''/'') = ?n"
    using slash by (simp only: takeWhile_append2 [of ?n "\<lambda>c. \<not> netloc_end c", OF stay]) simp
  have t2: "dropWhile (\<lambda>c. \<not> netloc_end c) (?n @ ''/'') = ''/''"
    using slash by (simp only: dropWhile_append2 [of ?n "\<lambda>c. \<not> netloc_end c", OF stay]) simp
  let ?u = "\<lparr>url_scheme = scheme, url_netloc = ?n, url_path = ''/'', url_query = [], url_fragment = []\<rparr>"
  have "urlsplit (strip (endpoint_text scheme a port)) = Inr ?u"
    unfolding urlsplit_def Let_def st url take prod.case using split(2)
    by (simp only: simp_thms if_True n1 t1 t2) simp
  moreover have "url_hostname ?u = show_ip a"
    using show_ip_lower [OF assms(2)] by (simp only: url_hostname_def split_url.simps split(1) fst_conv Let_def)
  moreover have "url_port ?u = Inr (Some port)"
  proof -
    have "host_and_port (url_netloc ?u) = (show_ip a, ?p)" by (simp only: split_url.simps split(1))
    then show ?thesis using assms(4,5) unfolding url_port_def Let_def by (simp add: p)
  qed
  moreover have "CHR ''@'' \<notin> set ?n" using clean assms(3) marks by (auto simp: address_authority_def plain_ip_def code_def)
  ultimately show ?thesis by (intro exI [of _ ?u]) simp
qed

text \<open>An accepted endpoint is in the normal form of its scheme, address and port.\<close>

lemma parse_ip_scope_chars: "parse_ip s = Some a \<Longrightarrow> c \<in> set (show_ip a) \<Longrightarrow> is_hex c \<or> c = CHR '':'' \<or> c = CHR ''.'' \<or> c = CHR ''%'' \<or> c \<in> set s"
proof -
  assume a: "parse_ip s = Some a" and c: "c \<in> set (show_ip a)"
  from a have wf: "wf_ip a" by (rule parse_ip_wf)
  show ?thesis
  proof (cases "CHR ''%'' \<in> set (show_ip a)")
    case False
    with show_ip_chars [OF wf False c] show ?thesis by blast
  next
    case True
    then obtain n sc where sc: "a = IPv6 n (Some sc)"
      using show_ip_chars wf ipv4_marks ipv6_marks by (cases a rule: show_ip.cases) auto
    with a have "sc \<in> set (split_on CHR ''%'' s)"
      by (auto simp: parse_ip_def parse_ipv6_def split: option.splits if_splits list.splits)
    then have "set sc \<subseteq> set s" using split_on_parts by blast
    with c wf sc show_ipv6_chars [of n c] show ?thesis by auto
  qed
qed

lemma url_hostname_chars:
  "c \<in> set (url_hostname u) \<Longrightarrow> \<exists>d\<in>set (fst (host_and_port (url_netloc u))). c = d \<or> c = lower_char d \<or> c = CHR ''%''"
  using set_before(1) [of "CHR ''%''" "fst (host_and_port (url_netloc u))"] set_after [of "CHR ''%''" "fst (host_and_port (url_netloc u))"]
  by (auto simp: url_hostname_def Let_def lower_def split: if_splits)

lemma host_chars:
  assumes "brackets_ok n" "CHR ''@'' \<notin> set n"
  shows "set (fst (host_and_port n)) \<subseteq> set n" "CHR '']'' \<notin> set (fst (host_and_port n))"
proof -
  have h: "after_last CHR ''@'' n = n" by (rule after_last_id [OF assms(2)])
  show "set (fst (host_and_port n)) \<subseteq> set n"
    using set_before(1) [of "CHR '']''" "after CHR ''['' n"] set_after [of "CHR ''[''" n] set_before(1) [of "CHR '':''" n]
    by (auto simp: host_and_port_def Let_def h)
  show "CHR '']'' \<notin> set (fst (host_and_port n))"
  proof (cases "CHR ''['' \<in> set n")
    case True
    then show ?thesis using set_before(2) by (simp add: host_and_port_def Let_def h)
  next
    case False
    then have "CHR '']'' \<notin> set n" using assms(1) by (simp add: brackets_ok_def Let_def split: if_splits)
    with False set_before(1) [of "CHR '':''" n] show ?thesis by (auto simp: host_and_port_def Let_def h)
  qed
qed

lemma urlsplit_netloc: "urlsplit s = Inr u \<Longrightarrow> brackets_ok (url_netloc u) \<and> (\<forall>c\<in>set (url_netloc u). \<not> netloc_end c \<and> code c \<notin> {9, 10, 13})"
proof -
  assume u: "urlsplit s = Inr u"
  let ?url = "clean_url s"
  obtain scheme1 rest where t: "take_scheme ?url = (scheme1, rest)" by fastforce
  have "set rest \<subseteq> set ?url" using t set_after [of "CHR '':''" ?url] by (auto simp: take_scheme_def Let_def split: if_splits)
  then have r: "set (drop 2 rest) \<subseteq> set ?url" using set_drop_subset [of 2 rest] by blast
  have c: "c \<in> set ?url \<Longrightarrow> code c \<notin> {9, 10, 13}" for c by (simp add: clean_url_def)
  have b: "brackets_ok (url_netloc u)"
    and n: "url_netloc u = (if starts_with ''//'' rest then takeWhile (\<lambda>c. \<not> netloc_end c) (drop 2 rest) else [])"
    using u by (auto simp: urlsplit_def t Let_def split: if_splits)
  have "\<not> netloc_end c \<and> code c \<notin> {9, 10, 13}" if "c \<in> set (url_netloc u)" for c
  proof -
    from that n have "c \<in> set (takeWhile (\<lambda>c. \<not> netloc_end c) (drop 2 rest))" by (simp split: if_splits)
    from set_takeWhileD [OF this] r c show ?thesis by blast
  qed
  with b show ?thesis by blast
qed

lemma endpoint_result:
  "normalize_virtual_host_endpoint e = Inr t \<Longrightarrow>
   \<exists>scheme a port. t = endpoint_text scheme a port \<and> scheme \<in> {''http'', ''https''} \<and> wf_ip a \<and> plain_ip a \<and> 1 \<le> port \<and> port \<le> 65535"
proof -
  assume "normalize_virtual_host_endpoint e = Inr t"
  then obtain u a port where u: "urlsplit (strip e) = Inr u" and sch: "url_scheme u \<in> {''http'', ''https''}"
    and at: "CHR ''@'' \<notin> set (url_netloc u)" and a: "parse_ip (url_hostname u) = Some a"
    and t: "t = endpoint_text (url_scheme u) a port" "1 \<le> port" "port \<le> 65535"
    by (auto simp: normalize_virtual_host_endpoint_def bindR_Inr_iff Let_def split: if_splits option.splits sum.splits)
  note n = urlsplit_netloc [OF u]
  have netloc: "c \<in> set (fst (host_and_port (url_netloc u))) \<Longrightarrow> code c \<notin> {9, 10, 13, 35, 47, 63, 64, 93}" for c
  proof -
    assume c: "c \<in> set (fst (host_and_port (url_netloc u)))"
    from n host_chars(1) [of "url_netloc u"] at c have "c \<in> set (url_netloc u)" by blast
    with n at have "\<not> netloc_end c" "code c \<notin> {9, 10, 13}" "c \<noteq> CHR ''@''" by auto
    moreover have "c \<noteq> CHR '']''" using n host_chars(2) [of "url_netloc u"] at c by blast
    moreover have "code CHR ''/'' = 47" "code CHR ''?'' = 63" "code CHR ''#'' = 35" "code CHR ''@'' = 64" "code CHR '']'' = 93"
      by (simp_all add: code_def)
    ultimately show ?thesis using code_inj by (auto simp: netloc_end_def) (metis code_inj)+
  qed
  have low: "code d \<notin> {9, 10, 13, 35, 47, 63, 64, 93} \<Longrightarrow> code (lower_char d) \<notin> {9, 10, 13, 35, 47, 63, 64, 93}" for d
  proof (cases "is_upper d")
    case True
    then have r: "65 \<le> code d" "code d \<le> 222" by (auto simp: is_upper_def)
    then have "code (lower_char d) = code d + 32" using True by (simp add: lower_char_def)
    then show ?thesis using r by simp
  next
    case False
    assume "code d \<notin> {9, 10, 13, 35, 47, 63, 64, 93}"
    then show ?thesis using False by (simp add: lower_char_def)
  qed
  have "plain_ip a"
    unfolding plain_ip_def
  proof
    fix c
    assume "c \<in> set (show_ip a)"
    from parse_ip_scope_chars [OF a this] show "code c \<notin> {9, 10, 13, 35, 47, 63, 64, 93}"
    proof (elim disjE)
      assume "c \<in> set (url_hostname u)"
      from url_hostname_chars [OF this] obtain d where "d \<in> set (fst (host_and_port (url_netloc u)))" "c = d \<or> c = lower_char d \<or> c = CHR ''%''"
        by blast
      with netloc low show ?thesis by (auto simp: code_def)
    qed (auto simp: is_hex_def code_def)
  qed
  with parse_ip_wf [OF a] sch t show ?thesis by blast
qed

lemma endpoint_text_normal:
  assumes "scheme \<in> {''http'', ''https''}" "wf_ip a" "plain_ip a" "1 \<le> port" "port \<le> 65535"
  shows "normalize_virtual_host_endpoint (endpoint_text scheme a port) = Inr (endpoint_text scheme a port)"
  using endpoint_split [OF assms] parse_show_ip [OF assms(2)] assms(1,4,5)
  by (auto simp: normalize_virtual_host_endpoint_def)

interpretation endpoint_norm: normaliser normalize_virtual_host_endpoint
  by unfold_locales (auto dest!: endpoint_result simp: endpoint_text_normal)

text \<open>C31: Endpoints have one normal form. What the normaliser accepts it returns as scheme, literal address and
  explicit port of 1 to 65535, a text it maps to itself and that \<open>urlsplit\<close> takes apart into exactly these
  parts; and every scheme, address and port written this way (addresses whose zone holds no delimiter of a
  URL) is accepted unchanged.\<close>

theorem endpoint_normal_form:
  "(normalize_virtual_host_endpoint e = Inr t \<longrightarrow>
      normalize_virtual_host_endpoint t = Inr t
      \<and> (\<exists>scheme a port u. t = endpoint_text scheme a port \<and> scheme \<in> {''http'', ''https''} \<and> 1 \<le> port \<and> port \<le> 65535
           \<and> urlsplit t = Inr u \<and> url_scheme u = scheme \<and> parse_ip (url_hostname u) = Some a \<and> url_port u = Inr (Some port)))
   \<and> (scheme1 \<in> {''http'', ''https''} \<and> wf_ip b \<and> plain_ip b \<and> 1 \<le> port1 \<and> port1 \<le> 65535 \<longrightarrow>
      normalize_virtual_host_endpoint (endpoint_text scheme1 b port1) = Inr (endpoint_text scheme1 b port1))"
proof (intro conjI impI)
  assume t: "normalize_virtual_host_endpoint e = Inr t"
  then show "normalize_virtual_host_endpoint t = Inr t" by (rule endpoint_norm.norm_stable)
  from endpoint_result [OF t] obtain scheme a port where p: "t = endpoint_text scheme a port" "scheme \<in> {''http'', ''https''}"
    "wf_ip a" "plain_ip a" "1 \<le> port" "port \<le> 65535" by blast
  from endpoint_split [OF p(2-6)] obtain u where "urlsplit (strip t) = Inr u" "url_scheme u = scheme" "url_hostname u = show_ip a"
    "url_port u = Inr (Some port)" unfolding p(1) by blast
  moreover have "strip t = t" using endpoint_text_strip [OF p(2)] by (simp add: p(1))
  ultimately show "\<exists>scheme a port u. t = endpoint_text scheme a port \<and> scheme \<in> {''http'', ''https''} \<and> 1 \<le> port \<and> port \<le> 65535
           \<and> urlsplit t = Inr u \<and> url_scheme u = scheme \<and> parse_ip (url_hostname u) = Some a \<and> url_port u = Inr (Some port)"
    using p parse_show_ip [OF p(3)] by auto
qed (simp add: endpoint_text_normal)

lemma endpoint_normal_form_witness:
  "normalize_virtual_host_endpoint ''  HTTP://[2001:DB8::1]:8080 '' = Inr ''http://[2001:db8::1]:8080/''
   \<and> normalize_virtual_host_endpoint ''http://[2001:db8::1]:8080/'' = Inr ''http://[2001:db8::1]:8080/''"
proof -
  have v: "normalize_virtual_host_endpoint ''  HTTP://[2001:DB8::1]:8080 '' = Inr ''http://[2001:db8::1]:8080/''" by code_simp
  from conjunct1 [OF mp [OF conjunct1 [OF endpoint_normal_form] v]] v show ?thesis by (rule conjI [rotated])
qed

end
