(* ===== verification/Virtual_Host_Plan.thy ===== *)
theory Virtual_Host_Plan
  imports Endpoint_Url
begin

text \<open>
  Planning of virtual-host probes (lib/virtual_host.py): limits, candidates, the shape of a name, the
  request with its checks, control names that no candidate uses, the endpoints of harvested addresses and
  the candidates that fit a budget of requests.
\<close>

section \<open>Limits and candidates\<close>

definition VHOST_CONTROL_COUNT :: nat where "VHOST_CONTROL_COUNT = 3"
definition VHOST_BASELINE_REQUEST_COUNT :: nat where "VHOST_BASELINE_REQUEST_COUNT = 1 + VHOST_CONTROL_COUNT"

record vhost_limits =
  vh_request_limit :: int
  vh_runtime_seconds :: rat
  vh_timeout_seconds :: rat
  vh_concurrency :: int

text \<open>An int or a float that is finite, no bool\<close>

fun seconds_of :: "json \<Rightarrow> rat option" where
  "seconds_of (JInt i) = Some (of_int i)"
| "seconds_of (JFloat r) = r"
| "seconds_of v = None"

fun json_int :: "json \<Rightarrow> int option" where
  "json_int (JInt i) = Some i"
| "json_int v = None"

definition new_limits_check :: "json \<Rightarrow> json \<Rightarrow> json \<Rightarrow> json \<Rightarrow> vhost_limits res" where
  "new_limits_check request_limit runtime timeout concurrency =
     (case json_int request_limit of None \<Rightarrow> Inl (ValueError ''virtual-host request limit must be an integer'')
      | Some n \<Rightarrow>
     (case json_int concurrency of None \<Rightarrow> Inl (ValueError ''virtual-host concurrency must be an integer'')
      | Some c \<Rightarrow>
        if n \<le> int VHOST_BASELINE_REQUEST_COUNT
        then Inl (ValueError (''virtual-host request limit must be greater than '' @ show_int (int VHOST_BASELINE_REQUEST_COUNT)))
        else
     (case seconds_of runtime of None \<Rightarrow> Inl (ValueError ''virtual-host runtime seconds must be positive and finite'')
      | Some r \<Rightarrow>
        if r \<le> 0 then Inl (ValueError ''virtual-host runtime seconds must be positive and finite'')
        else
     (case seconds_of timeout of None \<Rightarrow> Inl (ValueError ''virtual-host timeout seconds must be positive and finite'')
      | Some t \<Rightarrow>
        if t \<le> 0 then Inl (ValueError ''virtual-host timeout seconds must be positive and finite'')
        else if c \<le> 0 then Inl (ValueError ''virtual-host concurrency must be positive'')
        else Inr \<lparr>vh_request_limit = n, vh_runtime_seconds = r, vh_timeout_seconds = t, vh_concurrency = c\<rparr>))))"

definition candidate_shape :: "string \<Rightarrow> string \<Rightarrow> nat list" where
  "candidate_shape candidate scope =
     (if candidate = scope then [1]
      else map length (split_on CHR ''.'' (take (length candidate - (length scope + 1)) candidate)))"

fun add_candidates :: "string \<Rightarrow> string list \<Rightarrow> string list \<Rightarrow> string list res" where
  "add_candidates scope [] normalized = Inr normalized"
| "add_candidates scope (candidate # rest) normalized =
     bindR (normalize_hostname candidate) (\<lambda>name.
       if name \<noteq> scope \<and> \<not> ends_with (''.'' @ scope) name
       then Inl (ValueError (''virtual-host candidate is outside authorized scope: '' @ candidate))
       else add_candidates scope rest (if name \<in> set normalized then normalized else normalized @ [name]))"

definition normalize_virtual_host_candidates :: "string \<Rightarrow> string list \<Rightarrow> string list res" where
  "normalize_virtual_host_candidates scope candidates =
     bindR (normalize_hostname scope) (\<lambda>normalized_scope. add_candidates normalized_scope candidates [])"

section \<open>Requests\<close>

record vhost_request =
  req_endpoint :: string
  req_scope :: string
  req_candidates :: "string list"
  req_limits :: vhost_limits
  req_insecure :: bool

text \<open>The dictionary \<open>shape_counts\<close>; the scope itself occupies no name of its shape.\<close>

fun count_shapes :: "string \<Rightarrow> string list \<Rightarrow> (nat list \<times> nat) list \<Rightarrow> (nat list \<times> nat) list" where
  "count_shapes scope [] counts = counts"
| "count_shapes scope (candidate # rest) counts =
     (let shape = candidate_shape candidate scope;
          n = (case map_of counts shape of None \<Rightarrow> 0 | Some n \<Rightarrow> n)
      in count_shapes scope rest (AList.update shape (if candidate \<noteq> scope then n + 1 else n) counts))"

definition capacity :: "nat list \<Rightarrow> nat" where
  "capacity shape = 36 ^ sum_list shape"

definition few_controls_error :: err where
  "few_controls_error = ValueError ''virtual-host candidate shape leaves fewer than three available unknown controls''"

definition new_vhost_request :: "string \<Rightarrow> string \<Rightarrow> string list \<Rightarrow> vhost_limits \<Rightarrow> bool \<Rightarrow> vhost_request res" where
  "new_vhost_request endpoint scope candidates limits insecure =
     bindR (normalize_virtual_host_endpoint endpoint) (\<lambda>normalized_endpoint.
     bindR (normalize_hostname scope) (\<lambda>normalized_scope.
     bindR (normalize_virtual_host_candidates normalized_scope candidates) (\<lambda>names.
       if names = [] then Inl (ValueError ''virtual-host discovery requires at least one candidate'')
       else (let counts = count_shapes normalized_scope names [];
                 minimum = 1 + VHOST_CONTROL_COUNT * length counts
             in if list_ex (\<lambda>(shape, n). capacity shape < n + VHOST_CONTROL_COUNT) counts then Inl few_controls_error
                else if vh_request_limit limits \<le> int minimum
                then Inl (ValueError (''virtual-host request limit must be greater than the '' @ show_int (int minimum)
                            @ '' required context and control requests''))
                else Inr \<lparr>req_endpoint = normalized_endpoint, req_scope = normalized_scope, req_candidates = names,
                          req_limits = limits, req_insecure = insecure\<rparr>))))"

section \<open>Control names\<close>

definition alphabet :: string where
  "alphabet = ''abcdefghijklmnopqrstuvwxyz0123456789''"

text \<open>The digits of a number in base 36, filled in from the last position\<close>

fun encode_digits :: "nat \<Rightarrow> nat \<Rightarrow> string" where
  "encode_digits 0 v = []"
| "encode_digits (Suc k) v = encode_digits k (v div 36) @ [alphabet ! (v mod 36)]"

fun cut_labels :: "nat list \<Rightarrow> string \<Rightarrow> string list" where
  "cut_labels [] s = []"
| "cut_labels (l # ls) s = take l s # cut_labels ls (drop l s)"

definition control_name :: "nat list \<Rightarrow> string \<Rightarrow> nat \<Rightarrow> string" where
  "control_name shape scope v = join ''.'' (cut_labels shape (encode_digits (sum_list shape) v) @ [scope])"

text \<open>The loop over the offsets: \<open>taken\<close> is \<open>used_for_shape\<close>, \<open>used\<close> the caller's \<open>used_names\<close>.\<close>

fun pick_controls :: "nat list \<Rightarrow> string \<Rightarrow> nat \<Rightarrow> nat \<Rightarrow> string list \<Rightarrow> string list \<Rightarrow> string list \<Rightarrow> (string list \<times> string list) res" where
  "pick_controls shape scope 0 v taken used names = Inl few_controls_error"
| "pick_controls shape scope (Suc k) v taken used names =
     (let name = control_name shape scope (v mod capacity shape)
      in if name \<in> set taken then pick_controls shape scope k (Suc v) taken used names
         else if length (names @ [name]) = VHOST_CONTROL_COUNT then Inr (names @ [name], name # used)
         else pick_controls shape scope k (Suc v) (name # taken) (name # used) (names @ [name]))"

definition used_for_shape :: "nat list \<Rightarrow> string \<Rightarrow> string list \<Rightarrow> string list" where
  "used_for_shape shape scope used =
     remdups (filter (\<lambda>name. ends_with (''.'' @ scope) name \<and> candidate_shape name scope = shape) used)"

definition new_control_names :: "nat list \<Rightarrow> string \<Rightarrow> string list \<Rightarrow> nat \<Rightarrow> (string list \<times> string list) res" where
  "new_control_names shape scope used start =
     (let taken = used_for_shape shape scope used
      in pick_controls shape scope (length taken + VHOST_CONTROL_COUNT) start taken used [])"

section \<open>Harvested endpoints and budgets\<close>

text \<open>Addresses that differ in their zone only have equal keys; the code leaves their order to the set.\<close>

definition ip_key :: "ip \<Rightarrow> nat \<times> int" where
  "ip_key a = (version a, ip_int a)"

definition harvested_endpoints :: "string list \<Rightarrow> string list" where
  "harvested_endpoints addresses =
     (let ordered = canon_by ip_key (List.map_filter (\<lambda>v. parse_ip (strip v)) addresses)
      in concat (map (\<lambda>(scheme, port). map (\<lambda>a. endpoint_text scheme a port) ordered) [(''https'', 443), (''http'', 80)]))"

fun budget_candidates ::
  "string \<Rightarrow> int \<Rightarrow> string list \<Rightarrow> string list \<Rightarrow> (nat list \<times> nat) list \<Rightarrow> bool \<Rightarrow> string list \<times> bool" where
  "budget_candidates scope request_limit [] selected counts truncated = (selected, truncated)"
| "budget_candidates scope request_limit (candidate # rest) selected counts truncated =
     (let shape = candidate_shape candidate scope;
          n = (case map_of counts shape of None \<Rightarrow> 0 | Some n \<Rightarrow> n) + (if candidate \<noteq> scope then 1 else 0);
          shape_total = length (AList.update shape n counts);
          minimum = 1 + VHOST_CONTROL_COUNT * shape_total + length selected + 1
      in if capacity shape < n + VHOST_CONTROL_COUNT \<or> request_limit < int minimum
         then budget_candidates scope request_limit rest selected counts True
         else budget_candidates scope request_limit rest (selected @ [candidate]) (AList.update shape n counts) truncated)"

definition candidates_for_budget :: "string \<Rightarrow> string list \<Rightarrow> int \<Rightarrow> string list \<times> bool" where
  "candidates_for_budget scope candidates request_limit = budget_candidates scope request_limit candidates [] [] False"

section \<open>Control names are fresh\<close>

lemma length_encode [simp]: "length (encode_digits k v) = k"
  by (induction k arbitrary: v) simp_all

lemma alphabet_facts: "length alphabet = 36" "distinct alphabet" "CHR ''.'' \<notin> set alphabet"
  by code_simp+

lemma encode_inj: "v < 36 ^ k \<Longrightarrow> w < 36 ^ k \<Longrightarrow> encode_digits k v = encode_digits k w \<Longrightarrow> v = w"
proof (induction k arbitrary: v w)
  case (Suc k)
  from Suc(2,3) have "v div 36 < 36 ^ k" "w div 36 < 36 ^ k" by (simp_all add: less_mult_imp_div_less mult.commute)
  with Suc(1,4) have "v div 36 = w div 36" by simp
  moreover have "v mod 36 = w mod 36"
    using Suc(4) alphabet_facts(1,2) by (simp add: nth_eq_iff_index_eq)
  ultimately show ?case by (metis div_mult_mod_eq)
qed simp

lemma encode_chars: "c \<in> set (encode_digits k v) \<Longrightarrow> c \<in> set alphabet"
  by (induction k arbitrary: v) (auto simp: alphabet_facts intro!: nth_mem)

lemma concat_cut: "length s = sum_list shape \<Longrightarrow> concat (cut_labels shape s) = s"
  by (induction shape arbitrary: s) simp_all

lemma map_length_cut: "length s = sum_list shape \<Longrightarrow> map length (cut_labels shape s) = shape"
  by (induction shape arbitrary: s) simp_all

lemma set_cut: "l \<in> set (cut_labels shape s) \<Longrightarrow> set l \<subseteq> set s"
  by (induction shape arbitrary: s) (auto dest: in_set_takeD in_set_dropD)

lemma cut_ne [simp]: "cut_labels shape s = [] \<longleftrightarrow> shape = []"
  by (cases shape) simp_all

definition relative_name :: "nat list \<Rightarrow> nat \<Rightarrow> string" where
  "relative_name shape v = join ''.'' (cut_labels shape (encode_digits (sum_list shape) v))"

lemma control_name_relative: "shape \<noteq> [] \<Longrightarrow> control_name shape scope v = relative_name shape v @ ''.'' @ scope"
  by (simp add: control_name_def relative_name_def join_append)

lemma split_relative:
  "shape \<noteq> [] \<Longrightarrow> split_on CHR ''.'' (relative_name shape v) = cut_labels shape (encode_digits (sum_list shape) v)"
  unfolding relative_name_def using set_cut encode_chars alphabet_facts(3)
  by (intro split_join) (simp, blast)

lemma control_name_inj:
  assumes "shape \<noteq> []" "v < capacity shape" "w < capacity shape" "control_name shape scope v = control_name shape scope w"
  shows "v = w"
proof -
  have "relative_name shape v = relative_name shape w" using assms(4) by (simp add: control_name_relative assms(1))
  then have "cut_labels shape (encode_digits (sum_list shape) v) = cut_labels shape (encode_digits (sum_list shape) w)"
    by (metis split_relative assms(1))
  then have "encode_digits (sum_list shape) v = encode_digits (sum_list shape) w" by (metis concat_cut length_encode)
  with assms(2,3) show ?thesis unfolding capacity_def by (rule encode_inj)
qed

lemma control_name_shape: "shape \<noteq> [] \<Longrightarrow> candidate_shape (control_name shape scope v) scope = shape"
  by (simp add: candidate_shape_def control_name_relative split_relative map_length_cut)

lemma control_name_in_scope: "shape \<noteq> [] \<Longrightarrow> ends_with (''.'' @ scope) (control_name shape scope v)"
  by (auto simp: control_name_relative ends_with_iff)

text \<open>How many of the next \<open>k\<close> names are taken\<close>

definition hits :: "nat list \<Rightarrow> string \<Rightarrow> nat \<Rightarrow> nat \<Rightarrow> string list \<Rightarrow> nat" where
  "hits shape scope k v taken = length (filter (\<lambda>i. control_name shape scope ((v + i) mod capacity shape) \<in> set taken) [0..<k])"

lemma hits_Suc:
  "hits shape scope (Suc k) v taken
     = (if control_name shape scope (v mod capacity shape) \<in> set taken then 1 else 0) + hits shape scope k (Suc v) taken"
proof -
  have "[0..<Suc k] = 0 # map Suc [0..<k]" by (simp add: map_Suc_upt upt_conv_Cons del: upt_Suc)
  then show ?thesis by (simp add: hits_def filter_map comp_def del: upt_Suc)
qed

lemma capacity_pos: "0 < capacity shape"
  by (simp add: capacity_def)

lemma window_distinct:
  assumes "shape \<noteq> []" "i < k" "k < capacity shape"
  shows "control_name shape scope ((Suc v + i) mod capacity shape) \<noteq> control_name shape scope (v mod capacity shape)"
proof
  assume "control_name shape scope ((Suc v + i) mod capacity shape) = control_name shape scope (v mod capacity shape)"
  then have "(Suc v + i) mod capacity shape = v mod capacity shape"
    by (rule control_name_inj [rotated 3]) (simp_all add: assms(1) capacity_pos)
  then have "capacity shape dvd Suc i" by (metis add_Suc_right add_Suc add_diff_cancel_left' mod_eq_dvd_iff_nat le_add1)
  with assms(2,3) show False by (auto dest: dvd_imp_le)
qed

lemma hits_fresh:
  "shape \<noteq> [] \<Longrightarrow> k < capacity shape \<Longrightarrow>
   hits shape scope k (Suc v) (control_name shape scope (v mod capacity shape) # taken) = hits shape scope k (Suc v) taken"
  unfolding hits_def using window_distinct [of shape _ k scope v]
  by (intro arg_cong [of _ _ length] filter_cong) auto

lemma shifted_mod_inj: "(v + i) mod c = (v + j) mod c \<Longrightarrow> i < c \<Longrightarrow> j < c \<Longrightarrow> i = j" for v i j c :: nat
proof (induction i j rule: linorder_wlog)
  case (le i j)
  then have "c dvd (v + j) - (v + i)" by (metis add_le_cancel_left mod_eq_dvd_iff_nat)
  then have "c dvd j - i" by simp
  with le show ?case using nat_dvd_not_less [of "j - i" c] by (cases "i = j") simp_all
qed simp

lemma hits_bound:
  assumes "shape \<noteq> []" "k \<le> capacity shape" "distinct taken"
  shows "hits shape scope k v taken \<le> length taken"
proof -
  let ?f = "\<lambda>i. control_name shape scope ((v + i) mod capacity shape)"
  let ?is = "filter (\<lambda>i. ?f i \<in> set taken) [0..<k]"
  have "inj_on ?f (set ?is)"
  proof (rule inj_onI)
    fix i j
    assume ij: "i \<in> set ?is" "j \<in> set ?is" and "?f i = ?f j"
    then have "(v + i) mod capacity shape = (v + j) mod capacity shape"
      using control_name_inj [OF assms(1)] capacity_pos by (metis mod_less_divisor)
    moreover have "i < capacity shape" "j < capacity shape" using ij assms(2) by auto
    ultimately show "i = j" by (rule shifted_mod_inj)
  qed
  then have "card (?f ` set ?is) = length ?is" using distinct_card [of ?is] by (simp only: card_image distinct_filter distinct_upt)
  moreover have "card (?f ` set ?is) \<le> card (set taken)" by (rule card_mono) auto
  ultimately show ?thesis using distinct_card [OF assms(3)] by (simp add: hits_def)
qed

lemma pick_controls_fresh:
  assumes "shape \<noteq> []"
  shows "k \<le> capacity shape \<Longrightarrow> length names < VHOST_CONTROL_COUNT \<Longrightarrow>
    VHOST_CONTROL_COUNT + hits shape scope k v taken \<le> k + length names \<Longrightarrow>
    \<exists>new. pick_controls shape scope k v taken used names = Inr (names @ new, rev new @ used)
      \<and> length (names @ new) = VHOST_CONTROL_COUNT \<and> distinct new \<and> set new \<inter> set taken = {}
      \<and> (\<forall>n\<in>set new. \<exists>v. n = control_name shape scope v)"
proof (induction k arbitrary: v taken used names)
  case (Suc k)
  let ?n = "control_name shape scope (v mod capacity shape)"
  show ?case
  proof (cases "?n \<in> set taken")
    case True
    with Suc(1) [of names "Suc v" taken used] Suc(2-4) show ?thesis by (simp add: hits_Suc)
  next
    case False
    show ?thesis
    proof (cases "length (names @ [?n]) = VHOST_CONTROL_COUNT")
      case True
      with False show ?thesis by (intro exI [of _ "[?n]"]) (auto simp: Let_def)
    next
      case more: False
      have "hits shape scope k (Suc v) (?n # taken) = hits shape scope k (Suc v) taken" using assms Suc(2) by (intro hits_fresh) simp_all
      with Suc(2-4) False more have "k \<le> capacity shape" "length (names @ [?n]) < VHOST_CONTROL_COUNT"
        "VHOST_CONTROL_COUNT + hits shape scope k (Suc v) (?n # taken) \<le> k + length (names @ [?n])"
        by (simp_all add: hits_Suc)
      from Suc(1) [OF this] obtain new where new:
        "pick_controls shape scope k (Suc v) (?n # taken) (?n # used) (names @ [?n]) = Inr ((names @ [?n]) @ new, rev new @ ?n # used)"
        "length ((names @ [?n]) @ new) = VHOST_CONTROL_COUNT" "distinct new" "set new \<inter> set (?n # taken) = {}"
        "\<forall>n\<in>set new. \<exists>v. n = control_name shape scope v" by blast
      with False more show ?thesis by (intro exI [of _ "?n # new"]) (auto simp: Let_def)
    qed
  qed
qed simp

definition fresh_controls :: "nat list \<Rightarrow> string \<Rightarrow> string list \<Rightarrow> string list \<Rightarrow> bool" where
  "fresh_controls shape scope used names =
     (length names = VHOST_CONTROL_COUNT \<and> distinct names \<and> set names \<inter> set used = {}
      \<and> list_all (\<lambda>n. ends_with (''.'' @ scope) n \<and> candidate_shape n scope = shape) names)"

lemma new_control_names_fresh:
  assumes "shape \<noteq> []" "length (used_for_shape shape scope used) + VHOST_CONTROL_COUNT \<le> capacity shape"
  shows "\<exists>names. new_control_names shape scope used start = Inr (names, rev names @ used) \<and> fresh_controls shape scope used names"
proof -
  let ?taken = "used_for_shape shape scope used"
  let ?k = "length ?taken + VHOST_CONTROL_COUNT"
  have "VHOST_CONTROL_COUNT + hits shape scope ?k start ?taken \<le> ?k + length ([] :: string list)"
    using hits_bound [OF assms, of ?taken scope start] by (simp add: used_for_shape_def)
  from pick_controls_fresh [OF assms(1,2) _ this, of used] obtain new where new:
    "pick_controls shape scope ?k start ?taken used [] = Inr (new, rev new @ used)" "length new = VHOST_CONTROL_COUNT" "distinct new"
    "set new \<inter> set ?taken = {}" "\<forall>n\<in>set new. \<exists>v. n = control_name shape scope v"
    by (auto simp: VHOST_CONTROL_COUNT_def)
  have all: "ends_with (''.'' @ scope) n \<and> candidate_shape n scope = shape" if "n \<in> set new" for n
    using bspec [OF new(5) that] control_name_in_scope [OF assms(1)] control_name_shape [OF assms(1)] by auto
  then have "set new \<inter> set used = {}" using new(4) by (auto simp: used_for_shape_def)
  with new all show ?thesis by (simp add: new_control_names_def fresh_controls_def list_all_iff)
qed

section \<open>Candidates of a request\<close>

definition in_scope :: "string \<Rightarrow> string \<Rightarrow> bool" where
  "in_scope scope name = (name = scope \<or> ends_with (''.'' @ scope) name)"

lemma add_candidates_Inr:
  "add_candidates scope cs normalized = Inr names \<Longrightarrow> distinct normalized \<Longrightarrow> list_all (in_scope scope) normalized \<Longrightarrow>
   list_all valid_hostname normalized \<Longrightarrow>
   distinct names \<and> list_all (in_scope scope) names \<and> list_all valid_hostname names \<and> (\<exists>r. names = normalized @ r)
     \<and> set names = set normalized \<union> {h. \<exists>c\<in>set cs. normalize_hostname c = Inr h}"
proof (induction cs arbitrary: normalized)
  case (Cons c cs)
  then obtain h where h: "normalize_hostname c = Inr h" "in_scope scope h"
    and rest: "add_candidates scope cs (if h \<in> set normalized then normalized else normalized @ [h]) = Inr names"
    by (auto simp: bindR_Inr_iff in_scope_def split: if_splits)
  from Cons(1) [OF rest] Cons(3-5) h normalize_hostname_valid [OF h(1)] show ?case by (auto split: if_splits)
qed simp

lemma candidates_fixed:
  "list_all valid_hostname names \<Longrightarrow> list_all (in_scope scope) names \<Longrightarrow> distinct (normalized @ names) \<Longrightarrow>
   add_candidates scope names normalized = Inr (normalized @ names)"
  by (induction names arbitrary: normalized) (auto simp: valid_hostname_normalize in_scope_def)

lemma count_shapes_append: "count_shapes scope (xs @ ys) m = count_shapes scope ys (count_shapes scope xs m)"
  by (induction xs arbitrary: m) (simp_all add: Let_def)

definition shape_count :: "string \<Rightarrow> string list \<Rightarrow> nat list \<Rightarrow> nat" where
  "shape_count scope names shape = length (filter (\<lambda>c. c \<noteq> scope \<and> candidate_shape c scope = shape) names)"

lemma shape_count_none: "shape \<notin> (\<lambda>c. candidate_shape c scope) ` set names \<Longrightarrow> shape_count scope names shape = 0"
  by (auto simp: shape_count_def filter_empty_conv)

lemma shape_count_snoc:
  "shape_count scope (names @ [c]) shape = shape_count scope names shape + (if c \<noteq> scope \<and> candidate_shape c scope = shape then 1 else 0)"
  by (simp add: shape_count_def)

lemma map_of_count_shapes:
  "map_of (count_shapes scope names []) shape =
     (if shape \<in> (\<lambda>c. candidate_shape c scope) ` set names then Some (shape_count scope names shape) else None)"
proof (induction names arbitrary: shape rule: rev_induct)
  case (snoc c names)
  let ?s = "candidate_shape c scope"
  have "(case map_of (count_shapes scope names []) ?s of None \<Rightarrow> 0 | Some n \<Rightarrow> n) = shape_count scope names ?s"
    using snoc [of ?s] by (simp add: shape_count_none)
  then have "count_shapes scope (names @ [c]) [] = AList.update ?s (shape_count scope (names @ [c]) ?s) (count_shapes scope names [])"
    by (cases "c = scope") (simp_all add: count_shapes_append Let_def shape_count_snoc)
  then show ?case using snoc [of shape] by (simp add: update_conv' shape_count_snoc)
qed simp

lemma distinct_count_shapes: "distinct (map fst m) \<Longrightarrow> distinct (map fst (count_shapes scope names m))"
  by (induction names arbitrary: m) (simp_all add: Let_def distinct_update)

lemma used_for_shape_count:
  assumes "distinct names" "list_all (in_scope scope) names"
  shows "length (used_for_shape shape scope names) = shape_count scope names shape"
proof -
  have "filter (\<lambda>n. ends_with (''.'' @ scope) n \<and> candidate_shape n scope = shape) names
      = filter (\<lambda>c. c \<noteq> scope \<and> candidate_shape c scope = shape) names"
    using assms(2) by (intro filter_cong) (auto simp: list_all_iff in_scope_def ends_with_iff)
  with assms(1) show ?thesis by (simp add: used_for_shape_def shape_count_def distinct_remdups_id)
qed

text \<open>What an accepted request guarantees\<close>

definition request_ok :: "vhost_request \<Rightarrow> bool" where
  "request_ok r =
     (normalize_virtual_host_endpoint (req_endpoint r) = Inr (req_endpoint r) \<and> valid_hostname (req_scope r)
      \<and> req_candidates r \<noteq> [] \<and> distinct (req_candidates r) \<and> list_all valid_hostname (req_candidates r)
      \<and> list_all (in_scope (req_scope r)) (req_candidates r)
      \<and> (\<forall>shape\<in>(\<lambda>c. candidate_shape c (req_scope r)) ` set (req_candidates r).
           shape_count (req_scope r) (req_candidates r) shape + VHOST_CONTROL_COUNT \<le> capacity shape)
      \<and> 1 + int VHOST_CONTROL_COUNT * int (card ((\<lambda>c. candidate_shape c (req_scope r)) ` set (req_candidates r)))
          < vh_request_limit (req_limits r))"

lemma count_shapes_keys: "set (map fst (count_shapes scope names [])) = (\<lambda>c. candidate_shape c scope) ` set names"
proof -
  have "k \<in> set (map fst m) \<longleftrightarrow> map_of m k \<noteq> None" for k and m :: "(nat list \<times> nat) list"
    by (metis dom_map_of_conv_image_fst domIff list.set_map)
  then show ?thesis using map_of_count_shapes [of scope names] by (intro set_eqI) simp
qed

lemma length_count_shapes: "length (count_shapes scope names []) = card ((\<lambda>c. candidate_shape c scope) ` set names)"
  using distinct_card [OF distinct_count_shapes [of "[]" scope names]] by (simp only: count_shapes_keys length_map) simp

lemma crowded_shapes:
  "list_ex (\<lambda>(shape, n). capacity shape < n + VHOST_CONTROL_COUNT) (count_shapes scope names []) \<longleftrightarrow>
     (\<exists>shape\<in>(\<lambda>c. candidate_shape c scope) ` set names. capacity shape < shape_count scope names shape + VHOST_CONTROL_COUNT)"
proof -
  have d: "distinct (map fst (count_shapes scope names []))" by (rule distinct_count_shapes) simp
  have "(shape, n) \<in> set (count_shapes scope names []) \<longleftrightarrow>
      shape \<in> (\<lambda>c. candidate_shape c scope) ` set names \<and> n = shape_count scope names shape" for shape n
    using map_of_count_shapes [of scope names shape] map_of_eq_Some_iff [OF d, of shape n] by (auto split: if_splits)
  then show ?thesis by (auto simp: list_ex_iff)
qed

lemma new_request_ok: "new_vhost_request endpoint scope candidates limits insecure = Inr r \<Longrightarrow>
   request_ok r \<and> normalize_virtual_host_endpoint endpoint = Inr (req_endpoint r) \<and> normalize_hostname scope = Inr (req_scope r)
   \<and> req_limits r = limits \<and> req_insecure r = insecure"
proof -
  assume "new_vhost_request endpoint scope candidates limits insecure = Inr r"
  then obtain e sc names where e: "normalize_virtual_host_endpoint endpoint = Inr e" and sc: "normalize_hostname scope = Inr sc"
    and names: "normalize_virtual_host_candidates sc candidates = Inr names" "names \<noteq> []"
    and crowd: "\<not> list_ex (\<lambda>(shape, n). capacity shape < n + VHOST_CONTROL_COUNT) (count_shapes sc names [])"
    and lim: "\<not> vh_request_limit limits \<le> int (1 + VHOST_CONTROL_COUNT * length (count_shapes sc names []))"
    and r: "r = \<lparr>req_endpoint = e, req_scope = sc, req_candidates = names, req_limits = limits, req_insecure = insecure\<rparr>"
    unfolding new_vhost_request_def bindR_Inr_iff Let_def if_Inl_eq_Inr sum.inject by blast
  note valid = normalize_hostname_valid [OF sc]
  have "add_candidates sc candidates [] = Inr names"
    using names(1) by (simp add: normalize_virtual_host_candidates_def valid_hostname_normalize [OF valid])
  from add_candidates_Inr [OF this] have ok: "distinct names" "list_all (in_scope sc) names" "list_all valid_hostname names" by simp_all
  from crowd have "\<forall>shape\<in>(\<lambda>c. candidate_shape c sc) ` set names. shape_count sc names shape + VHOST_CONTROL_COUNT \<le> capacity shape"
    unfolding crowded_shapes by (simp only: bex_simps not_less) blast
  moreover have "1 + int VHOST_CONTROL_COUNT * int (card ((\<lambda>c. candidate_shape c sc) ` set names)) < vh_request_limit limits"
    using lim by (simp add: length_count_shapes)
  ultimately show ?thesis using r e sc ok names(2) valid endpoint_norm.norm_stable [OF e] unfolding request_ok_def by simp
qed

text \<open>The control names the loop of \<open>discover_virtual_hosts\<close> asks for, shape by shape; \<open>start\<close> gives what
  \<open>secrets.randbelow\<close> returns for a shape.\<close>

fun control_plan :: "(nat list \<Rightarrow> nat) \<Rightarrow> string \<Rightarrow> string list \<Rightarrow> nat list list \<Rightarrow> string list \<Rightarrow> (nat list \<times> string list) list res" where
  "control_plan start scope [] planned used = Inr []"
| "control_plan start scope (candidate # rest) planned used =
     (let shape = candidate_shape candidate scope
      in if shape \<in> set planned then control_plan start scope rest planned used
         else bindR (new_control_names shape scope used (start shape mod capacity shape)) (\<lambda>(names, used').
              bindR (control_plan start scope rest (shape # planned) used') (\<lambda>plan. Inr ((shape, names) # plan))))"

lemma candidate_shape_ne [simp]: "candidate_shape c scope \<noteq> []"
  by (simp add: candidate_shape_def)

lemma used_for_shape_other:
  "list_all (\<lambda>n. candidate_shape n scope \<noteq> shape) names \<Longrightarrow> used_for_shape shape scope (names @ used) = used_for_shape shape scope used"
  by (induction names) (simp_all add: used_for_shape_def)

lemma control_plan_ok:
  assumes cap: "\<forall>c\<in>set cs. shape_count scope all1 (candidate_shape c scope) + VHOST_CONTROL_COUNT \<le> capacity (candidate_shape c scope)"
    and all1: "distinct all1" "list_all (in_scope scope) all1"
    and used: "\<forall>c\<in>set cs. candidate_shape c scope \<notin> set planned \<longrightarrow>
        used_for_shape (candidate_shape c scope) scope used = used_for_shape (candidate_shape c scope) scope all1" "set all1 \<subseteq> set used"
  shows "\<exists>plan. control_plan start scope cs planned used = Inr plan
     \<and> set (map fst plan) = (\<lambda>c. candidate_shape c scope) ` set cs - set planned \<and> distinct (map fst plan)
     \<and> list_all (\<lambda>(shape, names). fresh_controls shape scope used names) plan \<and> distinct (concat (map snd plan))"
  using cap used
proof (induction cs arbitrary: planned used)
  case (Cons c cs)
  let ?s = "candidate_shape c scope"
  show ?case
  proof (cases "?s \<in> set planned")
    case True
    from Cons(1) [OF _ _ Cons(4), of planned] Cons(2,3) True show ?thesis by (auto simp: Let_def)
  next
    case False
    have "used_for_shape ?s scope used = used_for_shape ?s scope all1" using Cons(3) False by simp
    then have "length (used_for_shape ?s scope used) + VHOST_CONTROL_COUNT \<le> capacity ?s"
      using Cons(2) used_for_shape_count [OF all1, of ?s] by simp
    from new_control_names_fresh [OF _ this, of "start ?s mod capacity ?s"] obtain names
      where names: "new_control_names ?s scope used (start ?s mod capacity ?s) = Inr (names, rev names @ used)"
        "fresh_controls ?s scope used names" by auto
    have same: "used_for_shape s scope (rev names @ used) = used_for_shape s scope used" if "s \<noteq> ?s" for s
      using names(2) that by (intro used_for_shape_other) (auto simp: fresh_controls_def list_all_iff)
    have u: "\<forall>c\<in>set cs. candidate_shape c scope \<notin> set (?s # planned) \<longrightarrow>
        used_for_shape (candidate_shape c scope) scope (rev names @ used) = used_for_shape (candidate_shape c scope) scope all1"
      using Cons(3) same by auto
    have sub: "set all1 \<subseteq> set (rev names @ used)" using Cons(4) by auto
    from Cons(1) [OF _ u sub] Cons(2) obtain plan where plan:
      "control_plan start scope cs (?s # planned) (rev names @ used) = Inr plan"
      "set (map fst plan) = (\<lambda>c. candidate_shape c scope) ` set cs - set (?s # planned)" "distinct (map fst plan)"
      "list_all (\<lambda>(shape, ns). fresh_controls shape scope (rev names @ used) ns) plan" "distinct (concat (map snd plan))" by auto
    have "list_all (\<lambda>(shape, ns). fresh_controls shape scope used ns) plan"
      using plan(4) by (auto simp: list_all_iff fresh_controls_def)
    moreover have "set names \<inter> set (concat (map snd plan)) = {}" using plan(4) by (fastforce simp: list_all_iff fresh_controls_def)
    ultimately show ?thesis using False names plan
      by (intro exI [of _ "(?s, names) # plan"]) (auto simp: Let_def fresh_controls_def)
  qed
qed simp

lemma request_control_plan:
  assumes "request_ok r"
  shows "\<exists>plan. control_plan start (req_scope r) (req_candidates r) [] (req_candidates r) = Inr plan
     \<and> set (map fst plan) = (\<lambda>c. candidate_shape c (req_scope r)) ` set (req_candidates r) \<and> distinct (map fst plan)
     \<and> list_all (\<lambda>(shape, names). fresh_controls shape (req_scope r) (req_candidates r) names) plan \<and> distinct (concat (map snd plan))"
  using control_plan_ok [of "req_candidates r" "req_scope r" "req_candidates r" "[]" "req_candidates r" start] assms
  by (auto simp: request_ok_def)

text \<open>C32: Control names are available and unknown. For every accepted request and whatever numbers the random
  source returns, the search for control names succeeds for every shape that occurs among the candidates;
  each shape gets three names inside the scope and of this shape, none of them a candidate, and no name
  is handed out twice.\<close>

theorem control_names_are_fresh:
  assumes "new_vhost_request endpoint scope candidates limits insecure = Inr r"
  shows "\<exists>plan. control_plan start (req_scope r) (req_candidates r) [] (req_candidates r) = Inr plan
     \<and> set (map fst plan) = {candidate_shape c (req_scope r) | c. c \<in> set (req_candidates r)}
     \<and> distinct (concat (map snd plan))
     \<and> (\<forall>(shape, names)\<in>set plan. length names = 3
          \<and> (\<forall>n\<in>set names. n \<notin> set (req_candidates r) \<and> ends_with (''.'' @ req_scope r) n \<and> candidate_shape n (req_scope r) = shape))"
proof -
  from new_request_ok [OF assms] have "request_ok r" by blast
  from request_control_plan [OF this, of start] obtain plan where plan:
    "control_plan start (req_scope r) (req_candidates r) [] (req_candidates r) = Inr plan"
    "set (map fst plan) = (\<lambda>c. candidate_shape c (req_scope r)) ` set (req_candidates r)" "distinct (concat (map snd plan))"
    "list_all (\<lambda>(shape, names). fresh_controls shape (req_scope r) (req_candidates r) names) plan" by blast
  from plan(4) have "\<forall>(shape, names)\<in>set plan. length names = 3
      \<and> (\<forall>n\<in>set names. n \<notin> set (req_candidates r) \<and> ends_with (''.'' @ req_scope r) n \<and> candidate_shape n (req_scope r) = shape)"
    by (fastforce simp: list_all_iff fresh_controls_def VHOST_CONTROL_COUNT_def)
  with plan show ?thesis by (auto simp: image_def)
qed

section \<open>Requests within a budget\<close>

lemma budget_candidates_ok:
  assumes "budget_candidates scope limit cs selected counts truncated = (chosen, cutoff)"
    and "counts = count_shapes scope selected []"
    and "\<not> list_ex (\<lambda>(shape, n). capacity shape < n + VHOST_CONTROL_COUNT) counts"
    and "selected \<noteq> [] \<Longrightarrow> int (1 + VHOST_CONTROL_COUNT * length counts + length selected) \<le> limit"
  shows "(\<exists>r. chosen = selected @ r \<and> subseq r cs) \<and> \<not> list_ex (\<lambda>(shape, n). capacity shape < n + VHOST_CONTROL_COUNT) (count_shapes scope chosen [])
    \<and> (chosen \<noteq> [] \<longrightarrow> int (1 + VHOST_CONTROL_COUNT * length (count_shapes scope chosen []) + length chosen) \<le> limit)
    \<and> (\<not> cutoff \<longrightarrow> chosen = selected @ cs)"
  using assms
proof (induction scope limit cs selected counts truncated rule: budget_candidates.induct)
  case (1 scope limit selected counts truncated)
  then show ?case by auto
next
  case (2 scope limit c cs selected counts truncated)
  let ?s = "candidate_shape c scope"
  let ?n = "(case map_of counts ?s of None \<Rightarrow> 0 | Some n \<Rightarrow> n) + (if c \<noteq> scope then 1 else 0)"
  let ?counts = "AList.update ?s ?n counts"
  let ?no = "capacity ?s < ?n + VHOST_CONTROL_COUNT \<or> limit < int (1 + VHOST_CONTROL_COUNT * length ?counts + length selected + 1)"
  show ?case
  proof (cases ?no)
    case True
    then have "budget_candidates scope limit cs selected counts True = (chosen, cutoff)" using 2(3) by (simp add: Let_def)
    moreover have "budget_candidates scope limit cs selected counts True = (a, b) \<Longrightarrow> b" for cs a b
    proof (induction cs arbitrary: selected counts)
      case (Cons c cs)
      then show ?case by (simp only: budget_candidates.simps Let_def split: if_splits)
    qed simp
    ultimately have cutoff by blast
    with 2(1) [OF refl refl refl refl True] True 2(3-6) show ?thesis by (fastforce simp: Let_def)
  next
    case False
    then have run: "budget_candidates scope limit cs (selected @ [c]) ?counts truncated = (chosen, cutoff)" using 2(3) by (simp add: Let_def)
    have c1: "?counts = count_shapes scope (selected @ [c]) []" using 2(4) by (simp add: count_shapes_append Let_def)
    have c2: "\<not> list_ex (\<lambda>(shape, n). capacity shape < n + VHOST_CONTROL_COUNT) ?counts"
    proof -
      have "p \<in> set (AList.update k v m) \<Longrightarrow> p = (k, v) \<or> p \<in> set m" for p k v and m :: "(nat list \<times> nat) list"
        by (induction m) (auto split: if_splits)
      then show ?thesis using 2(5) False by (fastforce simp: list_ex_iff)
    qed
    have c3: "int (1 + VHOST_CONTROL_COUNT * length ?counts + length (selected @ [c])) \<le> limit" using False by simp
    from 2(2) [OF refl refl refl refl False run c1 c2 c3]
    obtain r where "chosen = (selected @ [c]) @ r" "subseq r cs" "\<not> cutoff \<longrightarrow> chosen = (selected @ [c]) @ cs"
      "\<not> list_ex (\<lambda>(shape, n). capacity shape < n + VHOST_CONTROL_COUNT) (count_shapes scope chosen [])"
      "chosen \<noteq> [] \<longrightarrow> int (1 + VHOST_CONTROL_COUNT * length (count_shapes scope chosen []) + length chosen) \<le> limit" by blast
    then show ?thesis by auto
  qed
qed

lemma budget_request:
  assumes "normalize_virtual_host_candidates scope given = Inr candidates" "normalize_hostname scope = Inr sc"
    and "candidates_for_budget sc candidates request_limit = (selected, truncated)"
    and "normalize_virtual_host_endpoint endpoint = Inr e" "vh_request_limit limits = request_limit"
  shows "subseq selected candidates \<and> (\<not> truncated \<longrightarrow> selected = candidates)
    \<and> (selected \<noteq> [] \<longrightarrow>
         (\<exists>r. new_vhost_request endpoint sc selected limits insecure = Inr r \<and> req_candidates r = selected \<and> req_endpoint r = e
            \<and> 1 + 3 * int (card {candidate_shape c sc | c. c \<in> set selected}) + int (length selected) \<le> request_limit))"
proof -
  have b: "budget_candidates sc request_limit candidates [] [] False = (selected, truncated)"
    using assms(3) by (simp add: candidates_for_budget_def)
  from budget_candidates_ok [OF b] have sel: "subseq selected candidates" "\<not> truncated \<longrightarrow> selected = candidates"
    and crowd: "\<not> list_ex (\<lambda>(shape, n). capacity shape < n + VHOST_CONTROL_COUNT) (count_shapes sc selected [])"
    and lim: "selected \<noteq> [] \<longrightarrow> int (1 + VHOST_CONTROL_COUNT * length (count_shapes sc selected []) + length selected) \<le> request_limit"
    by auto
  note valid = normalize_hostname_valid [OF assms(2)]
  have "add_candidates sc given [] = Inr candidates"
    using assms(1,2) by (simp add: normalize_virtual_host_candidates_def)
  from add_candidates_Inr [OF this] have all: "distinct candidates" "list_all (in_scope sc) candidates" "list_all valid_hostname candidates"
    by simp_all
  have sub: "set selected \<subseteq> set candidates" using sel(1) by (metis subseq_conv_nths set_nths_subset)
  have "distinct selected" using sel(1) all(1) by (metis subseq_conv_nths distinct_nthsI)
  with sub all have "add_candidates sc selected [] = Inr selected"
    using candidates_fixed [of selected sc "[]"] by (auto simp: list_all_iff)
  then have norm: "normalize_virtual_host_candidates sc selected = Inr selected"
    by (simp add: normalize_virtual_host_candidates_def valid_hostname_normalize [OF valid])
  show ?thesis
  proof (intro conjI impI)
    assume ne: "selected \<noteq> []"
    then have "0 < length selected" by simp
    with lim ne have "\<not> vh_request_limit limits \<le> int (1 + VHOST_CONTROL_COUNT * length (count_shapes sc selected []))"
      unfolding assms(5) by linarith
    with ne crowd norm assms(4) have "\<exists>r. new_vhost_request endpoint sc selected limits insecure = Inr r \<and> req_candidates r = selected \<and> req_endpoint r = e"
      by (simp add: new_vhost_request_def valid_hostname_normalize [OF valid] Let_def)
    moreover have "1 + 3 * int (card {candidate_shape c sc | c. c \<in> set selected}) + int (length selected) \<le> request_limit"
      using lim ne by (simp add: length_count_shapes VHOST_CONTROL_COUNT_def image_def Bex_def conj_commute)
    ultimately show "\<exists>r. new_vhost_request endpoint sc selected limits insecure = Inr r \<and> req_candidates r = selected \<and> req_endpoint r = e
        \<and> 1 + 3 * int (card {candidate_shape c sc | c. c \<in> set selected}) + int (length selected) \<le> request_limit" by blast
  qed (use sel in simp_all)
qed

text \<open>C33: What the budget selects is a request. From candidates in normal form, the selection for a limit of
  requests keeps their order, loses none unless it says so, and, when it is not empty, passes every
  check of the request with that limit: the request for an accepted endpoint is made with exactly these
  candidates, and context, controls and all candidates fit the limit.\<close>

theorem budget_makes_a_request:
  assumes "normalize_virtual_host_candidates scope given = Inr candidates" "normalize_hostname scope = Inr sc"
    and "candidates_for_budget sc candidates request_limit = (selected, truncated)"
    and "normalize_virtual_host_endpoint endpoint = Inr e" "vh_request_limit limits = request_limit"
  shows "subseq selected candidates \<and> (\<not> truncated \<longrightarrow> selected = candidates)
    \<and> (selected \<noteq> [] \<longrightarrow>
         (\<exists>r. new_vhost_request endpoint sc selected limits insecure = Inr r \<and> req_candidates r = selected \<and> req_endpoint r = e
            \<and> 1 + 3 * int (card {candidate_shape c sc | c. c \<in> set selected}) + int (length selected) \<le> request_limit))"
  by (rule budget_request [OF assms])

section \<open>Harvested endpoints\<close>

lemma map_filter_Some: "x \<in> set (List.map_filter f xs) \<longleftrightarrow> (\<exists>y\<in>set xs. f y = Some x)"
  by (induction xs) (auto simp: List.map_filter_simps split: option.splits)

text \<open>Addresses without a zone give endpoints in normal form, HTTPS before HTTP.\<close>

lemma no_zone_plain: "wf_ip a \<Longrightarrow> CHR ''%'' \<notin> set (show_ip a) \<Longrightarrow> plain_ip a"
  unfolding plain_ip_def
proof
  fix c
  assume "wf_ip a" "CHR ''%'' \<notin> set (show_ip a)" "c \<in> set (show_ip a)"
  from show_ip_chars [OF this] show "code c \<notin> {9, 10, 13, 35, 47, 63, 64, 93}"
    by (auto simp: is_hex_def code_def)
qed

lemma harvested_endpoints_normal:
  assumes "\<forall>v\<in>set addresses. CHR ''%'' \<notin> set v" "e \<in> set (harvested_endpoints addresses)"
  shows "normalize_virtual_host_endpoint e = Inr e"
proof -
  from assms(2) obtain scheme port a where e: "e = endpoint_text scheme a port" "(scheme, port) \<in> {(''https'', 443), (''http'', 80)}"
    and a: "a \<in> set (List.map_filter (\<lambda>v. parse_ip (strip v)) addresses)"
    by (auto simp: harvested_endpoints_def Let_def)
  from a obtain v where v: "v \<in> set addresses" "parse_ip (strip v) = Some a" by (auto simp: map_filter_Some)
  have "CHR ''%'' \<notin> set (strip v)" using assms(1) v(1) set_strip [of v] by blast
  then have "plain_ip a" by (rule no_zone_plain [OF parse_ip_wf [OF v(2)] parse_ip_no_scope [OF v(2)]])
  with e parse_ip_wf [OF v(2)] show ?thesis by (auto simp: endpoint_text_normal)
qed

text \<open>The loop over the endpoints never hands a limit to a request that the limits type refuses: a request that
  fits its share of the budget has a share above the baseline.\<close>

lemma budget_above_baseline:
  "1 + 3 * int (card {candidate_shape c sc | c. c \<in> set selected}) + int (length selected) \<le> limit \<Longrightarrow> selected \<noteq> [] \<Longrightarrow>
   int VHOST_BASELINE_REQUEST_COUNT < limit"
proof -
  assume lim: "1 + 3 * int (card {candidate_shape c sc | c. c \<in> set selected}) + int (length selected) \<le> limit" and ne: "selected \<noteq> []"
  have "{candidate_shape c sc | c. c \<in> set selected} \<noteq> {}" using ne by (cases selected) auto
  then have "0 < card {candidate_shape c sc | c. c \<in> set selected}" by (simp add: card_gt_0_iff)
  moreover have "0 < length selected" using ne by simp
  moreover have "int VHOST_BASELINE_REQUEST_COUNT = 4" by (simp add: VHOST_BASELINE_REQUEST_COUNT_def VHOST_CONTROL_COUNT_def)
  ultimately show ?thesis using lim by linarith
qed

section \<open>Examples\<close>

definition example_vhost_limits :: vhost_limits where
  "example_vhost_limits = \<lparr>vh_request_limit = 20, vh_runtime_seconds = 30, vh_timeout_seconds = 5, vh_concurrency = 2\<rparr>"

definition example_vhost_candidates :: "string list" where
  "example_vhost_candidates = [''www.example.com'', ''api.example.com'', ''example.com'']"

definition example_vhost_request :: "vhost_request" where
  "example_vhost_request =
     \<lparr>req_endpoint = ''https://192.0.2.1:443/'', req_scope = ''example.com'', req_candidates = example_vhost_candidates,
      req_limits = example_vhost_limits, req_insecure = False\<rparr>"

lemma example_vhost_accepted:
  "new_vhost_request ''https://192.0.2.1/'' ''Example.com'' example_vhost_candidates example_vhost_limits False = Inr example_vhost_request"
proof -
  have n: "normalize_virtual_host_endpoint ''https://192.0.2.1/'' = Inr ''https://192.0.2.1:443/''"
    "normalize_hostname ''Example.com'' = Inr ''example.com''"
    "normalize_virtual_host_candidates ''example.com'' example_vhost_candidates = Inr example_vhost_candidates"
    "count_shapes ''example.com'' example_vhost_candidates [] = [([3], 2), ([1], 0)]" by code_simp+
  have "example_vhost_candidates \<noteq> []" by (simp add: example_vhost_candidates_def)
  then show ?thesis
    by (simp add: new_vhost_request_def n Let_def capacity_def VHOST_CONTROL_COUNT_def example_vhost_limits_def example_vhost_request_def)
qed

lemma control_names_are_fresh_witness:
  "\<exists>plan. control_plan (\<lambda>_. 5) ''example.com'' example_vhost_candidates [] example_vhost_candidates = Inr plan \<and> distinct (concat (map snd plan))"
  using control_names_are_fresh [OF example_vhost_accepted, of "\<lambda>_. 5"] by (auto simp: example_vhost_request_def)

lemma budget_makes_a_request_witness:
  "\<exists>selected truncated. candidates_for_budget ''example.com'' example_vhost_candidates 20 = (selected, truncated)
     \<and> subseq selected example_vhost_candidates"
proof -
  have n: "normalize_virtual_host_candidates ''example.com'' example_vhost_candidates = Inr example_vhost_candidates"
    "normalize_hostname ''example.com'' = Inr ''example.com''"
    "normalize_virtual_host_endpoint ''https://192.0.2.1/'' = Inr ''https://192.0.2.1:443/''" by code_simp+
  obtain selected truncated where c: "candidates_for_budget ''example.com'' example_vhost_candidates 20 = (selected, truncated)" by fastforce
  from budget_makes_a_request [OF n(1,2) c n(3), of example_vhost_limits] c show ?thesis by (auto simp: example_vhost_limits_def)
qed

end
