(* ===== verification/Virtual_Host_Evidence.thy ===== *)
theory Virtual_Host_Evidence
  imports Virtual_Host_Plan Evidence_Values
begin

text \<open>
  Evidence of virtual hosts (lib/virtual_host.py, and the details functions of lib/completed_result.py):
  probe observations and their fingerprints, the classification of a candidate against its context and its
  controls, and the record of an observation with its reader and writer. The digest of \<open>hashlib\<close> is a
  parameter; texts and bodies are sequences of code points below 256 and authorities are ASCII, so that the
  byte patterns of the sources are patterns of characters.
\<close>

section \<open>Fingerprints\<close>

record probe_observation =
  prb_hostname :: string
  prb_http_host :: string
  prb_server_name :: "string option"
  prb_phase :: string
  prb_status :: "int option"
  prb_location :: "string option"
  prb_body :: string
  prb_truncated :: bool
  prb_verified :: "bool option"
  prb_error :: "string option"

record fingerprint =
  fp_phase :: string
  fp_status :: "int option"
  fp_location :: "string option"
  fp_sha256 :: string
  fp_size :: int
  fp_truncated :: bool
  fp_error :: "string option"

definition FINGERPRINT_SIGNALS :: "string list" where
  "FINGERPRINT_SIGNALS = [''phase'', ''status'', ''location'', ''body_size'', ''body_sha256'']"

definition BODY_SIGNALS :: "string list" where
  "BODY_SIGNALS = [''body_size'', ''body_sha256'']"

definition usable_fingerprint :: "fingerprint \<Rightarrow> bool" where
  "usable_fingerprint f = (fp_error f = None \<and> fp_phase f = ''body'' \<and> fp_status f \<noteq> None)"

definition fingerprint_signals :: "fingerprint \<Rightarrow> fingerprint \<Rightarrow> string list" where
  "fingerprint_signals candidate baseline =
     (if fp_phase candidate \<noteq> fp_phase baseline then [''phase''] else [])
     @ (if fp_status candidate \<noteq> fp_status baseline then [''status''] else [])
     @ (if fp_location candidate \<noteq> fp_location baseline then [''location''] else [])
     @ (if \<not> fp_truncated candidate \<and> \<not> fp_truncated baseline
        then (if fp_size candidate \<noteq> fp_size baseline then [''body_size''] else [])
             @ (if fp_sha256 candidate \<noteq> fp_sha256 baseline then [''body_sha256''] else [])
        else [])"

text \<open>Classification, distinct signals, whether a confirmation is needed and whether one was used\<close>

definition classify_fingerprints ::
  "fingerprint \<Rightarrow> fingerprint \<Rightarrow> fingerprint list \<Rightarrow> fingerprint option \<Rightarrow> (string \<times> string list \<times> bool \<times> bool) res" where
  "classify_fingerprints candidate context1 controls confirmation =
     (if length controls < VHOST_CONTROL_COUNT
      then Inl (ValueError ''virtual-host classification requires at least three controls'')
      else (let control = hd controls;
                stable = list_all (\<lambda>c. c = control) controls \<and> usable_fingerprint control
            in if \<not> stable \<or> \<not> usable_fingerprint context1 \<or> \<not> usable_fingerprint candidate
               then Inr (''indeterminate'', [], False, False)
               else if (\<not> fp_truncated candidate \<and> \<not> fp_truncated control \<and> candidate = control)
                     \<or> (\<not> fp_truncated candidate \<and> \<not> fp_truncated context1 \<and> candidate = context1)
               then Inr (''default'', [], False, False)
               else (let control_signals = fingerprint_signals candidate control;
                         context_signals = fingerprint_signals candidate context1;
                         distinct_signals = filter (\<lambda>s. s \<in> set control_signals \<or> s \<in> set context_signals) FINGERPRINT_SIGNALS;
                         weak = list_all (\<lambda>s. s \<in> set BODY_SIGNALS) control_signals \<or> list_all (\<lambda>s. s \<in> set BODY_SIGNALS) context_signals
                     in if control_signals = [] \<or> context_signals = [] then Inr (''indeterminate'', distinct_signals, False, False)
                        else if \<not> weak then Inr (''distinct'', distinct_signals, False, False)
                        else (case confirmation of
                                None \<Rightarrow> Inr (''indeterminate'', distinct_signals, True, False)
                              | Some c \<Rightarrow>
                                  (let confirmed = usable_fingerprint c \<and> \<not> fp_truncated c \<and> c = candidate
                                   in Inr (if confirmed then ''distinct'' else ''indeterminate'', distinct_signals, False, confirmed))))))"

text \<open>\<open>_replace_authority\<close>: the authority, not inside a longer host name and in any case, becomes a marker.
  \<open>inside\<close> tells whether the character before is one of a host name; an authority is never empty.\<close>

definition host_char :: "char \<Rightarrow> bool" where
  "host_char c = (is_alnum c \<or> c = CHR ''.'' \<or> c = CHR ''_'' \<or> c = CHR ''-'')"

definition authority_here :: "string \<Rightarrow> bool \<Rightarrow> string \<Rightarrow> bool" where
  "authority_here authority inside s =
     (\<not> inside \<and> authority \<noteq> [] \<and> length authority \<le> length s \<and> lower (take (length authority) s) = lower authority
      \<and> (case drop (length authority) s of [] \<Rightarrow> True | c # _ \<Rightarrow> \<not> host_char c))"

fun replace_from :: "string \<Rightarrow> bool \<Rightarrow> string \<Rightarrow> string \<times> bool" where
  "replace_from authority inside [] = ([], False)"
| "replace_from authority inside (c # rest) =
     (if authority_here authority inside (c # rest)
      then (let n = length authority - 1; r = replace_from authority (host_char ((c # rest) ! n)) (drop n rest)
            in (''{authority}'' @ fst r, True))
      else (let r = replace_from authority (host_char c) rest in (c # fst r, snd r)))"

definition replace_authority :: "string \<Rightarrow> string \<Rightarrow> string \<times> bool" where
  "replace_authority v authority = replace_from authority False v"

text \<open>\<open>_normalize\<close>: fingerprint, normalised location, whether the authority was reflected\<close>

definition normalize_probe :: "(string \<Rightarrow> string) \<Rightarrow> probe_observation \<Rightarrow> fingerprint \<times> string option \<times> bool" where
  "normalize_probe sha256 p =
     (let (body, body_reflected) = replace_authority (prb_body p) (prb_http_host p);
          location = map_option (\<lambda>l. replace_authority l (prb_http_host p)) (prb_location p);
          normalized_location = map_option fst location
      in (\<lparr>fp_phase = prb_phase p, fp_status = prb_status p, fp_location = normalized_location, fp_sha256 = sha256 body,
           fp_size = int (length body), fp_truncated = prb_truncated p, fp_error = prb_error p\<rparr>,
          normalized_location, body_reflected \<or> (case location of None \<Rightarrow> False | Some l \<Rightarrow> snd l)))"

section \<open>Observations\<close>

record baseline =
  bl_phase :: "string option"
  bl_status :: "int option"
  bl_location :: "string option"
  bl_sha256 :: "string option"
  bl_size :: "int option"
  bl_truncated :: "bool option"

record vhost_observation =
  vo_endpoint :: string
  vo_hostname :: string
  vo_http_host :: string
  vo_server_name :: "string option"
  vo_classification :: string
  vo_phase :: string
  vo_status :: "int option"
  vo_location :: "string option"
  vo_sha256 :: string
  vo_size :: int
  vo_truncated :: bool
  vo_verified :: "bool option"
  vo_error :: "string option"
  vo_signals :: "string list"
  vo_reflection :: bool
  vo_needs_confirmation :: bool
  vo_context :: baseline
  vo_control :: baseline
  vo_confirmation :: "string option"

definition baseline_of :: "fingerprint \<Rightarrow> baseline" where
  "baseline_of f = \<lparr>bl_phase = Some (fp_phase f), bl_status = fp_status f, bl_location = fp_location f,
     bl_sha256 = Some (fp_sha256 f), bl_size = Some (fp_size f), bl_truncated = Some (fp_truncated f)\<rparr>"

definition no_baseline :: baseline where
  "no_baseline = \<lparr>bl_phase = None, bl_status = None, bl_location = None, bl_sha256 = None, bl_size = None, bl_truncated = None\<rparr>"

definition same_authority :: "probe_observation \<Rightarrow> probe_observation \<Rightarrow> bool" where
  "same_authority p q = (prb_hostname p = prb_hostname q \<and> prb_http_host p = prb_http_host q \<and> prb_server_name p = prb_server_name q)"

definition classify_virtual_host ::
  "(string \<Rightarrow> string) \<Rightarrow> string \<Rightarrow> probe_observation \<Rightarrow> probe_observation \<Rightarrow> probe_observation list \<Rightarrow> probe_observation option
   \<Rightarrow> vhost_observation res" where
  "classify_virtual_host sha256 endpoint context1 candidate controls confirmation =
     (let context_fp = fst (normalize_probe sha256 context1);
          control_fps = map (\<lambda>c. fst (normalize_probe sha256 c)) controls;
          (fp, location, reflected) = normalize_probe sha256 candidate
      in if (case confirmation of None \<Rightarrow> False | Some c \<Rightarrow> \<not> same_authority c candidate)
         then Inl (ValueError ''confirmation must repeat the same virtual-host authority'')
         else (let confirmation_fp = map_option (\<lambda>c. fst (normalize_probe sha256 c)) confirmation
               in bindR (classify_fingerprints fp context_fp control_fps confirmation_fp)
                  (\<lambda>(classification, signals, needs, used).
                     Inr \<lparr>vo_endpoint = endpoint, vo_hostname = prb_hostname candidate, vo_http_host = prb_http_host candidate,
                          vo_server_name = prb_server_name candidate, vo_classification = classification, vo_phase = prb_phase candidate,
                          vo_status = prb_status candidate, vo_location = location, vo_sha256 = fp_sha256 fp, vo_size = fp_size fp,
                          vo_truncated = prb_truncated candidate, vo_verified = prb_verified candidate, vo_error = prb_error candidate,
                          vo_signals = signals, vo_reflection = reflected, vo_needs_confirmation = needs,
                          vo_context = baseline_of context_fp,
                          vo_control = (if control_fps \<noteq> [] \<and> list_all (\<lambda>c. c = hd control_fps) control_fps
                                        then baseline_of (hd control_fps) else no_baseline),
                          vo_confirmation = (if used then map_option fp_sha256 confirmation_fp else None)\<rparr>)))"

section \<open>Records\<close>

definition opt_str :: "string option \<Rightarrow> json" where
  "opt_str v = (case v of None \<Rightarrow> JNull | Some s \<Rightarrow> JStr s)"

definition opt_int :: "int option \<Rightarrow> json" where
  "opt_int v = (case v of None \<Rightarrow> JNull | Some i \<Rightarrow> JInt i)"

definition opt_bool :: "bool option \<Rightarrow> json" where
  "opt_bool v = (case v of None \<Rightarrow> JNull | Some b \<Rightarrow> JBool b)"

definition baseline_fields :: "string \<Rightarrow> baseline \<Rightarrow> (string \<times> json) list" where
  "baseline_fields who b =
     [(who @ ''_phase'', opt_str (bl_phase b)), (who @ ''_status'', opt_int (bl_status b)), (who @ ''_location'', opt_str (bl_location b)),
      (who @ ''_body_sha256'', opt_str (bl_sha256 b)), (who @ ''_body_size'', opt_int (bl_size b)),
      (who @ ''_body_truncated'', opt_bool (bl_truncated b))]"

definition vhost_to_record :: "vhost_observation \<Rightarrow> (string \<times> json) list" where
  "vhost_to_record v =
     [(''type'', JStr ''vhost''), (''endpoint'', JStr (vo_endpoint v)), (''hostname'', JStr (vo_hostname v)),
      (''http_host'', JStr (vo_http_host v)), (''tls_server_name'', opt_str (vo_server_name v)),
      (''classification'', JStr (vo_classification v)), (''phase'', JStr (vo_phase v)), (''status'', opt_int (vo_status v)),
      (''location'', opt_str (vo_location v)), (''body_sha256'', JStr (vo_sha256 v)), (''body_size'', JInt (vo_size v)),
      (''body_truncated'', JBool (vo_truncated v))]
     @ baseline_fields ''context'' (vo_context v) @ baseline_fields ''control'' (vo_control v)
     @ [(''confirmation_body_sha256'', opt_str (vo_confirmation v)), (''tls_verified'', opt_bool (vo_verified v)),
        (''distinct_signals'', JList (map JStr (vo_signals v))), (''reflection_normalized'', JBool (vo_reflection v))]"

definition is_digest :: "string \<Rightarrow> bool" where
  "is_digest s = (length s = 64 \<and> list_all (\<lambda>c. c \<in> set ''0123456789abcdef'') s)"

fun digest_of :: "json \<Rightarrow> string option" where
  "digest_of (JStr s) = (if is_digest s then Some s else None)"
| "digest_of v = None"

fun json_bool :: "json \<Rightarrow> bool option" where
  "json_bool (JBool b) = Some b"
| "json_bool v = None"

definition status_of :: "json \<Rightarrow> int option" where
  "status_of v = (case json_int v of Some i \<Rightarrow> if 100 \<le> i \<and> i \<le> 599 then Some i else None | None \<Rightarrow> None)"

definition size_of :: "json \<Rightarrow> int option" where
  "size_of v = (case json_int v of Some i \<Rightarrow> if 0 \<le> i then Some i else None | None \<Rightarrow> None)"

text \<open>A text or None\<close>

fun location_of :: "json \<Rightarrow> string option option" where
  "location_of JNull = Some None"
| "location_of (JStr s) = Some (Some s)"
| "location_of v = None"

definition need :: "'a option \<Rightarrow> string \<Rightarrow> 'a res" where
  "need v message = (case v of None \<Rightarrow> Inl (ValueError message) | Some x \<Rightarrow> Inr x)"

text \<open>Context and control are read by the same checks, with their own messages.\<close>

definition read_baseline :: "(string \<times> json) list \<Rightarrow> string \<Rightarrow> fingerprint res" where
  "read_baseline record1 who =
     (if field_of record1 (who @ ''_phase'') \<noteq> JStr ''body''
      then Inl (ValueError (''virtual-host '' @ who @ '' evidence must reach the response body''))
      else bindR (need (status_of (field_of record1 (who @ ''_status''))) (''virtual-host record has an invalid '' @ who @ '' HTTP status'')) (\<lambda>status.
           bindR (need (location_of (field_of record1 (who @ ''_location''))) (''virtual-host record has an invalid '' @ who @ '' location'')) (\<lambda>location.
           bindR (need (digest_of (field_of record1 (who @ ''_body_sha256''))) (''virtual-host record has an invalid '' @ who @ '' body digest'')) (\<lambda>digest.
           bindR (need (size_of (field_of record1 (who @ ''_body_size''))) (''virtual-host record has an invalid '' @ who @ '' body size'')) (\<lambda>size1.
           bindR (need (json_bool (field_of record1 (who @ ''_body_truncated''))) (''virtual-host record has an invalid '' @ who @ '' body flag'')) (\<lambda>truncated.
           Inr \<lparr>fp_phase = ''body'', fp_status = Some status, fp_location = location, fp_sha256 = digest, fp_size = size1,
                fp_truncated = truncated, fp_error = None\<rparr>))))))"

definition read_tls :: "string \<Rightarrow> json \<Rightarrow> bool option res" where
  "read_tls scheme v =
     (if (scheme = ''https'' \<and> json_bool v = None) \<or> (scheme = ''http'' \<and> v \<noteq> JNull)
      then Inl (ValueError ''virtual-host record has invalid TLS verification evidence'') else Inr (json_bool v))"

definition read_confirmation :: "json \<Rightarrow> string \<Rightarrow> string option res" where
  "read_confirmation v body_sha256 =
     (if v = JNull then Inr None
      else bindR (need (digest_of v) ''virtual-host record has an invalid confirmation body digest'') (\<lambda>digest.
           if digest \<noteq> body_sha256 then Inl (ValueError ''virtual-host confirmation must match the candidate body digest'')
           else Inr (Some digest)))"

definition read_signals :: "json \<Rightarrow> string list res" where
  "read_signals v =
     (case json_strs v of
        None \<Rightarrow> Inl (ValueError ''virtual-host record has invalid distinct signals'')
      | Some signals \<Rightarrow>
          if signals = [] \<or> \<not> list_all (\<lambda>s. s \<in> set FINGERPRINT_SIGNALS) signals \<or> \<not> distinct signals
          then Inl (ValueError ''virtual-host record has invalid distinct signals'') else Inr signals)"

definition read_candidate :: "(string \<times> json) list \<Rightarrow> (fingerprint \<times> bool) res" where
  "read_candidate record1 =
     bindR (need (status_of (field_of record1 ''status'')) ''virtual-host record has an invalid HTTP status'') (\<lambda>status.
     bindR (need (location_of (field_of record1 ''location'')) ''virtual-host record has an invalid location'') (\<lambda>location.
     bindR (need (digest_of (field_of record1 ''body_sha256'')) ''virtual-host record has an invalid body digest'') (\<lambda>digest.
     bindR (need (size_of (field_of record1 ''body_size'')) ''virtual-host record has an invalid body size'') (\<lambda>size1.
     bindR (need (json_bool (field_of record1 ''body_truncated'')) ''virtual-host record has invalid body flags'') (\<lambda>truncated.
     bindR (need (json_bool (field_of record1 ''reflection_normalized'')) ''virtual-host record has invalid body flags'') (\<lambda>reflection.
     Inr (\<lparr>fp_phase = ''body'', fp_status = Some status, fp_location = location, fp_sha256 = digest, fp_size = size1,
           fp_truncated = truncated, fp_error = None\<rparr>, reflection)))))))"

text \<open>The evidence is classified again: it must be distinct and show the signals the record names.\<close>

definition judge_record :: "fingerprint \<Rightarrow> fingerprint \<Rightarrow> fingerprint \<Rightarrow> string option \<Rightarrow> string list \<Rightarrow> unit res" where
  "judge_record fp context1 control confirmation signals =
     bindR (classify_fingerprints fp context1 (replicate VHOST_CONTROL_COUNT control) (map_option (\<lambda>_. fp) confirmation))
       (\<lambda>(classification, actual, needs, used).
          if classification \<noteq> ''distinct'' \<or> needs
          then Inl (ValueError ''virtual-host record does not contain confirmed distinct evidence'')
          else if signals \<noteq> actual
          then Inl (ValueError ''virtual-host record distinct signals do not match baseline evidence'') else Inr ())"

definition read_evidence ::
  "(string \<times> json) list \<Rightarrow> string \<Rightarrow> string \<Rightarrow> string \<Rightarrow> string option \<Rightarrow> string \<Rightarrow> vhost_observation res" where
  "read_evidence record1 endpoint hostname http_host server_name scheme =
     bindR (read_candidate record1) (\<lambda>(fp, reflection).
     bindR (read_baseline record1 ''context'') (\<lambda>context1.
     bindR (read_baseline record1 ''control'') (\<lambda>control.
     bindR (read_tls scheme (field_of record1 ''tls_verified'')) (\<lambda>verified.
     if ''error_type'' \<in> set (map fst record1)
     then Inl (ValueError ''virtual-host records must not serialize transient transport errors'')
     else
     bindR (read_confirmation (field_of record1 ''confirmation_body_sha256'') (fp_sha256 fp)) (\<lambda>confirmation.
     bindR (read_signals (field_of record1 ''distinct_signals'')) (\<lambda>signals.
     bindR (judge_record fp context1 control confirmation signals) (\<lambda>_.
     Inr \<lparr>vo_endpoint = endpoint, vo_hostname = hostname, vo_http_host = http_host, vo_server_name = server_name,
          vo_classification = ''distinct'', vo_phase = ''body'', vo_status = fp_status fp, vo_location = fp_location fp,
          vo_sha256 = fp_sha256 fp, vo_size = fp_size fp, vo_truncated = fp_truncated fp, vo_verified = verified, vo_error = None,
          vo_signals = signals, vo_reflection = reflection, vo_needs_confirmation = False,
          vo_context = baseline_of context1, vo_control = baseline_of control, vo_confirmation = confirmation\<rparr>)))))))"

definition vhost_from_record :: "(string \<times> json) list \<Rightarrow> vhost_observation res" where
  "vhost_from_record record1 =
     (if field_of record1 ''type'' \<noteq> JStr ''vhost'' then Inl (ValueError ''virtual-host record type must be vhost'')
      else (case (json_str (field_of record1 ''hostname''), json_str (field_of record1 ''endpoint'')) of
        (Some hostname_value, Some endpoint_value) \<Rightarrow>
          bindR (normalize_hostname hostname_value) (\<lambda>hostname.
          bindR (normalize_virtual_host_endpoint endpoint_value) (\<lambda>endpoint.
          bindR (urlsplit endpoint) (\<lambda>parsed.
          bindR (url_port parsed) (\<lambda>p.
          (let scheme = url_scheme parsed;
               port = (case p of Some n \<Rightarrow> if n \<noteq> 0 then n else default_port scheme | None \<Rightarrow> default_port scheme);
               http_host = http_authority hostname scheme port;
               server_name = (if scheme = ''https'' then Some hostname else None)
           in if field_of record1 ''http_host'' \<noteq> JStr http_host \<or> field_of record1 ''tls_server_name'' \<noteq> opt_str server_name
              then Inl (ValueError ''virtual-host record must keep HTTP Host and TLS SNI aligned'')
              else if field_of record1 ''classification'' \<noteq> JStr ''distinct''
              then Inl (ValueError ''completed virtual-host evidence must be classified distinct'')
              else if field_of record1 ''phase'' \<noteq> JStr ''body''
              then Inl (ValueError ''completed virtual-host evidence must reach the response body'')
              else read_evidence record1 endpoint hostname http_host server_name scheme)))))
      | _ \<Rightarrow> Inl (ValueError ''virtual-host record must identify an endpoint and hostname'')))"

section \<open>Details of completed results\<close>

text \<open>\<open>value or ''\<close>\<close>

definition or_empty :: "string option \<Rightarrow> string" where
  "or_empty v = (case v of None \<Rightarrow> [] | Some s \<Rightarrow> s)"

definition baseline_key :: "baseline \<Rightarrow> string \<times> int \<times> string \<times> string \<times> int \<times> int" where
  "baseline_key b =
     (or_empty (bl_phase b), (case bl_status b of None \<Rightarrow> -1 | Some i \<Rightarrow> i), or_empty (bl_location b), or_empty (bl_sha256 b),
      (case bl_size b of None \<Rightarrow> -1 | Some i \<Rightarrow> i), (case bl_truncated b of None \<Rightarrow> -1 | Some t \<Rightarrow> (if t then 1 else 0)))"

definition bool_key :: "bool option \<Rightarrow> int" where
  "bool_key v = (case v of None \<Rightarrow> -1 | Some b \<Rightarrow> (if b then 1 else 0))"

definition vhost_key ::
  "vhost_observation \<Rightarrow>
     (string \<times> string \<times> string \<times> string \<times> string \<times> string \<times> int \<times> string \<times> string \<times> int \<times> bool)
     \<times> (string \<times> int \<times> string \<times> string \<times> int \<times> int) \<times> (string \<times> int \<times> string \<times> string \<times> int \<times> int)
     \<times> string \<times> int \<times> string \<times> string list \<times> bool \<times> bool" where
  "vhost_key v =
     ((vo_endpoint v, vo_hostname v, vo_http_host v, or_empty (vo_server_name v), vo_classification v, vo_phase v,
       (case vo_status v of None \<Rightarrow> -1 | Some i \<Rightarrow> i), or_empty (vo_location v), vo_sha256 v, vo_size v, vo_truncated v),
      baseline_key (vo_context v), baseline_key (vo_control v),
      or_empty (vo_confirmation v), bool_key (vo_verified v), or_empty (vo_error v), vo_signals v, vo_reflection v, vo_needs_confirmation v)"

definition vhost_detail :: "vhost_observation \<Rightarrow> json" where
  "vhost_detail v = JObj (filter (\<lambda>p. fst p \<noteq> ''type'' \<and> fst p \<noteq> ''hostname'') (vhost_to_record v))"

definition virtual_host_details :: "vhost_observation list \<Rightarrow> json list" where
  "virtual_host_details observations = map vhost_detail (canon_by vhost_key observations)"

definition vhost_from_detail :: "string \<Rightarrow> json \<Rightarrow> vhost_observation res" where
  "vhost_from_detail hostname detail =
     (case detail of
        JObj obj \<Rightarrow>
          if ''type'' \<in> set (map fst obj) \<or> ''hostname'' \<in> set (map fst obj)
          then Inl (ValueError ''virtual-host details must contain endpoint evidence objects'')
          else bindR (vhost_from_record ([(''type'', JStr ''vhost''), (''hostname'', JStr hostname)] @ obj)) (\<lambda>v.
               if vo_hostname v \<noteq> hostname then Inl (ValueError ''virtual-host result value must be a canonical hostname'')
               else if \<not> json_eq detail (hd (virtual_host_details [v]))
               then Inl (ValueError ''virtual-host details must use canonical structured evidence'')
               else Inr v)
      | _ \<Rightarrow> Inl (ValueError ''virtual-host details must contain endpoint evidence objects''))"

definition parse_virtual_host_details :: "string \<Rightarrow> json \<Rightarrow> vhost_observation list res" where
  "parse_virtual_host_details hostname details =
     (case json_list details of
        None \<Rightarrow> Inl (ValueError ''virtual-host details must be a non-empty array'')
      | Some ds \<Rightarrow>
          if ds = [] then Inl (ValueError ''virtual-host details must be a non-empty array'')
          else bindR (mapR (vhost_from_detail hostname) ds) (\<lambda>observations. Inr (canon_by vhost_key observations)))"

section \<open>Reading back\<close>

lemma need_Inr: "need v m = Inr x \<longleftrightarrow> v = Some x"
  by (cases v) (simp_all add: need_def)

lemma json_int_Some: "json_int v = Some i \<longleftrightarrow> v = JInt i"
  by (cases v) simp_all

lemma json_bool_Some: "json_bool v = Some b \<longleftrightarrow> v = JBool b"
  by (cases v) simp_all

lemma status_of_Some: "status_of v = Some i \<longleftrightarrow> v = JInt i \<and> 100 \<le> i \<and> i \<le> 599"
  by (cases v) (auto simp: status_of_def)

lemma size_of_Some: "size_of v = Some i \<longleftrightarrow> v = JInt i \<and> 0 \<le> i"
  by (cases v) (auto simp: size_of_def)

lemma digest_of_Some: "digest_of v = Some s \<longleftrightarrow> v = JStr s \<and> is_digest s"
  by (cases v) auto

lemma location_of_opt [simp]: "location_of (opt_str l) = Some l"
  by (cases l) (simp_all add: opt_str_def)

text \<open>A fingerprint that can stand in a record\<close>

definition storable_fp :: "fingerprint \<Rightarrow> bool" where
  "storable_fp f = (fp_phase f = ''body'' \<and> (\<exists>i. fp_status f = Some i \<and> 100 \<le> i \<and> i \<le> 599) \<and> is_digest (fp_sha256 f)
     \<and> 0 \<le> fp_size f \<and> fp_error f = None)"

definition vo_fingerprint :: "vhost_observation \<Rightarrow> fingerprint" where
  "vo_fingerprint v = \<lparr>fp_phase = vo_phase v, fp_status = vo_status v, fp_location = vo_location v, fp_sha256 = vo_sha256 v,
     fp_size = vo_size v, fp_truncated = vo_truncated v, fp_error = vo_error v\<rparr>"

text \<open>What the reader accepts\<close>

definition vhost_ok :: "vhost_observation \<Rightarrow> bool" where
  "vhost_ok v =
     (valid_hostname (vo_hostname v) \<and> normalize_virtual_host_endpoint (vo_endpoint v) = Inr (vo_endpoint v)
      \<and> (\<exists>u n. urlsplit (vo_endpoint v) = Inr u \<and> url_port u = Inr (Some n) \<and> n \<noteq> 0
            \<and> vo_http_host v = http_authority (vo_hostname v) (url_scheme u) n
            \<and> vo_server_name v = (if url_scheme u = ''https'' then Some (vo_hostname v) else None)
            \<and> (url_scheme u = ''https'' \<and> vo_verified v \<noteq> None \<or> url_scheme u = ''http'' \<and> vo_verified v = None))
      \<and> vo_classification v = ''distinct'' \<and> storable_fp (vo_fingerprint v) \<and> \<not> vo_needs_confirmation v
      \<and> (\<exists>cx ct used. storable_fp cx \<and> storable_fp ct \<and> vo_context v = baseline_of cx \<and> vo_control v = baseline_of ct
            \<and> (vo_confirmation v = None \<or> vo_confirmation v = Some (vo_sha256 v))
            \<and> classify_fingerprints (vo_fingerprint v) cx (replicate VHOST_CONTROL_COUNT ct) (map_option (\<lambda>_. vo_fingerprint v) (vo_confirmation v))
                = Inr (''distinct'', vo_signals v, False, used)))"

lemma read_baseline_back:
  assumes "storable_fp f" "b = baseline_of f"
    and "field_of r (who @ ''_phase'') = opt_str (bl_phase b)" "field_of r (who @ ''_status'') = opt_int (bl_status b)"
    "field_of r (who @ ''_location'') = opt_str (bl_location b)" "field_of r (who @ ''_body_sha256'') = opt_str (bl_sha256 b)"
    "field_of r (who @ ''_body_size'') = opt_int (bl_size b)" "field_of r (who @ ''_body_truncated'') = opt_bool (bl_truncated b)"
  shows "read_baseline r who = Inr f"
proof -
  from assms(1) obtain i where i: "fp_phase f = ''body''" "fp_status f = Some i" "100 \<le> i" "i \<le> 599" "is_digest (fp_sha256 f)" "0 \<le> fp_size f"
    "fp_error f = None" by (auto simp: storable_fp_def)
  have "location_of (opt_str (bl_location b)) = Some (fp_location f)" by (simp add: assms(2) baseline_of_def)
  moreover have "opt_str (bl_phase b) = JStr ''body''" "status_of (opt_int (bl_status b)) = Some i"
    "digest_of (opt_str (bl_sha256 b)) = Some (fp_sha256 f)" "size_of (opt_int (bl_size b)) = Some (fp_size f)"
    "json_bool (opt_bool (bl_truncated b)) = Some (fp_truncated f)"
    using i by (simp_all add: assms(2) baseline_of_def opt_str_def opt_int_def opt_bool_def status_of_Some size_of_Some)
  ultimately show ?thesis using i(2) unfolding read_baseline_def assms(3-8) need_def
    by (simp, cases f) (use i in simp)
qed

definition vhost_fields :: "vhost_observation \<Rightarrow> (string \<times> json) list" where
  "vhost_fields v = [(''type'', JStr ''vhost''), (''hostname'', JStr (vo_hostname v))]
     @ filter (\<lambda>p. fst p \<noteq> ''type'' \<and> fst p \<noteq> ''hostname'') (vhost_to_record v)"

lemma vhost_fields_list: "vhost_fields v =
    [(''type'', JStr ''vhost''), (''hostname'', JStr (vo_hostname v)), (''endpoint'', JStr (vo_endpoint v)),
     (''http_host'', JStr (vo_http_host v)), (''tls_server_name'', opt_str (vo_server_name v)),
     (''classification'', JStr (vo_classification v)), (''phase'', JStr (vo_phase v)), (''status'', opt_int (vo_status v)),
     (''location'', opt_str (vo_location v)), (''body_sha256'', JStr (vo_sha256 v)), (''body_size'', JInt (vo_size v)),
     (''body_truncated'', JBool (vo_truncated v)),
     (''context_phase'', opt_str (bl_phase (vo_context v))), (''context_status'', opt_int (bl_status (vo_context v))),
     (''context_location'', opt_str (bl_location (vo_context v))), (''context_body_sha256'', opt_str (bl_sha256 (vo_context v))),
     (''context_body_size'', opt_int (bl_size (vo_context v))), (''context_body_truncated'', opt_bool (bl_truncated (vo_context v))),
     (''control_phase'', opt_str (bl_phase (vo_control v))), (''control_status'', opt_int (bl_status (vo_control v))),
     (''control_location'', opt_str (bl_location (vo_control v))), (''control_body_sha256'', opt_str (bl_sha256 (vo_control v))),
     (''control_body_size'', opt_int (bl_size (vo_control v))), (''control_body_truncated'', opt_bool (bl_truncated (vo_control v))),
     (''confirmation_body_sha256'', opt_str (vo_confirmation v)), (''tls_verified'', opt_bool (vo_verified v)),
     (''distinct_signals'', JList (map JStr (vo_signals v))), (''reflection_normalized'', JBool (vo_reflection v))]"
  by (simp add: vhost_fields_def vhost_to_record_def baseline_fields_def)

lemma vhost_fields:
  "field_of (vhost_fields v) ''type'' = JStr ''vhost''" "field_of (vhost_fields v) ''hostname'' = JStr (vo_hostname v)"
  "field_of (vhost_fields v) ''endpoint'' = JStr (vo_endpoint v)" "field_of (vhost_fields v) ''http_host'' = JStr (vo_http_host v)"
  "field_of (vhost_fields v) ''tls_server_name'' = opt_str (vo_server_name v)"
  "field_of (vhost_fields v) ''classification'' = JStr (vo_classification v)" "field_of (vhost_fields v) ''phase'' = JStr (vo_phase v)"
  "field_of (vhost_fields v) ''status'' = opt_int (vo_status v)" "field_of (vhost_fields v) ''location'' = opt_str (vo_location v)"
  "field_of (vhost_fields v) ''body_sha256'' = JStr (vo_sha256 v)" "field_of (vhost_fields v) ''body_size'' = JInt (vo_size v)"
  "field_of (vhost_fields v) ''body_truncated'' = JBool (vo_truncated v)"
  "field_of (vhost_fields v) ''confirmation_body_sha256'' = opt_str (vo_confirmation v)"
  "field_of (vhost_fields v) ''tls_verified'' = opt_bool (vo_verified v)"
  "field_of (vhost_fields v) ''distinct_signals'' = JList (map JStr (vo_signals v))"
  "field_of (vhost_fields v) ''reflection_normalized'' = JBool (vo_reflection v)"
  "''error_type'' \<notin> set (map fst (vhost_fields v))"
  by (simp_all add: vhost_fields_list field_of_def)

lemma vhost_baseline_fields:
  "who \<in> {''context'', ''control''} \<Longrightarrow> b = (if who = ''context'' then vo_context v else vo_control v) \<Longrightarrow>
   field_of (vhost_fields v) (who @ ''_phase'') = opt_str (bl_phase b) \<and> field_of (vhost_fields v) (who @ ''_status'') = opt_int (bl_status b)
   \<and> field_of (vhost_fields v) (who @ ''_location'') = opt_str (bl_location b)
   \<and> field_of (vhost_fields v) (who @ ''_body_sha256'') = opt_str (bl_sha256 b)
   \<and> field_of (vhost_fields v) (who @ ''_body_size'') = opt_int (bl_size b)
   \<and> field_of (vhost_fields v) (who @ ''_body_truncated'') = opt_bool (bl_truncated b)"
  by (elim insertE emptyE; simp add: vhost_fields_list field_of_def)

lemma classify_signals:
  "classify_fingerprints f cx cts c = Inr (cl, signals, needs, used) \<Longrightarrow> cl = ''distinct'' \<Longrightarrow>
   signals \<noteq> [] \<and> list_all (\<lambda>s. s \<in> set FINGERPRINT_SIGNALS) signals \<and> distinct signals"
proof -
  assume c: "classify_fingerprints f cx cts c = Inr (cl, signals, needs, used)" "cl = ''distinct''"
  have sub: "set (fingerprint_signals f g) \<subseteq> set FINGERPRINT_SIGNALS" for g
    by (auto simp: fingerprint_signals_def FINGERPRINT_SIGNALS_def)
  have d: "distinct FINGERPRINT_SIGNALS" by (simp add: FINGERPRINT_SIGNALS_def)
  from c have "signals = filter (\<lambda>s. s \<in> set (fingerprint_signals f (hd cts)) \<or> s \<in> set (fingerprint_signals f cx)) FINGERPRINT_SIGNALS"
    and ne: "fingerprint_signals f cx \<noteq> []"
    by (auto simp: classify_fingerprints_def Let_def split: if_splits option.splits)
  then show ?thesis using sub [of cx] d by (cases "fingerprint_signals f cx") (auto simp: filter_empty_conv list_all_iff)
qed

lemma vhost_read_back: "vhost_ok v \<Longrightarrow> vhost_from_record (vhost_fields v) = Inr v"
proof -
  assume ok: "vhost_ok v"
  then obtain u n cx ct used where u: "urlsplit (vo_endpoint v) = Inr u" "url_port u = Inr (Some n)" "n \<noteq> 0"
    "vo_http_host v = http_authority (vo_hostname v) (url_scheme u) n"
    "vo_server_name v = (if url_scheme u = ''https'' then Some (vo_hostname v) else None)"
    "url_scheme u = ''https'' \<and> vo_verified v \<noteq> None \<or> url_scheme u = ''http'' \<and> vo_verified v = None"
    and b: "storable_fp cx" "storable_fp ct" "vo_context v = baseline_of cx" "vo_control v = baseline_of ct"
    and c: "vo_confirmation v = None \<or> vo_confirmation v = Some (vo_sha256 v)"
    and cl: "classify_fingerprints (vo_fingerprint v) cx (replicate VHOST_CONTROL_COUNT ct) (map_option (\<lambda>_. vo_fingerprint v) (vo_confirmation v))
                = Inr (''distinct'', vo_signals v, False, used)"
    unfolding vhost_ok_def by blast
  have h: "normalize_hostname (vo_hostname v) = Inr (vo_hostname v)" and e: "normalize_virtual_host_endpoint (vo_endpoint v) = Inr (vo_endpoint v)"
    using ok by (simp_all add: vhost_ok_def valid_hostname_normalize)
  from ok obtain i where f: "vo_phase v = ''body''" "vo_status v = Some i" "100 \<le> i" "i \<le> 599" "is_digest (vo_sha256 v)" "0 \<le> vo_size v"
    "vo_error v = None" "vo_classification v = ''distinct''" "vo_needs_confirmation v = False"
    by (auto simp: vhost_ok_def storable_fp_def vo_fingerprint_def)
  have cx: "read_baseline (vhost_fields v) ''context'' = Inr cx"
    using vhost_baseline_fields [of "''context''" "vo_context v" v] by (intro read_baseline_back [OF b(1,3)]) auto
  have ct: "read_baseline (vhost_fields v) ''control'' = Inr ct"
    using vhost_baseline_fields [of "''control''" "vo_control v" v] by (intro read_baseline_back [OF b(2,4)]) auto
  have t: "read_tls (url_scheme u) (opt_bool (vo_verified v)) = Inr (vo_verified v)"
    using u(6) by (cases "vo_verified v") (auto simp: read_tls_def opt_bool_def)
  have k: "read_confirmation (opt_str (vo_confirmation v)) (vo_sha256 v) = Inr (vo_confirmation v)"
    using c f(5) by (auto simp: read_confirmation_def opt_str_def need_def)
  have s: "read_signals (JList (map JStr (vo_signals v))) = Inr (vo_signals v)"
    using classify_signals [OF cl refl] by (simp add: read_signals_def)
  have "status_of (opt_int (vo_status v)) = Some i" "size_of (JInt (vo_size v)) = Some (vo_size v)" "digest_of (JStr (vo_sha256 v)) = Some (vo_sha256 v)"
    using f by (simp_all add: status_of_Some size_of_Some opt_int_def)
  then have rc: "read_candidate (vhost_fields v) = Inr (vo_fingerprint v, vo_reflection v)"
    using f by (simp add: read_candidate_def vhost_fields need_def vo_fingerprint_def)
  have port: "(case Some n of Some n \<Rightarrow> if n \<noteq> 0 then n else default_port (url_scheme u) | None \<Rightarrow> default_port (url_scheme u)) = n" using u(3) by simp
  have j: "judge_record (vo_fingerprint v) cx ct (vo_confirmation v) (vo_signals v) = Inr ()" by (simp add: judge_record_def cl)
  have sha: "fp_sha256 (vo_fingerprint v) = vo_sha256 v" by (simp add: vo_fingerprint_def)
  have "vhost_from_record (vhost_fields v) = read_evidence (vhost_fields v) (vo_endpoint v) (vo_hostname v) (vo_http_host v) (vo_server_name v) (url_scheme u)"
    unfolding vhost_from_record_def vhost_fields json_str.simps option.case prod.case h e bindR_simps u(1,2) Let_def port
    using f(1,8) u(3-5) by simp
  also have "\<dots> = Inr v"
    unfolding read_evidence_def rc cx ct t k s j vhost_fields sha bindR_simps prod.case
    using f b(3,4) vhost_fields(17) [of v] by (cases v) (simp add: vo_fingerprint_def)
  finally show ?thesis .
qed

lemma classify_replay:
  assumes "classify_fingerprints f cx cts c = Inr (''distinct'', signals, needs, used)"
  shows "\<not> needs \<and> usable_fingerprint f \<and> usable_fingerprint cx \<and> usable_fingerprint (hd cts) \<and> list_all (\<lambda>x. x = hd cts) cts \<and> cts \<noteq> []
    \<and> (used \<longrightarrow> c = Some f)
    \<and> classify_fingerprints f cx (replicate VHOST_CONTROL_COUNT (hd cts)) (if used then Some f else None) = Inr (''distinct'', signals, False, used)"
proof -
  have r: "\<not> length (replicate VHOST_CONTROL_COUNT x) < VHOST_CONTROL_COUNT" "hd (replicate VHOST_CONTROL_COUNT x) = x"
    "list_all (\<lambda>y. y = x) (replicate VHOST_CONTROL_COUNT x)" for x :: fingerprint
    by (simp_all add: VHOST_CONTROL_COUNT_def list_all_iff)
  have len: "\<not> length cts < VHOST_CONTROL_COUNT" using assms by (auto simp: classify_fingerprints_def)
  then have "cts \<noteq> []" by (auto simp: VHOST_CONTROL_COUNT_def)
  with assms len show ?thesis
    unfolding classify_fingerprints_def r by (auto simp: Let_def r split: if_splits option.splits)
qed

lemma usable_storable:
  "usable_fingerprint f \<Longrightarrow> fp_status f = Some i \<Longrightarrow> 100 \<le> i \<Longrightarrow> i \<le> 599 \<Longrightarrow> is_digest (fp_sha256 f) \<Longrightarrow> 0 \<le> fp_size f \<Longrightarrow> storable_fp f"
  by (simp add: usable_fingerprint_def storable_fp_def)

definition status_in_range :: "probe_observation \<Rightarrow> bool" where
  "status_in_range p = (\<forall>i. prb_status p = Some i \<longrightarrow> 100 \<le> i \<and> i \<le> 599)"

lemma normalize_probe_facts:
  "fp_status (fst (normalize_probe sha256 p)) = prb_status p \<and> fp_phase (fst (normalize_probe sha256 p)) = prb_phase p
   \<and> fp_error (fst (normalize_probe sha256 p)) = prb_error p \<and> fp_truncated (fst (normalize_probe sha256 p)) = prb_truncated p
   \<and> (\<exists>b. fp_sha256 (fst (normalize_probe sha256 p)) = sha256 b) \<and> 0 \<le> fp_size (fst (normalize_probe sha256 p))
   \<and> fp_location (fst (normalize_probe sha256 p)) = fst (snd (normalize_probe sha256 p))"
  by (auto simp: normalize_probe_def Let_def split: prod.splits)

lemma probe_storable:
  "usable_fingerprint (fst (normalize_probe sha256 p)) \<Longrightarrow> status_in_range p \<Longrightarrow> (\<forall>s. is_digest (sha256 s)) \<Longrightarrow>
   storable_fp (fst (normalize_probe sha256 p))"
  using normalize_probe_facts [of sha256 p]
  by (auto simp: usable_fingerprint_def storable_fp_def status_in_range_def)

text \<open>What a probe of a candidate of an endpoint reports, as far as the record needs it\<close>

definition probe_of_endpoint :: "string \<Rightarrow> probe_observation \<Rightarrow> bool" where
  "probe_of_endpoint endpoint p =
     (valid_hostname (prb_hostname p)
      \<and> (\<exists>u n. urlsplit endpoint = Inr u \<and> url_port u = Inr (Some n) \<and> n \<noteq> 0 \<and> url_scheme u \<in> {''http'', ''https''}
           \<and> prb_http_host p = http_authority (prb_hostname p) (url_scheme u) n
           \<and> prb_server_name p = (if url_scheme u = ''https'' then Some (prb_hostname p) else None)
           \<and> (prb_verified p \<noteq> None \<longleftrightarrow> url_scheme u = ''https'')))"

lemma classify_parts:
  "classify_virtual_host sha256 endpoint context1 candidate controls confirmation = Inr v \<Longrightarrow>
   \<exists>used. classify_fingerprints (fst (normalize_probe sha256 candidate)) (fst (normalize_probe sha256 context1))
      (map (\<lambda>c. fst (normalize_probe sha256 c)) controls) (map_option (\<lambda>c. fst (normalize_probe sha256 c)) confirmation)
      = Inr (vo_classification v, vo_signals v, vo_needs_confirmation v, used)
    \<and> vo_hostname v = prb_hostname candidate"
  by (cases "normalize_probe sha256 candidate") (auto simp: classify_virtual_host_def bindR_Inr_iff Let_def split: if_splits)

lemma classified_vhost_ok:
  assumes v: "classify_virtual_host sha256 endpoint context1 candidate controls confirmation = Inr v"
    and distinct: "vo_classification v = ''distinct''"
    and e: "normalize_virtual_host_endpoint endpoint = Inr endpoint" "probe_of_endpoint endpoint candidate"
    and st: "list_all status_in_range (context1 # candidate # controls)" and sha: "\<forall>s. is_digest (sha256 s)"
  shows "vhost_ok v"
proof -
  let ?f = "fst (normalize_probe sha256 candidate)" and ?cx = "fst (normalize_probe sha256 context1)"
  let ?cts = "map (\<lambda>c. fst (normalize_probe sha256 c)) controls"
  let ?c = "map_option (\<lambda>c. fst (normalize_probe sha256 c)) confirmation"
  obtain location reflected where n: "normalize_probe sha256 candidate = (?f, location, reflected)" by (metis prod.collapse)
  have loc: "fst (snd (normalize_probe sha256 candidate)) = location" using arg_cong [OF n, of "\<lambda>x. fst (snd x)"] by simp
  from v obtain cl signals needs used where cf: "classify_fingerprints ?f ?cx ?cts ?c = Inr (cl, signals, needs, used)"
    and v': "v = \<lparr>vo_endpoint = endpoint, vo_hostname = prb_hostname candidate, vo_http_host = prb_http_host candidate,
         vo_server_name = prb_server_name candidate, vo_classification = cl, vo_phase = prb_phase candidate,
         vo_status = prb_status candidate, vo_location = location, vo_sha256 = fp_sha256 ?f, vo_size = fp_size ?f,
         vo_truncated = prb_truncated candidate, vo_verified = prb_verified candidate, vo_error = prb_error candidate,
         vo_signals = signals, vo_reflection = reflected, vo_needs_confirmation = needs, vo_context = baseline_of ?cx,
         vo_control = (if ?cts \<noteq> [] \<and> list_all (\<lambda>c. c = hd ?cts) ?cts then baseline_of (hd ?cts) else no_baseline),
         vo_confirmation = (if used then map_option fp_sha256 ?c else None)\<rparr>"
    by (subst (asm) classify_virtual_host_def, subst (asm) n)
      (auto simp: bindR_Inr_iff Let_def split: if_splits)
  have cl: "cl = ''distinct''" using distinct v' by simp
  note replay = classify_replay [OF cf [unfolded cl]]
  have "controls \<noteq> []" using replay by auto
  then have hd: "hd ?cts = fst (normalize_probe sha256 (hd controls))" "status_in_range (hd controls)"
    using st by (cases controls; simp)+
  have fp: "vo_fingerprint v = ?f"
    using normalize_probe_facts [of sha256 candidate] loc by (intro fingerprint.equality) (simp_all add: v' vo_fingerprint_def)
  have vc: "vo_confirmation v = (if used then Some (vo_sha256 v) else None)" using replay by (auto simp: v')
  then have conf: "map_option (\<lambda>_. vo_fingerprint v) (vo_confirmation v) = (if used then Some ?f else None)"
    "vo_confirmation v = None \<or> vo_confirmation v = Some (vo_sha256 v)"
    by (simp_all add: fp)
  have base: "vo_context v = baseline_of ?cx" "vo_control v = baseline_of (hd ?cts)" "vo_signals v = signals" "\<not> vo_needs_confirmation v"
    using replay by (simp_all add: v')
  have same: "vo_hostname v = prb_hostname candidate" "vo_endpoint v = endpoint" "vo_http_host v = prb_http_host candidate"
    "vo_server_name v = prb_server_name candidate" "vo_verified v = prb_verified candidate" by (simp_all add: v')
  have store: "storable_fp ?f" "storable_fp ?cx" "storable_fp (hd ?cts)"
    using replay hd st sha by (auto intro!: probe_storable)
  have "classify_fingerprints (vo_fingerprint v) ?cx (replicate VHOST_CONTROL_COUNT (hd ?cts))
      (map_option (\<lambda>_. vo_fingerprint v) (vo_confirmation v)) = Inr (''distinct'', vo_signals v, False, used)"
    unfolding conf(1) unfolding fp base(3) using replay by blast
  with store(2,3) base(1,2) conf(2) have "\<exists>cx ct used. storable_fp cx \<and> storable_fp ct \<and> vo_context v = baseline_of cx \<and> vo_control v = baseline_of ct
      \<and> (vo_confirmation v = None \<or> vo_confirmation v = Some (vo_sha256 v))
      \<and> classify_fingerprints (vo_fingerprint v) cx (replicate VHOST_CONTROL_COUNT ct) (map_option (\<lambda>_. vo_fingerprint v) (vo_confirmation v))
          = Inr (''distinct'', vo_signals v, False, used)" by blast
  moreover have "\<exists>u n. urlsplit (vo_endpoint v) = Inr u \<and> url_port u = Inr (Some n) \<and> n \<noteq> 0
            \<and> vo_http_host v = http_authority (vo_hostname v) (url_scheme u) n
            \<and> vo_server_name v = (if url_scheme u = ''https'' then Some (vo_hostname v) else None)
            \<and> (url_scheme u = ''https'' \<and> vo_verified v \<noteq> None \<or> url_scheme u = ''http'' \<and> vo_verified v = None)"
    using e(2) unfolding probe_of_endpoint_def same by (elim conjE exE) (intro exI conjI, auto)
  moreover have "valid_hostname (vo_hostname v)" "normalize_virtual_host_endpoint (vo_endpoint v) = Inr (vo_endpoint v)"
    using e unfolding probe_of_endpoint_def same by blast+
  moreover have "storable_fp (vo_fingerprint v)" using store(1) by (simp only: fp)
  ultimately show ?thesis unfolding vhost_ok_def using distinct base(4) by (intro conjI)
qed

section \<open>What the reader accepts\<close>

lemma read_baseline_storable: "read_baseline r who = Inr f \<Longrightarrow> storable_fp f"
  by (auto simp: read_baseline_def bindR_Inr_iff need_Inr status_of_Some size_of_Some digest_of_Some storable_fp_def split: if_splits)

lemma read_confirmation_Inr: "read_confirmation v d = Inr c \<Longrightarrow> c = None \<or> c = Some d"
  by (auto simp: read_confirmation_def bindR_Inr_iff split: if_splits)

lemma read_tls_Inr: "read_tls scheme v = Inr c \<Longrightarrow> scheme = ''https'' \<or> scheme = ''http'' \<Longrightarrow>
   scheme = ''https'' \<and> c \<noteq> None \<or> scheme = ''http'' \<and> c = None"
  by (auto simp: read_tls_def split: if_splits)

lemma endpoint_parts:
  "normalize_virtual_host_endpoint e = Inr t \<Longrightarrow> \<exists>u n. urlsplit t = Inr u \<and> url_port u = Inr (Some n) \<and> n \<noteq> 0 \<and> url_scheme u \<in> {''http'', ''https''}"
proof -
  assume t: "normalize_virtual_host_endpoint e = Inr t"
  from endpoint_result [OF t] obtain scheme a port where p: "t = endpoint_text scheme a port" "scheme \<in> {''http'', ''https''}"
    "wf_ip a" "plain_ip a" "1 \<le> port" "port \<le> 65535" by blast
  from endpoint_split [OF p(2-6)] obtain u where "urlsplit (strip t) = Inr u" "url_scheme u = scheme" "url_port u = Inr (Some port)"
    unfolding p(1) by blast
  moreover have "strip t = t" using endpoint_text_strip [OF p(2)] by (simp add: p(1))
  ultimately show ?thesis using p(2,5) by auto
qed

lemma vhost_read_accepts: "vhost_from_record r = Inr v \<Longrightarrow> vhost_ok v"
proof -
  assume r: "vhost_from_record r = Inr v"
  obtain h0 e0 where he: "json_str (field_of r ''hostname'') = Some h0" "json_str (field_of r ''endpoint'') = Some e0"
    using r by (auto simp: vhost_from_record_def split: if_splits option.splits)
  from r obtain h e where h: "normalize_hostname h0 = Inr h" and e: "normalize_virtual_host_endpoint e0 = Inr e"
    by (auto simp: vhost_from_record_def he bindR_Inr_iff split: if_splits)
  from endpoint_parts [OF e] obtain u n where u: "urlsplit e = Inr u" "url_port u = Inr (Some n)" "n \<noteq> 0" "url_scheme u \<in> {''http'', ''https''}"
    by blast
  let ?hh = "http_authority h (url_scheme u) n" and ?sn = "if url_scheme u = ''https'' then Some h else None"
  have "read_evidence r e h ?hh ?sn (url_scheme u) = Inr v"
    using r u(3) unfolding vhost_from_record_def he option.case prod.case h e bindR_simps u(1,2) Let_def if_Inl_eq_Inr by simp
  then obtain fp reflection cx ct verified confirmation signals where
    rc: "read_candidate r = Inr (fp, reflection)" and cx: "read_baseline r ''context'' = Inr cx" and ct: "read_baseline r ''control'' = Inr ct"
    and t: "read_tls (url_scheme u) (field_of r ''tls_verified'') = Inr verified"
    and c: "read_confirmation (field_of r ''confirmation_body_sha256'') (fp_sha256 fp) = Inr confirmation"
    and j: "judge_record fp cx ct confirmation signals = Inr ()"
    and v: "v = \<lparr>vo_endpoint = e, vo_hostname = h, vo_http_host = ?hh, vo_server_name = ?sn, vo_classification = ''distinct'',
        vo_phase = ''body'', vo_status = fp_status fp, vo_location = fp_location fp, vo_sha256 = fp_sha256 fp, vo_size = fp_size fp,
        vo_truncated = fp_truncated fp, vo_verified = verified, vo_error = None, vo_signals = signals, vo_reflection = reflection,
        vo_needs_confirmation = False, vo_context = baseline_of cx, vo_control = baseline_of ct, vo_confirmation = confirmation\<rparr>"
    by (auto simp: read_evidence_def bindR_Inr_iff split: if_splits)
  have store: "storable_fp fp"
    using rc by (auto simp: read_candidate_def bindR_Inr_iff need_Inr storable_fp_def status_of_Some digest_of_Some size_of_Some)
  then have fp: "vo_fingerprint v = fp" by (intro fingerprint.equality) (simp_all add: v vo_fingerprint_def storable_fp_def)
  from j obtain used where cl: "classify_fingerprints fp cx (replicate VHOST_CONTROL_COUNT ct) (map_option (\<lambda>_. fp) confirmation)
      = Inr (''distinct'', signals, False, used)"
    by (auto simp: judge_record_def bindR_Inr_iff split: if_splits)
  have "storable_fp (vo_fingerprint v)" using store by (simp only: fp)
  moreover have "classify_fingerprints (vo_fingerprint v) cx (replicate VHOST_CONTROL_COUNT ct) (map_option (\<lambda>_. vo_fingerprint v) (vo_confirmation v))
        = Inr (''distinct'', vo_signals v, False, used)" using cl unfolding fp by (simp add: v)
  moreover have "vo_context v = baseline_of cx" "vo_control v = baseline_of ct" "vo_confirmation v = None \<or> vo_confirmation v = Some (vo_sha256 v)"
    using read_confirmation_Inr [OF c] by (simp_all add: v)
  moreover note read_baseline_storable [OF cx] read_baseline_storable [OF ct]
  moreover have "url_scheme u = ''https'' \<and> vo_verified v \<noteq> None \<or> url_scheme u = ''http'' \<and> vo_verified v = None"
    using read_tls_Inr [OF t] u(4) by (auto simp: v)
  moreover have "vo_hostname v = h" "vo_endpoint v = e" "vo_http_host v = ?hh" "vo_server_name v = ?sn" "vo_classification v = ''distinct''"
    "\<not> vo_needs_confirmation v" by (simp_all add: v)
  ultimately show ?thesis
    unfolding vhost_ok_def using normalize_hostname_valid [OF h] endpoint_norm.norm_stable [OF e] u(1-3) by blast
qed

lemma vhost_detail_fields: "vhost_detail v = JObj obj \<Longrightarrow> [(''type'', JStr ''vhost''), (''hostname'', JStr (vo_hostname v))] @ obj = vhost_fields v"
  by (auto simp: vhost_detail_def vhost_fields_def)

lemma vhost_detail_wf: "wf_json (vhost_detail v)"
proof -
  have opt: "wf_json (opt_str a)" "wf_json (opt_int b)" "wf_json (opt_bool c)" for a b c
    by (cases a; cases b; cases c; simp add: opt_str_def opt_int_def opt_bool_def)+
  have "list_all wf_json (map JStr (vo_signals v))" by (simp add: list_all_iff)
  then show ?thesis by (simp add: vhost_detail_def vhost_to_record_def baseline_fields_def opt)
qed

lemma vhost_detail_keys: "vhost_detail v = JObj obj \<Longrightarrow> ''type'' \<notin> set (map fst obj) \<and> ''hostname'' \<notin> set (map fst obj)"
  by (auto simp: vhost_detail_def)

lemma vhost_detail_read_back: "vhost_ok v \<Longrightarrow> vhost_from_detail (vo_hostname v) (vhost_detail v) = Inr v"
proof -
  assume ok: "vhost_ok v"
  obtain obj where obj: "vhost_detail v = JObj obj" by (simp add: vhost_detail_def)
  have "vhost_from_record ([(''type'', JStr ''vhost''), (''hostname'', JStr (vo_hostname v))] @ obj) = Inr v"
    using vhost_read_back [OF ok] unfolding vhost_detail_fields [OF obj] .
  moreover have "hd (virtual_host_details [v]) = JObj obj" by (simp add: virtual_host_details_def canon_by_def obj)
  moreover have "json_eq (JObj obj) (JObj obj)" using vhost_detail_wf [of v] unfolding obj by (rule json_eq_same)
  ultimately show ?thesis using vhost_detail_keys [OF obj] unfolding obj vhost_from_detail_def by simp
qed

lemma vhost_detail_accepts: "vhost_from_detail h j = Inr v \<Longrightarrow> vhost_ok v \<and> vo_hostname v = h"
  by (cases j) (auto simp: vhost_from_detail_def bindR_Inr_iff split: if_splits dest: vhost_read_accepts)

interpretation vhost_evidence: structured_evidence vhost_ok "\<lambda>_. True" vo_hostname vhost_from_detail vhost_detail
  by unfold_locales (auto intro: vhost_detail_read_back vhost_detail_wf dest: vhost_detail_accepts)

lemma parse_details_back:
  assumes "vs \<noteq> []" "\<forall>v\<in>set vs. vhost_ok v \<and> vo_hostname v = h"
  shows "parse_virtual_host_details h (JList (virtual_host_details vs)) = Inr (canon_by vhost_key vs)"
proof -
  have "mapR (vhost_from_detail h) (map vhost_detail (canon_by vhost_key vs)) = Inr (canon_by vhost_key vs)"
  proof (rule mapR_read_back)
    fix v
    assume "v \<in> set (canon_by vhost_key vs)"
    then have "vhost_ok v" "vo_hostname v = h" using assms(2) by simp_all
    then show "vhost_from_detail h (vhost_detail v) = Inr v" using vhost_evidence.read_back by blast
  qed
  moreover have "canon_by vhost_key vs \<noteq> []" using assms(1) by (metis set_canon_by set_empty)
  moreover have "canon_by vhost_key (canon_by vhost_key vs) = canon_by vhost_key vs" by (rule canon_by_id) simp_all
  ultimately show ?thesis by (simp add: parse_virtual_host_details_def virtual_host_details_def)
qed

text \<open>C35: Virtual-host details round trip. The details of observations that the reader accepts, all of one host
  name, are read back as their canonical collection; and whatever is read is a canonical collection of
  observations of this host name that the reader accepts, each from a detail equal to its own.\<close>

theorem vhost_details_round_trip:
  assumes "vs \<noteq> []" "\<forall>v\<in>set vs. vo_hostname v = h \<and> (\<exists>r. vhost_from_record r = Inr v)"
  shows "parse_virtual_host_details h (JList (virtual_host_details vs)) = Inr (canon_by vhost_key vs)
    \<and> (parse_virtual_host_details k (JList ds) = Inr ws \<longrightarrow>
         canon_by vhost_key ws = ws \<and> set ws = {v. \<exists>d\<in>set ds. vhost_from_detail k d = Inr v}
         \<and> (\<forall>v\<in>set ws. vo_hostname v = k \<and> vhost_from_detail k (vhost_detail v) = Inr v))"
proof (intro conjI impI)
  show "parse_virtual_host_details h (JList (virtual_host_details vs)) = Inr (canon_by vhost_key vs)"
    using assms vhost_read_accepts by (intro parse_details_back) blast+
next
  assume "parse_virtual_host_details k (JList ds) = Inr ws"
  then obtain found where found: "mapR (vhost_from_detail k) ds = Inr found" and ws: "ws = canon_by vhost_key found"
    by (auto simp: parse_virtual_host_details_def bindR_Inr_iff split: if_splits)
  show "canon_by vhost_key ws = ws" unfolding ws by (rule canon_by_id) simp_all
  show "set ws = {v. \<exists>d\<in>set ds. vhost_from_detail k d = Inr v}"
    using mapR_Inr_in [OF found] mapR_Inr_all [OF found] by (fastforce simp: ws)
  show "\<forall>v\<in>set ws. vo_hostname v = k \<and> vhost_from_detail k (vhost_detail v) = Inr v"
    using mapR_Inr_in [OF found] vhost_detail_accepts vhost_detail_read_back by (fastforce simp: ws)
qed

text \<open>C34: Distinct evidence can be stored, where the HTTP statuses are between 100 and 599. When the probes of an
  endpoint in normal form classify a candidate as distinct, the observation is confirmed, differs from context and
  controls, which agree among each other, and its details are accepted by the reader and read back unchanged, for every
  digest function and whatever the bodies were. With another status, which the HTTP client passes on, the reader refuses
  the evidence (\<open>status_999_is_refused\<close>).\<close>

theorem distinct_evidence_is_storable:
  assumes "classify_virtual_host sha256 endpoint context1 candidate controls confirmation = Inr v" "vo_classification v = ''distinct''"
    and "normalize_virtual_host_endpoint endpoint = Inr endpoint" "probe_of_endpoint endpoint candidate"
    and "list_all status_in_range (context1 # candidate # controls)" "\<forall>s. is_digest (sha256 s)"
  shows "parse_virtual_host_details (prb_hostname candidate) (JList (virtual_host_details [v])) = Inr [v]
    \<and> \<not> vo_needs_confirmation v \<and> 3 \<le> length controls
    \<and> (\<forall>c\<in>set controls. fst (normalize_probe sha256 c) = fst (normalize_probe sha256 (hd controls)))
    \<and> (\<forall>c\<in>{context1, hd controls}. fingerprint_signals (fst (normalize_probe sha256 candidate)) (fst (normalize_probe sha256 c)) \<noteq> [])
    \<and> vo_signals v \<noteq> []"
proof -
  let ?f = "\<lambda>p. fst (normalize_probe sha256 p)"
  have ok: "vhost_ok v" by (rule classified_vhost_ok [OF assms])
  from classify_parts [OF assms(1)] obtain used where cf: "classify_fingerprints (?f candidate) (?f context1) (map ?f controls)
      (map_option ?f confirmation) = Inr (''distinct'', vo_signals v, vo_needs_confirmation v, used)" and name: "vo_hostname v = prb_hostname candidate"
    unfolding assms(2) by blast
  note replay = classify_replay [OF cf]
  from replay have "map ?f controls \<noteq> []" by blast
  then have hd: "hd (map ?f controls) = ?f (hd controls)" by (simp add: hd_map)
  have "canon_by vhost_key [v] = [v]" by (simp add: canon_by_def)
  then have read: "parse_virtual_host_details (prb_hostname candidate) (JList (virtual_host_details [v])) = Inr [v]"
    using parse_details_back [of "[v]" "prb_hostname candidate"] ok name by simp
  have "\<not> length (map ?f controls) < VHOST_CONTROL_COUNT" using cf by (auto simp: classify_fingerprints_def)
  then have len: "3 \<le> length controls" by (simp add: VHOST_CONTROL_COUNT_def)
  from replay have "list_all (\<lambda>x. x = hd (map ?f controls)) (map ?f controls)" by blast
  then have same: "\<forall>c\<in>set controls. ?f c = ?f (hd controls)" unfolding hd by (simp add: list_all_iff)
  have "fingerprint_signals (?f candidate) (?f context1) \<noteq> []" "fingerprint_signals (?f candidate) (hd (map ?f controls)) \<noteq> []"
    using cf by (auto simp: classify_fingerprints_def Let_def split: if_splits option.splits)
  then have sig: "\<forall>c\<in>{context1, hd controls}. fingerprint_signals (?f candidate) (?f c) \<noteq> []" unfolding hd by simp
  from replay have "\<not> vo_needs_confirmation v" by (rule conjunct1)
  moreover from classify_signals [OF cf refl] have "vo_signals v \<noteq> []" by (rule conjunct1)
  ultimately show ?thesis using read len same sig by (intro conjI)
qed

section \<open>Examples\<close>

definition example_probe :: "string \<Rightarrow> string option \<Rightarrow> int \<Rightarrow> string \<Rightarrow> probe_observation" where
  "example_probe name location status body =
     \<lparr>prb_hostname = name, prb_http_host = name, prb_server_name = None, prb_phase = ''body'', prb_status = Some status,
      prb_location = location, prb_body = body, prb_truncated = False, prb_verified = None, prb_error = None\<rparr>"

definition example_digest :: "string \<Rightarrow> string" where
  "example_digest s = replicate 64 (if s = [] then CHR ''0'' else CHR ''a'')"

definition example_classified :: "int \<Rightarrow> vhost_observation res" where
  "example_classified status =
     classify_virtual_host example_digest ''http://192.0.2.1:80/'' (example_probe ''192.0.2.1'' None 404 ''none'')
       (example_probe ''www.example.com'' (Some ''http://www.example.com/in'') status ''Welcome to WWW.example.com'')
       (map (\<lambda>n. example_probe n None 404 ''none'') [''aaa.example.com'', ''aab.example.com'', ''aac.example.com'']) None"

lemma example_classified_result:
  "case example_classified 302 of Inl _ \<Rightarrow> False
   | Inr v \<Rightarrow> vo_classification v = ''distinct'' \<and> vo_location v = Some ''http://{authority}/in'' \<and> vo_reflection v \<and> vo_size v = 22"
  by code_simp

text \<open>A status that the HTTP client accepts and the reader does not (some servers answer 999): the candidate is
  classified distinct, and its record is refused.\<close>

lemma status_999_is_refused:
  "case example_classified 999 of Inl _ \<Rightarrow> False
   | Inr v \<Rightarrow> vo_classification v = ''distinct''
       \<and> vhost_from_record (vhost_fields v) = Inl (ValueError ''virtual-host record has an invalid HTTP status'')"
  by code_simp

lemma example_probe_of_endpoint: "probe_of_endpoint ''http://192.0.2.1:80/'' (example_probe ''www.example.com'' l i b)"
proof -
  have u: "urlsplit ''http://192.0.2.1:80/'' = Inr \<lparr>url_scheme = ''http'', url_netloc = ''192.0.2.1:80'', url_path = ''/'', url_query = [], url_fragment = []\<rparr>"
    "url_port \<lparr>url_scheme = ''http'', url_netloc = ''192.0.2.1:80'', url_path = ''/'', url_query = [], url_fragment = []\<rparr> = Inr (Some 80)"
    "http_authority ''www.example.com'' ''http'' 80 = ''www.example.com''" "normalize_hostname ''www.example.com'' = Inr ''www.example.com''"
    by code_simp+
  from normalize_hostname_valid [OF u(4)] u(1-3) show ?thesis by (simp add: probe_of_endpoint_def example_probe_def)
qed

lemma example_classified_facts:
  "normalize_virtual_host_endpoint ''http://192.0.2.1:80/'' = Inr ''http://192.0.2.1:80/''"
  "list_all status_in_range (example_probe ''192.0.2.1'' None 404 ''none'' #
      example_probe ''www.example.com'' (Some ''http://www.example.com/in'') 302 ''Welcome to WWW.example.com''
      # map (\<lambda>n. example_probe n None 404 ''none'') [''aaa.example.com'', ''aab.example.com'', ''aac.example.com''])"
  "\<forall>s. is_digest (example_digest s)"
proof -
  show "normalize_virtual_host_endpoint ''http://192.0.2.1:80/'' = Inr ''http://192.0.2.1:80/''" by code_simp
qed (simp_all add: status_in_range_def example_probe_def is_digest_def example_digest_def list_all_iff)

lemma distinct_evidence_is_storable_witness:
  "\<exists>v. example_classified 302 = Inr v \<and> parse_virtual_host_details ''www.example.com'' (JList (virtual_host_details [v])) = Inr [v]"
proof -
  obtain v where v: "example_classified 302 = Inr v" "vo_classification v = ''distinct''"
    using example_classified_result by (auto split: sum.splits)
  from conjunct1 [OF distinct_evidence_is_storable [OF v(1) [unfolded example_classified_def] v(2) example_classified_facts(1)
      example_probe_of_endpoint example_classified_facts(2,3)]] v(1)
  show ?thesis by (auto simp: example_probe_def)
qed

lemma vhost_details_round_trip_witness:
  "\<exists>v. example_classified 302 = Inr v
     \<and> parse_virtual_host_details ''www.example.com'' (JList (virtual_host_details [v, v])) = Inr (canon_by vhost_key [v, v])"
proof -
  obtain v where v: "example_classified 302 = Inr v" "vo_classification v = ''distinct''"
    using example_classified_result by (auto split: sum.splits)
  note c = v(1) [unfolded example_classified_def]
  have "vhost_from_record (vhost_fields v) = Inr v"
    by (rule vhost_read_back [OF classified_vhost_ok [OF c v(2) example_classified_facts(1) example_probe_of_endpoint example_classified_facts(2,3)]])
  moreover have "vo_hostname v = ''www.example.com''" using classify_parts [OF c] by (auto simp: example_probe_def)
  ultimately have "\<forall>w\<in>set [v, v]. vo_hostname w = ''www.example.com'' \<and> (\<exists>r. vhost_from_record r = Inr w)" by auto
  from conjunct1 [OF vhost_details_round_trip [OF _ this]] v(1) show ?thesis by simp
qed

end
