(* ===== verification/Virtual_Host.thy ===== *)
theory Virtual_Host
  imports Virtual_Host_Evidence
begin

text \<open>
  Virtual-host discovery (lib/virtual_host.py): one probe, batches of concurrent probes, and the discovery
  of one endpoint with its budget, confirmations, interruptions and stop reasons. What the network does is an
  environment: the exchange of every request by its number, the interruption of the await that begins with a
  request (the runtime limit, a cancellation or another exception), which requests of an interrupted batch
  were complete, and how the session was closed.
\<close>

section \<open>One probe\<close>

text \<open>The reply of the HTTP client: the chunks its reader hands out, or the type of the error it raised\<close>

datatype body_outcome = Body "string list" | Body_error string

datatype exchange =
    Replied int "string option" body_outcome
  | Timed_out string
  | Client_error string

definition VHOST_BODY_LIMIT :: int where
  "VHOST_BODY_LIMIT = 1048576"

text \<open>The loop over the reader; an empty chunk ends the body.\<close>

fun read_body :: "string list \<Rightarrow> string \<Rightarrow> string" where
  "read_body [] body = body"
| "read_body (chunk # chunks) body =
     (if VHOST_BODY_LIMIT < int (length body) then body
      else (let n = min 65536 (VHOST_BODY_LIMIT + 1 - int (length body));
                got = (if int (length chunk) \<le> n then chunk else take (nat n) chunk)
            in if got = [] then body else read_body chunks (body @ got)))"

definition tls_verified :: "string \<Rightarrow> bool \<Rightarrow> bool option" where
  "tls_verified scheme insecure = (if scheme \<noteq> ''https'' then None else Some (\<not> insecure))"

definition contains :: "string \<Rightarrow> string \<Rightarrow> bool" where
  "contains part s = list_ex (\<lambda>i. starts_with part (drop i s)) [0..<Suc (length s)]"

text \<open>Scheme, host name and port of the endpoint\<close>

definition split_endpoint :: "string \<Rightarrow> (string \<times> string \<times> int) res" where
  "split_endpoint endpoint =
     bindR (urlsplit endpoint) (\<lambda>u.
     bindR (url_port u) (\<lambda>p.
       Inr (url_scheme u, url_hostname u,
            (case p of Some n \<Rightarrow> if n \<noteq> 0 then n else default_port (url_scheme u) | None \<Rightarrow> default_port (url_scheme u)))))"

definition probe :: "vhost_request \<Rightarrow> string option \<Rightarrow> exchange \<Rightarrow> probe_observation res" where
  "probe req hostname ex =
     bindR (split_endpoint (req_endpoint req)) (\<lambda>(scheme, endpoint_hostname, port).
       (let name = (case hostname of None \<Rightarrow> endpoint_hostname | Some h \<Rightarrow> if h = [] then endpoint_hostname else h);
            failed = (\<lambda>phase e. \<lparr>prb_hostname = name, prb_http_host = http_authority name scheme port,
                        prb_server_name = (if scheme = ''https'' then hostname else None), prb_phase = phase, prb_status = None,
                        prb_location = None, prb_body = [], prb_truncated = False,
                        prb_verified = tls_verified scheme (req_insecure req), prb_error = e\<rparr>)
        in Inr (case ex of
             Replied status location (Body_error e) \<Rightarrow> (failed ''headers'' (Some e))\<lparr>prb_status := Some status, prb_location := location\<rparr>
           | Replied status location (Body chunks) \<Rightarrow>
               (let body = read_body chunks []; truncated = VHOST_BODY_LIMIT < int (length body)
                in (failed ''body'' None)\<lparr>prb_status := Some status, prb_location := location,
                     prb_body := (if truncated then take (nat VHOST_BODY_LIMIT) body else body), prb_truncated := truncated\<rparr>)
           | Timed_out e \<Rightarrow> failed ''connect'' (Some e)
           | Client_error e \<Rightarrow>
               failed (if contains ''ssl'' (lower e) \<or> contains ''certificate'' (lower e) then ''tls'' else ''connect'') (Some e))))"

section \<open>The environment\<close>

datatype interruption = Expired | Cancelled | Crashed string

datatype closing = Closed | Close_cancelled | Close_crashed string

record environment =
  env_reply :: "nat \<Rightarrow> exchange"
  env_break :: "nat \<Rightarrow> interruption option"
  env_finished :: "nat \<Rightarrow> bool"
  env_start :: "nat list \<Rightarrow> nat"
  env_close :: closing

text \<open>\<open>_probe_batch\<close>: the completed probes by their index, and the exception it raises. A gather of no tasks does
  not wait.\<close>

definition probe_batch ::
  "environment \<Rightarrow> vhost_request \<Rightarrow> string list \<Rightarrow> nat \<Rightarrow> (nat \<times> probe_observation) list \<times> interruption option" where
  "probe_batch env req names first =
     (let results = map (\<lambda>(k, name). (k, probe req (Some name) (env_reply env (first + k)))) (enumerate 0 names);
          failures = List.map_filter (\<lambda>(k, r). case r of Inl e \<Rightarrow> Some (Crashed (type_name e)) | Inr _ \<Rightarrow> None) results;
          broken = (if failures \<noteq> [] then Some (hd failures) else if names = [] then None else env_break env first)
      in (List.map_filter (\<lambda>(k, r). case r of
             Inl _ \<Rightarrow> None
           | Inr p \<Rightarrow> if broken = None \<or> env_finished env (first + k) then Some (k, p) else None) results, broken))"

section \<open>Discovery of one endpoint\<close>

record vhost_discovery =
  dv_requests :: nat
  dv_observations :: "vhost_observation list"
  dv_controls :: "probe_observation list"
  dv_by_shape :: "(nat list \<times> probe_observation list) list"
  dv_context :: "probe_observation option"
  dv_attempted :: nat
  dv_errors :: nat
  dv_error_types :: "string list"
  dv_used :: "string list"

definition start_vhost_discovery :: vhost_discovery where
  "start_vhost_discovery = \<lparr>dv_requests = 0, dv_observations = [], dv_controls = [], dv_by_shape = [], dv_context = None,
     dv_attempted = 0, dv_errors = 0, dv_error_types = [], dv_used = []\<rparr>"

definition record_errors :: "probe_observation list \<Rightarrow> vhost_discovery \<Rightarrow> vhost_discovery" where
  "record_errors probes st =
     (let types = List.map_filter prb_error probes
      in st\<lparr>dv_errors := dv_errors st + length types, dv_error_types := dv_error_types st @ types\<rparr>)"

definition await_probe :: "environment \<Rightarrow> vhost_request \<Rightarrow> string option \<Rightarrow> vhost_discovery \<Rightarrow> (interruption + probe_observation) \<times> vhost_discovery" where
  "await_probe env req hostname st =
     (let n = dv_requests st; st1 = st\<lparr>dv_requests := n + 1\<rparr>
      in (case env_break env n of
            Some i \<Rightarrow> (Inl i, st1)
          | None \<Rightarrow> (case probe req hostname (env_reply env n) of
                       Inl e \<Rightarrow> (Inl (Crashed (type_name e)), st1)
                     | Inr p \<Rightarrow> (Inr p, record_errors [p] st1))))"

fun probe_controls ::
  "environment \<Rightarrow> vhost_request \<Rightarrow> string list \<Rightarrow> probe_observation list \<Rightarrow> vhost_discovery \<Rightarrow> (interruption + probe_observation list) \<times> vhost_discovery" where
  "probe_controls env req [] shape_controls st = (Inr shape_controls, st)"
| "probe_controls env req (name # names) shape_controls st =
     (case await_probe env req (Some name) st of
        (Inl i, st1) \<Rightarrow> (Inl i, st1)
      | (Inr p, st1) \<Rightarrow> probe_controls env req names (shape_controls @ [p]) (st1\<lparr>dv_controls := dv_controls st1 @ [p]\<rparr>))"

fun control_phase :: "environment \<Rightarrow> vhost_request \<Rightarrow> string list \<Rightarrow> vhost_discovery \<Rightarrow> interruption option \<times> vhost_discovery" where
  "control_phase env req [] st = (None, st)"
| "control_phase env req (candidate # rest) st =
     (let shape = candidate_shape candidate (req_scope req)
      in if map_of (dv_by_shape st) shape \<noteq> None then control_phase env req rest st
         else (case new_control_names shape (req_scope req) (dv_used st) (env_start env shape mod capacity shape) of
                 Inl e \<Rightarrow> (Some (Crashed (type_name e)), st)
               | Inr (names, used) \<Rightarrow>
                   (case probe_controls env req names [] (st\<lparr>dv_used := used\<rparr>) of
                      (Inl i, st1) \<Rightarrow> (Some i, st1)
                    | (Inr ps, st1) \<Rightarrow>
                        control_phase env req rest (st1\<lparr>dv_by_shape := AList.update shape ps (dv_by_shape st1)\<rparr>))))"

definition classify_candidate ::
  "(string \<Rightarrow> string) \<Rightarrow> vhost_request \<Rightarrow> probe_observation \<Rightarrow> probe_observation \<Rightarrow> probe_observation list \<Rightarrow> probe_observation option
   \<Rightarrow> vhost_observation res" where
  "classify_candidate sha256 req context1 candidate controls confirmation =
     bindR (classify_virtual_host sha256 (req_endpoint req) context1 candidate controls confirmation) (\<lambda>v.
       Inr (if prb_hostname candidate = req_scope req
            then v\<lparr>vo_classification := ''indeterminate'', vo_signals := [], vo_needs_confirmation := False\<rparr> else v))"

text \<open>\<open>controls_by_shape[_candidate_shape(name, scope)]\<close>, then the classification\<close>

definition classify_named ::
  "(string \<Rightarrow> string) \<Rightarrow> vhost_request \<Rightarrow> probe_observation \<Rightarrow> vhost_discovery \<Rightarrow> string \<Rightarrow> probe_observation \<Rightarrow> probe_observation option
   \<Rightarrow> vhost_observation res" where
  "classify_named sha256 req context1 st name candidate confirmation =
     (case map_of (dv_by_shape st) (candidate_shape name (req_scope req)) of
        None \<Rightarrow> Inl KeyError
      | Some controls \<Rightarrow> classify_candidate sha256 req context1 candidate controls confirmation)"

text \<open>What an interrupted batch has completed is classified one by one.\<close>

fun extend_observations ::
  "(string \<Rightarrow> string) \<Rightarrow> vhost_request \<Rightarrow> probe_observation \<Rightarrow> string list \<Rightarrow> (nat \<times> probe_observation) list \<Rightarrow> vhost_discovery
   \<Rightarrow> interruption option \<times> vhost_discovery" where
  "extend_observations sha256 req context1 names [] st = (None, st)"
| "extend_observations sha256 req context1 names ((k, p) # kept) st =
     (case classify_named sha256 req context1 st (names ! k) p None of
        Inl e \<Rightarrow> (Some (Crashed (type_name e)), st)
      | Inr v \<Rightarrow> extend_observations sha256 req context1 names kept (st\<lparr>dv_observations := dv_observations st @ [v]\<rparr>))"

text \<open>Every completed confirmation replaces the observation of its candidate.\<close>

fun confirm_observations ::
  "(string \<Rightarrow> string) \<Rightarrow> vhost_request \<Rightarrow> probe_observation \<Rightarrow> string list \<Rightarrow> probe_observation list \<Rightarrow> nat list \<Rightarrow> nat
   \<Rightarrow> (nat \<times> probe_observation) list \<Rightarrow> vhost_discovery \<Rightarrow> interruption option \<times> vhost_discovery" where
  "confirm_observations sha256 req context1 names probes indexes offset [] st = (None, st)"
| "confirm_observations sha256 req context1 names probes indexes offset ((j, confirmation) # kept) st =
     (let k = indexes ! j
      in (case classify_named sha256 req context1 st (names ! k) (probes ! k) (Some confirmation) of
            Inl e \<Rightarrow> (Some (Crashed (type_name e)), st)
          | Inr v \<Rightarrow> confirm_observations sha256 req context1 names probes indexes offset kept
                       (st\<lparr>dv_observations := (dv_observations st)[offset + k := v]\<rparr>)))"

definition batch_size :: "vhost_request \<Rightarrow> vhost_discovery \<Rightarrow> nat" where
  "batch_size req st =
     nat (min (vh_concurrency (req_limits req))
           (min (int (length (req_candidates req)) - int (dv_attempted st))
             (max 1 ((vh_request_limit (req_limits req) - int (dv_requests st)) div 2))))"

text \<open>The confirmations of a batch that is complete\<close>

definition confirm_batch ::
  "environment \<Rightarrow> (string \<Rightarrow> string) \<Rightarrow> vhost_request \<Rightarrow> probe_observation \<Rightarrow> string list \<Rightarrow> probe_observation list \<Rightarrow> vhost_observation list
   \<Rightarrow> vhost_discovery \<Rightarrow> interruption option \<times> vhost_discovery" where
  "confirm_batch env sha256 req context1 names probes obs st =
     (let offset = length (dv_observations st);
          st1 = st\<lparr>dv_observations := dv_observations st @ obs\<rparr>;
          indexes = take (nat (vh_request_limit (req_limits req) - int (dv_requests st1)))
                      (filter (\<lambda>k. vo_needs_confirmation (obs ! k)) [0..<length obs]);
          st2 = st1\<lparr>dv_requests := dv_requests st1 + length indexes\<rparr>;
          (kept, broken) = probe_batch env req (map (\<lambda>k. names ! k) indexes) (dv_requests st1);
          (failure, st3) = confirm_observations sha256 req context1 names probes indexes offset kept (record_errors (map snd kept) st2)
      in (case failure of Some f \<Rightarrow> (Some f, st3) | None \<Rightarrow> (broken, st3)))"

text \<open>One round of the loop\<close>

definition run_round ::
  "environment \<Rightarrow> (string \<Rightarrow> string) \<Rightarrow> vhost_request \<Rightarrow> probe_observation \<Rightarrow> vhost_discovery \<Rightarrow> interruption option \<times> vhost_discovery" where
  "run_round env sha256 req context1 st =
     (let names = take (batch_size req st) (drop (dv_attempted st) (req_candidates req));
          st1 = st\<lparr>dv_requests := dv_requests st + length names\<rparr>;
          (kept, broken) = probe_batch env req names (dv_requests st);
          st2 = record_errors (map snd kept) st1
      in (case broken of
            Some i \<Rightarrow>
              (case extend_observations sha256 req context1 names kept st2 of
                 (Some f, st3) \<Rightarrow> (Some f, st3)
               | (None, st3) \<Rightarrow> (Some i, st3\<lparr>dv_attempted := dv_attempted st3 + length kept\<rparr>))
          | None \<Rightarrow>
              (let probes = map snd kept; st3 = st2\<lparr>dv_attempted := dv_attempted st2 + length probes\<rparr>
               in (case mapR (\<lambda>p. classify_named sha256 req context1 st3 (prb_hostname p) p None) probes of
                     Inl e \<Rightarrow> (Some (Crashed (type_name e)), st3)
                   | Inr obs \<Rightarrow> confirm_batch env sha256 req context1 names probes obs st3))))"

text \<open>The loop; None when it does not return\<close>

partial_function (option) discovery_loop ::
  "environment \<Rightarrow> (string \<Rightarrow> string) \<Rightarrow> vhost_request \<Rightarrow> probe_observation \<Rightarrow> vhost_discovery \<Rightarrow> (interruption option \<times> vhost_discovery) option" where
  "discovery_loop env sha256 req context1 st =
     (if dv_attempted st < length (req_candidates req) \<and> int (dv_requests st) < vh_request_limit (req_limits req)
      then (case run_round env sha256 req context1 st of
              (Some i, st1) \<Rightarrow> Some (Some i, st1)
            | (None, st1) \<Rightarrow> discovery_loop env sha256 req context1 st1)
      else Some (None, st))"

declare discovery_loop.simps [code]

definition run_session :: "environment \<Rightarrow> (string \<Rightarrow> string) \<Rightarrow> vhost_request \<Rightarrow> (interruption option \<times> vhost_discovery) option" where
  "run_session env sha256 req =
     (case await_probe env req None start_vhost_discovery of
        (Inl i, st) \<Rightarrow> Some (Some i, st)
      | (Inr context1, st) \<Rightarrow>
          (case control_phase env req (req_candidates req) (st\<lparr>dv_context := Some context1, dv_used := req_candidates req\<rparr>) of
             (Some i, st1) \<Rightarrow> Some (Some i, st1)
           | (None, st1) \<Rightarrow> discovery_loop env sha256 req context1 st1))"

record discovery_result =
  dr_context :: probe_observation
  dr_controls :: "probe_observation list"
  dr_observations :: "vhost_observation list"
  dr_requests :: nat
  dr_attempted :: nat
  dr_stop :: string
  dr_errors :: nat
  dr_error_types :: "string list"
  dr_scan_error :: "string option"

text \<open>The handlers: stop reason, scan error, and whether a \<open>CancelledError\<close> leaves the session\<close>

definition session_outcome :: "interruption option \<Rightarrow> closing \<Rightarrow> string option \<times> string option \<times> bool" where
  "session_outcome i c =
     (let (stop, scan, cancelled) = (case i of
            None \<Rightarrow> (None, None, False)
          | Some Expired \<Rightarrow> (Some ''runtime-limit'', None, False)
          | Some Cancelled \<Rightarrow> (None, None, True)
          | Some (Crashed e) \<Rightarrow> (None, Some e, False))
      in (case c of
            Closed \<Rightarrow> (stop, scan, cancelled)
          | Close_cancelled \<Rightarrow> (stop, scan, True)
          | Close_crashed e \<Rightarrow> (stop, Some e, False)))"

definition missing_context :: "vhost_request \<Rightarrow> string option \<Rightarrow> probe_observation res" where
  "missing_context req scan =
     bindR (split_endpoint (req_endpoint req)) (\<lambda>(scheme, endpoint_hostname, port).
       Inr \<lparr>prb_hostname = endpoint_hostname, prb_http_host = http_authority endpoint_hostname scheme port, prb_server_name = None,
            prb_phase = ''connect'', prb_status = None, prb_location = None, prb_body = [], prb_truncated = False,
            prb_verified = tls_verified scheme (req_insecure req),
            prb_error = Some (case scan of None \<Rightarrow> ''RuntimeLimit'' | Some e \<Rightarrow> e)\<rparr>)"

definition stop_reason_of :: "vhost_request \<Rightarrow> vhost_discovery \<Rightarrow> string option \<Rightarrow> string option \<Rightarrow> string" where
  "stop_reason_of req st stop scan =
     (case stop of
        Some s \<Rightarrow> s
      | None \<Rightarrow>
          if scan \<noteq> None then ''scan-error''
          else if \<not> (dv_attempted st = length (req_candidates req) \<and> \<not> list_ex vo_needs_confirmation (dv_observations st)) then ''request-limit''
          else if 0 < dv_errors st then ''request-errors'' else ''completed'')"

definition discover_virtual_hosts ::
  "environment \<Rightarrow> (string \<Rightarrow> string) \<Rightarrow> vhost_request \<Rightarrow> bool \<Rightarrow> discovery_result res option" where
  "discover_virtual_hosts env sha256 req preserve_partial =
     (case run_session env sha256 req of
        None \<Rightarrow> None
      | Some (i, st) \<Rightarrow>
          (let (stop, scan, cancelled) = session_outcome i (env_close env)
           in if cancelled \<and> \<not> preserve_partial then Some (Inl CancelledError)
              else (let stop1 = (if cancelled then Some ''runtime-limit'' else stop)
                    in Some (bindR (case dv_context st of Some c \<Rightarrow> Inr c | None \<Rightarrow> missing_context req scan) (\<lambda>context1.
                         Inr \<lparr>dr_context = context1, dr_controls = dv_controls st, dr_observations = dv_observations st,
                              dr_requests = dv_requests st, dr_attempted = dv_attempted st, dr_stop = stop_reason_of req st stop1 scan,
                              dr_errors = dv_errors st, dr_error_types = canon (dv_error_types st), dr_scan_error = scan\<rparr>)))))"

section \<open>Probes of a request\<close>

lemma split_endpoint_ok:
  "normalize_virtual_host_endpoint e = Inr e \<Longrightarrow>
   \<exists>u n. urlsplit e = Inr u \<and> url_port u = Inr (Some n) \<and> n \<noteq> 0 \<and> url_scheme u \<in> {''http'', ''https''}
     \<and> split_endpoint e = Inr (url_scheme u, url_hostname u, n)"
  using endpoint_parts [of e e] by (auto simp: split_endpoint_def)

lemma probe_total: "normalize_virtual_host_endpoint (req_endpoint req) = Inr (req_endpoint req) \<Longrightarrow> \<exists>p. probe req h ex = Inr p"
  using split_endpoint_ok [of "req_endpoint req"] by (auto simp: probe_def Let_def)

lemma probe_result:
  assumes "split_endpoint (req_endpoint req) = Inr (scheme, host, port)" "probe req h ex = Inr p"
  shows "prb_hostname p = (case h of None \<Rightarrow> host | Some x \<Rightarrow> if x = [] then host else x)
    \<and> prb_http_host p = http_authority (prb_hostname p) scheme port \<and> prb_server_name p = (if scheme = ''https'' then h else None)
    \<and> prb_verified p = tls_verified scheme (req_insecure req)
    \<and> (\<forall>i. prb_status p = Some i \<longrightarrow> (\<exists>l b. ex = Replied i l b))"
proof (cases ex)
  case (Replied i l b)
  then show ?thesis using assms by (cases b) (auto simp: probe_def Let_def)
qed (use assms in \<open>auto simp: probe_def Let_def\<close>)

lemma probe_split: "probe req h ex = Inr p \<Longrightarrow> \<exists>scheme host port. split_endpoint (req_endpoint req) = Inr (scheme, host, port)"
  by (auto simp: probe_def bindR_Inr_iff)

lemma probe_name: "probe req (Some name) ex = Inr p \<Longrightarrow> name \<noteq> [] \<Longrightarrow> prb_hostname p = name"
  using probe_split probe_result by fastforce

lemma probe_same_authority:
  assumes "probe req h ex = Inr p" "probe req h ex' = Inr q"
  shows "same_authority p q"
proof -
  from probe_split [OF assms(1)] obtain scheme host port where "split_endpoint (req_endpoint req) = Inr (scheme, host, port)" by blast
  from probe_result [OF this assms(1)] probe_result [OF this assms(2)] show ?thesis by (simp add: same_authority_def)
qed

lemma probe_endpoint:
  assumes "probe req (Some name) ex = Inr p" "valid_hostname name" "normalize_virtual_host_endpoint (req_endpoint req) = Inr (req_endpoint req)"
  shows "probe_of_endpoint (req_endpoint req) p"
proof -
  have ne: "name \<noteq> []" using assms(2) by (simp add: valid_hostname_def)
  from split_endpoint_ok [OF assms(3)] obtain u n where u: "urlsplit (req_endpoint req) = Inr u" "url_port u = Inr (Some n)" "n \<noteq> 0"
    "url_scheme u \<in> {''http'', ''https''}" "split_endpoint (req_endpoint req) = Inr (url_scheme u, url_hostname u, n)" by blast
  from probe_result [OF u(5) assms(1)] ne u(1-4) assms(2) show ?thesis by (auto simp: probe_of_endpoint_def tls_verified_def)
qed

definition reply_in_range :: "exchange \<Rightarrow> bool" where
  "reply_in_range ex = (case ex of Replied status _ _ \<Rightarrow> 100 \<le> status \<and> status \<le> 599 | _ \<Rightarrow> True)"

lemma probe_status: "probe req h ex = Inr p \<Longrightarrow> reply_in_range ex \<Longrightarrow> status_in_range p"
  using probe_split [of req h ex p] probe_result [of req _ _ _ h ex p] by (fastforce simp: reply_in_range_def status_in_range_def)

section \<open>Batches\<close>

lemma map_filter_all: "(\<And>x. x \<in> set xs \<Longrightarrow> f x = Some (g x)) \<Longrightarrow> List.map_filter f xs = map g xs"
  by (induction xs) (simp_all add: List.map_filter_simps)

lemma map_filter_none: "(\<And>x. x \<in> set xs \<Longrightarrow> f x = None) \<Longrightarrow> List.map_filter f xs = []"
  by (induction xs) (simp_all add: List.map_filter_simps)

lemma map_filter_filter: "(\<And>x. x \<in> set xs \<Longrightarrow> f x = (if q x then Some (g x) else None)) \<Longrightarrow> List.map_filter f xs = map g (filter q xs)"
  by (induction xs) (simp_all add: List.map_filter_simps)

definition the_probe :: "environment \<Rightarrow> vhost_request \<Rightarrow> string \<Rightarrow> nat \<Rightarrow> probe_observation" where
  "the_probe env req name n = (case probe req (Some name) (env_reply env n) of Inr p \<Rightarrow> p | Inl _ \<Rightarrow> undefined)"

lemma the_probe_run:
  "normalize_virtual_host_endpoint (req_endpoint req) = Inr (req_endpoint req) \<Longrightarrow>
   probe req (Some name) (env_reply env n) = Inr (the_probe env req name n)"
  using probe_total [of req "Some name" "env_reply env n"] by (auto simp: the_probe_def)

lemma probe_batch_run:
  assumes "normalize_virtual_host_endpoint (req_endpoint req) = Inr (req_endpoint req)"
  shows "probe_batch env req names first =
    (map (\<lambda>(k, name). (k, the_probe env req name (first + k)))
       (filter (\<lambda>(k, name). (names = [] \<or> env_break env first = None) \<or> env_finished env (first + k)) (enumerate 0 names)),
     if names = [] then None else env_break env first)"
proof -
  note p = the_probe_run [OF assms]
  let ?rs = "map (\<lambda>(k, name). (k, probe req (Some name) (env_reply env (first + k)))) (enumerate 0 names)"
  have f: "List.map_filter (\<lambda>(k, r). case r of Inl e \<Rightarrow> Some (Crashed (type_name e)) | Inr _ \<Rightarrow> None) ?rs = []"
    by (rule map_filter_none) (auto simp: p)
  have "List.map_filter h (map g xs) = List.map_filter (h \<circ> g) xs" for h :: "nat \<times> (err + probe_observation) \<Rightarrow> (nat \<times> probe_observation) option" and g and xs :: "(nat \<times> string) list"
    by (induction xs) (simp_all add: List.map_filter_simps split: option.splits)
  then show ?thesis unfolding probe_batch_def Let_def f
    by (auto simp: p intro!: map_filter_filter)
qed

lemma probe_batch_kept:
  assumes "normalize_virtual_host_endpoint (req_endpoint req) = Inr (req_endpoint req)" "probe_batch env req names first = (kept, broken)"
  shows "distinct (map fst kept)" "length kept \<le> length names"
    "(k, p) \<in> set kept \<Longrightarrow> k < length names \<and> probe req (Some (names ! k)) (env_reply env (first + k)) = Inr p"
    "broken = None \<Longrightarrow> kept = map (\<lambda>(k, name). (k, the_probe env req name (first + k))) (enumerate 0 names)"
    "broken = None \<Longrightarrow> names \<noteq> [] \<Longrightarrow> env_break env first = None" "broken = None \<or> broken = env_break env first"
proof -
  let ?q = "\<lambda>(k, name). (names = [] \<or> env_break env first = None) \<or> env_finished env (first + k)"
  have run: "kept = map (\<lambda>(k, name). (k, the_probe env req name (first + k))) (filter ?q (enumerate 0 names))"
    "broken = (if names = [] then None else env_break env first)"
    using assms(2) unfolding probe_batch_run [OF assms(1)] by auto
  have fst: "map fst kept = map fst (filter ?q (enumerate 0 names))" unfolding run(1) by (simp add: case_prod_beta comp_def)
  have "distinct (map fst (enumerate 0 names))" by simp
  then show "distinct (map fst kept)" unfolding fst by (rule distinct_map_filter)
  show "length kept \<le> length names" unfolding run(1) using length_filter_le [of ?q "enumerate 0 names"] by simp
  show "(k, p) \<in> set kept \<Longrightarrow> k < length names \<and> probe req (Some (names ! k)) (env_reply env (first + k)) = Inr p"
    using probe_total [OF assms(1), of "Some (names ! k)" "env_reply env (first + k)"]
    by (auto simp: run(1) in_set_enumerate_eq the_probe_def)
  show "kept = map (\<lambda>(k, name). (k, the_probe env req name (first + k))) (enumerate 0 names)" if "broken = None"
  proof -
    have "filter ?q (enumerate 0 names) = enumerate 0 names" using that run(2) by (intro filter_True) (auto split: if_splits)
    then show ?thesis by (simp only: run(1))
  qed
  show "broken = None \<Longrightarrow> names \<noteq> [] \<Longrightarrow> env_break env first = None" "broken = None \<or> broken = env_break env first"
    using run(2) by auto
qed

lemma map_enumerate: "map (\<lambda>(k, x). f k x) (enumerate 0 xs) = map (\<lambda>k. f k (xs ! k)) [0..<length xs]"
  by (rule nth_equalityI) (simp_all add: nth_enumerate_eq)

section \<open>Classifications\<close>

lemma classify_total:
  assumes "3 \<le> length controls" "\<And>c. confirmation = Some c \<Longrightarrow> same_authority c candidate"
  shows "\<exists>v. classify_candidate sha256 req context1 candidate controls confirmation = Inr v \<and> vo_hostname v = prb_hostname candidate"
proof -
  have "classify_fingerprints f cx cts c = Inl e \<Longrightarrow> length cts < VHOST_CONTROL_COUNT" for f cx cts c e
    by (auto simp: classify_fingerprints_def Let_def split: if_splits option.splits)
  then have "\<exists>r. classify_fingerprints f cx (map g controls) c = Inr r" for f cx g c
    using assms(1) by (cases "classify_fingerprints f cx (map g controls) c") (fastforce simp: VHOST_CONTROL_COUNT_def)+
  then obtain r where "classify_fingerprints (fst (normalize_probe sha256 candidate)) (fst (normalize_probe sha256 context1))
      (map (\<lambda>c. fst (normalize_probe sha256 c)) controls) (map_option (\<lambda>c. fst (normalize_probe sha256 c)) confirmation) = Inr r" by blast
  moreover have "\<not> (case confirmation of None \<Rightarrow> False | Some c \<Rightarrow> \<not> same_authority c candidate)"
    using assms(2) by (cases confirmation) auto
  ultimately have "\<exists>v. classify_virtual_host sha256 (req_endpoint req) context1 candidate controls confirmation = Inr v"
    by (cases "normalize_probe sha256 candidate"; cases r) (simp add: classify_virtual_host_def Let_def)
  then obtain v where v: "classify_virtual_host sha256 (req_endpoint req) context1 candidate controls confirmation = Inr v" by blast
  with classify_parts [OF v] show ?thesis by (auto simp: classify_candidate_def)
qed

text \<open>Where an observation comes from\<close>

definition probed :: "environment \<Rightarrow> vhost_request \<Rightarrow> string option \<Rightarrow> probe_observation \<Rightarrow> bool" where
  "probed env req name p = (\<exists>n. probe req name (env_reply env n) = Inr p)"

definition sourced :: "environment \<Rightarrow> (string \<Rightarrow> string) \<Rightarrow> vhost_request \<Rightarrow> probe_observation \<Rightarrow> vhost_observation \<Rightarrow> bool" where
  "sourced env sha256 req context1 v =
     (\<exists>name p controls confirmation. name \<in> set (req_candidates req) \<and> probed env req (Some name) p
        \<and> (\<forall>c\<in>set controls. \<exists>n. probed env req (Some n) c)
        \<and> classify_candidate sha256 req context1 p controls confirmation = Inr v)"

definition controls_ok :: "environment \<Rightarrow> vhost_request \<Rightarrow> vhost_discovery \<Rightarrow> bool" where
  "controls_ok env req st =
     (\<forall>c\<in>set (req_candidates req). \<exists>controls. map_of (dv_by_shape st) (candidate_shape c (req_scope req)) = Some controls
        \<and> 3 \<le> length controls \<and> (\<forall>p\<in>set controls. \<exists>n. probed env req (Some n) p))"

lemma classify_named_ok:
  assumes "controls_ok env req st" "name \<in> set (req_candidates req)" "probe req (Some name) (env_reply env n) = Inr p"
    and "\<And>c. confirmation = Some c \<Longrightarrow> probed env req (Some name) c"
  shows "\<exists>v. classify_named sha256 req context1 st name p confirmation = Inr v \<and> vo_hostname v = prb_hostname p \<and> sourced env sha256 req context1 v"
proof -
  from assms(1,2) obtain controls where c: "map_of (dv_by_shape st) (candidate_shape name (req_scope req)) = Some controls"
    "3 \<le> length controls" "\<forall>p\<in>set controls. \<exists>n. probed env req (Some n) p" unfolding controls_ok_def by blast
  have "confirmation = Some c \<Longrightarrow> same_authority c p" for c
    using assms(3,4) probe_same_authority unfolding probed_def by blast
  from classify_total [OF c(2) this] obtain v where v: "classify_candidate sha256 req context1 p controls confirmation = Inr v"
    "vo_hostname v = prb_hostname p" by blast
  with c(3) assms(2,3) have "sourced env sha256 req context1 v" unfolding sourced_def probed_def by blast
  with v c(1) show ?thesis by (simp add: classify_named_def)
qed

section \<open>Rounds\<close>

lemma record_errors_simps [simp]:
  "dv_requests (record_errors ps st) = dv_requests st" "dv_observations (record_errors ps st) = dv_observations st"
  "dv_by_shape (record_errors ps st) = dv_by_shape st" "dv_attempted (record_errors ps st) = dv_attempted st"
  "dv_used (record_errors ps st) = dv_used st" "dv_context (record_errors ps st) = dv_context st"
  by (simp_all add: record_errors_def Let_def)

text \<open>The state between two rounds, and the state in which discovery may end\<close>

definition dv_inv :: "environment \<Rightarrow> (string \<Rightarrow> string) \<Rightarrow> vhost_request \<Rightarrow> probe_observation \<Rightarrow> vhost_discovery \<Rightarrow> bool" where
  "dv_inv env sha256 req context1 st =
     (controls_ok env req st \<and> int (dv_requests st) \<le> vh_request_limit (req_limits req)
      \<and> dv_attempted st \<le> length (req_candidates req)
      \<and> map vo_hostname (dv_observations st) = take (dv_attempted st) (req_candidates req)
      \<and> (\<forall>v\<in>set (dv_observations st). sourced env sha256 req context1 v))"

definition dv_final :: "environment \<Rightarrow> (string \<Rightarrow> string) \<Rightarrow> vhost_request \<Rightarrow> probe_observation \<Rightarrow> vhost_discovery \<Rightarrow> bool" where
  "dv_final env sha256 req context1 st =
     (int (dv_requests st) \<le> vh_request_limit (req_limits req) \<and> dv_attempted st \<le> length (req_candidates req)
      \<and> distinct (map vo_hostname (dv_observations st)) \<and> set (map vo_hostname (dv_observations st)) \<subseteq> set (req_candidates req)
      \<and> length (dv_observations st) = dv_attempted st \<and> (\<forall>v\<in>set (dv_observations st). sourced env sha256 req context1 v))"

lemma dv_inv_final: "request_ok req \<Longrightarrow> dv_inv env sha256 req context1 st \<Longrightarrow> dv_final env sha256 req context1 st"
proof -
  assume r: "request_ok req" and i: "dv_inv env sha256 req context1 st"
  have "length (dv_observations st) = length (map vo_hostname (dv_observations st))" by simp
  also have "\<dots> = dv_attempted st" using i by (simp add: dv_inv_def)
  finally show ?thesis using r i set_take_subset by (fastforce simp: dv_inv_def dv_final_def request_ok_def)
qed

lemma batch_size_bounds:
  assumes "0 < vh_concurrency (req_limits req)" "dv_attempted st < length (req_candidates req)" "int (dv_requests st) < vh_request_limit (req_limits req)"
  shows "0 < batch_size req st" "dv_attempted st + batch_size req st \<le> length (req_candidates req)"
    "int (dv_requests st) + int (batch_size req st) \<le> vh_request_limit (req_limits req)"
proof -
  let ?b = "vh_request_limit (req_limits req) - int (dv_requests st)"
  have "0 < ?b" using assms(3) by simp
  then have m: "1 \<le> max 1 (?b div 2)" "max 1 (?b div 2) \<le> ?b" by auto
  define m where "m = min (vh_concurrency (req_limits req)) (min (int (length (req_candidates req)) - int (dv_attempted st)) (max 1 (?b div 2)))"
  have "0 < m" using assms m(1) by (simp add: m_def)
  moreover have "m \<le> int (length (req_candidates req)) - int (dv_attempted st)" "m \<le> ?b" using m(2) by (simp_all add: m_def min_le_iff_disj)
  moreover have "batch_size req st = nat m" unfolding batch_size_def m_def ..
  ultimately show "0 < batch_size req st" "dv_attempted st + batch_size req st \<le> length (req_candidates req)"
    "int (dv_requests st) + int (batch_size req st) \<le> vh_request_limit (req_limits req)"
    by linarith+
qed

lemma extend_observations_ok:
  assumes "controls_ok env req st" "\<forall>(k, p)\<in>set kept. k < length names \<and> probe req (Some (names ! k)) (env_reply env (first + k)) = Inr p"
    and "set names \<subseteq> set (req_candidates req)" "[] \<notin> set names"
  shows "\<exists>obs. extend_observations sha256 req context1 names kept st = (None, st\<lparr>dv_observations := dv_observations st @ obs\<rparr>)
    \<and> map vo_hostname obs = map (\<lambda>(k, p). names ! k) kept \<and> (\<forall>v\<in>set obs. sourced env sha256 req context1 v)"
  using assms(1,2)
proof (induction kept arbitrary: st)
  case (Cons x kept)
  obtain k p where x: "x = (k, p)" by fastforce
  with Cons(3) have k: "k < length names" "probe req (Some (names ! k)) (env_reply env (first + k)) = Inr p" by auto
  then have name: "names ! k \<in> set (req_candidates req)" "names ! k \<noteq> []" using assms(3,4) by (auto dest: nth_mem)
  from classify_named_ok [OF Cons(2) name(1) k(2), of None sha256 context1] obtain v where v:
    "classify_named sha256 req context1 st (names ! k) p None = Inr v" "vo_hostname v = prb_hostname p" "sourced env sha256 req context1 v" by auto
  let ?st = "st\<lparr>dv_observations := dv_observations st @ [v]\<rparr>"
  have "controls_ok env req ?st" using Cons(2) by (simp add: controls_ok_def)
  from Cons(1) [OF this] Cons(3) obtain obs where obs:
    "extend_observations sha256 req context1 names kept ?st = (None, ?st\<lparr>dv_observations := dv_observations ?st @ obs\<rparr>)"
    "map vo_hostname obs = map (\<lambda>(k, p). names ! k) kept" "\<forall>v\<in>set obs. sourced env sha256 req context1 v" by auto
  with v x probe_name [OF k(2) name(2)] show ?case by (intro exI [of _ "v # obs"]) simp
qed (rule exI [of _ "[]"], simp)

lemma confirm_observations_ok:
  assumes "controls_ok env req st" "\<forall>(j, c)\<in>set kept. j < length indexes \<and> probed env req (Some (names ! (indexes ! j))) c"
    and "\<forall>k\<in>set indexes. k < length names" "length probes = length names"
    and "\<forall>k<length names. \<exists>n. probe req (Some (names ! k)) (env_reply env n) = Inr (probes ! k)"
    and "set names \<subseteq> set (req_candidates req)" "[] \<notin> set names" "\<forall>v\<in>set (dv_observations st). sourced env sha256 req context1 v"
    and "\<forall>k<length names. vo_hostname (dv_observations st ! (offset + k)) = names ! k" "offset + length names = length (dv_observations st)"
  shows "\<exists>obs. confirm_observations sha256 req context1 names probes indexes offset kept st = (None, st\<lparr>dv_observations := obs\<rparr>)
    \<and> map vo_hostname obs = map vo_hostname (dv_observations st) \<and> (\<forall>v\<in>set obs. sourced env sha256 req context1 v)"
  using assms(1,2,8,9,10)
proof (induction kept arbitrary: st)
  case (Cons x kept)
  obtain j c where x: "x = (j, c)" by fastforce
  let ?k = "indexes ! j"
  from Cons(3) x have j: "j < length indexes" "probed env req (Some (names ! ?k)) c" by auto
  then have k: "?k < length names" using assms(3) by auto
  then obtain n where n: "probe req (Some (names ! ?k)) (env_reply env n) = Inr (probes ! ?k)" using assms(5) by blast
  have name: "names ! ?k \<in> set (req_candidates req)" "names ! ?k \<noteq> []" using k assms(6,7) by (auto dest: nth_mem)
  from classify_named_ok [OF Cons(2) name(1) n, of "Some c" sha256 context1] j(2) obtain v where v:
    "classify_named sha256 req context1 st (names ! ?k) (probes ! ?k) (Some c) = Inr v" "vo_hostname v = prb_hostname (probes ! ?k)"
    "sourced env sha256 req context1 v" by auto
  have hv: "vo_hostname v = names ! ?k" using v(2) probe_name [OF n name(2)] by simp
  let ?obs = "(dv_observations st)[offset + ?k := v]"
  let ?st = "st\<lparr>dv_observations := ?obs\<rparr>"
  have same: "map vo_hostname ?obs = map vo_hostname (dv_observations st)"
  proof (rule nth_equalityI)
    fix i
    assume "i < length (map vo_hostname ?obs)"
    then show "map vo_hostname ?obs ! i = map vo_hostname (dv_observations st) ! i"
      using hv Cons(5) k by (cases "i = offset + ?k") (simp_all add: nth_list_update)
  qed simp
  have "controls_ok env req ?st" using Cons(2) by (simp add: controls_ok_def)
  moreover have "\<forall>v\<in>set (dv_observations ?st). sourced env sha256 req context1 v"
    using Cons(4) v(3) set_update_subset_insert [of "dv_observations st" "offset + ?k" v] by auto
  moreover have "\<forall>k<length names. vo_hostname (dv_observations ?st ! (offset + k)) = names ! k"
    using Cons(5,6) hv k by (auto simp: nth_list_update)
  moreover have "offset + length names = length (dv_observations ?st)" using Cons(6) by simp
  ultimately obtain obs where obs: "confirm_observations sha256 req context1 names probes indexes offset kept ?st = (None, ?st\<lparr>dv_observations := obs\<rparr>)"
    "map vo_hostname obs = map vo_hostname (dv_observations ?st)" "\<forall>v\<in>set obs. sourced env sha256 req context1 v"
    using Cons(1) [of ?st] Cons(3) by auto
  with v(1) x same show ?case by (intro exI [of _ obs]) (simp add: Let_def)
qed (auto intro!: exI [of _ "dv_observations st" for st])

lemma classify_all:
  assumes "controls_ok env req st" "set names \<subseteq> set (req_candidates req)" "[] \<notin> set names"
    and "\<forall>k\<in>set ks. k < length names" and e: "normalize_virtual_host_endpoint (req_endpoint req) = Inr (req_endpoint req)"
  shows "\<exists>obs. mapR (\<lambda>p. classify_named sha256 req context1 st (prb_hostname p) p None) (map (\<lambda>k. the_probe env req (names ! k) (first + k)) ks) = Inr obs
    \<and> map vo_hostname obs = map (\<lambda>k. names ! k) ks \<and> (\<forall>v\<in>set obs. sourced env sha256 req context1 v)"
  using assms(4)
proof (induction ks)
  case (Cons k ks)
  let ?p = "the_probe env req (names ! k) (first + k)"
  from Cons obtain obs where obs: "mapR (\<lambda>p. classify_named sha256 req context1 st (prb_hostname p) p None) (map (\<lambda>k. the_probe env req (names ! k) (first + k)) ks) = Inr obs"
    "map vo_hostname obs = map (\<lambda>k. names ! k) ks" "\<forall>v\<in>set obs. sourced env sha256 req context1 v" by auto
  have k: "names ! k \<in> set (req_candidates req)" "names ! k \<noteq> []" using Cons(2) assms(2,3) by (auto dest: nth_mem)
  have p: "probe req (Some (names ! k)) (env_reply env (first + k)) = Inr ?p" by (rule the_probe_run [OF e])
  note name = probe_name [OF p k(2)]
  from classify_named_ok [OF assms(1) k(1) p, of None sha256 context1] obtain v where
    "classify_named sha256 req context1 st (prb_hostname ?p) ?p None = Inr v" "vo_hostname v = names ! k" "sourced env sha256 req context1 v"
    unfolding name by auto
  with obs show ?case by (intro exI [of _ "v # obs"]) simp
qed simp

text \<open>A round that is not interrupted keeps the invariant and goes on; one that is leaves a final state.\<close>

lemma confirm_batch_ok:
  assumes r: "request_ok req" and inv: "controls_ok env req st" "int (dv_requests st) \<le> vh_request_limit (req_limits req)"
    and n: "set names \<subseteq> set (req_candidates req)" "probes = map (\<lambda>k. the_probe env req (names ! k) (first + k)) [0..<length names]"
    and obs: "map vo_hostname obs = names" "\<forall>v\<in>set (dv_observations st @ obs). sourced env sha256 req context1 v"
    and run: "confirm_batch env sha256 req context1 names probes obs st = (broken, st')"
  shows "controls_ok env req st' \<and> int (dv_requests st') \<le> vh_request_limit (req_limits req) \<and> dv_attempted st' = dv_attempted st
    \<and> map vo_hostname (dv_observations st') = map vo_hostname (dv_observations st) @ names \<and> (\<forall>v\<in>set (dv_observations st'). sourced env sha256 req context1 v)
    \<and> dv_context st' = dv_context st \<and> (broken = None \<or> (\<exists>n. broken = env_break env n))"
proof -
  have e: "normalize_virtual_host_endpoint (req_endpoint req) = Inr (req_endpoint req)" and ne: "[] \<notin> set names"
    using r n(1) by (auto simp: request_ok_def list_all_iff valid_hostname_def)
  have len: "length obs = length names" using obs(1) by (metis length_map)
  let ?st1 = "st\<lparr>dv_observations := dv_observations st @ obs\<rparr>"
  let ?indexes = "take (nat (vh_request_limit (req_limits req) - int (dv_requests st))) (filter (\<lambda>k. vo_needs_confirmation (obs ! k)) [0..<length obs])"
  let ?cnames = "map (\<lambda>k. names ! k) ?indexes"
  obtain kept b where batch: "probe_batch env req ?cnames (dv_requests st) = (kept, b)" by fastforce
  let ?st3 = "record_errors (map snd kept) (?st1\<lparr>dv_requests := dv_requests st + length ?indexes\<rparr>)"
  have idx: "\<forall>k\<in>set ?indexes. k < length names" using len by (auto dest!: in_set_takeD)
  have limit: "int (dv_requests st + length ?indexes) \<le> vh_request_limit (req_limits req)" using inv(2) by simp
  note kept = probe_batch_kept [OF e batch]
  have "\<exists>o2. confirm_observations sha256 req context1 names probes ?indexes (length (dv_observations st)) kept ?st3 = (None, ?st3\<lparr>dv_observations := o2\<rparr>)
    \<and> map vo_hostname o2 = map vo_hostname (dv_observations ?st3) \<and> (\<forall>v\<in>set o2. sourced env sha256 req context1 v)"
  proof (rule confirm_observations_ok)
    show "controls_ok env req ?st3" using inv(1) by (simp add: controls_ok_def)
    show "\<forall>(j, c)\<in>set kept. j < length ?indexes \<and> probed env req (Some (names ! (?indexes ! j))) c"
      using kept(3) unfolding probed_def by fastforce
    show "\<forall>k<length names. \<exists>m. probe req (Some (names ! k)) (env_reply env m) = Inr (probes ! k)"
      using the_probe_run [OF e] by (auto simp: n(2))
    show "\<forall>k<length names. vo_hostname (dv_observations ?st3 ! (length (dv_observations st) + k)) = names ! k"
      using obs(1) len by (auto simp: nth_append)
    show "\<forall>k\<in>set ?indexes. k < length names" by (rule idx)
    show "length probes = length names" unfolding n(2) by simp
    show "set names \<subseteq> set (req_candidates req)" "[] \<notin> set names" by (fact n(1) ne)+
    show "\<forall>v\<in>set (dv_observations ?st3). sourced env sha256 req context1 v" using obs(2) by simp
    show "length (dv_observations st) + length names = length (dv_observations ?st3)" using len by simp
  qed
  then obtain o2 where o2: "confirm_observations sha256 req context1 names probes ?indexes (length (dv_observations st)) kept ?st3 = (None, ?st3\<lparr>dv_observations := o2\<rparr>)"
    "map vo_hostname o2 = map vo_hostname (dv_observations ?st3)" "\<forall>v\<in>set o2. sourced env sha256 req context1 v" by blast
  have "(broken, st') = (b, ?st3\<lparr>dv_observations := o2\<rparr>)" using run o2(1) batch by (simp add: confirm_batch_def Let_def)
  then show ?thesis using o2(2,3) obs(1) inv(1) limit kept(6) by (auto simp: controls_ok_def)
qed


lemma distinct_picks: "distinct xs \<Longrightarrow> distinct ks \<Longrightarrow> \<forall>k\<in>set ks. k < length xs \<Longrightarrow> distinct (map (\<lambda>k. xs ! k) ks)"
  by (auto simp: distinct_map inj_on_def nth_eq_iff_index_eq)

lemma run_round_ok:
  assumes r: "request_ok req" "0 < vh_concurrency (req_limits req)" and inv: "dv_inv env sha256 req context1 st"
    and go: "dv_attempted st < length (req_candidates req)" "int (dv_requests st) < vh_request_limit (req_limits req)"
    and run: "run_round env sha256 req context1 st = (broken, st')"
  shows "dv_final env sha256 req context1 st' \<and> dv_context st' = dv_context st \<and> (broken = None \<or> (\<exists>n. broken = env_break env n))
    \<and> (broken = None \<longrightarrow> dv_inv env sha256 req context1 st' \<and> dv_attempted st < dv_attempted st')"
proof -
  let ?a = "dv_attempted st" and ?n = "batch_size req st" and ?cands = "req_candidates req"
  let ?names = "take ?n (drop ?a ?cands)"
  note size = batch_size_bounds [OF r(2) go]
  have e: "normalize_virtual_host_endpoint (req_endpoint req) = Inr (req_endpoint req)" and d: "distinct ?cands"
    using r(1) by (auto simp: request_ok_def)
  have sub: "set ?names \<subseteq> set ?cands" by (meson order_trans set_take_subset set_drop_subset)
  then have ne: "[] \<notin> set ?names" using r(1) by (auto simp: request_ok_def list_all_iff valid_hostname_def)
  have len: "length ?names = ?n" using size(2) by simp
  have front: "take ?a ?cands @ ?names = take (?a + ?n) ?cands" by (simp add: take_add)
  obtain kept b where batch: "probe_batch env req ?names (dv_requests st) = (kept, b)" by fastforce
  note kept = probe_batch_kept [OF e batch]
  let ?st2 = "record_errors (map snd kept) (st\<lparr>dv_requests := dv_requests st + length ?names\<rparr>)"
  have c: "controls_ok env req ?st2" "\<forall>v\<in>set (dv_observations ?st2). sourced env sha256 req context1 v"
    "map vo_hostname (dv_observations ?st2) = take ?a ?cands" "int (dv_requests ?st2) \<le> vh_request_limit (req_limits req)"
    "dv_attempted ?st2 = ?a" "dv_context ?st2 = dv_context st"
    using inv size(3) len by (auto simp: dv_inv_def controls_ok_def)
  show ?thesis
  proof (cases b)
    case (Some i)
    have "\<forall>(k, p)\<in>set kept. k < length ?names \<and> probe req (Some (?names ! k)) (env_reply env (dv_requests st + k)) = Inr p"
      using kept(3) by auto
    from extend_observations_ok [OF c(1) this sub ne] obtain obs where obs:
      "extend_observations sha256 req context1 ?names kept ?st2 = (None, ?st2\<lparr>dv_observations := dv_observations ?st2 @ obs\<rparr>)"
      "map vo_hostname obs = map (\<lambda>(k, p). ?names ! k) kept" "\<forall>v\<in>set obs. sourced env sha256 req context1 v" by blast
    have st': "broken = Some i" "st' = ?st2\<lparr>dv_observations := dv_observations ?st2 @ obs, dv_attempted := ?a + length kept\<rparr>"
      using run obs(1) c(5) by (simp_all add: run_round_def batch Some Let_def)
    have "map (\<lambda>(k, p). ?names ! k) kept = map (\<lambda>k. ?names ! k) (map fst kept)" by (simp add: case_prod_beta comp_def)
    then have ob: "map vo_hostname obs = map (\<lambda>k. ?names ! k) (map fst kept)" using obs(2) by simp
    have k: "\<forall>k\<in>set (map fst kept). k < length ?names" using kept(3) by auto
    have dn: "distinct (take ?a ?cands @ ?names)" unfolding front using d by simp
    then have "distinct ?names" by simp
    then have "distinct (map vo_hostname obs)" unfolding ob by (rule distinct_picks [OF _ kept(1) k])
    moreover have so: "set (map vo_hostname obs) \<subseteq> set ?names" unfolding ob using k by (auto simp del: length_take)
    moreover have "map vo_hostname (dv_observations st') = take ?a ?cands @ map vo_hostname obs" using c(3) unfolding st'(2) by simp
    ultimately have hosts: "distinct (map vo_hostname (dv_observations st'))" "set (map vo_hostname (dv_observations st')) \<subseteq> set ?cands"
      using dn sub set_take_subset [of ?a ?cands] by (auto simp del: set_map)
    have "length (dv_observations ?st2) = ?a" using arg_cong [OF c(3), of length] go(1) by simp
    moreover have "length obs = length kept" using arg_cong [OF obs(2), of length] by simp
    ultimately have count: "length (dv_observations st') = dv_attempted st'" unfolding st'(2) by simp
    have "?a + length kept \<le> length ?cands" using kept(2) size(2) len by linarith
    then have "dv_attempted st' \<le> length ?cands" unfolding st'(2) by simp
    moreover have "int (dv_requests st') \<le> vh_request_limit (req_limits req)" using c(4) unfolding st'(2) by simp
    moreover have "\<forall>v\<in>set (dv_observations st'). sourced env sha256 req context1 v" using c(2) obs(3) unfolding st'(2) by auto
    ultimately have "dv_final env sha256 req context1 st'" using hosts count unfolding dv_final_def by (intro conjI)
    moreover have "dv_context st' = dv_context st" unfolding st'(2) by simp
    moreover have "\<exists>n. broken = env_break env n" using kept(6) Some unfolding st'(1) by auto
    ultimately show ?thesis using st'(1) by simp
  next
    case None
    let ?probes = "map (\<lambda>k. the_probe env req (?names ! k) (dv_requests st + k)) [0..<length ?names]"
    have probes: "map snd kept = ?probes" unfolding kept(4) [OF None]
      by (simp only: map_map comp_def case_prod_beta snd_conv) (simp add: case_prod_beta' map_enumerate [of "\<lambda>k x. the_probe env req x (dv_requests st + k)", unfolded case_prod_beta'])
    let ?st3 = "?st2\<lparr>dv_attempted := ?a + ?n\<rparr>"
    have c3: "controls_ok env req ?st3" using c(1) by (simp add: controls_ok_def)
    have ks: "\<forall>k\<in>set [0..<length ?names]. k < length ?names" by simp
    from classify_all [OF c3 sub ne ks e, of sha256 context1 "dv_requests st"] obtain obs where obs:
      "mapR (\<lambda>p. classify_named sha256 req context1 ?st3 (prb_hostname p) p None) ?probes = Inr obs"
      "map vo_hostname obs = map (\<lambda>k. ?names ! k) [0..<length ?names]" "\<forall>v\<in>set obs. sourced env sha256 req context1 v" by blast
    have on: "map vo_hostname obs = ?names" unfolding obs(2) by (rule map_nth)
    have lp: "length ?probes = ?n" using len by simp
    have "confirm_batch env sha256 req context1 ?names ?probes obs ?st3 = (broken, st')"
      using run obs(1) c(5) unfolding run_round_def batch Let_def prod.case None option.case probes lp sum.case by (simp add: lp)
    from confirm_batch_ok [OF r(1) c3 _ sub refl on _ this] obs(3) c have f:
      "controls_ok env req st'" "int (dv_requests st') \<le> vh_request_limit (req_limits req)" "dv_attempted st' = ?a + ?n"
      "map vo_hostname (dv_observations st') = take (?a + ?n) ?cands" "\<forall>v\<in>set (dv_observations st'). sourced env sha256 req context1 v"
      "dv_context st' = dv_context st" "broken = None \<or> (\<exists>n. broken = env_break env n)" by (auto simp: front)
    then have "dv_inv env sha256 req context1 st'" using size(2) by (simp add: dv_inv_def)
    with f size(1) dv_inv_final [OF r(1)] show ?thesis by simp
  qed
qed


text \<open>The loop always returns: every round attempts another candidate.\<close>

lemma discovery_loop_ok:
  assumes r: "request_ok req" "0 < vh_concurrency (req_limits req)"
  shows "dv_inv env sha256 req context1 st \<Longrightarrow>
    \<exists>broken st'. discovery_loop env sha256 req context1 st = Some (broken, st') \<and> dv_final env sha256 req context1 st'
      \<and> dv_context st' = dv_context st \<and> (broken = None \<or> (\<exists>n. broken = env_break env n))"
proof (induction "length (req_candidates req) - dv_attempted st" arbitrary: st rule: less_induct)
  case less
  show ?case
  proof (cases "dv_attempted st < length (req_candidates req) \<and> int (dv_requests st) < vh_request_limit (req_limits req)")
    case True
    obtain broken st1 where run: "run_round env sha256 req context1 st = (broken, st1)" by fastforce
    note round = run_round_ok [OF r less(2) conjunct1 [OF True] conjunct2 [OF True] run]
    show ?thesis
    proof (cases broken)
      case None
      with round have "dv_inv env sha256 req context1 st1" "dv_attempted st < dv_attempted st1" by auto
      with less(1) [of st1] True round run None show ?thesis
        by (subst discovery_loop.simps) auto
    next
      case (Some i)
      with round run True show ?thesis by (subst discovery_loop.simps) auto
    qed
  next
    case False
    then show ?thesis using less(2) dv_inv_final [OF r(1)] by (subst discovery_loop.simps) auto
  qed
qed

section \<open>Controls\<close>

definition same_evidence :: "vhost_discovery \<Rightarrow> vhost_discovery \<Rightarrow> bool" where
  "same_evidence st st' = (dv_observations st' = dv_observations st \<and> dv_attempted st' = dv_attempted st \<and> dv_context st' = dv_context st)"

lemma probe_controls_ok:
  assumes "normalize_virtual_host_endpoint (req_endpoint req) = Inr (req_endpoint req)"
    and "probe_controls env req names sc st = (out, st')"
  shows "same_evidence st st' \<and> dv_by_shape st' = dv_by_shape st \<and> dv_used st' = dv_used st \<and> dv_requests st' \<le> dv_requests st + length names
    \<and> (case out of Inl i \<Rightarrow> \<exists>n. env_break env n = Some i
       | Inr ps \<Rightarrow> \<exists>new. ps = sc @ new \<and> length new = length names \<and> (\<forall>p\<in>set new. \<exists>n. probed env req (Some n) p))"
  using assms(2)
proof (induction names arbitrary: sc st)
  case (Cons name names)
  show ?case
  proof (cases "env_break env (dv_requests st)")
    case None
    let ?p = "the_probe env req name (dv_requests st)"
    note p = the_probe_run [OF assms(1), where env = env and name = name and n = "dv_requests st"]
    let ?st = "(record_errors [?p] (st\<lparr>dv_requests := dv_requests st + 1\<rparr>))\<lparr>dv_controls := dv_controls (record_errors [?p] (st\<lparr>dv_requests := dv_requests st + 1\<rparr>)) @ [?p]\<rparr>"
    have "probe_controls env req names (sc @ [?p]) ?st = (out, st')"
      using Cons(2) None p by (simp add: await_probe_def Let_def)
    moreover have "\<exists>n. probed env req (Some n) ?p" using p unfolding probed_def by blast
    ultimately show ?thesis using Cons(1) [of "sc @ [?p]" ?st]
      by (auto simp: same_evidence_def split: sum.splits)
  qed (use Cons(2) in \<open>auto simp: await_probe_def Let_def same_evidence_def\<close>)
qed (auto simp: same_evidence_def)

lemma control_phase_ok:
  assumes e: "normalize_virtual_host_endpoint (req_endpoint req) = Inr (req_endpoint req)"
    and all1: "distinct all1" "list_all (in_scope (req_scope req)) all1"
  shows "control_phase env req cs st = (broken, st') \<Longrightarrow>
    \<forall>c\<in>set cs. shape_count (req_scope req) all1 (candidate_shape c (req_scope req)) + VHOST_CONTROL_COUNT \<le> capacity (candidate_shape c (req_scope req)) \<Longrightarrow>
    \<forall>c\<in>set cs. map_of (dv_by_shape st) (candidate_shape c (req_scope req)) = None \<longrightarrow>
      used_for_shape (candidate_shape c (req_scope req)) (req_scope req) (dv_used st) = used_for_shape (candidate_shape c (req_scope req)) (req_scope req) all1 \<Longrightarrow>
    \<forall>(shape, ps)\<in>set (dv_by_shape st). 3 \<le> length ps \<and> (\<forall>p\<in>set ps. \<exists>n. probed env req (Some n) p) \<Longrightarrow>
    same_evidence st st'
    \<and> dv_requests st' \<le> dv_requests st + 3 * card {s \<in> (\<lambda>c. candidate_shape c (req_scope req)) ` set cs. map_of (dv_by_shape st) s = None}
    \<and> (broken = None \<or> (\<exists>n. broken = env_break env n))
    \<and> (broken = None \<longrightarrow> (\<forall>s. s \<in> (\<lambda>c. candidate_shape c (req_scope req)) ` set cs \<or> map_of (dv_by_shape st) s \<noteq> None \<longrightarrow>
         (\<exists>ps. map_of (dv_by_shape st') s = Some ps \<and> 3 \<le> length ps \<and> (\<forall>p\<in>set ps. \<exists>n. probed env req (Some n) p))))"
proof (induction cs arbitrary: st)
  case Nil
  then show ?case by (fastforce simp: same_evidence_def dest: map_of_SomeD)
next
  case (Cons c cs)
  let ?scope = "req_scope req"
  let ?s = "candidate_shape c ?scope"
  let ?shapes = "\<lambda>cs st. {s \<in> (\<lambda>c. candidate_shape c ?scope) ` set cs. map_of (dv_by_shape st) s = None}"
  show ?case
  proof (cases "map_of (dv_by_shape st) ?s = None")
    case False
    then have "?shapes (c # cs) st = ?shapes cs st" by auto
    with Cons(1) [of st] Cons(2-5) False show ?thesis by auto
  next
    case True
    have "length (used_for_shape ?s ?scope (dv_used st)) + VHOST_CONTROL_COUNT \<le> capacity ?s"
      using Cons(3,4) True used_for_shape_count [OF all1, of ?s] by simp
    from new_control_names_fresh [OF _ this, of "env_start env ?s mod capacity ?s"] obtain names
      where names: "new_control_names ?s ?scope (dv_used st) (env_start env ?s mod capacity ?s) = Inr (names, rev names @ dv_used st)"
        "fresh_controls ?s ?scope (dv_used st) names" by auto
    have ln: "length names = 3" using names(2) by (simp add: fresh_controls_def VHOST_CONTROL_COUNT_def)
    let ?st0 = "st\<lparr>dv_used := rev names @ dv_used st\<rparr>"
    obtain out st1 where pc: "probe_controls env req names [] ?st0 = (out, st1)" by fastforce
    note probes = probe_controls_ok [OF e pc]
    have "?shapes (c # cs) st = insert ?s (?shapes cs st)" using True by auto
    then have card: "card (?shapes (c # cs) st) = Suc (card (?shapes cs st - {?s}))" by (simp add: card.insert_remove)
    show ?thesis
    proof (cases out)
      case (Inl i)
      then have "(broken, st') = (Some i, st1)" using Cons(2) True names(1) pc by (simp add: Let_def)
      moreover have "\<exists>n. Some i = env_break env n" using probes unfolding Inl by (simp add: eq_commute)
      ultimately show ?thesis using probes card ln by (auto simp: same_evidence_def)
    next
      case (Inr ps)
      let ?st1 = "st1\<lparr>dv_by_shape := AList.update ?s ps (dv_by_shape st1)\<rparr>"
      have run: "control_phase env req cs ?st1 = (broken, st')" using Cons(2) True names(1) pc Inr by (simp add: Let_def)
      have ps: "3 \<le> length ps \<and> (\<forall>p\<in>set ps. \<exists>n. probed env req (Some n) p)" using probes Inr ln by auto
      have by_shape: "dv_by_shape ?st1 = AList.update ?s ps (dv_by_shape st)" "dv_used ?st1 = rev names @ dv_used st" using probes by auto
      have same: "used_for_shape s ?scope (rev names @ dv_used st) = used_for_shape s ?scope (dv_used st)" if "s \<noteq> ?s" for s
        using names(2) that by (intro used_for_shape_other) (auto simp: fresh_controls_def list_all_iff)
      have u: "\<forall>c\<in>set cs. map_of (dv_by_shape ?st1) (candidate_shape c ?scope) = None \<longrightarrow>
          used_for_shape (candidate_shape c ?scope) ?scope (dv_used ?st1) = used_for_shape (candidate_shape c ?scope) ?scope all1"
        unfolding by_shape using Cons(4) same by (auto simp: update_conv' split: if_splits)
      have upd: "p \<in> set (AList.update k v m) \<Longrightarrow> p = (k, v) \<or> p \<in> set m" for p k v and m :: "(nat list \<times> probe_observation list) list"
        by (induction m) (auto split: if_splits)
      have g: "\<forall>(shape, ps)\<in>set (dv_by_shape ?st1). 3 \<le> length ps \<and> (\<forall>p\<in>set ps. \<exists>n. probed env req (Some n) p)"
        unfolding by_shape using Cons(5) ps by (auto dest!: upd)
      have sh: "?shapes cs ?st1 = ?shapes cs st - {?s}" unfolding by_shape by (auto simp: update_conv' split: if_splits)
      have st1: "same_evidence st ?st1" "dv_requests ?st1 \<le> dv_requests st + 3" using probes ln by (auto simp: same_evidence_def)
      from Cons(1) [OF run _ u g] Cons(3) have ih: "same_evidence ?st1 st'" "dv_requests st' \<le> dv_requests ?st1 + 3 * card (?shapes cs st - {?s})"
        "broken = None \<or> (\<exists>n. broken = env_break env n)"
        "broken = None \<longrightarrow> (\<forall>s. s \<in> (\<lambda>c. candidate_shape c ?scope) ` set cs \<or> map_of (dv_by_shape ?st1) s \<noteq> None \<longrightarrow>
         (\<exists>ps. map_of (dv_by_shape st') s = Some ps \<and> 3 \<le> length ps \<and> (\<forall>p\<in>set ps. \<exists>n. probed env req (Some n) p)))"
        unfolding sh by auto
      have "same_evidence st st'" using st1(1) ih(1) by (simp add: same_evidence_def)
      moreover have "dv_requests st' \<le> dv_requests st + 3 * card (?shapes (c # cs) st)" using ih(2) st1(2) card by simp
      moreover have "s \<in> (\<lambda>c. candidate_shape c ?scope) ` set (c # cs) \<or> map_of (dv_by_shape st) s \<noteq> None \<Longrightarrow>
          s \<in> (\<lambda>c. candidate_shape c ?scope) ` set cs \<or> map_of (dv_by_shape ?st1) s \<noteq> None" for s
        unfolding by_shape by (auto simp: update_conv')
      moreover have "broken = None \<longrightarrow> (\<forall>s. s \<in> (\<lambda>c. candidate_shape c ?scope) ` set (c # cs) \<or> map_of (dv_by_shape st) s \<noteq> None \<longrightarrow>
         (\<exists>ps. map_of (dv_by_shape st') s = Some ps \<and> 3 \<le> length ps \<and> (\<forall>p\<in>set ps. \<exists>n. probed env req (Some n) p)))"
        using ih(4) calculation(3) by (intro impI allI) (drule mp, assumption, drule spec, erule mp, assumption)
      ultimately show ?thesis using ih(3) by (intro conjI)
    qed
  qed
qed


section \<open>Sessions\<close>

lemma run_session_ok:
  assumes r: "request_ok req" "0 < vh_concurrency (req_limits req)"
  shows "\<exists>broken st cx. run_session env sha256 req = Some (broken, st) \<and> dv_final env sha256 req cx st
    \<and> (broken = None \<or> (\<exists>n. broken = env_break env n))
    \<and> (dv_observations st \<noteq> [] \<longrightarrow> dv_context st = Some cx \<and> probed env req None cx)"
proof -
  have e: "normalize_virtual_host_endpoint (req_endpoint req) = Inr (req_endpoint req)"
    and cands: "distinct (req_candidates req)" "list_all (in_scope (req_scope req)) (req_candidates req)"
    and cap: "\<forall>c\<in>set (req_candidates req). shape_count (req_scope req) (req_candidates req) (candidate_shape c (req_scope req)) + VHOST_CONTROL_COUNT
        \<le> capacity (candidate_shape c (req_scope req))"
    and limit: "1 + 3 * int (card ((\<lambda>c. candidate_shape c (req_scope req)) ` set (req_candidates req))) < vh_request_limit (req_limits req)"
    using r(1) by (auto simp: request_ok_def VHOST_CONTROL_COUNT_def)
  have empty: "dv_final env sha256 req cx st" if "dv_observations st = []" "dv_attempted st = 0"
    "dv_requests st \<le> 1 + 3 * card ((\<lambda>c. candidate_shape c (req_scope req)) ` set (req_candidates req))" for st cx
    using that limit by (simp add: dv_final_def)
  show ?thesis
  proof (cases "env_break env 0")
    case (Some i)
    then have "run_session env sha256 req = Some (Some i, start_vhost_discovery\<lparr>dv_requests := 1\<rparr>)"
      by (simp add: run_session_def await_probe_def start_vhost_discovery_def)
    moreover have "dv_final env sha256 req cx (start_vhost_discovery\<lparr>dv_requests := 1\<rparr>)" for cx by (rule empty) (simp_all add: start_vhost_discovery_def)
    moreover have "\<exists>n. Some i = env_break env n" using Some by (metis)
    ultimately show ?thesis by (fastforce simp: start_vhost_discovery_def)
  next
    case None
    obtain cx where cx: "probe req None (env_reply env 0) = Inr cx" using probe_total [OF e] by blast
    let ?st = "(record_errors [cx] (start_vhost_discovery\<lparr>dv_requests := 1\<rparr>))\<lparr>dv_context := Some cx, dv_used := req_candidates req\<rparr>"
    obtain broken st1 where cp: "control_phase env req (req_candidates req) ?st = (broken, st1)" by fastforce
    have st: "dv_by_shape ?st = []" "dv_used ?st = req_candidates req" "dv_requests ?st = 1" "dv_observations ?st = []" "dv_attempted ?st = 0"
      "dv_context ?st = Some cx"
      by (simp_all add: record_errors_def start_vhost_discovery_def Let_def)
    have run: "run_session env sha256 req = (case (broken, st1) of (Some i, st1) \<Rightarrow> Some (Some i, st1) | (None, st1) \<Rightarrow> discovery_loop env sha256 req cx st1)"
      using None cx cp by (simp add: run_session_def await_probe_def start_vhost_discovery_def Let_def)
    from control_phase_ok [OF e cands cp cap] have c: "same_evidence ?st st1"
      "dv_requests st1 \<le> 1 + 3 * card ((\<lambda>c. candidate_shape c (req_scope req)) ` set (req_candidates req))"
      "broken = None \<or> (\<exists>n. broken = env_break env n)" "broken = None \<longrightarrow> controls_ok env req st1"
      unfolding st controls_ok_def by simp_all
    have ev: "dv_observations st1 = []" "dv_attempted st1 = 0" "dv_context st1 = Some cx"
      using c(1) unfolding same_evidence_def st by blast+
    have p: "probed env req None cx" unfolding probed_def using cx by blast
    show ?thesis
    proof (cases broken)
      case (Some i)
      then show ?thesis using run c(3) ev empty [OF ev(1,2) c(2), of cx] by (intro exI [of _ broken] exI [of _ st1] exI [of _ cx]) simp
    next
      case None
      have "dv_inv env sha256 req cx st1" using c(2,4) ev limit None by (simp add: dv_inv_def)
      from discovery_loop_ok [OF r this] obtain b st' where "discovery_loop env sha256 req cx st1 = Some (b, st')"
        "dv_final env sha256 req cx st'" "dv_context st' = dv_context st1" "b = None \<or> (\<exists>n. b = env_break env n)" by blast
      with run None ev p show ?thesis by (intro exI [of _ b] exI [of _ st'] exI [of _ cx]) simp
    qed
  qed
qed

lemma missing_context_total:
  "normalize_virtual_host_endpoint (req_endpoint req) = Inr (req_endpoint req) \<Longrightarrow> \<exists>p. missing_context req scan = Inr p"
  using split_endpoint_ok [of "req_endpoint req"] by (auto simp: missing_context_def)

text \<open>What \<open>discover_virtual_hosts\<close> returns for an accepted request, in terms of the session\<close>

lemma discovery_cases:
  assumes "request_ok req" "0 < vh_concurrency (req_limits req)"
  obtains broken st cx stop scan cancelled cx0 where
    "dv_final env sha256 req cx st" "broken = None \<or> (\<exists>n. broken = env_break env n)"
    "dv_observations st \<noteq> [] \<longrightarrow> probed env req None cx"
    "session_outcome broken (env_close env) = (stop, scan, cancelled)"
    "discover_virtual_hosts env sha256 req preserve = Some (if cancelled \<and> \<not> preserve then Inl CancelledError
       else Inr \<lparr>dr_context = cx0, dr_controls = dv_controls st, dr_observations = dv_observations st, dr_requests = dv_requests st,
         dr_attempted = dv_attempted st, dr_stop = stop_reason_of req st (if cancelled then Some ''runtime-limit'' else stop) scan,
         dr_errors = dv_errors st, dr_error_types = canon (dv_error_types st), dr_scan_error = scan\<rparr>)"
proof -
  from run_session_ok [OF assms, of env sha256] obtain broken st cx where s: "run_session env sha256 req = Some (broken, st)"
    "dv_final env sha256 req cx st" "broken = None \<or> (\<exists>n. broken = env_break env n)"
    "dv_observations st \<noteq> [] \<longrightarrow> dv_context st = Some cx \<and> probed env req None cx" by blast
  obtain stop scan cancelled where o: "session_outcome broken (env_close env) = (stop, scan, cancelled)" by (metis prod.collapse)
  have "\<exists>p. missing_context req scan = Inr p" using assms(1) missing_context_total by (simp add: request_ok_def)
  then obtain cx0 where "(case dv_context st of Some c \<Rightarrow> Inr c | None \<Rightarrow> missing_context req scan) = Inr cx0" by (cases "dv_context st") auto
  then have "discover_virtual_hosts env sha256 req preserve = Some (if cancelled \<and> \<not> preserve then Inl CancelledError
       else Inr \<lparr>dr_context = cx0, dr_controls = dv_controls st, dr_observations = dv_observations st, dr_requests = dv_requests st,
         dr_attempted = dv_attempted st, dr_stop = stop_reason_of req st (if cancelled then Some ''runtime-limit'' else stop) scan,
         dr_errors = dv_errors st, dr_error_types = canon (dv_error_types st), dr_scan_error = scan\<rparr>)"
    by (simp add: discover_virtual_hosts_def s(1) o Let_def)
  with s o that show ?thesis by blast
qed

lemma new_limits_ok:
  "new_limits_check request_limit runtime timeout concurrency = Inr limits \<Longrightarrow>
   int VHOST_BASELINE_REQUEST_COUNT < vh_request_limit limits \<and> 0 < vh_runtime_seconds limits \<and> 0 < vh_timeout_seconds limits
   \<and> 0 < vh_concurrency limits"
  by (auto simp: new_limits_check_def split: if_splits option.splits)

lemma discovered_observations:
  assumes "request_ok req" "0 < vh_concurrency (req_limits req)" "discover_virtual_hosts env sha256 req preserve = Some (Inr r)"
  shows "\<exists>st cx. dv_final env sha256 req cx st \<and> (dv_observations st \<noteq> [] \<longrightarrow> probed env req None cx) \<and> dr_observations r = dv_observations st
    \<and> dr_requests r = dv_requests st \<and> dr_attempted r = dv_attempted st"
proof (rule discovery_cases [OF assms(1,2), of env sha256 preserve])
  fix broken st cx stop scan cancelled cx0
  assume fin: "dv_final env sha256 req cx st" "dv_observations st \<noteq> [] \<longrightarrow> probed env req None cx"
    and run: "discover_virtual_hosts env sha256 req preserve = Some (if cancelled \<and> \<not> preserve then Inl CancelledError
       else Inr \<lparr>dr_context = cx0, dr_controls = dv_controls st, dr_observations = dv_observations st, dr_requests = dv_requests st,
         dr_attempted = dv_attempted st, dr_stop = stop_reason_of req st (if cancelled then Some ''runtime-limit'' else stop) scan,
         dr_errors = dv_errors st, dr_error_types = canon (dv_error_types st), dr_scan_error = scan\<rparr>)"
  have "dr_observations r = dv_observations st" "dr_requests r = dv_requests st" "dr_attempted r = dv_attempted st"
    using run assms(3) by (auto split: if_splits)
  with fin show ?thesis by blast
qed

lemma session_outcome_cancelled:
  "session_outcome broken c = (stop, scan, True) \<Longrightarrow> broken = Some Cancelled \<or> c = Close_cancelled"
  by (auto simp: session_outcome_def Let_def split: option.splits interruption.splits closing.splits prod.splits)

lemma session_outcome_stop: "session_outcome broken c = (stop, scan, cancelled) \<Longrightarrow> stop = None \<or> stop = Some ''runtime-limit''"
  by (auto simp: session_outcome_def Let_def split: option.splits interruption.splits closing.splits prod.splits)

lemma stop_reason_completed:
  "stop_reason_of req st stop scan = ''completed'' \<Longrightarrow> stop = None \<or> stop = Some ''runtime-limit'' \<Longrightarrow>
   scan = None \<and> dv_attempted st = length (req_candidates req) \<and> \<not> list_ex vo_needs_confirmation (dv_observations st) \<and> dv_errors st = 0"
  by (auto simp: stop_reason_of_def split: if_splits option.splits)

lemma discovery_outcome:
  assumes req: "request_ok req" and conc: "0 < vh_concurrency (req_limits req)"
  shows "case discover_virtual_hosts env sha256 req preserve of
      None \<Rightarrow> False
    | Some (Inl err) \<Rightarrow> err = CancelledError \<and> \<not> preserve \<and> ((\<exists>n. env_break env n = Some Cancelled) \<or> env_close env = Close_cancelled)
    | Some (Inr r) \<Rightarrow>
        int (dr_requests r) \<le> vh_request_limit (req_limits req) \<and> dr_attempted r \<le> length (req_candidates req)
        \<and> length (dr_observations r) = dr_attempted r \<and> distinct (map vo_hostname (dr_observations r))
        \<and> set (map vo_hostname (dr_observations r)) \<subseteq> set (req_candidates req)
        \<and> (dr_stop r = ''completed'' \<longrightarrow>
             set (map vo_hostname (dr_observations r)) = set (req_candidates req)
             \<and> (\<forall>v\<in>set (dr_observations r). \<not> vo_needs_confirmation v) \<and> dr_errors r = 0 \<and> dr_scan_error r = None)
        \<and> ((\<forall>n. env_break env n = None) \<and> env_close env = Closed \<longrightarrow>
             dr_scan_error r = None \<and> dr_stop r \<in> {''completed'', ''request-limit'', ''request-errors''})"
proof -
  from discovery_cases [OF req conc, of env sha256 preserve] obtain broken st cx stop scan cancelled cx0 where
    fin: "dv_final env sha256 req cx st" and broken: "broken = None \<or> (\<exists>n. broken = env_break env n)"
    and out: "session_outcome broken (env_close env) = (stop, scan, cancelled)"
    and run: "discover_virtual_hosts env sha256 req preserve = Some (if cancelled \<and> \<not> preserve then Inl CancelledError
       else Inr \<lparr>dr_context = cx0, dr_controls = dv_controls st, dr_observations = dv_observations st, dr_requests = dv_requests st,
         dr_attempted = dv_attempted st, dr_stop = stop_reason_of req st (if cancelled then Some ''runtime-limit'' else stop) scan,
         dr_errors = dv_errors st, dr_error_types = canon (dv_error_types st), dr_scan_error = scan\<rparr>)" by metis
  define stop1 where stop1: "stop1 = (if cancelled then Some ''runtime-limit'' else stop)"
  show ?thesis
  proof (cases "cancelled \<and> \<not> preserve")
    case True
    then have "session_outcome broken (env_close env) = (stop, scan, True)" using out by simp
    from session_outcome_cancelled [OF this] have "broken = Some Cancelled \<or> env_close env = Close_cancelled" .
    then have "(\<exists>n. env_break env n = Some Cancelled) \<or> env_close env = Close_cancelled" using broken by auto
    with True show ?thesis unfolding run by simp
  next
    case False
    have hosts: "distinct (map vo_hostname (dv_observations st))" "set (map vo_hostname (dv_observations st)) \<subseteq> set (req_candidates req)"
      "length (dv_observations st) = dv_attempted st" using fin unfolding dv_final_def by blast+
    have done1: "set (map vo_hostname (dv_observations st)) = set (req_candidates req)" if "dv_attempted st = length (req_candidates req)"
    proof (rule card_subset_eq [OF _ hosts(2)])
      show "card (set (map vo_hostname (dv_observations st))) = card (set (req_candidates req))"
        using hosts that req by (simp add: distinct_card request_ok_def del: set_map)
    qed simp
    have completed: "stop_reason_of req st stop1 scan = ''completed'' \<longrightarrow>
        set (map vo_hostname (dv_observations st)) = set (req_candidates req)
        \<and> (\<forall>v\<in>set (dv_observations st). \<not> vo_needs_confirmation v) \<and> dv_errors st = 0 \<and> scan = None"
      using stop_reason_completed [of req st stop1 scan] session_outcome_stop [OF out] done1 by (auto simp: list_ex_iff stop1)
    have calm: "(\<forall>n. env_break env n = None) \<and> env_close env = Closed \<longrightarrow>
        scan = None \<and> stop_reason_of req st stop1 scan \<in> {''completed'', ''request-limit'', ''request-errors''}"
    proof
      assume calm: "(\<forall>n. env_break env n = None) \<and> env_close env = Closed"
      then have "broken = None" using broken by auto
      then have "stop = None \<and> scan = None \<and> \<not> cancelled" using out calm by (simp add: session_outcome_def)
      then show "scan = None \<and> stop_reason_of req st stop1 scan \<in> {''completed'', ''request-limit'', ''request-errors''}"
        by (simp add: stop_reason_of_def stop1)
    qed
    have "int (dv_requests st) \<le> vh_request_limit (req_limits req)" "dv_attempted st \<le> length (req_candidates req)"
      using fin by (auto simp: dv_final_def)
    then show ?thesis unfolding run [folded stop1] if_not_P [OF False] option.case sum.case discovery_result.select_convs
      using hosts completed calm by (intro conjI) assumption+
  qed
qed

text \<open>C36: Virtual-host discovery returns and stays within its limits. For every accepted request and whatever
  the network does, the discovery ends; an exception leaves it only when it was cancelled and partial
  results are not wanted. The result counts at most the requests of the limit, has exactly one observation
  for every attempted candidate and none for another name; it says completed only when every candidate was
  probed without error and none awaits its confirmation; and without any interruption there is no scan error
  and the runtime limit is not reported.\<close>

theorem discovery_within_limits:
  assumes "new_vhost_request endpoint scope candidates limits insecure = Inr req" "new_limits_check request_limit runtime timeout concurrency = Inr limits"
  shows "case discover_virtual_hosts env sha256 req preserve of
      None \<Rightarrow> False
    | Some (Inl err) \<Rightarrow> err = CancelledError \<and> \<not> preserve \<and> ((\<exists>n. env_break env n = Some Cancelled) \<or> env_close env = Close_cancelled)
    | Some (Inr r) \<Rightarrow>
        int (dr_requests r) \<le> vh_request_limit limits \<and> dr_attempted r \<le> length (req_candidates req)
        \<and> length (dr_observations r) = dr_attempted r \<and> distinct (map vo_hostname (dr_observations r))
        \<and> set (map vo_hostname (dr_observations r)) \<subseteq> set (req_candidates req)
        \<and> (dr_stop r = ''completed'' \<longrightarrow>
             set (map vo_hostname (dr_observations r)) = set (req_candidates req)
             \<and> (\<forall>v\<in>set (dr_observations r). \<not> vo_needs_confirmation v) \<and> dr_errors r = 0 \<and> dr_scan_error r = None)
        \<and> ((\<forall>n. env_break env n = None) \<and> env_close env = Closed \<longrightarrow>
             dr_scan_error r = None \<and> dr_stop r \<in> {''completed'', ''request-limit'', ''request-errors''})"
proof -
  from new_request_ok [OF assms(1)] have req: "request_ok req" "req_limits req = limits" by auto
  have "0 < vh_concurrency (req_limits req)" using new_limits_ok [OF assms(2)] req(2) by simp
  from discovery_outcome [OF req(1) this] show ?thesis unfolding req(2) .
qed

text \<open>C37: What a discovery reports as distinct can be stored, where the network answers with HTTP statuses between 100
  and 599. An observation with this classification is never about the scope itself, needs no confirmation, and its
  details are read back unchanged, for every accepted request, digest function and such behaviour of the network. After
  another status, which the HTTP client passes on, the evidence can be refused (\<open>status_999_is_refused\<close>).\<close>

theorem discovered_evidence_is_storable:
  assumes "new_vhost_request endpoint scope candidates limits insecure = Inr req" "new_limits_check request_limit runtime timeout concurrency = Inr limits"
    and "discover_virtual_hosts env sha256 req preserve = Some (Inr r)" "v \<in> set (dr_observations r)" "vo_classification v = ''distinct''"
    and "\<forall>n. reply_in_range (env_reply env n)" "\<forall>s. is_digest (sha256 s)"
  shows "parse_virtual_host_details (vo_hostname v) (JList (virtual_host_details [v])) = Inr [v]
    \<and> vo_hostname v \<in> set (req_candidates req) \<and> vo_hostname v \<noteq> req_scope req \<and> \<not> vo_needs_confirmation v"
proof -
  from new_request_ok [OF assms(1)] have req: "request_ok req" "req_limits req = limits" by auto
  have e: "normalize_virtual_host_endpoint (req_endpoint req) = Inr (req_endpoint req)" using req(1) by (simp add: request_ok_def)
  have "0 < vh_concurrency (req_limits req)" using new_limits_ok [OF assms(2)] req(2) by simp
  from discovered_observations [OF req(1) this assms(3)] obtain st cx where
    fin: "dv_final env sha256 req cx st" and cx: "dv_observations st \<noteq> [] \<longrightarrow> probed env req None cx" and obs: "dr_observations r = dv_observations st"
    by blast
  have "sourced env sha256 req cx v" and cxp: "probed env req None cx" using fin cx assms(4) obs by (auto simp: dv_final_def)
  then obtain name p controls confirmation where n: "name \<in> set (req_candidates req)" "probed env req (Some name) p"
    "\<forall>c\<in>set controls. \<exists>n. probed env req (Some n) c" "classify_candidate sha256 req cx p controls confirmation = Inr v" unfolding sourced_def by blast
  have name: "valid_hostname name" using n(1) req(1) by (auto simp: request_ok_def list_all_iff)
  have status: "probed env req h q \<Longrightarrow> status_in_range q" for h q using assms(6) probe_status unfolding probed_def by blast
  have st: "list_all status_in_range (cx # p # controls)" using status n cxp by (auto simp: list_all_iff)
  have pe: "probe_of_endpoint (req_endpoint req) p" using n(2) probe_endpoint [OF _ name e] unfolding probed_def by blast
  have pn: "prb_hostname p = name" using n(2) probe_name name unfolding probed_def valid_hostname_def by blast
  from n(4) obtain w where w: "classify_virtual_host sha256 (req_endpoint req) cx p controls confirmation = Inr w"
    "v = (if name = req_scope req then w\<lparr>vo_classification := ''indeterminate'', vo_signals := [], vo_needs_confirmation := False\<rparr> else w)"
    unfolding classify_candidate_def bindR_Inr_iff sum.inject pn by blast
  have apex: "name \<noteq> req_scope req" using assms(5) unfolding w(2) by auto
  with w have c: "classify_virtual_host sha256 (req_endpoint req) cx p controls confirmation = Inr v" by simp
  have ok: "vhost_ok v" by (rule classified_vhost_ok [OF c assms(5) e pe st assms(7)])
  have "vo_hostname v = name" using classify_parts [OF c] pn by auto
  moreover have "canon_by vhost_key [v] = [v]" by (simp add: canon_by_def)
  ultimately show ?thesis using parse_details_back [of "[v]" "vo_hostname v"] ok n(1) apex by (simp add: vhost_ok_def)
qed


section \<open>Examples\<close>

text \<open>A server that knows one of the names\<close>

definition example_reply :: "nat \<Rightarrow> exchange" where
  "example_reply n = (if n = 4 then Replied 200 None (Body [''Welc'', ''ome'']) else Replied 404 None (Body [''none'']))"

definition example_environment :: environment where
  "example_environment = \<lparr>env_reply = example_reply, env_break = (\<lambda>_. None), env_finished = (\<lambda>_. True), env_start = (\<lambda>_. 5), env_close = Closed\<rparr>"

definition example_limits :: vhost_limits where
  "example_limits = \<lparr>vh_request_limit = 8, vh_runtime_seconds = 30, vh_timeout_seconds = 5, vh_concurrency = 2\<rparr>"

definition example_discovery :: "vhost_request res" where
  "example_discovery = new_vhost_request ''http://192.0.2.1'' ''example.com'' [''a.example.com''] example_limits False"


lemma example_limits_accepted: "new_limits_check (JInt 8) (JInt 30) (JInt 5) (JInt 2) = Inr example_limits"
  by (simp add: new_limits_check_def example_limits_def VHOST_BASELINE_REQUEST_COUNT_def VHOST_CONTROL_COUNT_def)

lemma example_discovery_result:
  "case example_discovery of Inl _ \<Rightarrow> False
   | Inr req \<Rightarrow> (case discover_virtual_hosts example_environment example_digest req False of
        Some (Inr r) \<Rightarrow> map (\<lambda>v. (vo_hostname v, vo_classification v)) (dr_observations r) = [(''a.example.com'', ''distinct'')]
          \<and> dr_stop r = ''completed'' \<and> dr_requests r = 5 | _ \<Rightarrow> False)"
  by code_simp

lemma example_discovered:
  obtains req r v where "example_discovery = Inr req" "discover_virtual_hosts example_environment example_digest req False = Some (Inr r)"
    "dr_observations r = [v]" "vo_hostname v = ''a.example.com''" "vo_classification v = ''distinct''"
    "dr_stop r = ''completed''" "dr_requests r = 5"
proof (cases example_discovery)
  case (Inr req)
  note e = example_discovery_result [unfolded Inr sum.case]
  then obtain x where x: "discover_virtual_hosts example_environment example_digest req False = Some x"
    by (cases "discover_virtual_hosts example_environment example_digest req False") simp_all
  note e = e [unfolded x option.case]
  then obtain r where r: "x = Inr r" by (cases x) simp_all
  from e [unfolded r sum.case] Inr x r show ?thesis by (auto intro: that)
next
  case (Inl a)
  from example_discovery_result [unfolded Inl sum.case] show ?thesis ..
qed

lemma discovery_within_limits_witness:
  "\<exists>req r. example_discovery = Inr req \<and> discover_virtual_hosts example_environment example_digest req False = Some (Inr r)
     \<and> int (dr_requests r) \<le> 8 \<and> length (dr_observations r) = dr_attempted r \<and> dr_scan_error r = None"
proof (rule example_discovered)
  fix req r v
  assume e: "example_discovery = Inr req" "discover_virtual_hosts example_environment example_digest req False = Some (Inr r)" "dr_stop r = ''completed''"
  from discovery_within_limits [OF e(1) [unfolded example_discovery_def] example_limits_accepted, where env = example_environment and ?sha256.0 = example_digest and preserve = False] e
  show ?thesis by (auto simp: example_limits_def)
qed

lemma discovered_evidence_is_storable_witness:
  "\<exists>req r v. discover_virtual_hosts example_environment example_digest req False = Some (Inr r) \<and> v \<in> set (dr_observations r)
     \<and> parse_virtual_host_details ''a.example.com'' (JList (virtual_host_details [v])) = Inr [v]"
proof (rule example_discovered)
  fix req r v
  assume e: "example_discovery = Inr req" "discover_virtual_hosts example_environment example_digest req False = Some (Inr r)"
    "dr_observations r = [v]" "vo_hostname v = ''a.example.com''" "vo_classification v = ''distinct''"
  have v: "v \<in> set (dr_observations r)" using e(3) by simp
  have range: "\<forall>n. reply_in_range (env_reply example_environment n)" by (simp add: example_environment_def example_reply_def reply_in_range_def)
  have digest: "\<forall>s. is_digest (example_digest s)" by (simp add: is_digest_def example_digest_def list_all_iff)
  from discovered_evidence_is_storable [OF e(1) [unfolded example_discovery_def] example_limits_accepted e(2) v e(5) range digest] e(2,4) v
  show ?thesis by auto
qed

end
