(* ===== verification/Virtual_Host_Harvest.thy ===== *)
theory Virtual_Host_Harvest
  imports Virtual_Host
begin

text \<open>
  Virtual-host discovery over the addresses of a run (\<open>discover_harvested_virtual_hosts\<close> in lib/virtual_host.py):
  the endpoints share the budget of requests and of time, each endpoint runs the discovery of
  \<open>Virtual_Host\<close>, and the results are merged. The clock, the network of each endpoint, and how the wait for
  its task ends are an environment.
\<close>

section \<open>The result and the state\<close>

record harvest_report =
  hr_observations :: "vhost_observation list"
  hr_requests :: nat
  hr_endpoints :: nat
  hr_total_endpoints :: nat
  hr_attempted :: nat
  hr_total_attempts :: nat
  hr_stop :: string
  hr_errors :: nat
  hr_error_types :: "string list"
  hr_scan_error :: "string option"

record harvest =
  hv_observations :: "vhost_observation list"
  hv_requests :: nat
  hv_endpoints :: nat
  hv_attempted :: nat
  hv_stops :: "string list"
  hv_limited :: bool
  hv_late :: bool
  hv_errors :: nat
  hv_error_types :: "string list"
  hv_scan_error :: "string option"

definition start_harvest :: harvest where
  "start_harvest = \<lparr>hv_observations = [], hv_requests = 0, hv_endpoints = 0, hv_attempted = 0, hv_stops = [],
     hv_limited = False, hv_late = False, hv_errors = 0, hv_error_types = [], hv_scan_error = None\<rparr>"

definition merge_result :: "discovery_result \<Rightarrow> harvest \<Rightarrow> harvest" where
  "merge_result r st =
     st\<lparr>hv_requests := hv_requests st + dr_requests r, hv_attempted := hv_attempted st + dr_attempted r,
       hv_errors := hv_errors st + dr_errors r, hv_error_types := hv_error_types st @ dr_error_types r,
       hv_observations := hv_observations st @ dr_observations r, hv_stops := hv_stops st @ [dr_stop r],
       hv_scan_error := (case hv_scan_error st of None \<Rightarrow> dr_scan_error r | Some e \<Rightarrow> Some e)\<rparr>"

section \<open>The environment\<close>

text \<open>How \<open>asyncio.wait\<close> ends: the task is done, the wait was cancelled, or it timed out and the task was
  cancelled and awaited; then the flag says whether this task itself was being cancelled.\<close>

datatype waiting = Task_done | Wait_cancelled | Wait_timed_out bool

text \<open>Per endpoint: the time left before the deadline, the network of its discovery (None when the task was
  cancelled before it began), and the wait\<close>

record harvest_environment =
  he_remaining :: "nat \<Rightarrow> rat"
  he_network :: "nat \<Rightarrow> environment option"
  he_wait :: "nat \<Rightarrow> waiting"

definition child :: "harvest_environment \<Rightarrow> (string \<Rightarrow> string) \<Rightarrow> vhost_request \<Rightarrow> nat \<Rightarrow> discovery_result res option" where
  "child he sha256 req index =
     (case he_network he index of None \<Rightarrow> Some (Inl CancelledError) | Some env \<Rightarrow> discover_virtual_hosts env sha256 req True)"

section \<open>The loop over the endpoints\<close>

datatype harvest_step = Go_on | Leave_loop | Raise_cancelled

definition cancelled_scan :: "harvest \<Rightarrow> harvest" where
  "cancelled_scan st = st\<lparr>hv_scan_error := Some ''CancelledError''\<rparr>"

definition after_wait :: "waiting \<Rightarrow> discovery_result res \<Rightarrow> harvest \<Rightarrow> (harvest_step \<times> harvest) res" where
  "after_wait w out st =
     (case w of
        Wait_cancelled \<Rightarrow> Inr (Raise_cancelled, cancelled_scan (case out of Inr r \<Rightarrow> merge_result r st | Inl e \<Rightarrow> st))
      | Task_done \<Rightarrow>
          (case out of
             Inl e \<Rightarrow> Inr (if e = CancelledError then (Raise_cancelled, cancelled_scan st)
                           else (Leave_loop, st\<lparr>hv_scan_error := Some (type_name e)\<rparr>))
           | Inr r \<Rightarrow> Inr (if hv_late st \<or> dr_scan_error r \<noteq> None then Leave_loop else Go_on, merge_result r st))
      | Wait_timed_out cancelling \<Rightarrow>
          (let st1 = st\<lparr>hv_late := True\<rparr>
           in (case out of
                 Inl e \<Rightarrow> if e \<noteq> CancelledError then Inl e
                          else Inr (if cancelling then (Raise_cancelled, cancelled_scan st1) else (Leave_loop, st1))
               | Inr r \<Rightarrow> Inr (if cancelling then (Raise_cancelled, merge_result r (cancelled_scan st1))
                               else (Leave_loop, merge_result r st1)))))"

text \<open>One endpoint; \<open>left\<close> is \<open>endpoints_left\<close>, the outer option is None when its discovery does not return.\<close>

definition run_endpoint ::
  "harvest_environment \<Rightarrow> (string \<Rightarrow> string) \<Rightarrow> vhost_limits \<Rightarrow> bool \<Rightarrow> string \<Rightarrow> string list \<Rightarrow> nat \<Rightarrow> nat \<Rightarrow> string \<Rightarrow> harvest
   \<Rightarrow> (harvest_step \<times> harvest) res option" where
  "run_endpoint he sha256 limits insecure scope candidates index left endpoint st =
     (let share = (vh_request_limit limits - int (hv_requests st)) div int left;
          (chosen, truncated) = candidates_for_budget scope candidates share;
          st1 = st\<lparr>hv_limited := hv_limited st \<or> truncated\<rparr>;
          remaining = he_remaining he index
      in if chosen = [] then Some (Inr (Go_on, st1\<lparr>hv_limited := True\<rparr>))
         else if remaining \<le> 0 then Some (Inr (Leave_loop, st1\<lparr>hv_late := True\<rparr>))
         else (let runtime = remaining / of_nat left;
                   runtime1 = (if left = 1 then runtime - min (1 / 1000) (runtime / 2) else runtime);
                   st2 = st1\<lparr>hv_endpoints := hv_endpoints st1 + 1\<rparr>
               in (case bindR (new_limits_check (JInt share) (JFloat (Some runtime1)) (JFloat (Some (vh_timeout_seconds limits)))
                                (JInt (vh_concurrency limits))) (\<lambda>l. new_vhost_request endpoint scope chosen l insecure) of
                     Inl e \<Rightarrow> Some (Inl e)
                   | Inr req \<Rightarrow> (case child he sha256 req index of
                                   None \<Rightarrow> None
                                 | Some out \<Rightarrow> Some (after_wait (he_wait he index) out st2)))))"

fun harvest_loop ::
  "harvest_environment \<Rightarrow> (string \<Rightarrow> string) \<Rightarrow> vhost_limits \<Rightarrow> bool \<Rightarrow> string \<Rightarrow> string list \<Rightarrow> nat \<Rightarrow> string list \<Rightarrow> harvest
   \<Rightarrow> (bool \<times> harvest) res option" where
  "harvest_loop he sha256 limits insecure scope candidates index [] st = Some (Inr (False, st))"
| "harvest_loop he sha256 limits insecure scope candidates index (endpoint # endpoints) st =
     (case run_endpoint he sha256 limits insecure scope candidates index (Suc (length endpoints)) endpoint st of
        None \<Rightarrow> None
      | Some (Inl e) \<Rightarrow> Some (Inl e)
      | Some (Inr (Go_on, st1)) \<Rightarrow> harvest_loop he sha256 limits insecure scope candidates (Suc index) endpoints st1
      | Some (Inr (Leave_loop, st1)) \<Rightarrow> Some (Inr (False, st1))
      | Some (Inr (Raise_cancelled, st1)) \<Rightarrow> Some (Inr (True, st1)))"

section \<open>The whole function\<close>

definition harvest_stop :: "bool \<Rightarrow> harvest \<Rightarrow> string" where
  "harvest_stop endpoints_limited st =
     (if hv_late st \<or> ''runtime-limit'' \<in> set (hv_stops st) then ''runtime-limit''
      else if hv_scan_error st \<noteq> None then ''scan-error''
      else if endpoints_limited \<or> hv_limited st \<or> ''request-limit'' \<in> set (hv_stops st) then ''request-limit''
      else if 0 < hv_errors st \<or> ''request-errors'' \<in> set (hv_stops st) then ''request-errors''
      else (case filter (\<lambda>s. s \<noteq> ''completed'') (hv_stops st) of [] \<Rightarrow> ''completed'' | s # _ \<Rightarrow> s))"

definition harvested_result :: "nat \<Rightarrow> nat \<Rightarrow> harvest \<Rightarrow> string \<Rightarrow> harvest_report" where
  "harvested_result endpoints attempts st stop =
     \<lparr>hr_observations = hv_observations st, hr_requests = hv_requests st, hr_endpoints = hv_endpoints st, hr_total_endpoints = endpoints,
      hr_attempted = hv_attempted st, hr_total_attempts = attempts, hr_stop = stop, hr_errors = hv_errors st,
      hr_error_types = canon (hv_error_types st), hr_scan_error = hv_scan_error st\<rparr>"

text \<open>The result, or the result that \<open>VirtualHostDiscoveryCancelled\<close> carries\<close>

datatype harvested = Harvested harvest_report | Harvest_cancelled harvest_report

definition harvested_run ::
  "harvest_environment \<Rightarrow> (string \<Rightarrow> string) \<Rightarrow> vhost_limits \<Rightarrow> bool \<Rightarrow> string \<Rightarrow> string list \<Rightarrow> string list \<Rightarrow> harvested res option" where
  "harvested_run he sha256 limits insecure scope candidates endpoints =
     (let attempts = length endpoints * length candidates;
          maximum = nat (vh_request_limit limits div (int VHOST_BASELINE_REQUEST_COUNT + 1))
      in if candidates = [] then Some (Inr (Harvested (harvested_result (length endpoints) 0 start_harvest ''no-candidates'')))
         else if endpoints = [] then Some (Inr (Harvested (harvested_result 0 0 start_harvest ''no-endpoints'')))
         else (case harvest_loop he sha256 limits insecure scope candidates 0 (take maximum endpoints) start_harvest of
                 None \<Rightarrow> None
               | Some (Inl e) \<Rightarrow> Some (Inl e)
               | Some (Inr (True, st)) \<Rightarrow> Some (Inr (Harvest_cancelled (harvested_result (length endpoints) attempts st ''cancelled'')))
               | Some (Inr (False, st)) \<Rightarrow>
                   Some (Inr (Harvested (harvested_result (length endpoints) attempts st (harvest_stop (maximum < length endpoints) st))))))"

definition discover_harvested_virtual_hosts ::
  "harvest_environment \<Rightarrow> (string \<Rightarrow> string) \<Rightarrow> string \<Rightarrow> string list \<Rightarrow> string list \<Rightarrow> vhost_limits \<Rightarrow> bool \<Rightarrow> string
   \<Rightarrow> harvested res option" where
  "discover_harvested_virtual_hosts he sha256 scope addresses candidates limits insecure endpoint_override =
     (case bindR (normalize_hostname scope) (\<lambda>sc.
           bindR (normalize_virtual_host_candidates sc candidates) (\<lambda>names.
           bindR (if endpoint_override = [] then Inr (harvested_endpoints addresses)
                  else bindR (normalize_virtual_host_endpoint endpoint_override) (\<lambda>e. Inr [e])) (\<lambda>endpoints.
           Inr (sc, names, endpoints)))) of
        Inl e \<Rightarrow> Some (Inl e)
      | Inr (sc, names, endpoints) \<Rightarrow> harvested_run he sha256 limits insecure sc names endpoints)"


section \<open>Budgets\<close>

text \<open>The discovery of one endpoint, as the loop sees it\<close>

lemma child_ok:
  assumes req: "request_ok req" "0 < vh_concurrency (req_limits req)"
  shows "\<exists>out. child he sha256 req index = Some out
    \<and> (case out of Inl e \<Rightarrow> e = CancelledError
       | Inr r \<Rightarrow> int (dr_requests r) \<le> vh_request_limit (req_limits req) \<and> dr_attempted r \<le> length (req_candidates req)
           \<and> length (dr_observations r) = dr_attempted r \<and> (\<forall>v\<in>set (dr_observations r). vo_hostname v \<in> set (req_candidates req))
           \<and> (dr_stop r = ''completed'' \<longrightarrow> dr_attempted r = length (req_candidates req)))"
proof (cases "he_network he index")
  case (Some env)
  have all: "dr_attempted r = length (req_candidates req)"
    if "length (dr_observations r) = dr_attempted r" "distinct (map vo_hostname (dr_observations r))"
      "set (map vo_hostname (dr_observations r)) = set (req_candidates req)" for r
    using that req(1) distinct_card [of "map vo_hostname (dr_observations r)"] distinct_card [of "req_candidates req"]
    by (simp add: request_ok_def del: set_map)
  from discovery_outcome [OF req, where env = env and ?sha256.0 = sha256 and preserve = True] obtain out where
    "discover_virtual_hosts env sha256 req True = Some out" by (cases "discover_virtual_hosts env sha256 req True") auto
  with discovery_outcome [OF req, where env = env and ?sha256.0 = sha256 and preserve = True] show ?thesis
    by (cases out) (auto simp: child_def Some intro: all)
qed (simp add: child_def)

definition harvest_ok :: "vhost_limits \<Rightarrow> string list \<Rightarrow> nat \<Rightarrow> harvest \<Rightarrow> bool" where
  "harvest_ok limits candidates k st =
     (int (hv_requests st) \<le> vh_request_limit limits \<and> hv_endpoints st \<le> k \<and> hv_attempted st \<le> k * length candidates
      \<and> length (hv_observations st) = hv_attempted st \<and> (\<forall>v\<in>set (hv_observations st). vo_hostname v \<in> set candidates)
      \<and> (\<not> hv_limited st \<and> \<not> hv_late st \<and> hv_scan_error st = None \<and> (\<forall>s\<in>set (hv_stops st). s = ''completed'') \<longrightarrow>
           hv_attempted st = k * length candidates \<and> hv_endpoints st = k))"

definition stopped :: "harvest \<Rightarrow> bool" where
  "stopped st = (hv_late st \<or> hv_scan_error st \<noteq> None)"

lemma harvest_ok_stopped: "harvest_ok limits candidates k st \<Longrightarrow> stopped st \<Longrightarrow> k \<le> m \<Longrightarrow> harvest_ok limits candidates m st"
proof -
  assume ok: "harvest_ok limits candidates k st" "stopped st" "k \<le> m"
  have "k * length candidates \<le> m * length candidates" using ok(3) by (rule mult_le_mono1)
  moreover have "hv_attempted st \<le> k * length candidates" "hv_endpoints st \<le> k" using ok(1) unfolding harvest_ok_def by blast+
  ultimately have "hv_attempted st \<le> m * length candidates" "hv_endpoints st \<le> m" using ok(3) by (blast intro: order_trans)+
  with ok show ?thesis by (auto simp: harvest_ok_def stopped_def)
qed

lemma share_fits: "0 < left \<Longrightarrow> int n \<le> limit \<Longrightarrow> int r \<le> (limit - int n) div int left \<Longrightarrow> int (n + r) \<le> limit"
proof -
  assume n: "0 < left" "int n \<le> limit" "int r \<le> (limit - int n) div int left"
  have "(limit - int n) div int left \<le> (limit - int n) div 1" using n(1,2) by (intro zdiv_mono2) simp_all
  with n(3) show ?thesis by simp
qed

lemma merge_ok:
  assumes "harvest_ok limits candidates k st0" "\<not> stopped st0"
    and "st = st0\<lparr>hv_limited := hv_limited st0 \<or> truncated, hv_endpoints := Suc (hv_endpoints st0)\<rparr>"
    and "int (hv_requests st0 + dr_requests r) \<le> vh_request_limit limits" "dr_attempted r \<le> length chosen" "length chosen \<le> length candidates"
    and "length (dr_observations r) = dr_attempted r" "\<forall>v\<in>set (dr_observations r). vo_hostname v \<in> set candidates"
    and "dr_stop r = ''completed'' \<longrightarrow> dr_attempted r = length chosen" "\<not> truncated \<longrightarrow> chosen = candidates"
  shows "harvest_ok limits candidates (Suc k) (merge_result r st)"
  using assms unfolding harvest_ok_def stopped_def by (auto simp: merge_result_def split: option.splits)


section \<open>The loop\<close>

lemma harvest_ok_scan:
  "harvest_ok limits candidates k st \<Longrightarrow> harvest_ok limits candidates k (cancelled_scan st)"
  "harvest_ok limits candidates k st \<Longrightarrow> harvest_ok limits candidates k (st\<lparr>hv_late := True\<rparr>)"
  "harvest_ok limits candidates k st \<Longrightarrow> harvest_ok limits candidates k (st\<lparr>hv_scan_error := Some e\<rparr>)"
  by (auto simp: harvest_ok_def cancelled_scan_def)

lemma merge_order:
  "merge_result r (st\<lparr>hv_scan_error := Some e\<rparr>) = (merge_result r st)\<lparr>hv_scan_error := Some e\<rparr>"
  "merge_result r (st\<lparr>hv_late := b\<rparr>) = (merge_result r st)\<lparr>hv_late := b\<rparr>"
  by (simp_all add: merge_result_def)

text \<open>What the wait for the task does with its outcome: only a loop that goes on has no flag set.\<close>

definition step_ok :: "vhost_limits \<Rightarrow> string list \<Rightarrow> nat \<Rightarrow> harvest_step \<Rightarrow> harvest \<Rightarrow> bool" where
  "step_ok limits candidates k step st =
     (harvest_ok limits candidates k st \<and> (step = Go_on \<longleftrightarrow> \<not> stopped st)
      \<and> (step = Raise_cancelled \<longrightarrow> hv_scan_error st = Some ''CancelledError''))"

lemma step_ok_end: "step_ok limits candidates (Suc k) step st \<Longrightarrow> step \<noteq> Go_on \<Longrightarrow> harvest_ok limits candidates (k + length (e # es)) st"
proof -
  assume s: "step_ok limits candidates (Suc k) step st" "step \<noteq> Go_on"
  have "harvest_ok limits candidates (Suc k) st" "stopped st" using s unfolding step_ok_def by blast+
  then show ?thesis by (rule harvest_ok_stopped) simp
qed

lemma after_wait_ok:
  assumes clean: "\<not> stopped st" and fixed: "\<And>e. harvest_ok limits candidates k (st\<lparr>hv_scan_error := Some e\<rparr>)" "harvest_ok limits candidates k (st\<lparr>hv_late := True\<rparr>)"
    and out: "case out of Inl e \<Rightarrow> e = CancelledError | Inr r \<Rightarrow> harvest_ok limits candidates k (merge_result r st)"
  shows "\<exists>step st'. after_wait w out st = Inr (step, st') \<and> step_ok limits candidates k step st'"
proof (cases out)
  case (Inl e)
  then have "e = CancelledError" using out by simp
  then show ?thesis using Inl fixed clean
    by (cases w) (auto simp: after_wait_def step_ok_def stopped_def cancelled_scan_def Let_def intro: harvest_ok_scan(3))
next
  case (Inr r)
  then have ok: "harvest_ok limits candidates k (merge_result r st)" using out by simp
  have flags: "hv_late (merge_result r st) = hv_late st" "hv_scan_error (merge_result r st) = dr_scan_error r"
    using clean by (simp_all add: merge_result_def stopped_def)
  show ?thesis using Inr clean ok flags
    by (cases w)
      (auto simp: after_wait_def step_ok_def stopped_def Let_def merge_order harvest_ok_scan cancelled_scan_def
        intro!: harvest_ok_scan(3) [where st = "(merge_result r st)\<lparr>hv_late := True\<rparr>"])
qed

definition limits_ok :: "vhost_limits \<Rightarrow> bool" where
  "limits_ok limits = (0 < vh_timeout_seconds limits \<and> 0 < vh_concurrency limits \<and> int VHOST_BASELINE_REQUEST_COUNT < vh_request_limit limits)"

lemma run_endpoint_ok:
  assumes limits: "limits_ok limits" and sc: "normalize_hostname scope = Inr sc" and cands: "normalize_virtual_host_candidates scope given = Inr candidates"
    and e: "normalize_virtual_host_endpoint endpoint = Inr endpoint" and left: "0 < left"
    and st: "harvest_ok limits candidates k st" "\<not> stopped st"
  shows "\<exists>step st'. run_endpoint he sha256 limits insecure sc candidates index left endpoint st = Some (Inr (step, st'))
    \<and> step_ok limits candidates (Suc k) step st'"
proof -
  let ?share = "(vh_request_limit limits - int (hv_requests st)) div int left"
  obtain chosen truncated where cb: "candidates_for_budget sc candidates ?share = (chosen, truncated)" by fastforce
  let ?st2 = "st\<lparr>hv_limited := hv_limited st \<or> truncated, hv_endpoints := Suc (hv_endpoints st)\<rparr>"
  let ?rt = "he_remaining he index / of_nat left"
  let ?rt1 = "if left = 1 then ?rt - min (1 / 1000) (?rt / 2) else ?rt"
  have one_less: "hv_attempted st \<le> length candidates + k * length candidates" "hv_endpoints st \<le> Suc k"
    using st(1) unfolding harvest_ok_def by linarith+
  show ?thesis
  proof (cases "chosen = [] \<or> he_remaining he index \<le> 0")
    case True
    then show ?thesis using cb st one_less
      by (auto simp: run_endpoint_def Let_def step_ok_def stopped_def harvest_ok_def)
  next
    case False
    then have ne: "chosen \<noteq> []" and rt: "0 < ?rt" using left by simp_all
    have "0 < ?rt1" using rt by (auto simp: min_def)
    note budget = budget_request [OF cands sc cb e]
    define l where l: "l = \<lparr>vh_request_limit = ?share, vh_runtime_seconds = ?rt1, vh_timeout_seconds = vh_timeout_seconds limits,
      vh_concurrency = vh_concurrency limits\<rparr>"
    have "vh_request_limit l = ?share" by (simp add: l)
    from budget [OF this, of insecure] ne obtain req where sub: "subseq chosen candidates" "\<not> truncated \<longrightarrow> chosen = candidates"
      and req: "new_vhost_request endpoint sc chosen l insecure = Inr req" "req_candidates req = chosen"
      and base: "1 + 3 * int (card {candidate_shape c sc | c. c \<in> set chosen}) + int (length chosen) \<le> ?share" by auto
    have "new_limits_check (JInt ?share) (JFloat (Some ?rt1)) (JFloat (Some (vh_timeout_seconds limits))) (JInt (vh_concurrency limits)) = Inr l"
      using budget_above_baseline [OF base ne] \<open>0 < ?rt1\<close> limits by (simp add: new_limits_check_def l limits_ok_def)
    with False cb req have run: "run_endpoint he sha256 limits insecure sc candidates index left endpoint st =
        (case child he sha256 req index of None \<Rightarrow> None | Some out \<Rightarrow> Some (after_wait (he_wait he index) out ?st2))"
      by (simp add: run_endpoint_def Let_def)
    from new_request_ok [OF req(1)] have rq: "request_ok req" "req_limits req = l" by auto
    have lim: "vh_request_limit (req_limits req) = ?share" "0 < vh_concurrency (req_limits req)"
      using limits by (simp_all add: rq(2) l limits_ok_def)
    from child_ok [OF rq(1) lim(2), of he sha256 index, unfolded lim(1) req(2)] obtain out where out: "child he sha256 req index = Some out"
      "case out of Inl e \<Rightarrow> e = CancelledError
       | Inr r \<Rightarrow> int (dr_requests r) \<le> ?share \<and> dr_attempted r \<le> length chosen
           \<and> length (dr_observations r) = dr_attempted r \<and> (\<forall>v\<in>set (dr_observations r). vo_hostname v \<in> set chosen)
           \<and> (dr_stop r = ''completed'' \<longrightarrow> dr_attempted r = length chosen)" by blast
    have len: "length chosen \<le> length candidates" "set chosen \<subseteq> set candidates"
      using sub(1) by (metis list_emb_length, metis subseq_conv_nths set_nths_subset)
    have lim0: "int (hv_requests st) \<le> vh_request_limit limits" using st(1) by (simp add: harvest_ok_def)
    have m: "harvest_ok limits candidates (Suc k) (merge_result r ?st2)" if "out = Inr r" for r
    proof (rule merge_ok [OF st])
      show "int (hv_requests st + dr_requests r) \<le> vh_request_limit limits" using out(2) that share_fits [OF left lim0] by simp
    qed (use out(2) that len sub(2) in auto)
    have "harvest_ok limits candidates (Suc k) (?st2\<lparr>hv_scan_error := Some e\<rparr>)" "harvest_ok limits candidates (Suc k) (?st2\<lparr>hv_late := True\<rparr>)" for e
      using st one_less by (auto simp: harvest_ok_def)
    moreover have "\<not> stopped ?st2" using st(2) by (simp add: stopped_def)
    moreover have "case out of Inl e \<Rightarrow> e = CancelledError | Inr r \<Rightarrow> harvest_ok limits candidates (Suc k) (merge_result r ?st2)"
      using out(2) m by (cases out) simp_all
    ultimately show ?thesis using after_wait_ok [of ?st2 limits candidates "Suc k" out "he_wait he index"] run out(1) by auto
  qed
qed

lemma harvest_loop_ok:
  assumes limits: "limits_ok limits" and sc: "normalize_hostname scope = Inr sc" and cands: "normalize_virtual_host_candidates scope given = Inr candidates"
  shows "\<forall>e\<in>set endpoints. normalize_virtual_host_endpoint e = Inr e \<Longrightarrow> harvest_ok limits candidates k st \<Longrightarrow> \<not> stopped st \<Longrightarrow>
    \<exists>cancelled st'. harvest_loop he sha256 limits insecure sc candidates index endpoints st = Some (Inr (cancelled, st'))
      \<and> harvest_ok limits candidates (k + length endpoints) st' \<and> (cancelled \<longrightarrow> hv_scan_error st' = Some ''CancelledError'')"
proof (induction endpoints arbitrary: k st index)
  case (Cons e endpoints)
  from run_endpoint_ok [OF limits sc cands _ _ Cons(3,4), of e "Suc (length endpoints)" he sha256 insecure index] Cons(2)
  obtain step st1 where run: "run_endpoint he sha256 limits insecure sc candidates index (Suc (length endpoints)) e st = Some (Inr (step, st1))"
    "step_ok limits candidates (Suc k) step st1" by auto
  show ?case
  proof (cases step)
    case Go_on
    from Cons(1) [of "Suc k" st1 "Suc index"] Cons(2) run Go_on show ?thesis by (auto simp: step_ok_def)
  next
    case Leave_loop
    with step_ok_end [OF run(2), of e endpoints] run(1) show ?thesis by (intro exI [of _ False] exI [of _ st1]) simp
  next
    case Raise_cancelled
    with step_ok_end [OF run(2), of e endpoints] run show ?thesis by (intro exI [of _ True] exI [of _ st1]) (simp add: step_ok_def)
  qed
qed (intro exI [of _ False], simp)


section \<open>The result\<close>

text \<open>What every result, cancelled or not, promises\<close>

definition within_limits :: "vhost_limits \<Rightarrow> string list \<Rightarrow> harvest_report \<Rightarrow> bool" where
  "within_limits limits names r =
     (int (hr_requests r) \<le> vh_request_limit limits \<and> hr_endpoints r \<le> hr_total_endpoints r \<and> hr_attempted r \<le> hr_total_attempts r
      \<and> length (hr_observations r) = hr_attempted r \<and> (\<forall>v\<in>set (hr_observations r). vo_hostname v \<in> set names))"

lemma first_other: "(case filter (\<lambda>s. s \<noteq> x) ss of [] \<Rightarrow> x | s # _ \<Rightarrow> s) = x \<Longrightarrow> \<forall>s\<in>set ss. s = x"
proof (cases "filter (\<lambda>s. s \<noteq> x) ss")
  case (Cons s rest)
  then have "s \<in> set (filter (\<lambda>s. s \<noteq> x) ss)" by simp
  then have "s \<noteq> x" by simp
  moreover assume "(case filter (\<lambda>s. s \<noteq> x) ss of [] \<Rightarrow> x | s # _ \<Rightarrow> s) = x"
  ultimately show ?thesis unfolding Cons by simp
qed (simp add: filter_empty_conv)

lemma last_choice:
  "(if p then a else if q then b else if r then c else if s then d else e) = x \<Longrightarrow> a \<noteq> x \<Longrightarrow> b \<noteq> x \<Longrightarrow> c \<noteq> x \<Longrightarrow> d \<noteq> x \<Longrightarrow>
   \<not> p \<and> \<not> q \<and> \<not> r \<and> \<not> s \<and> e = x"
  by (auto split: if_splits)

lemma harvest_stop_completed:
  assumes "harvest_stop cut1 st = ''completed''"
  shows "\<not> hv_late st \<and> hv_scan_error st = None \<and> \<not> cut1 \<and> \<not> hv_limited st \<and> hv_errors st = 0 \<and> (\<forall>s\<in>set (hv_stops st). s = ''completed'')"
proof -
  have "''runtime-limit'' \<noteq> ''completed''" "''scan-error'' \<noteq> ''completed''" "''request-limit'' \<noteq> ''completed''" "''request-errors'' \<noteq> ''completed''"
    by simp_all
  note c = last_choice [OF assms [unfolded harvest_stop_def] this]
  then have "\<forall>s\<in>set (hv_stops st). s = ''completed''" by (intro first_other) (elim conjE)
  with c show ?thesis by simp
qed

lemma harvested_run_ok:
  assumes limits: "limits_ok limits" and sc: "normalize_hostname scope = Inr sc" and cands: "normalize_virtual_host_candidates scope given = Inr names"
    and e: "\<forall>e\<in>set endpoints. normalize_virtual_host_endpoint e = Inr e"
  shows "\<exists>h. harvested_run he sha256 limits insecure sc names endpoints = Some (Inr h)
    \<and> (case h of
         Harvest_cancelled r \<Rightarrow> within_limits limits names r \<and> hr_stop r = ''cancelled'' \<and> hr_scan_error r = Some ''CancelledError''
       | Harvested r \<Rightarrow> within_limits limits names r
           \<and> (hr_stop r = ''completed'' \<longrightarrow> hr_endpoints r = hr_total_endpoints r \<and> hr_attempted r = hr_total_attempts r
                \<and> hr_errors r = 0 \<and> hr_scan_error r = None))"
proof (cases "names = [] \<or> endpoints = []")
  case True
  then show ?thesis using limits
    by (auto simp: harvested_run_def Let_def harvested_result_def within_limits_def start_harvest_def limits_ok_def)
next
  case False
  let ?max = "nat (vh_request_limit limits div (int VHOST_BASELINE_REQUEST_COUNT + 1))"
  let ?eps = "take ?max endpoints"
  have start: "harvest_ok limits names 0 start_harvest" "\<not> stopped start_harvest"
    using limits by (auto simp: harvest_ok_def start_harvest_def stopped_def limits_ok_def)
  have "\<forall>e\<in>set ?eps. normalize_virtual_host_endpoint e = Inr e" using e by (auto dest: in_set_takeD)
  from harvest_loop_ok [OF limits sc cands this start, of he sha256 insecure 0] obtain cancelled st where
    run: "harvest_loop he sha256 limits insecure sc names 0 ?eps start_harvest = Some (Inr (cancelled, st))"
    and ok: "harvest_ok limits names (length ?eps) st" and c: "cancelled \<Longrightarrow> hv_scan_error st = Some ''CancelledError''" by auto
  have len: "length ?eps \<le> length endpoints" by simp
  then have "length ?eps * length names \<le> length endpoints * length names" by (rule mult_le_mono1)
  then have bounds: "within_limits limits names (harvested_result (length endpoints) (length endpoints * length names) st stop)" for stop
    using ok len unfolding harvest_ok_def within_limits_def harvested_result_def harvest_report.select_convs
    by (blast intro: order_trans)
  show ?thesis
  proof (cases cancelled)
    case True
    then show ?thesis using False run bounds c by (simp add: harvested_run_def harvested_result_def)
  next
    case fin: False
    let ?stop = "harvest_stop (?max < length endpoints) st"
    have full: "hv_endpoints st = length endpoints" "hv_attempted st = length endpoints * length names" "hv_errors st = 0" "hv_scan_error st = None"
      if "?stop = ''completed''"
    proof -
      note d = harvest_stop_completed [OF that]
      then have "length ?eps = length endpoints" by simp
      with d ok show "hv_endpoints st = length endpoints" "hv_attempted st = length endpoints * length names" "hv_errors st = 0" "hv_scan_error st = None"
        unfolding harvest_ok_def by auto
    qed
    let ?r = "harvested_result (length endpoints) (length endpoints * length names) st ?stop"
    have "harvested_run he sha256 limits insecure sc names endpoints = Some (Inr (Harvested ?r))"
      using False run fin by (simp add: harvested_run_def Let_def)
    moreover have "hr_stop ?r = ''completed'' \<longrightarrow> hr_endpoints ?r = hr_total_endpoints ?r \<and> hr_attempted ?r = hr_total_attempts ?r
        \<and> hr_errors ?r = 0 \<and> hr_scan_error ?r = None"
      using full by (simp add: harvested_result_def)
    ultimately show ?thesis using bounds [of ?stop] by (intro exI [of _ "Harvested ?r"]) simp
  qed
qed

text \<open>C38: Discovery over the harvested addresses stays within the limits. Whatever the clock, the networks and
  the cancellations do, the function returns for accepted limits, scope and candidates, without another
  exception. All endpoints together send at most the requests of the limit and attempt at most every
  candidate at every endpoint, one observation per attempt; a cancelled run carries the same kind of result;
  and completed means that every endpoint was visited and every candidate attempted there without error.\<close>

theorem harvest_within_limits:
  assumes "new_limits_check request_limit runtime timeout concurrency = Inr limits"
    and "normalize_hostname scope = Inr sc" "normalize_virtual_host_candidates sc candidates = Inr names"
    and "if endpoint_override = [] then \<forall>a\<in>set addresses. CHR ''%'' \<notin> set a
         else \<exists>e. normalize_virtual_host_endpoint endpoint_override = Inr e"
  shows "\<exists>h. discover_harvested_virtual_hosts he sha256 scope addresses candidates limits insecure endpoint_override = Some (Inr h)
    \<and> (case h of
         Harvest_cancelled r \<Rightarrow> within_limits limits names r \<and> hr_stop r = ''cancelled'' \<and> hr_scan_error r = Some ''CancelledError''
       | Harvested r \<Rightarrow> within_limits limits names r
           \<and> (hr_stop r = ''completed'' \<longrightarrow> hr_endpoints r = hr_total_endpoints r \<and> hr_attempted r = hr_total_attempts r
                \<and> hr_errors r = 0 \<and> hr_scan_error r = None))"
proof -
  have limits: "limits_ok limits" using new_limits_ok [OF assms(1)] by (simp add: limits_ok_def)
  have sc: "normalize_hostname sc = Inr sc" using valid_hostname_normalize [OF normalize_hostname_valid [OF assms(2)]] .
  obtain endpoints where ep: "(if endpoint_override = [] then Inr (harvested_endpoints addresses)
      else bindR (normalize_virtual_host_endpoint endpoint_override) (\<lambda>e. Inr [e])) = Inr endpoints"
    "\<forall>e\<in>set endpoints. normalize_virtual_host_endpoint e = Inr e"
  proof (cases "endpoint_override = []")
    case True
    with assms(4) harvested_endpoints_normal that show ?thesis by auto
  next
    case False
    with assms(4) endpoint_norm.norm_stable that show ?thesis by auto
  qed
  from harvested_run_ok [OF limits sc assms(3) ep(2), of he sha256 insecure] show ?thesis
    unfolding discover_harvested_virtual_hosts_def assms(2,3) bindR_simps ep(1) by simp
qed

section \<open>Examples\<close>

text \<open>The HTTPS endpoint answers as in the example of one discovery, the HTTP endpoint never gets a chance: its
  wait is cancelled before the task began.\<close>

definition example_harvest :: harvest_environment where
  "example_harvest = \<lparr>he_remaining = (\<lambda>_. 10), he_network = (\<lambda>n. if n = 0 then Some example_environment else None),
     he_wait = (\<lambda>n. if n = 0 then Task_done else Wait_cancelled)\<rparr>"

lemma harvest_within_limits_witness:
  "\<exists>h. discover_harvested_virtual_hosts example_harvest example_digest ''example.com'' [''192.0.2.1''] [''a.example.com'']
     (example_limits\<lparr>vh_request_limit := 16\<rparr>) False [] = Some (Inr h)"
proof -
  have l: "new_limits_check (JInt 16) (JInt 30) (JInt 5) (JInt 2) = Inr (example_limits\<lparr>vh_request_limit := 16\<rparr>)"
    by (simp add: new_limits_check_def example_limits_def VHOST_BASELINE_REQUEST_COUNT_def VHOST_CONTROL_COUNT_def)
  have n: "normalize_hostname ''example.com'' = Inr ''example.com''"
    "normalize_virtual_host_candidates ''example.com'' [''a.example.com''] = Inr [''a.example.com'']" by code_simp+
  have "if [] = ([] :: string) then \<forall>a\<in>set [''192.0.2.1'']. CHR ''%'' \<notin> set a
      else \<exists>e. normalize_virtual_host_endpoint [] = Inr e" by simp
  from harvest_within_limits [OF l n this, where he = example_harvest and ?sha256.0 = example_digest and insecure = False] show ?thesis by blast
qed

end
