(* ===== verification/Active_Evidence.thy ===== *)
theory Active_Evidence
  imports Virtual_Host_Evidence
begin

text \<open>
  What actions and sources report about their own run (lib/active_evidence.py and the execution records of
  lib/completed_result.py): observations, artifacts, executions and their order. A value whose type the code
  checks at run time is a \<open>json\<close>; durations are finite.
\<close>

section \<open>Observations\<close>

record action_observation =
  ao_kind :: string
  ao_value :: string

definition new_action_observation :: "string \<Rightarrow> json \<Rightarrow> action_observation res" where
  "new_action_observation kind v =
     (if kind \<notin> set RESULT_KINDS then Inl (ValueError (''unknown action observation kind: '' @ kind))
      else if kind = ''screenshot'' then Inl (ValueError ''screenshots must be stored as artifacts, not results'')
      else (case v of
              JStr s \<Rightarrow>
                if strip s = [] then Inl (ValueError ''action observation value must be a non-empty string'')
                else bindR (normalize_result_value kind s) (\<lambda>t. Inr \<lparr>ao_kind = kind, ao_value = t\<rparr>)
            | _ \<Rightarrow> Inl (ValueError ''action observation value must be a non-empty string'')))"

definition action_observation_key :: "action_observation \<Rightarrow> string \<times> string" where
  "action_observation_key o1 = (ao_kind o1, ao_value o1)"

record result_observation =
  ro_source :: string
  ro_kind :: string
  ro_value :: string

definition new_result_observation :: "string \<Rightarrow> string \<Rightarrow> json \<Rightarrow> result_observation res" where
  "new_result_observation source kind v =
     (if strip source = [] then Inl (ValueError ''observation source must not be empty'')
      else if kind \<notin> set RESULT_KINDS then Inl (ValueError (''unknown observation kind: '' @ kind))
      else (case v of
              JStr s \<Rightarrow>
                if strip s = [] then Inl (ValueError ''observation value must be a non-empty string'')
                else bindR (normalize_result_value kind s) (\<lambda>t. Inr \<lparr>ro_source = source, ro_kind = kind, ro_value = t\<rparr>)
            | _ \<Rightarrow> Inl (ValueError ''observation value must be a non-empty string'')))"

definition result_observation_key :: "result_observation \<Rightarrow> string \<times> string \<times> string" where
  "result_observation_key o1 = (ro_source o1, ro_kind o1, ro_value o1)"

section \<open>Artifacts\<close>

record artifact =
  art_kind :: string
  art_subject_kind :: string
  art_subject :: string
  art_path :: string
  art_media_type :: string
  art_size :: int
  art_sha256 :: string
  art_created :: int

definition new_artifact :: "artifact \<Rightarrow> artifact res" where
  "new_artifact a =
     raise_first
       [(list_ex (\<lambda>v. strip v = []) [art_kind a, art_path a, art_media_type a], ''artifact kind, path, and media type must not be empty''),
        (art_subject_kind a \<notin> set RESULT_KINDS \<or> art_subject_kind a = ''screenshot'' \<or> strip (art_subject a) = [],
         ''artifact must reference a known non-empty result''),
        (art_size a < 0, ''artifact size must not be negative''),
        (\<not> is_digest (art_sha256 a), ''artifact sha256 must be 64 lowercase hexadecimal characters'')]
       (Inr a)"

definition artifact_key :: "artifact \<Rightarrow> string \<times> string \<times> string \<times> string \<times> string \<times> int \<times> string \<times> int" where
  "artifact_key a = (art_kind a, art_subject_kind a, art_subject a, art_path a, art_media_type a, art_size a, art_sha256 a, art_created a)"

definition artifact_to_dict :: "artifact \<Rightarrow> (string \<times> json) list" where
  "artifact_to_dict a =
     [(''kind'', JStr (art_kind a)),
      (''subject'', JObj [(''kind'', JStr (art_subject_kind a)), (''value'', JStr (art_subject a))]),
      (''file'', JObj [(''path'', JStr (art_path a)), (''media_type'', JStr (art_media_type a)), (''size_bytes'', JInt (art_size a)),
                       (''sha256'', JStr (art_sha256 a))]),
      (''created_at'', JStr (format_utc (art_created a)))]"

section \<open>Executions\<close>

record execution =
  exe_action :: string
  exe_status :: string
  exe_duration :: rat
  exe_observations :: "action_observation list"
  exe_artifacts :: "artifact list"
  exe_error :: "string option"
  exe_stop :: "string option"

definition new_execution :: "execution \<Rightarrow> execution res" where
  "new_execution e =
     raise_first
       [(strip (exe_action e) = [], ''action must not be empty''),
        (exe_status e \<notin> set EXECUTION_STATUSES, ''unknown execution status: '' @ exe_status e),
        (exe_duration e < 0, ''execution duration must not be negative''),
        (exe_observations e \<noteq> canon_by action_observation_key (exe_observations e), ''action observations must be deduplicated and sorted''),
        (exe_artifacts e \<noteq> canon_by artifact_key (exe_artifacts e), ''artifacts must be deduplicated and sorted'')]
       (Inr e)"

fun collect_values :: "string \<Rightarrow> json list \<Rightarrow> action_observation list res" where
  "collect_values kind [] = Inr []"
| "collect_values kind (v # vs) =
     (case v of
        JStr s \<Rightarrow>
          if strip s = [] then Inl (ValueError ''action observation value must be a non-empty string'')
          else bindR (new_action_observation kind (JStr (strip s))) (\<lambda>o1. bindR (collect_values kind vs) (\<lambda>os. Inr (o1 # os)))
      | _ \<Rightarrow> Inl (ValueError ''action observation value must be a non-empty string''))"

fun collect_groups :: "(string \<times> json list) list \<Rightarrow> action_observation list res" where
  "collect_groups [] = Inr []"
| "collect_groups ((kind, vs) # groups) =
     (if kind \<notin> set RESULT_KINDS then Inl (ValueError (''unknown action observation kind: '' @ kind))
      else if kind = ''screenshot'' then Inl (ValueError ''screenshots must be stored as artifacts, not results'')
      else bindR (collect_values kind vs) (\<lambda>os. bindR (collect_groups groups) (\<lambda>rest. Inr (os @ rest))))"

definition finish_execution ::
  "string \<Rightarrow> string \<Rightarrow> rat \<Rightarrow> (string \<times> json list) list \<Rightarrow> artifact list \<Rightarrow> string option \<Rightarrow> string option \<Rightarrow> execution res" where
  "finish_execution action status duration groups artifacts err stop =
     bindR (collect_groups groups) (\<lambda>os.
       new_execution
         \<lparr>exe_action = strip action, exe_status = status, exe_duration = duration, exe_observations = canon_by action_observation_key os,
          exe_artifacts = canon_by artifact_key artifacts, exe_error = err, exe_stop = stop\<rparr>)"

definition opt_text :: "string option \<Rightarrow> json" where
  "opt_text v = (case v of None \<Rightarrow> JNull | Some s \<Rightarrow> JStr s)"

definition execution_to_dict :: "execution \<Rightarrow> (string \<times> json) list" where
  "execution_to_dict e =
     [(''action'', JStr (exe_action e)), (''status'', JStr (exe_status e)), (''duration_ms'', JFloat (Some (exe_duration e))),
      (''result_count'', JInt (int (length (exe_observations e)))), (''error_type'', opt_text (exe_error e)),
      (''stop_reason'', opt_text (exe_stop e))]"

definition new_active_evidence :: "execution list \<Rightarrow> execution list res" where
  "new_active_evidence es = raise_first [(\<not> distinct (map exe_action es), ''action executions must be unique'')] (Inr es)"

definition active_observations :: "execution list \<Rightarrow> (string \<times> action_observation) list" where
  "active_observations es = concat (map (\<lambda>e. map (\<lambda>o1. (exe_action e, o1)) (exe_observations e)) es)"

definition active_artifacts :: "execution list \<Rightarrow> (string \<times> artifact) list" where
  "active_artifacts es = concat (map (\<lambda>e. map (\<lambda>a. (exe_action e, a)) (exe_artifacts e)) es)"

record source_execution =
  sx_source :: string
  sx_status :: string
  sx_duration :: rat
  sx_count :: int
  sx_error :: "string option"
  sx_stop :: "string option"

definition new_source_execution :: "source_execution \<Rightarrow> source_execution res" where
  "new_source_execution s =
     raise_first
       [(strip (sx_source s) = [], ''source must not be empty''),
        (sx_status s \<notin> set EXECUTION_STATUSES, ''unknown execution status: '' @ sx_status s),
        (sx_duration s < 0 \<or> sx_count s < 0, ''execution duration and result count must not be negative'')]
       (Inr s)"

definition source_execution_to_dict :: "source_execution \<Rightarrow> (string \<times> json) list" where
  "source_execution_to_dict s =
     [(''source'', JStr (sx_source s)), (''status'', JStr (sx_status s)), (''duration_ms'', JFloat (Some (sx_duration s))),
      (''result_count'', JInt (sx_count s)), (''error_type'', opt_text (sx_error s)), (''stop_reason'', opt_text (sx_stop s))]"

section \<open>Accepted executions\<close>

definition action_observation_ok :: "action_observation \<Rightarrow> bool" where
  "action_observation_ok o1 = (new_action_observation (ao_kind o1) (JStr (ao_value o1)) = Inr o1)"

definition result_observation_ok :: "result_observation \<Rightarrow> bool" where
  "result_observation_ok o1 = (new_result_observation (ro_source o1) (ro_kind o1) (JStr (ro_value o1)) = Inr o1)"

lemma action_observation_key_inj: "action_observation_key x = action_observation_key y \<Longrightarrow> x = y"
  by (intro action_observation.equality) (auto simp: action_observation_key_def)

lemma result_observation_key_inj: "result_observation_key x = result_observation_key y \<Longrightarrow> x = y"
  by (intro result_observation.equality) (auto simp: result_observation_key_def)

lemma artifact_key_inj: "artifact_key x = artifact_key y \<Longrightarrow> x = y"
  by (intro artifact.equality) (auto simp: artifact_key_def)

interpretation action_observation_order: canonical_collection action_observation_key
  by unfold_locales (rule action_observation_key_inj)

interpretation result_observation_order: canonical_collection result_observation_key
  by unfold_locales (rule result_observation_key_inj)

interpretation artifact_order: canonical_collection artifact_key
  by unfold_locales (rule artifact_key_inj)

end
