(* ===== verification/Completed_Result.thy ===== *)
theory Completed_Result
  imports Active_Evidence Attribution Network_Evidence Shodan_Evidence Takeover_Evidence
begin

text \<open>
  The completed result of a run (lib/completed_result.py): the record with the checks of its constructor, the
  constructor \<open>finish\<close> that collects and orders what the run produced, the overall status, and the result
  records that a saved file holds.
\<close>

section \<open>The record and its checks\<close>

record completed =
  cr_run_id :: string
  cr_target :: string
  cr_started :: int
  cr_completed :: int
  cr_results :: "(string \<times> string) list"
  cr_sources :: "source_execution list"
  cr_observations :: "result_observation list"
  cr_actions :: "execution list"
  cr_vhosts :: "vhost_observation list"
  cr_network :: "network_observation list"
  cr_asns :: "attribution list"
  cr_shodan :: "shodan_host list"
  cr_takeover :: "candidate_outcome list"
  cr_evidence_status :: "string option"

text \<open>\<open>any(normalize_result_value(kind, value) != value ...)\<close>; the normaliser may raise.\<close>

fun check_canonical :: "(string \<times> string) list \<Rightarrow> unit res" where
  "check_canonical [] = Inr ()"
| "check_canonical ((kind, v) # rs) =
     bindR (normalize_result_value kind v) (\<lambda>t.
       if t \<noteq> v then Inl (ValueError ''results must contain canonical values'') else check_canonical rs)"

definition observed :: "completed \<Rightarrow> (string \<times> string) list" where
  "observed r = map (\<lambda>o1. (ro_kind o1, ro_value o1)) (cr_observations r)"

definition acted :: "completed \<Rightarrow> (string \<times> string \<times> string) list" where
  "acted r = map (\<lambda>(action, o1). (action, ao_kind o1, ao_value o1)) (active_observations (cr_actions r))"

definition sourced_results :: "completed \<Rightarrow> (string \<times> string \<times> string) list" where
  "sourced_results r = map (\<lambda>o1. (ro_source o1, ro_kind o1, ro_value o1)) (cr_observations r)"

definition time_checks :: "completed \<Rightarrow> (bool \<times> string) list" where
  "time_checks r =
     [(strip (cr_target r) = [], ''target must not be empty''),
      (cr_completed r < cr_started r, ''completed_at must not be earlier than started_at''),
      (list_ex (\<lambda>(kind, v). kind \<notin> set RESULT_KINDS \<or> strip v = []) (cr_results r), ''results must contain known kinds and non-empty string values''),
      (cr_results r \<noteq> canon (cr_results r), ''results must be deduplicated and sorted'')]"

definition count_source :: "completed \<Rightarrow> string \<Rightarrow> nat" where
  "count_source r s = length (filter (\<lambda>o1. ro_source o1 = s) (cr_observations r))"

definition provenance_checks :: "completed \<Rightarrow> (bool \<times> string) list" where
  "provenance_checks r =
     [(cr_observations r \<noteq> canon_by result_observation_key (cr_observations r), ''observations must be deduplicated and sorted''),
      (list_ex (\<lambda>o1. o1 \<notin> set (cr_results r)) (observed r), ''every observation must reference a completed result''),
      (\<not> distinct (map sx_source (cr_sources r)), ''source executions must be unique''),
      (list_ex (\<lambda>o1. ro_source o1 \<notin> set (map sx_source (cr_sources r))) (cr_observations r),
       ''every observation must reference a matching source execution''),
      (list_ex (\<lambda>x. sx_count x \<noteq> int (count_source r (sx_source x))) (cr_sources r),
       ''source execution result count must match its attributed observations''),
      (list_ex (\<lambda>(_, o1). (ao_kind o1, ao_value o1) \<notin> set (cr_results r)) (active_observations (cr_actions r)),
       ''every action observation must reference a completed result''),
      (list_ex (\<lambda>(_, a). (art_subject_kind a, art_subject a) \<notin> set (cr_results r)) (active_artifacts (cr_actions r)),
       ''every artifact must reference a completed result''),
      (cr_vhosts r \<noteq> canon_by vhost_key (cr_vhosts r), ''virtual-host observations must be deduplicated and sorted'')]"

definition scope_of :: "completed \<Rightarrow> string \<Rightarrow> string res" where
  "scope_of r message = (case normalize_hostname (cr_target r) of Inl e \<Rightarrow> Inl (ValueError message) | Inr s \<Rightarrow> Inr s)"

fun check_vhosts :: "string \<Rightarrow> vhost_observation list \<Rightarrow> unit res" where
  "check_vhosts scope [] = Inr ()"
| "check_vhosts scope (v # vs) =
     (if vo_hostname v = scope \<or> \<not> ends_with (''.'' @ scope) (vo_hostname v)
      then Inl (ValueError ''virtual-host observation must be a descendant of the run target scope'')
      else if parse_virtual_host_details (vo_hostname v) (JList (virtual_host_details [v])) \<noteq> Inr [v]
      then Inl (ValueError ''virtual-host observations must contain canonical distinct evidence'')
      else check_vhosts scope vs)"

definition vhost_checks :: "completed \<Rightarrow> (bool \<times> string) list" where
  "vhost_checks r =
     (let structured = map (\<lambda>v. (''hostname'', vo_hostname v)) (cr_vhosts r)
      in [(\<not> set structured \<subseteq> set (cr_results r), ''every virtual-host observation must reference a hostname result''),
          (set (map snd (filter (\<lambda>(action, _). action = ''vhost'') (acted r))) \<noteq> set structured,
           ''structured virtual-host evidence must exactly match vhost action provenance'')])"

fun is_origin :: "network_observation \<Rightarrow> bool" where
  "is_origin (Origin x) = True"
| "is_origin obs = False"

definition observed_origins :: "completed \<Rightarrow> (string \<times> string \<times> string) list" where
  "observed_origins r = map (\<lambda>obs. (net_action obs, net_prefix obs, net_asn obs)) (filter is_origin (cr_network r))"

definition network_check :: "completed \<Rightarrow> network_observation \<Rightarrow> unit res" where
  "network_check r obs =
     raise_first
       [((''prefix'', net_prefix obs) \<notin> set (cr_results r) \<or> (''asn'', net_asn obs) \<notin> set (cr_results r),
         ''network observation must reference completed prefix and ASN results''),
        ((net_action obs, ''prefix'', net_prefix obs) \<notin> set (acted r), ''network observation must reference matching action prefix provenance''),
        (\<not> is_origin obs \<and> (net_action obs, net_prefix obs, net_asn obs) \<notin> set (observed_origins r),
         ''BGP route and RPKI observations require matching observed-origin evidence'')]
       (Inr ())"

definition within_run :: "completed \<Rightarrow> int \<Rightarrow> bool" where
  "within_run r t = (cr_started r \<le> t \<and> t \<le> cr_completed r)"

definition check_network :: "completed \<Rightarrow> unit res" where
  "check_network r =
     bindR (canonical_network_observations (cr_network r)) (\<lambda>canonical.
       raise_first
         [(cr_network r \<noteq> canonical, ''network observations must be deduplicated and sorted''),
          (list_ex (\<lambda>obs. \<not> within_run r (net_collected obs)) (cr_network r),
           ''network observation collection time must fall within the completed run'')]
         (bindR (mapR (network_check r) (cr_network r)) (\<lambda>_. Inr ())))"

definition of_kind :: "string \<Rightarrow> completed \<Rightarrow> (string \<times> string) set" where
  "of_kind kind r = {x \<in> set (cr_results r). fst x = kind}"

definition check_shodan :: "completed \<Rightarrow> unit res" where
  "check_shodan r =
     bindR (canonical_shodan_hosts (cr_shodan r)) (\<lambda>canonical.
       raise_first
         [(cr_shodan r \<noteq> canonical, ''Shodan host observations must be deduplicated and sorted''),
          ((\<lambda>h. (''shodan-host'', host_ip h)) ` set (cr_shodan r) \<noteq> of_kind ''shodan-host'' r,
           ''Shodan host results must contain canonical structured evidence''),
          (list_ex (\<lambda>h. (''shodan'', ''shodan-host'', host_ip h) \<notin> set (sourced_results r)
              \<and> (''shodan'', ''shodan-host'', host_ip h) \<notin> set (acted r)) (cr_shodan r),
           ''Shodan host evidence must reference Shodan source or action provenance'')]
         (Inr ()))"

definition check_takeover :: "completed \<Rightarrow> unit res" where
  "check_takeover r =
     bindR (canonical_takeover_outcomes (cr_takeover r)) (\<lambda>canonical.
       raise_first [(cr_takeover r \<noteq> canonical, ''takeover outcomes must be deduplicated and sorted'')]
       (bindR (if cr_takeover r = [] then Inr []
               else scope_of r ''takeover outcomes require a hostname run target scope'') (\<lambda>scope.
        raise_first
         [(list_ex (\<lambda>c. cand_hostname c \<noteq> scope \<and> \<not> ends_with (''.'' @ scope) (cand_hostname c)) (cr_takeover r),
           ''takeover outcome must remain inside the run target scope''),
          ((\<lambda>c. (''takeover'', cand_hostname c)) ` set (cr_takeover r) \<noteq> of_kind ''takeover'' r,
           ''takeover results must contain canonical structured evidence''),
          (list_ex (\<lambda>c. (''takeover'', ''takeover'', cand_hostname c) \<notin> set (acted r)) (cr_takeover r),
           ''takeover evidence must reference takeover action provenance'')]
         (Inr ()))))"

definition attribution_check :: "completed \<Rightarrow> attribution \<Rightarrow> unit res" where
  "attribution_check r a =
     (let producers = (if att_producer_kind a = ''source'' then sourced_results r else acted r)
      in raise_first
        [(\<not> within_run r (att_time a), ''ASN attribution collection time must fall within the completed run''),
         ((''asn'', att_asn a) \<notin> set (cr_results r) \<or> (att_subject_kind a, att_subject a) \<notin> set (cr_results r),
          ''ASN attribution must reference completed ASN and subject results''),
         ((att_producer a, ''asn'', att_asn a) \<notin> set producers \<or> (att_producer a, att_subject_kind a, att_subject a) \<notin> set producers,
          ''ASN attribution must reference matching producer provenance'')]
        (Inr ()))"

definition check_attributions :: "completed \<Rightarrow> unit res" where
  "check_attributions r =
     raise_first [(cr_asns r \<noteq> canonical_asn_attributions (cr_asns r), ''ASN attributions must be deduplicated and sorted'')]
     (bindR (mapR (attribution_check r) (cr_asns r)) (\<lambda>_. Inr ()))"

text \<open>\<open>__post_init__\<close>\<close>

definition new_completed :: "completed \<Rightarrow> completed res" where
  "new_completed r =
     raise_first (time_checks r)
     (bindR (check_canonical (cr_results r)) (\<lambda>_.
      raise_first (provenance_checks r)
      (bindR (if cr_vhosts r = [] then Inr ()
              else bindR (scope_of r ''virtual-host observations require a hostname run target scope'') (\<lambda>scope. check_vhosts scope (cr_vhosts r))) (\<lambda>_.
       raise_first (vhost_checks r)
       (bindR (check_network r) (\<lambda>_.
        bindR (check_shodan r) (\<lambda>_.
        bindR (check_takeover r) (\<lambda>_.
        bindR (check_attributions r) (\<lambda>_.
        raise_first [(case cr_evidence_status r of None \<Rightarrow> False | Some s \<Rightarrow> s \<notin> set EVIDENCE_STATUSES,
                      ''evidence status must be complete, partial, or failed'')]
        (Inr r))))))))))"

section \<open>Finishing a run\<close>

fun collect_results :: "(string \<times> json list) list \<Rightarrow> (string \<times> string) list res" where
  "collect_results [] = Inr []"
| "collect_results ((kind, vs) # groups) =
     (if kind \<notin> set RESULT_KINDS then Inl (ValueError (''unknown result kind: '' @ kind))
      else bindR (mapR (\<lambda>v. case v of
             JStr s \<Rightarrow> if strip s = [] then Inl (ValueError ''results must contain non-empty string values'')
                       else bindR (normalize_result_value kind s) (\<lambda>t. Inr (kind, t))
           | _ \<Rightarrow> Inl (ValueError ''results must contain non-empty string values'')) vs) (\<lambda>rs.
           bindR (collect_results groups) (\<lambda>rest. Inr (rs @ rest))))"

definition finish_completed :: "(string \<times> json list) list \<Rightarrow> completed \<Rightarrow> completed res" where
  "finish_completed groups given =
     bindR (collect_results groups) (\<lambda>collected.
     bindR (canonical_shodan_hosts (cr_shodan given)) (\<lambda>shodan.
     bindR (canonical_takeover_outcomes (cr_takeover given)) (\<lambda>takeover.
     bindR (canonical_network_observations (cr_network given)) (\<lambda>network.
       (let vhosts = canon_by vhost_key (cr_vhosts given);
            results = collected
              @ map (\<lambda>(_, o1). (ao_kind o1, ao_value o1)) (active_observations (cr_actions given))
              @ map (\<lambda>v. (''hostname'', vo_hostname v)) vhosts
              @ map (\<lambda>h. (''shodan-host'', host_ip h)) shodan
              @ map (\<lambda>c. (''takeover'', cand_hostname c)) takeover
        in new_completed
             (given\<lparr>cr_target := strip (cr_target given), cr_results := canon results,
                cr_observations := canon_by result_observation_key (cr_observations given), cr_vhosts := vhosts, cr_network := network,
                cr_asns := canonical_asn_attributions (cr_asns given), cr_shodan := shodan, cr_takeover := takeover\<rparr>))))))"

section \<open>The status\<close>

definition completed_status :: "completed \<Rightarrow> string" where
  "completed_status r =
     (let statuses = map sx_status (cr_sources r) @ map exe_status (cr_actions r)
      in if statuses \<noteq> [] \<and> list_all (\<lambda>s. s = ''failed'') statuses then ''failed''
         else if list_ex (\<lambda>s. s \<in> {''partial'', ''failed'', ''rate-limited'', ''skipped''}) statuses then ''partial''
         else if statuses \<noteq> [] then ''complete''
         else (case cr_evidence_status r of None \<Rightarrow> ''complete'' | Some s \<Rightarrow> if s = [] then ''complete'' else s))"

section \<open>Result records\<close>

definition sources_for :: "completed \<Rightarrow> string \<times> string \<Rightarrow> string list" where
  "sources_for r kv = map ro_source (filter (\<lambda>o1. (ro_kind o1, ro_value o1) = kv) (cr_observations r))"

definition actions_for :: "completed \<Rightarrow> string \<times> string \<Rightarrow> string list" where
  "actions_for r kv = map fst (filter (\<lambda>(_, o1). (ao_kind o1, ao_value o1) = kv) (active_observations (cr_actions r)))"

definition evidence_fields :: "completed \<Rightarrow> string \<Rightarrow> string \<Rightarrow> (string \<times> json) list res" where
  "evidence_fields r kind v =
     (let vhosts = filter (\<lambda>x. vo_hostname x = v) (cr_vhosts r);
          network = of_prefix v (cr_network r);
          attributions = filter (\<lambda>a. att_asn a = v) (cr_asns r)
      in if kind = ''hostname'' \<and> vhosts \<noteq> [] then Inr [(''observations'', JList (virtual_host_details vhosts))]
         else if kind = ''prefix'' \<and> network \<noteq> [] then bindR (network_observation_details network) (\<lambda>ds. Inr [(''observations'', JList ds)])
         else if kind = ''asn'' \<and> attributions \<noteq> [] then Inr [(''observations'', asn_attribution_details attributions)]
         else if kind = ''shodan-host'' then
           Inr (case find (\<lambda>h. host_ip h = v) (rev (cr_shodan r)) of None \<Rightarrow> [] | Some h \<Rightarrow> [(''details'', host_to_details h)])
         else if kind = ''takeover'' then
           Inr (case find (\<lambda>c. cand_hostname c = v) (rev (cr_takeover r)) of None \<Rightarrow> [] | Some c \<Rightarrow> [(''details'', candidate_to_details c)])
         else Inr [])"

text \<open>\<open>_result_records(include_actions=True)\<close>\<close>

definition result_record :: "completed \<Rightarrow> string \<times> string \<Rightarrow> (string \<times> json) list res" where
  "result_record r kv =
     bindR (evidence_fields r (fst kv) (snd kv)) (\<lambda>evidence.
       Inr ([(''type'', JStr (fst kv)), (''value'', JStr (snd kv)), (''sources'', JList (map JStr (sources_for r kv)))]
         @ (if actions_for r kv \<noteq> [] then [(''actions'', JList (map JStr (actions_for r kv)))] else [])
         @ (if fst kv = ''prefix'' then [(''scope'', JStr ''external-relationship'')] else [])
         @ evidence))"

definition result_records :: "completed \<Rightarrow> (string \<times> json) list list res" where
  "result_records r = mapR (result_record r) (cr_results r)"

definition kind_counts :: "completed \<Rightarrow> (string \<times> json) list" where
  "kind_counts r = map (\<lambda>k. (k, JInt (int (length (filter (\<lambda>x. fst x = k) (cr_results r)))))) (canon (map fst (cr_results r)))"

definition artifact_records :: "completed \<Rightarrow> json" where
  "artifact_records r =
     JList (map (\<lambda>(action, a). JObj ((''action'', JStr action) # artifact_to_dict a)) (active_artifacts (cr_actions r)))"

definition execution_fields :: "completed \<Rightarrow> (string \<times> json) list" where
  "execution_fields r =
     [(''source_executions'', JList (map (\<lambda>x. JObj (source_execution_to_dict x)) (cr_sources r))),
      (''action_executions'', JList (map (\<lambda>x. JObj (execution_to_dict x)) (cr_actions r))),
      (''artifacts'', artifact_records r)]"

definition evidence_dict :: "completed \<Rightarrow> json res" where
  "evidence_dict r =
     bindR (result_records r) (\<lambda>records.
       Inr (JObj ([(''run_id'', JStr (cr_run_id r)), (''target'', JStr (cr_target r)), (''started_at'', JStr (isoformat (cr_started r))),
         (''completed_at'', JStr (isoformat (cr_completed r))), (''status'', JStr (completed_status r)), (''results'', JList (map JObj records))]
         @ execution_fields r)))"

text \<open>The summary that \<open>jsonl\<close> hands to the encoder, which adds the type\<close>

definition jsonl_summary :: "completed \<Rightarrow> (string \<times> json) list" where
  "jsonl_summary r =
     [(''completed_at'', JStr (format_utc (cr_completed r))), (''counts'', JObj (kind_counts r)), (''evidence_status'', JStr (completed_status r)),
      (''result_count'', JInt (int (length (cr_results r)))), (''run_id'', JStr (cr_run_id r))] @ execution_fields r
     @ [(''started_at'', JStr (format_utc (cr_started r))), (''target'', JStr (cr_target r))]"


section \<open>What the constructor accepts\<close>

lemma unit_res: "(m = Inr ()) = is_ok m" for m :: "unit res"
  by (cases m) auto

lemma new_completed_Inr:
  "new_completed r = Inr r' \<longleftrightarrow>
     r' = r \<and> (\<forall>c\<in>set (time_checks r). \<not> fst c) \<and> check_canonical (cr_results r) = Inr () \<and> (\<forall>c\<in>set (provenance_checks r). \<not> fst c)
     \<and> (cr_vhosts r \<noteq> [] \<longrightarrow> (\<exists>scope. scope_of r ''virtual-host observations require a hostname run target scope'' = Inr scope
          \<and> check_vhosts scope (cr_vhosts r) = Inr ()))
     \<and> (\<forall>c\<in>set (vhost_checks r). \<not> fst c) \<and> check_network r = Inr () \<and> check_shodan r = Inr () \<and> check_takeover r = Inr ()
     \<and> check_attributions r = Inr () \<and> (case cr_evidence_status r of None \<Rightarrow> True | Some s \<Rightarrow> s \<in> set EVIDENCE_STATUSES)"
  unfolding new_completed_def
  by (auto simp: bindR_Inr_iff raise_first_Inr split: option.splits)

lemma check_canonical_Inr: "check_canonical rs = Inr u \<longleftrightarrow> (\<forall>(kind, v)\<in>set rs. normalize_result_value kind v = Inr v)"
proof (induction rs)
  case (Cons x rs)
  obtain k v where x: "x = (k, v)" by fastforce
  show ?case unfolding x check_canonical.simps bindR_Inr_iff using Cons by (auto split: if_split_asm)
qed simp

lemma check_vhosts_Inr:
  "check_vhosts scope vs = Inr u \<longleftrightarrow>
     (\<forall>v\<in>set vs. vo_hostname v \<noteq> scope \<and> ends_with (''.'' @ scope) (vo_hostname v)
        \<and> parse_virtual_host_details (vo_hostname v) (JList (virtual_host_details [v])) = Inr [v])"
  by (induction vs) auto

lemma mapR_unit_Inr: "bindR (mapR f xs) (\<lambda>_. Inr ()) = Inr u \<longleftrightarrow> (\<forall>x\<in>set xs. is_ok (f x))"
proof (induction xs)
  case (Cons x xs)
  then show ?case by (cases "f x"; cases "mapR f xs") auto
qed simp

lemma raise_first_ok: "is_ok (raise_first checks (Inr ())) \<longleftrightarrow> (\<forall>c\<in>set checks. \<not> fst c)"
  using raise_first_Inr [of checks "Inr ()" "()"] by (cases "raise_first checks (Inr ())") auto

text \<open>The parts of a result come from their own constructors.\<close>

definition execution_ok :: "execution \<Rightarrow> bool" where
  "execution_ok e =
     (new_execution e = Inr e \<and> list_all action_observation_ok (exe_observations e) \<and> list_all (\<lambda>a. new_artifact a = Inr a) (exe_artifacts e))"

definition parts_ok :: "completed \<Rightarrow> bool" where
  "parts_ok r =
     (list_all (\<lambda>x. new_source_execution x = Inr x) (cr_sources r) \<and> list_all result_observation_ok (cr_observations r)
      \<and> list_all execution_ok (cr_actions r) \<and> new_active_evidence (cr_actions r) = Inr (cr_actions r)
      \<and> list_all observation_ok (cr_network r) \<and> list_all attribution_ok (cr_asns r) \<and> list_all host_ok (cr_shodan r)
      \<and> list_all candidate_ok (cr_takeover r))"

text \<open>Times of the years 1 to 9999, no trailing blanks in Shodan names, no resolver with an IPv6 scope, no two
  virtual-host observations that differ only in a missing and an empty location and no two Shodan hosts that differ
  only in an IPv6 scope (their order would not be fixed by their keys): the conditions under which the evidence is
  read back\<close>

definition readable_result :: "completed \<Rightarrow> bool" where
  "readable_result r =
     (inj_on vhost_key (set (cr_vhosts r)) \<and> inj_on host_key (set (cr_shodan r)) \<and> valid_time (cr_started r) \<and> valid_time (cr_completed r) \<and> list_all readable_observation (cr_network r)
      \<and> list_all (\<lambda>a. valid_time (att_time a)) (cr_asns r) \<and> list_all readable_host (cr_shodan r) \<and> list_all readable_candidate (cr_takeover r)
      \<and> list_all (\<lambda>(_, a). valid_time (art_created a)) (active_artifacts (cr_actions r)))"

text \<open>The facts the readers need\<close>

lemma accepted_results:
  assumes "new_completed r = Inr r'"
  shows "cr_results r = canon (cr_results r)" "distinct (cr_results r)"
    "(kind, v) \<in> set (cr_results r) \<Longrightarrow> kind \<in> set RESULT_KINDS \<and> strip v \<noteq> [] \<and> normalize_result_value kind v = Inr v"
proof -
  from assms have c: "\<forall>c\<in>set (time_checks r). \<not> fst c" "check_canonical (cr_results r) = Inr ()" unfolding new_completed_Inr by blast+
  then show "cr_results r = canon (cr_results r)" by (simp add: time_checks_def)
  then show "distinct (cr_results r)" by (metis distinct_canon)
  show "(kind, v) \<in> set (cr_results r) \<Longrightarrow> kind \<in> set RESULT_KINDS \<and> strip v \<noteq> [] \<and> normalize_result_value kind v = Inr v"
    using c unfolding check_canonical_Inr by (auto simp: time_checks_def list_ex_iff)
qed

lemma accepted_provenance:
  assumes "new_completed r = Inr r'"
  shows "cr_observations r = canon_by result_observation_key (cr_observations r)" "set (observed r) \<subseteq> set (cr_results r)"
    "distinct (map sx_source (cr_sources r))" "\<forall>o1\<in>set (cr_observations r). ro_source o1 \<in> set (map sx_source (cr_sources r))"
    "\<forall>x\<in>set (cr_sources r). sx_count x = int (count_source r (sx_source x))"
    "\<forall>(_, o1)\<in>set (active_observations (cr_actions r)). (ao_kind o1, ao_value o1) \<in> set (cr_results r)"
    "\<forall>(_, a)\<in>set (active_artifacts (cr_actions r)). (art_subject_kind a, art_subject a) \<in> set (cr_results r)"
    "cr_vhosts r = canon_by vhost_key (cr_vhosts r)"
proof -
  from assms have "\<forall>c\<in>set (provenance_checks r). \<not> fst c" unfolding new_completed_Inr by blast
  then show "cr_observations r = canon_by result_observation_key (cr_observations r)" "set (observed r) \<subseteq> set (cr_results r)"
    "distinct (map sx_source (cr_sources r))" "\<forall>o1\<in>set (cr_observations r). ro_source o1 \<in> set (map sx_source (cr_sources r))"
    "\<forall>x\<in>set (cr_sources r). sx_count x = int (count_source r (sx_source x))"
    "\<forall>(_, o1)\<in>set (active_observations (cr_actions r)). (ao_kind o1, ao_value o1) \<in> set (cr_results r)"
    "\<forall>(_, a)\<in>set (active_artifacts (cr_actions r)). (art_subject_kind a, art_subject a) \<in> set (cr_results r)"
    "cr_vhosts r = canon_by vhost_key (cr_vhosts r)"
    unfolding provenance_checks_def by (auto simp: list_ex_iff simp del: set_map)
qed

lemma accepted_vhosts:
  assumes "new_completed r = Inr r'"
  shows "v \<in> set (cr_vhosts r) \<Longrightarrow> vhost_ok v"
    "set (map snd (filter (\<lambda>(action, _). action = ''vhost'') (acted r))) = (\<lambda>v. (''hostname'', vo_hostname v)) ` set (cr_vhosts r)"
    "(\<lambda>v. (''hostname'', vo_hostname v)) ` set (cr_vhosts r) \<subseteq> set (cr_results r)"
proof -
  from assms have v: "cr_vhosts r \<noteq> [] \<longrightarrow> (\<exists>scope. check_vhosts scope (cr_vhosts r) = Inr ())"
    and c: "\<forall>c\<in>set (vhost_checks r). \<not> fst c" unfolding new_completed_Inr by blast+
  show "vhost_ok v" if "v \<in> set (cr_vhosts r)" for v
  proof -
    from that v obtain scope where "check_vhosts scope (cr_vhosts r) = Inr ()" by (cases "cr_vhosts r") auto
    with that have "parse_virtual_host_details (vo_hostname v) (JList (virtual_host_details [v])) = Inr [v]"
      unfolding check_vhosts_Inr by blast
    then obtain found where found: "mapR (vhost_from_detail (vo_hostname v)) (virtual_host_details [v]) = Inr found" "canon_by vhost_key found = [v]"
      by (auto simp: parse_virtual_host_details_def bindR_Inr_iff split: if_splits)
    have "v \<in> set (canon_by vhost_key found)" unfolding found(2) by simp
    then have "v \<in> set found" unfolding set_canon_by .
    from mapR_Inr_in [OF found(1) this] obtain d where "vhost_from_detail (vo_hostname v) d = Inr v" by blast
    from vhost_detail_accepts [OF this] show "vhost_ok v" by (rule conjunct1)
  qed
  show "set (map snd (filter (\<lambda>(action, _). action = ''vhost'') (acted r))) = (\<lambda>v. (''hostname'', vo_hostname v)) ` set (cr_vhosts r)"
    "(\<lambda>v. (''hostname'', vo_hostname v)) ` set (cr_vhosts r) \<subseteq> set (cr_results r)"
    using c unfolding vhost_checks_def Let_def by simp_all
qed

lemma accepted_network:
  assumes "new_completed r = Inr r'"
  shows "canonical_network_observations (cr_network r) = Inr (cr_network r)"
    "obs \<in> set (cr_network r) \<Longrightarrow> (''prefix'', net_prefix obs) \<in> set (cr_results r) \<and> (''asn'', net_asn obs) \<in> set (cr_results r)"
proof -
  from assms have "check_network r = Inr ()" unfolding new_completed_Inr by blast
  then obtain canonical where c: "canonical_network_observations (cr_network r) = Inr canonical" "cr_network r = canonical"
    "bindR (mapR (network_check r) (cr_network r)) (\<lambda>_. Inr ()) = Inr ()"
    unfolding check_network_def bindR_Inr_iff [of "canonical_network_observations (cr_network r)"] raise_first_Inr by auto
  then show "canonical_network_observations (cr_network r) = Inr (cr_network r)" by simp
  show "obs \<in> set (cr_network r) \<Longrightarrow> (''prefix'', net_prefix obs) \<in> set (cr_results r) \<and> (''asn'', net_asn obs) \<in> set (cr_results r)"
    using c(3) unfolding mapR_unit_Inr network_check_def raise_first_ok by auto
qed

lemma accepted_shodan:
  assumes "new_completed r = Inr r'"
  shows "canonical_shodan_hosts (cr_shodan r) = Inr (cr_shodan r)"
    "(\<lambda>h. (''shodan-host'', host_ip h)) ` set (cr_shodan r) = of_kind ''shodan-host'' r"
proof -
  from assms have "check_shodan r = Inr ()" unfolding new_completed_Inr by blast
  then obtain canonical where "canonical_shodan_hosts (cr_shodan r) = Inr canonical" "cr_shodan r = canonical"
    "(\<lambda>h. (''shodan-host'', host_ip h)) ` set (cr_shodan r) = of_kind ''shodan-host'' r"
    unfolding check_shodan_def bindR_Inr_iff raise_first_Inr by auto
  then show "canonical_shodan_hosts (cr_shodan r) = Inr (cr_shodan r)"
    "(\<lambda>h. (''shodan-host'', host_ip h)) ` set (cr_shodan r) = of_kind ''shodan-host'' r" by simp_all
qed

lemma accepted_takeover:
  assumes "new_completed r = Inr r'"
  shows "canonical_takeover_outcomes (cr_takeover r) = Inr (cr_takeover r)"
    "(\<lambda>c. (''takeover'', cand_hostname c)) ` set (cr_takeover r) = of_kind ''takeover'' r"
proof -
  from assms have "check_takeover r = Inr ()" unfolding new_completed_Inr by blast
  then obtain canonical where "canonical_takeover_outcomes (cr_takeover r) = Inr canonical" "cr_takeover r = canonical"
    "(\<lambda>c. (''takeover'', cand_hostname c)) ` set (cr_takeover r) = of_kind ''takeover'' r"
    unfolding check_takeover_def bindR_Inr_iff [of "canonical_takeover_outcomes (cr_takeover r)"] raise_first_Inr [of _ "bindR a b" for a b]
      bindR_Inr_iff [of "if a then b else c" for a b c] raise_first_Inr by auto
  then show "canonical_takeover_outcomes (cr_takeover r) = Inr (cr_takeover r)"
    "(\<lambda>c. (''takeover'', cand_hostname c)) ` set (cr_takeover r) = of_kind ''takeover'' r" by simp_all
qed

lemma accepted_attributions:
  assumes "new_completed r = Inr r'"
  shows "cr_asns r = canonical_asn_attributions (cr_asns r)"
    "a \<in> set (cr_asns r) \<Longrightarrow> (''asn'', att_asn a) \<in> set (cr_results r) \<and> (att_subject_kind a, att_subject a) \<in> set (cr_results r)
       \<and> (att_producer a, ''asn'', att_asn a) \<in> set (if att_producer_kind a = ''source'' then sourced_results r else acted r)"
proof -
  from assms have "check_attributions r = Inr ()" unfolding new_completed_Inr by blast
  then have c: "cr_asns r = canonical_asn_attributions (cr_asns r)" "\<forall>a\<in>set (cr_asns r). is_ok (attribution_check r a)"
    unfolding check_attributions_def raise_first_Inr mapR_unit_Inr by auto
  then show "cr_asns r = canonical_asn_attributions (cr_asns r)" by simp
  show "a \<in> set (cr_asns r) \<Longrightarrow> (''asn'', att_asn a) \<in> set (cr_results r) \<and> (att_subject_kind a, att_subject a) \<in> set (cr_results r)
       \<and> (att_producer a, ''asn'', att_asn a) \<in> set (if att_producer_kind a = ''source'' then sourced_results r else acted r)"
    using c(2) unfolding attribution_check_def Let_def raise_first_ok by auto
qed

end
