(* ===== verification/Result_Store.thy ===== *)
theory Result_Store
  imports Completed_Result
begin

text \<open>
  The store of completed results (\<open>ResultStore\<close> in lib/database.py): the rows of its tables, saving a run and
  loading it again. Times are stored as ISO texts; a column of JSON text holds its JSON value, whose text the
  standard library writes and reads. The tables are lists of rows in the order of insertion.
\<close>

section \<open>Tables\<close>

record run_row =
  run_id :: string
  run_target :: string
  run_started :: string
  run_completed :: string
  run_evidence_status :: "string option"

record result_row =
  res_run :: string
  res_position :: nat
  res_kind :: string
  res_value :: string
  res_details :: "json option"

record execution_row =
  exr_run :: string
  exr_position :: nat
  exr_producer :: string
  exr_name :: string
  exr_status :: string
  exr_duration :: rat
  exr_count :: int
  exr_error :: "string option"
  exr_stop :: "string option"

record origin_row =
  org_run :: string
  org_result :: nat
  org_execution :: nat

record attribution_row =
  atr_run :: string
  atr_position :: nat
  atr_asn :: nat
  atr_subject :: nat
  atr_execution :: nat
  atr_label :: string
  atr_collected :: string

record artifact_row =
  afr_run :: string
  afr_position :: nat
  afr_result :: nat
  afr_execution :: nat
  afr_kind :: string
  afr_path :: string
  afr_media_type :: string
  afr_size :: int
  afr_sha256 :: string
  afr_created :: string

record result_store =
  st_runs :: "run_row list"
  st_results :: "result_row list"
  st_executions :: "execution_row list"
  st_origins :: "origin_row list"
  st_attributions :: "attribution_row list"
  st_artifacts :: "artifact_row list"

section \<open>Saving a run\<close>

definition row_details :: "completed \<Rightarrow> string \<times> string \<Rightarrow> json option res" where
  "row_details r kv =
     (let kind = fst kv; v = snd kv; vhosts = filter (\<lambda>x. vo_hostname x = v) (cr_vhosts r); network = of_prefix v (cr_network r)
      in if kind = ''hostname'' \<and> vhosts \<noteq> [] then Inr (Some (JList (virtual_host_details vhosts)))
         else if kind = ''prefix'' \<and> network \<noteq> [] then bindR (network_observation_details network) (\<lambda>ds. Inr (Some (JList ds)))
         else if kind = ''shodan-host'' then
           Inr (map_option host_to_details (find (\<lambda>h. host_ip h = v) (rev (cr_shodan r))))
         else if kind = ''takeover'' then
           Inr (map_option candidate_to_details (find (\<lambda>c. cand_hostname c = v) (rev (cr_takeover r))))
         else Inr None)"

definition result_rows :: "completed \<Rightarrow> result_row list res" where
  "result_rows r =
     mapR (\<lambda>(n, kv). bindR (row_details r kv) (\<lambda>details.
       Inr \<lparr>res_run = cr_run_id r, res_position = n, res_kind = fst kv, res_value = snd kv, res_details = details\<rparr>))
       (enumerate 0 (cr_results r))"

definition producers :: "completed \<Rightarrow> (string \<times> string) list" where
  "producers r = map (\<lambda>x. (''source'', sx_source x)) (cr_sources r) @ map (\<lambda>e. (''action'', exe_action e)) (cr_actions r)"

definition source_row :: "string \<Rightarrow> nat \<Rightarrow> source_execution \<Rightarrow> execution_row" where
  "source_row run n x =
     \<lparr>exr_run = run, exr_position = n, exr_producer = ''source'', exr_name = sx_source x, exr_status = sx_status x,
      exr_duration = sx_duration x, exr_count = sx_count x, exr_error = sx_error x, exr_stop = sx_stop x\<rparr>"

definition action_row :: "string \<Rightarrow> nat \<Rightarrow> execution \<Rightarrow> execution_row" where
  "action_row run n e =
     \<lparr>exr_run = run, exr_position = n, exr_producer = ''action'', exr_name = exe_action e, exr_status = exe_status e,
      exr_duration = exe_duration e, exr_count = int (length (exe_observations e)), exr_error = exe_error e, exr_stop = exe_stop e\<rparr>"

definition execution_rows :: "completed \<Rightarrow> execution_row list" where
  "execution_rows r =
     map (\<lambda>(n, x). source_row (cr_run_id r) n x) (enumerate 0 (cr_sources r))
     @ map (\<lambda>(n, e). action_row (cr_run_id r) n e) (enumerate (length (cr_sources r)) (cr_actions r))"

text \<open>The dictionary from an item to its position; a later item overwrites an earlier one.\<close>

definition position_of :: "'a list \<Rightarrow> 'a \<Rightarrow> nat res" where
  "position_of xs x =
     (case map_of (rev (map (\<lambda>(n, y). (y, n)) (enumerate 0 xs))) x of None \<Rightarrow> Inl KeyError | Some n \<Rightarrow> Inr n)"

definition origin_keys :: "completed \<Rightarrow> ((string \<times> string) \<times> string \<times> string) list" where
  "origin_keys r =
     map (\<lambda>o1. ((''source'', ro_source o1), (ro_kind o1, ro_value o1))) (cr_observations r)
     @ map (\<lambda>(action, o1). ((''action'', action), (ao_kind o1, ao_value o1))) (active_observations (cr_actions r))"

definition origin_rows :: "completed \<Rightarrow> origin_row list res" where
  "origin_rows r =
     mapR (\<lambda>(producer, kv).
       bindR (position_of (cr_results r) kv) (\<lambda>n.
       bindR (position_of (producers r) producer) (\<lambda>m. Inr \<lparr>org_run = cr_run_id r, org_result = n, org_execution = m\<rparr>))) (origin_keys r)"

definition artifact_rows :: "completed \<Rightarrow> artifact_row list res" where
  "artifact_rows r =
     mapR (\<lambda>(n, action, a).
       bindR (position_of (cr_results r) (art_subject_kind a, art_subject a)) (\<lambda>k.
       bindR (position_of (producers r) (''action'', action)) (\<lambda>m.
         Inr \<lparr>afr_run = cr_run_id r, afr_position = n, afr_result = k, afr_execution = m, afr_kind = art_kind a, afr_path = art_path a,
              afr_media_type = art_media_type a, afr_size = art_size a, afr_sha256 = art_sha256 a,
              afr_created = isoformat (art_created a)\<rparr>))) (enumerate 0 (active_artifacts (cr_actions r)))"

definition attribution_rows :: "completed \<Rightarrow> attribution_row list res" where
  "attribution_rows r =
     mapR (\<lambda>(n, a).
       bindR (position_of (cr_results r) (''asn'', att_asn a)) (\<lambda>k.
       bindR (position_of (cr_results r) (att_subject_kind a, att_subject a)) (\<lambda>s.
       bindR (position_of (producers r) (att_producer_kind a, att_producer a)) (\<lambda>m.
         Inr \<lparr>atr_run = cr_run_id r, atr_position = n, atr_asn = k, atr_subject = s, atr_execution = m, atr_label = att_label a,
              atr_collected = isoformat (att_time a)\<rparr>)))) (enumerate 0 (cr_asns r))"

definition run_row_of :: "completed \<Rightarrow> run_row" where
  "run_row_of r = \<lparr>run_id = cr_run_id r, run_target = cr_target r, run_started = isoformat (cr_started r),
     run_completed = isoformat (cr_completed r), run_evidence_status = cr_evidence_status r\<rparr>"

definition already_exists :: "completed \<Rightarrow> err" where
  "already_exists r = DuplicateRunError (''Enumeration run already exists: '' @ cr_run_id r)"

text \<open>An \<open>IntegrityError\<close>: a primary key or unique constraint, or another constraint (the checks of the
  artifacts); the transaction is rolled back.\<close>

definition insert_error :: "completed \<Rightarrow> bool \<Rightarrow> bool \<Rightarrow> 'a res \<Rightarrow> 'a res" where
  "insert_error r duplicate invalid k =
     (if duplicate then Inl (already_exists r)
      else if invalid then Inl (ResultStoreError ''Could not save enumeration run'') else k)"

definition save_run :: "result_store \<Rightarrow> completed \<Rightarrow> result_store res" where
  "save_run db r =
     insert_error r (cr_run_id r \<in> set (map run_id (st_runs db))) False
     (bindR (result_rows r) (\<lambda>results.
       (let executions = execution_rows r
        in insert_error r
             (\<not> distinct (map (\<lambda>x. (res_kind x, res_value x)) results) \<or> \<not> distinct (map (\<lambda>x. (exr_producer x, exr_name x)) executions)) False
           (bindR (origin_rows r) (\<lambda>origins.
            bindR (artifact_rows r) (\<lambda>artifacts.
            bindR (attribution_rows r) (\<lambda>attributions.
              insert_error r (\<not> distinct origins) (list_ex (\<lambda>a. afr_size a < 0 \<or> \<not> is_digest (afr_sha256 a)) artifacts)
              (Inr \<lparr>st_runs = st_runs db @ [run_row_of r], st_results = st_results db @ results, st_executions = st_executions db @ executions,
                    st_origins = st_origins db @ origins, st_attributions = st_attributions db @ attributions,
                    st_artifacts = st_artifacts db @ artifacts\<rparr>))))))))"

section \<open>Loading a run\<close>

datatype loaded_evidence =
    No_evidence
  | Loaded_vhosts "vhost_observation list"
  | Loaded_network "network_observation list"
  | Loaded_shodan shodan_host
  | Loaded_takeover candidate_outcome

text \<open>\<open>except ValueError as error: raise ResultStoreError(message)\<close>\<close>

definition invalid_as :: "string \<Rightarrow> 'a res \<Rightarrow> 'a res" where
  "invalid_as message m = (case m of Inl (ValueError e) \<Rightarrow> Inl (ResultStoreError message) | _ \<Rightarrow> m)"

definition load_vhosts :: "string \<Rightarrow> string \<Rightarrow> json option \<Rightarrow> loaded_evidence res" where
  "load_vhosts kind v details =
     (case details of
        None \<Rightarrow> Inl (ResultStoreError (''Persisted virtual-host details are missing: '' @ v))
      | Some d \<Rightarrow>
          if kind \<noteq> ''hostname'' then Inl (ResultStoreError (''Persisted virtual-host details are missing: '' @ v))
          else bindR (invalid_as (''Persisted virtual-host details are invalid: '' @ v) (parse_virtual_host_details v d)) (\<lambda>parsed.
            if \<not> json_eq d (JList (virtual_host_details parsed))
            then Inl (ResultStoreError (''Persisted virtual-host details are not canonical: '' @ v)) else Inr (Loaded_vhosts parsed)))"

definition load_shodan :: "string \<Rightarrow> json option \<Rightarrow> loaded_evidence res" where
  "load_shodan v details =
     (case details of
        None \<Rightarrow> Inl (ResultStoreError (''Persisted Shodan host details are missing: '' @ v))
      | Some d \<Rightarrow>
          bindR (invalid_as (''Persisted Shodan host details are invalid: '' @ v) (host_from_record v d)) (\<lambda>h.
            if \<not> json_eq (host_to_details h) d
            then Inl (ResultStoreError (''Persisted Shodan host details are not canonical: '' @ v)) else Inr (Loaded_shodan h)))"

definition load_takeover :: "string \<Rightarrow> json option \<Rightarrow> loaded_evidence res" where
  "load_takeover v details =
     (case details of
        None \<Rightarrow> Inl (ResultStoreError (''Persisted takeover details are missing: '' @ v))
      | Some d \<Rightarrow>
          bindR (invalid_as (''Persisted takeover details are invalid: '' @ v) (parse_takeover_details v d)) (\<lambda>c.
            if \<not> json_eq (candidate_to_details c) d
            then Inl (ResultStoreError (''Persisted takeover details are not canonical: '' @ v)) else Inr (Loaded_takeover c)))"

text \<open>The details of one result row; \<open>provenance\<close> holds the positions of the results of the vhost action.\<close>

definition load_details :: "nat set \<Rightarrow> result_row \<Rightarrow> loaded_evidence res" where
  "load_details provenance row =
     (if res_position row \<in> provenance then load_vhosts (res_kind row) (res_value row) (res_details row)
      else if res_kind row = ''shodan-host'' then load_shodan (res_value row) (res_details row)
      else if res_kind row = ''takeover'' then load_takeover (res_value row) (res_details row)
      else (case res_details row of
              None \<Rightarrow> Inr No_evidence
            | Some d \<Rightarrow>
                if res_kind row = ''prefix'' then
                  bindR (invalid_as (''Persisted network details are invalid: '' @ res_value row)
                          (parse_network_observation_details (res_value row) d)) (\<lambda>os. Inr (Loaded_network os))
                else if res_kind row = ''hostname'' then
                  Inl (ResultStoreError ''Persisted virtual-host details require hostname results with vhost provenance'')
                else Inl (ResultStoreError ''Persisted structured details require a supported result kind and provenance'')))"

fun vhosts_of :: "loaded_evidence \<Rightarrow> vhost_observation list" where
  "vhosts_of (Loaded_vhosts vs) = vs" | "vhosts_of e = []"

fun networks_of :: "loaded_evidence \<Rightarrow> network_observation list" where
  "networks_of (Loaded_network os) = os" | "networks_of e = []"

fun shodan_of :: "loaded_evidence \<Rightarrow> shodan_host list" where
  "shodan_of (Loaded_shodan h) = [h]" | "shodan_of e = []"

fun takeover_of :: "loaded_evidence \<Rightarrow> candidate_outcome list" where
  "takeover_of (Loaded_takeover c) = [c]" | "takeover_of e = []"

text \<open>\<open>{row.position: row}\<close>, looked up with brackets or with \<open>get\<close>\<close>

definition row_at :: "('r \<Rightarrow> nat) \<Rightarrow> 'r list \<Rightarrow> nat \<Rightarrow> 'r option" where
  "row_at position rows n = map_of (rev (map (\<lambda>row. (position row, row)) rows)) n"

definition need_row :: "('r \<Rightarrow> nat) \<Rightarrow> 'r list \<Rightarrow> nat \<Rightarrow> 'r res" where
  "need_row position rows n = (case row_at position rows n of None \<Rightarrow> Inl KeyError | Some row \<Rightarrow> Inr row)"

datatype loaded_origin = Of_source result_observation | Of_action nat action_observation

definition load_origin :: "result_row list \<Rightarrow> execution_row list \<Rightarrow> origin_row \<Rightarrow> loaded_origin res" where
  "load_origin results executions origin =
     bindR (need_row exr_position executions (org_execution origin)) (\<lambda>execution.
     bindR (need_row res_position results (org_result origin)) (\<lambda>stored.
       if exr_producer execution = ''source''
       then bindR (new_result_observation (exr_name execution) (res_kind stored) (JStr (res_value stored))) (\<lambda>o1. Inr (Of_source o1))
       else bindR (new_action_observation (res_kind stored) (JStr (res_value stored))) (\<lambda>o1. Inr (Of_action (exr_position execution) o1))))"

fun source_origin :: "loaded_origin \<Rightarrow> result_observation option" where
  "source_origin (Of_source o1) = Some o1" | "source_origin (Of_action n o1) = None"

fun action_origin :: "nat \<Rightarrow> loaded_origin \<Rightarrow> action_observation option" where
  "action_origin m (Of_action n o1) = (if n = m then Some o1 else None)" | "action_origin m (Of_source o1) = None"

definition iso_time :: "string \<Rightarrow> int res" where
  "iso_time s = (case parse_utc s of None \<Rightarrow> Inl (ValueError ''Invalid isoformat string'') | Some t \<Rightarrow> Inr t)"

definition load_artifact :: "result_row list \<Rightarrow> execution_row list \<Rightarrow> artifact_row \<Rightarrow> (nat \<times> artifact) res" where
  "load_artifact results executions row =
     bindR (need_row exr_position executions (afr_execution row)) (\<lambda>execution.
       if exr_producer execution \<noteq> ''action'' then Inl (ResultStoreError ''Persisted artifact must reference an action execution'')
       else bindR (need_row res_position results (afr_result row)) (\<lambda>subject.
            bindR (iso_time (afr_created row)) (\<lambda>created.
            bindR (new_artifact \<lparr>art_kind = afr_kind row, art_subject_kind = res_kind subject, art_subject = res_value subject,
                art_path = afr_path row, art_media_type = afr_media_type row, art_size = afr_size row, art_sha256 = afr_sha256 row,
                art_created = created\<rparr>) (\<lambda>a. Inr (exr_position execution, a)))))"

definition load_action :: "loaded_origin list \<Rightarrow> (nat \<times> artifact) list \<Rightarrow> execution_row \<Rightarrow> execution res" where
  "load_action origins artifacts row =
     (let os = sort_key action_observation_key (List.map_filter (action_origin (exr_position row)) origins)
      in if exr_count row \<noteq> int (length os)
         then Inl (ResultStoreError (''Persisted action result count does not match origins: '' @ exr_name row))
         else new_execution
           \<lparr>exe_action = exr_name row, exe_status = exr_status row, exe_duration = exr_duration row, exe_observations = os,
            exe_artifacts = sort_key artifact_key (map snd (filter (\<lambda>(n, _). n = exr_position row) artifacts)),
            exe_error = exr_error row, exe_stop = exr_stop row\<rparr>)"

definition load_source :: "execution_row \<Rightarrow> source_execution res" where
  "load_source row =
     new_source_execution
       \<lparr>sx_source = exr_name row, sx_status = exr_status row, sx_duration = exr_duration row, sx_count = exr_count row,
        sx_error = exr_error row, sx_stop = exr_stop row\<rparr>"

definition load_attribution :: "result_row list \<Rightarrow> execution_row list \<Rightarrow> attribution_row \<Rightarrow> attribution res" where
  "load_attribution results executions row =
     (case (row_at res_position results (atr_asn row), row_at res_position results (atr_subject row),
            row_at exr_position executions (atr_execution row)) of
        (Some asn, Some subject, Some execution) \<Rightarrow>
          if res_kind asn \<noteq> ''asn'' \<or> exr_producer execution \<notin> {''source'', ''action''} \<or> res_kind subject \<notin> {''hostname'', ''ip''}
          then Inl (ResultStoreError ''Persisted ASN attribution is invalid'')
          else invalid_as ''Persisted ASN attribution is invalid''
            (bindR (iso_time (atr_collected row)) (\<lambda>collected.
              new_attribution (exr_producer execution) (exr_name execution) (JStr (res_value asn)) (atr_label row) (res_kind subject)
                (res_value subject) collected))
      | _ \<Rightarrow> Inl (ResultStoreError ''Persisted ASN attribution references missing evidence''))"

definition vhost_positions :: "execution_row list \<Rightarrow> origin_row list \<Rightarrow> nat set" where
  "vhost_positions executions origins =
     (let vhost = filter (\<lambda>row. exr_producer row = ''action'' \<and> exr_name row = ''vhost'') executions
      in set (map org_result (filter (\<lambda>o1. org_execution o1 \<in> set (map exr_position vhost)) origins)))"

definition unknown_producers :: "execution_row list \<Rightarrow> string list" where
  "unknown_producers executions = canon (filter (\<lambda>k. k \<notin> {''source'', ''action''}) (map exr_producer executions))"

text \<open>The rows of one run, in the order of the queries\<close>

definition load_rows ::
  "run_row \<Rightarrow> result_row list \<Rightarrow> execution_row list \<Rightarrow> origin_row list \<Rightarrow> artifact_row list \<Rightarrow> attribution_row list \<Rightarrow> completed res" where
  "load_rows parent results executions origins artifacts attributions =
     bindR (mapR (load_details (vhost_positions executions origins)) results) (\<lambda>evidence.
     if unknown_producers executions \<noteq> []
     then Inl (ResultStoreError (''Unknown persisted producer kind: '' @ hd (unknown_producers executions)))
     else
     bindR (mapR (load_origin results executions) origins) (\<lambda>loaded_origins.
     bindR (mapR (load_artifact results executions) artifacts) (\<lambda>loaded_artifacts.
     bindR (mapR (load_action loaded_origins loaded_artifacts) (filter (\<lambda>row. exr_producer row = ''action'') executions)) (\<lambda>actions.
     bindR (mapR (load_attribution results executions) attributions) (\<lambda>asns.
     if asns \<noteq> canonical_asn_attributions asns then Inl (ResultStoreError ''Persisted ASN attribution is invalid'')
     else
     bindR (iso_time (run_started parent)) (\<lambda>started.
     bindR (iso_time (run_completed parent)) (\<lambda>finished.
     bindR (mapR load_source (filter (\<lambda>row. exr_producer row = ''source'') executions)) (\<lambda>sources.
     bindR (new_active_evidence actions) (\<lambda>active.
     bindR (canonical_shodan_hosts (concat (map shodan_of evidence))) (\<lambda>shodan.
     bindR (canonical_takeover_outcomes (concat (map takeover_of evidence))) (\<lambda>takeover.
     new_completed
       \<lparr>cr_run_id = run_id parent, cr_target = run_target parent, cr_started = started, cr_completed = finished,
        cr_results = map (\<lambda>row. (res_kind row, res_value row)) results, cr_sources = sources,
        cr_observations = sort_key result_observation_key (List.map_filter source_origin loaded_origins), cr_actions = active,
        cr_vhosts = canon_by vhost_key (concat (map vhosts_of evidence)),
        cr_network = canon_by network_sort_key (concat (map networks_of evidence)), cr_asns = asns, cr_shodan = shodan,
        cr_takeover = takeover, cr_evidence_status = run_evidence_status parent\<rparr>)))))))))))"

definition load_run :: "result_store \<Rightarrow> string \<Rightarrow> completed res" where
  "load_run db run =
     (case find (\<lambda>row. run_id row = run) (st_runs db) of
        None \<Rightarrow> Inl (LookupError (''completed result not found: '' @ run))
      | Some parent \<Rightarrow>
          load_rows parent
            (sort_key res_position (filter (\<lambda>row. res_run row = run) (st_results db)))
            (sort_key exr_position (filter (\<lambda>row. exr_run row = run) (st_executions db)))
            (filter (\<lambda>row. org_run row = run) (st_origins db))
            (sort_key afr_position (filter (\<lambda>row. afr_run row = run) (st_artifacts db)))
            (sort_key atr_position (filter (\<lambda>row. atr_run row = run) (st_attributions db))))"


section \<open>Positions\<close>

lemma mapR_map: "(\<And>x. x \<in> set xs \<Longrightarrow> f x = Inr (g x)) \<Longrightarrow> mapR f xs = Inr (map g xs)"
  by (induction xs) auto

lemma mapR_nth: "mapR f xs = Inr ys \<Longrightarrow> n < length xs \<Longrightarrow> f (xs ! n) = Inr (ys ! n)"
proof (induction xs arbitrary: ys n)
  case (Cons x xs)
  then obtain y zs where "f x = Inr y" "mapR f xs = Inr zs" "ys = y # zs" by (auto simp: bindR_Inr_iff)
  with Cons show ?case by (cases n) auto
qed simp

lemma map_of_last: "distinct (map fst ps) \<Longrightarrow> map_of (rev ps) = map_of ps"
  by (rule map_of_eqI) (auto intro: map_of_is_SomeI dest: map_of_SomeD simp: rev_map [symmetric])

definition place :: "'a list \<Rightarrow> 'a \<Rightarrow> nat" where
  "place xs x = (case position_of xs x of Inl e \<Rightarrow> 0 | Inr n \<Rightarrow> n)"

lemma position_of_nth: "distinct xs \<Longrightarrow> n < length xs \<Longrightarrow> position_of xs (xs ! n) = Inr n"
proof -
  assume d: "distinct xs" and n: "n < length xs"
  let ?ps = "map (\<lambda>(k, y). (y, k)) (enumerate 0 xs)"
  have "map fst ?ps = xs" by (rule nth_equalityI) (simp_all add: nth_enumerate_eq)
  with d have dp: "distinct (map fst ?ps)" by simp
  have "?ps ! n = (xs ! n, n)" "n < length ?ps" using n by (simp_all add: nth_enumerate_eq)
  then have "(xs ! n, n) \<in> set ?ps" by (metis nth_mem)
  with dp have "map_of ?ps (xs ! n) = Some n" by simp
  then show ?thesis by (simp add: position_of_def map_of_last [OF dp])
qed

lemma place_in:
  assumes "distinct xs" "x \<in> set xs"
  shows "position_of xs x = Inr (place xs x)" "place xs x < length xs" "xs ! place xs x = x"
proof -
  from assms(2) obtain n where n: "n < length xs" "xs ! n = x" by (meson in_set_conv_nth)
  then have "position_of xs x = Inr n" using position_of_nth [OF assms(1) n(1)] by simp
  then show "position_of xs x = Inr (place xs x)" "place xs x < length xs" "xs ! place xs x = x" using n by (simp_all add: place_def)
qed

lemma place_nth: "distinct xs \<Longrightarrow> n < length xs \<Longrightarrow> place xs (xs ! n) = n"
  by (simp add: place_def position_of_nth)

definition placed :: "('r \<Rightarrow> nat) \<Rightarrow> 'r list \<Rightarrow> bool" where
  "placed position rows = (\<forall>n<length rows. position (rows ! n) = n)"

lemma row_at_nth: "placed position rows \<Longrightarrow> n < length rows \<Longrightarrow> row_at position rows n = Some (rows ! n)"
proof -
  assume p: "placed position rows" and n: "n < length rows"
  let ?ps = "map (\<lambda>row. (position row, row)) rows"
  have "map fst ?ps = [0..<length rows]" using p by (intro nth_equalityI) (simp_all add: placed_def)
  then have dp: "distinct (map fst ?ps)" by simp
  have "(n, rows ! n) \<in> set ?ps" using p n unfolding placed_def by (metis (mono_tags, lifting) image_eqI list.set_map nth_mem)
  with dp have "map_of ?ps n = Some (rows ! n)" by simp
  then show ?thesis by (simp add: row_at_def map_of_last [OF dp])
qed

lemma placed_sorted: "placed position rows \<Longrightarrow> sort_key position rows = rows"
proof -
  assume "placed position rows"
  then have "map position rows = [0..<length rows]" by (intro nth_equalityI) (simp_all add: placed_def)
  then have "sorted (map position rows)" by simp
  then show ?thesis by (rule sort_key_id_if_sorted)
qed

section \<open>The rows of a result\<close>

lemma result_rows_nth:
  assumes "result_rows r = Inr rows" "n < length (cr_results r)"
  shows "\<exists>details. row_details r (cr_results r ! n) = Inr details
    \<and> rows ! n = \<lparr>res_run = cr_run_id r, res_position = n, res_kind = fst (cr_results r ! n), res_value = snd (cr_results r ! n), res_details = details\<rparr>"
proof -
  have "n < length (enumerate 0 (cr_results r))" using assms(2) by simp
  from mapR_nth [OF assms(1) [unfolded result_rows_def] this] show ?thesis
    using assms(2) by (auto simp: nth_enumerate_eq bindR_Inr_iff simp del: result_row.equality)
qed

lemma result_rows_parts:
  assumes "result_rows r = Inr rows" "n < length (cr_results r)"
  shows "res_run (rows ! n) = cr_run_id r" "res_position (rows ! n) = n" "(res_kind (rows ! n), res_value (rows ! n)) = cr_results r ! n"
    "row_details r (cr_results r ! n) = Inr (res_details (rows ! n))"
  using result_rows_nth [OF assms] by auto

lemma result_rows_length: "result_rows r = Inr rows \<Longrightarrow> length rows = length (cr_results r)"
  unfolding result_rows_def by (drule mapR_Inr_length) simp

lemma result_rows_placed: "result_rows r = Inr rows \<Longrightarrow> placed res_position rows"
  by (simp add: placed_def result_rows_length result_rows_parts)

lemma result_rows_results: "result_rows r = Inr rows \<Longrightarrow> map (\<lambda>row. (res_kind row, res_value row)) rows = cr_results r"
  by (rule nth_equalityI) (simp_all add: result_rows_length result_rows_parts)

lemma execution_rows_nth:
  "n < length (cr_sources r) \<Longrightarrow> execution_rows r ! n = source_row (cr_run_id r) n (cr_sources r ! n)"
  "n < length (cr_actions r) \<Longrightarrow> execution_rows r ! (length (cr_sources r) + n) = action_row (cr_run_id r) (length (cr_sources r) + n) (cr_actions r ! n)"
  by (simp_all add: execution_rows_def nth_append nth_enumerate_eq)

lemma execution_rows_length: "length (execution_rows r) = length (cr_sources r) + length (cr_actions r)"
  by (simp add: execution_rows_def)

lemma execution_rows_parts:
  assumes "n < length (execution_rows r)"
  shows "exr_run (execution_rows r ! n) = cr_run_id r \<and> exr_position (execution_rows r ! n) = n
    \<and> (exr_producer (execution_rows r ! n), exr_name (execution_rows r ! n)) = producers r ! n"
proof (cases "n < length (cr_sources r)")
  case True
  then show ?thesis by (simp add: execution_rows_nth source_row_def producers_def nth_append)
next
  case False
  define m where "m = n - length (cr_sources r)"
  then have m: "n = length (cr_sources r) + m" "m < length (cr_actions r)" using False assms by (simp_all add: execution_rows_length)
  show ?thesis unfolding m(1) using m(2) by (simp add: execution_rows_nth action_row_def producers_def nth_append)
qed

lemma execution_rows_placed: "placed exr_position (execution_rows r)"
  by (simp add: placed_def execution_rows_parts)

lemma length_producers: "length (producers r) = length (execution_rows r)"
  by (simp add: producers_def execution_rows_length)

lemma distinct_producers: "distinct (map sx_source (cr_sources r)) \<Longrightarrow> distinct (map exe_action (cr_actions r)) \<Longrightarrow> distinct (producers r)"
  by (auto simp: producers_def distinct_map inj_on_def)

end
