(* ===== verification/Result_Round_Trip.thy ===== *)
theory Result_Round_Trip
  imports Result_Store
begin

text \<open>
  Saving a completed result and loading it again (lib/database.py): a stored result is loaded exactly as it was
  saved, the other runs of the store are untouched, and a run id is stored at most once.
\<close>

section \<open>Results that can be stored\<close>

lemma new_execution_sorted: "new_execution e = Inr e' \<Longrightarrow>
    exe_observations e = canon_by action_observation_key (exe_observations e) \<and> exe_artifacts e = canon_by artifact_key (exe_artifacts e)"
  unfolding new_execution_def raise_first_Inr by auto

text \<open>A result that its constructor accepts, whose parts come from their own constructors, whose evidence is read
  back, and whose network details stay within the size limits of the details\<close>

definition storable_result :: "completed \<Rightarrow> bool" where
  "storable_result r = (new_completed r = Inr r \<and> parts_ok r \<and> readable_result r \<and> is_ok (result_rows r))"

lemma producers_distinct: "storable_result r \<Longrightarrow> distinct (producers r)"
proof (rule distinct_producers)
  assume r: "storable_result r"
  then show "distinct (map sx_source (cr_sources r))" using accepted_provenance(3) unfolding storable_result_def by blast
  show "distinct (map exe_action (cr_actions r))"
    using r by (simp add: storable_result_def parts_ok_def new_active_evidence_def split: if_splits)
qed

lemma in_producers: "x \<in> set (cr_sources r) \<Longrightarrow> (''source'', sx_source x) \<in> set (producers r)"
  "e \<in> set (cr_actions r) \<Longrightarrow> (''action'', exe_action e) \<in> set (producers r)"
  by (simp_all add: producers_def)

lemma acted_producer: "(action, o1) \<in> set (active_observations es) \<Longrightarrow> \<exists>e\<in>set es. action = exe_action e \<and> o1 \<in> set (exe_observations e)"
  "(action, a) \<in> set (active_artifacts es) \<Longrightarrow> \<exists>e\<in>set es. action = exe_action e \<and> a \<in> set (exe_artifacts e)"
  by (auto simp: active_observations_def active_artifacts_def)

lemma active_observations_Cons: "active_observations (e # es) = map (\<lambda>o1. (exe_action e, o1)) (exe_observations e) @ active_observations es"
  by (simp add: active_observations_def)

lemma origin_key_known:
  assumes "storable_result r" "(producer, kv) \<in> set (origin_keys r)"
  shows "producer \<in> set (producers r)" "kv \<in> set (cr_results r)"
proof -
  have acc: "new_completed r = Inr r" using assms(1) by (simp add: storable_result_def)
  from assms(2) consider o1 where "o1 \<in> set (cr_observations r)" "producer = (''source'', ro_source o1)" "kv = (ro_kind o1, ro_value o1)"
    | action o1 where "(action, o1) \<in> set (active_observations (cr_actions r))" "producer = (''action'', action)" "kv = (ao_kind o1, ao_value o1)"
    by (auto simp: origin_keys_def)
  then have "producer \<in> set (producers r) \<and> kv \<in> set (cr_results r)"
  proof cases
    case 1
    then show ?thesis using accepted_provenance(2,4) [OF acc] by (fastforce simp: observed_def dest: in_producers(1))
  next
    case 2
    then show ?thesis using accepted_provenance(6) [OF acc] acted_producer(1) [OF 2(1)] by (fastforce dest: in_producers(2))
  qed
  then show "producer \<in> set (producers r)" "kv \<in> set (cr_results r)" by simp_all
qed

lemma artifact_known:
  assumes "storable_result r" "(action, a) \<in> set (active_artifacts (cr_actions r))"
  shows "(''action'', action) \<in> set (producers r)" "(art_subject_kind a, art_subject a) \<in> set (cr_results r)" "new_artifact a = Inr a"
proof -
  have acc: "new_completed r = Inr r" and p: "parts_ok r" using assms(1) by (simp_all add: storable_result_def)
  from acted_producer(2) [OF assms(2)] obtain e where e: "e \<in> set (cr_actions r)" "action = exe_action e" "a \<in> set (exe_artifacts e)" by blast
  then show "(''action'', action) \<in> set (producers r)" by (simp add: in_producers(2))
  show "(art_subject_kind a, art_subject a) \<in> set (cr_results r)" using accepted_provenance(7) [OF acc] assms(2) by blast
  show "new_artifact a = Inr a" using p e by (auto simp: parts_ok_def execution_ok_def list_all_iff)
qed

lemma attribution_known:
  assumes "storable_result r" "a \<in> set (cr_asns r)"
  shows "(''asn'', att_asn a) \<in> set (cr_results r)" "(att_subject_kind a, att_subject a) \<in> set (cr_results r)"
    "(att_producer_kind a, att_producer a) \<in> set (producers r)" "attribution_ok a" "valid_time (att_time a)"
proof -
  have acc: "new_completed r = Inr r" and p: "parts_ok r" and read: "readable_result r" using assms(1) by (simp_all add: storable_result_def)
  show ok: "attribution_ok a" using p assms(2) by (simp add: parts_ok_def list_all_iff)
  show "valid_time (att_time a)" using read assms(2) by (simp add: readable_result_def list_all_iff)
  show "(''asn'', att_asn a) \<in> set (cr_results r)" "(att_subject_kind a, att_subject a) \<in> set (cr_results r)"
    using accepted_attributions(2) [OF acc assms(2)] by simp_all
  have known: "(att_producer a, ''asn'', att_asn a) \<in> set (if att_producer_kind a = ''source'' then sourced_results r else acted r)"
    using accepted_attributions(2) [OF acc assms(2)] by simp
  have "att_producer_kind a \<in> {''source'', ''action''}" using attribution_ok_facts [OF ok] by simp
  then show "(att_producer_kind a, att_producer a) \<in> set (producers r)"
  proof
    assume kind: "att_producer_kind a = ''source''"
    with known have "att_producer a \<in> ro_source ` set (cr_observations r)" by (auto simp: sourced_results_def)
    then show ?thesis using accepted_provenance(4) [OF acc] unfolding kind by (auto simp: producers_def)
  next
    assume "att_producer_kind a \<in> {''action''}"
    then have kind: "att_producer_kind a = ''action''" by simp
    with known have "\<exists>o1. (att_producer a, o1) \<in> set (active_observations (cr_actions r))" by (auto simp: acted_def)
    then show ?thesis using acted_producer(1) unfolding kind by (fastforce dest: in_producers(2))
  qed
qed

section \<open>The rows that are written\<close>

lemma in_enumerate: "(n, x) \<in> set (enumerate k xs) \<Longrightarrow> x \<in> set xs"
  by (auto simp: in_set_enumerate_eq)

definition origin_of :: "completed \<Rightarrow> (string \<times> string) \<times> string \<times> string \<Rightarrow> origin_row" where
  "origin_of r k = \<lparr>org_run = cr_run_id r, org_result = place (cr_results r) (snd k), org_execution = place (producers r) (fst k)\<rparr>"

lemma origin_rows_written: "storable_result r \<Longrightarrow> origin_rows r = Inr (map (origin_of r) (origin_keys r))"
  unfolding origin_rows_def
proof (rule mapR_map)
  fix k
  assume r: "storable_result r" and k: "k \<in> set (origin_keys r)"
  obtain producer kv where k2: "k = (producer, kv)" by (cases k)
  note known = origin_key_known [OF r k [unfolded k2]]
  have "distinct (cr_results r)" using r accepted_results(2) unfolding storable_result_def by blast
  then show "(case k of (producer, kv) \<Rightarrow> bindR (position_of (cr_results r) kv) (\<lambda>n.
       bindR (position_of (producers r) producer) (\<lambda>m. Inr \<lparr>org_run = cr_run_id r, org_result = n, org_execution = m\<rparr>))) = Inr (origin_of r k)"
    using place_in(1) [OF _ known(2)] place_in(1) [OF producers_distinct [OF r] known(1)] by (simp add: k2 origin_of_def)
qed

definition artifact_of :: "completed \<Rightarrow> nat \<times> string \<times> artifact \<Rightarrow> artifact_row" where
  "artifact_of r k = (case k of (n, action, a) \<Rightarrow>
     \<lparr>afr_run = cr_run_id r, afr_position = n, afr_result = place (cr_results r) (art_subject_kind a, art_subject a),
      afr_execution = place (producers r) (''action'', action), afr_kind = art_kind a, afr_path = art_path a,
      afr_media_type = art_media_type a, afr_size = art_size a, afr_sha256 = art_sha256 a, afr_created = isoformat (art_created a)\<rparr>)"

lemma artifact_rows_written:
  "storable_result r \<Longrightarrow> artifact_rows r = Inr (map (artifact_of r) (enumerate 0 (active_artifacts (cr_actions r))))"
  unfolding artifact_rows_def
proof (rule mapR_map)
  fix k
  assume r: "storable_result r" and k: "k \<in> set (enumerate 0 (active_artifacts (cr_actions r)))"
  obtain n action a where k2: "k = (n, action, a)" by (rule prod_cases3)
  have "(action, a) \<in> set (active_artifacts (cr_actions r))" using k unfolding k2 by (rule in_enumerate)
  note known = artifact_known [OF r this]
  have "distinct (cr_results r)" using r accepted_results(2) unfolding storable_result_def by blast
  then show "(case k of (n, action, a) \<Rightarrow> bindR (position_of (cr_results r) (art_subject_kind a, art_subject a)) (\<lambda>k.
       bindR (position_of (producers r) (''action'', action)) (\<lambda>m.
         Inr \<lparr>afr_run = cr_run_id r, afr_position = n, afr_result = k, afr_execution = m, afr_kind = art_kind a, afr_path = art_path a,
              afr_media_type = art_media_type a, afr_size = art_size a, afr_sha256 = art_sha256 a,
              afr_created = isoformat (art_created a)\<rparr>))) = Inr (artifact_of r k)"
    using place_in(1) [OF _ known(2)] place_in(1) [OF producers_distinct [OF r] known(1)] by (simp add: k2 artifact_of_def)
qed

definition attribution_of :: "completed \<Rightarrow> nat \<times> attribution \<Rightarrow> attribution_row" where
  "attribution_of r k = (case k of (n, a) \<Rightarrow>
     \<lparr>atr_run = cr_run_id r, atr_position = n, atr_asn = place (cr_results r) (''asn'', att_asn a),
      atr_subject = place (cr_results r) (att_subject_kind a, att_subject a),
      atr_execution = place (producers r) (att_producer_kind a, att_producer a), atr_label = att_label a,
      atr_collected = isoformat (att_time a)\<rparr>)"

lemma attribution_rows_written: "storable_result r \<Longrightarrow> attribution_rows r = Inr (map (attribution_of r) (enumerate 0 (cr_asns r)))"
  unfolding attribution_rows_def
proof (rule mapR_map)
  fix k
  assume r: "storable_result r" and k: "k \<in> set (enumerate 0 (cr_asns r))"
  obtain n a where k2: "k = (n, a)" by (cases k)
  have "a \<in> set (cr_asns r)" using k unfolding k2 by (rule in_enumerate)
  note known = attribution_known [OF r this]
  have "distinct (cr_results r)" using r accepted_results(2) unfolding storable_result_def by blast
  then show "(case k of (n, a) \<Rightarrow> bindR (position_of (cr_results r) (''asn'', att_asn a)) (\<lambda>k.
       bindR (position_of (cr_results r) (att_subject_kind a, att_subject a)) (\<lambda>s.
       bindR (position_of (producers r) (att_producer_kind a, att_producer a)) (\<lambda>m.
         Inr \<lparr>atr_run = cr_run_id r, atr_position = n, atr_asn = k, atr_subject = s, atr_execution = m, atr_label = att_label a,
              atr_collected = isoformat (att_time a)\<rparr>)))) = Inr (attribution_of r k)"
    using place_in(1) [OF _ known(1)] place_in(1) [OF _ known(2)] place_in(1) [OF producers_distinct [OF r] known(3)]
    by (simp add: k2 attribution_of_def)
qed

lemma place_inj: "distinct xs \<Longrightarrow> x \<in> set xs \<Longrightarrow> y \<in> set xs \<Longrightarrow> place xs x = place xs y \<Longrightarrow> x = y"
  by (metis place_in(3))

lemma origins_distinct:
  assumes r: "storable_result r"
  shows "distinct (map (origin_of r) (origin_keys r))"
proof -
  have acc: "new_completed r = Inr r" and p: "parts_ok r" using r by (simp_all add: storable_result_def)
  have "distinct (cr_observations r)" using accepted_provenance(1) [OF acc] by (metis distinct_canon_by)
  then have s: "distinct (map (\<lambda>o1. ((''source'', ro_source o1), (ro_kind o1, ro_value o1))) (cr_observations r))"
    by (auto simp: distinct_map inj_on_def result_observation_key_def intro!: result_observation_key_inj)
  have "distinct (active_observations es)" if "distinct (map exe_action es)" "list_all execution_ok es" for es
    using that
  proof (induction es)
    case (Cons e es)
    have "exe_observations e = canon_by action_observation_key (exe_observations e)"
      using Cons.prems(2) by (auto simp: execution_ok_def dest: new_execution_sorted)
    then have "distinct (exe_observations e)" by (metis distinct_canon_by)
    then have "distinct (map (\<lambda>o1. (exe_action e, o1)) (exe_observations e))" by (simp add: distinct_map inj_on_def)
    moreover have "distinct (active_observations es)" using Cons by simp
    moreover have "exe_action e \<notin> fst ` set (active_observations es)"
      using Cons.prems(1) by (auto dest: acted_producer(1))
    then have "set (map (\<lambda>o1. (exe_action e, o1)) (exe_observations e)) \<inter> set (active_observations es) = {}" by force
    ultimately show ?case unfolding active_observations_Cons distinct_append by blast
  qed (simp add: active_observations_def)
  moreover have "distinct (map exe_action (cr_actions r))" "list_all execution_ok (cr_actions r)"
    using p by (simp_all add: parts_ok_def new_active_evidence_def split: if_splits)
  ultimately have "distinct (active_observations (cr_actions r))" by blast
  then have a: "distinct (map (\<lambda>(action, o1). ((''action'', action), (ao_kind o1, ao_value o1))) (active_observations (cr_actions r)))"
    by (auto simp: distinct_map inj_on_def action_observation_key_def intro!: action_observation_key_inj)
  have "distinct (origin_keys r)" unfolding origin_keys_def using s a by auto
  moreover have "inj_on (origin_of r) (set (origin_keys r))"
  proof (rule inj_onI)
    fix k k'
    assume k: "k \<in> set (origin_keys r)" "k' \<in> set (origin_keys r)" and eq: "origin_of r k = origin_of r k'"
    have d: "distinct (cr_results r)" using accepted_results(2) [OF acc] .
    from k have "fst k \<in> set (producers r)" "snd k \<in> set (cr_results r)" "fst k' \<in> set (producers r)" "snd k' \<in> set (cr_results r)"
      using origin_key_known [OF r] by (metis prod.collapse)+
    then have "fst k = fst k'" "snd k = snd k'"
      using eq place_inj [OF d] place_inj [OF producers_distinct [OF r]] by (simp_all add: origin_of_def)
    then show "k = k'" by (rule prod_eqI)
  qed
  ultimately show ?thesis by (simp add: distinct_map)
qed

lemma save_run_written:
  assumes "storable_result r" "result_rows r = Inr rows" "cr_run_id r \<notin> set (map run_id (st_runs db))"
  shows "save_run db r = Inr \<lparr>st_runs = st_runs db @ [run_row_of r], st_results = st_results db @ rows,
     st_executions = st_executions db @ execution_rows r, st_origins = st_origins db @ map (origin_of r) (origin_keys r),
     st_attributions = st_attributions db @ map (attribution_of r) (enumerate 0 (cr_asns r)),
     st_artifacts = st_artifacts db @ map (artifact_of r) (enumerate 0 (active_artifacts (cr_actions r)))\<rparr>"
proof -
  have acc: "new_completed r = Inr r" using assms(1) by (simp add: storable_result_def)
  have 1: "distinct (map (\<lambda>x. (res_kind x, res_value x)) rows)" using result_rows_results [OF assms(2)] accepted_results(2) [OF acc] by simp
  have "map (\<lambda>x. (exr_producer x, exr_name x)) (execution_rows r) = producers r"
    by (rule nth_equalityI) (simp_all add: length_producers execution_rows_parts)
  then have 2: "distinct (map (\<lambda>x. (exr_producer x, exr_name x)) (execution_rows r))" using producers_distinct [OF assms(1)] by simp
  have 3: "\<not> list_ex (\<lambda>a. afr_size a < 0 \<or> \<not> is_digest (afr_sha256 a)) (map (artifact_of r) (enumerate 0 (active_artifacts (cr_actions r))))"
  proof -
    have "\<not> art_size a < 0" "is_digest (art_sha256 a)" if "(action, a) \<in> set (active_artifacts (cr_actions r))" for action a
      using artifact_known(3) [OF assms(1) that] unfolding new_artifact_def raise_first_Inr by auto
    with in_enumerate show ?thesis by (fastforce simp: list_ex_iff artifact_of_def)
  qed
  show ?thesis
    using 1 2 3 assms(2,3) origins_distinct [OF assms(1)]
    by (simp add: save_run_def insert_error_def origin_rows_written [OF assms(1)] artifact_rows_written [OF assms(1)]
        attribution_rows_written [OF assms(1)] Let_def del: set_map)
qed

section \<open>The rows that are read\<close>

definition store_ok :: "result_store \<Rightarrow> bool" where
  "store_ok db =
     (let runs = map run_id (st_runs db)
      in distinct runs \<and> set (map res_run (st_results db)) \<subseteq> set runs \<and> set (map exr_run (st_executions db)) \<subseteq> set runs
         \<and> set (map org_run (st_origins db)) \<subseteq> set runs \<and> set (map afr_run (st_artifacts db)) \<subseteq> set runs
         \<and> set (map atr_run (st_attributions db)) \<subseteq> set runs)"

lemma own_rows: "k \<notin> set (map run old) \<Longrightarrow> set (map run new) \<subseteq> {k} \<Longrightarrow> filter (\<lambda>row. run row = k) (old @ new) = new"
proof -
  assume "k \<notin> set (map run old)" "set (map run new) \<subseteq> {k}"
  then have "filter (\<lambda>row. run row = k) old = []" "filter (\<lambda>row. run row = k) new = new" by (auto simp: filter_empty_conv intro!: filter_True)
  then show ?thesis by simp
qed

lemma other_rows: "k \<noteq> k' \<Longrightarrow> set (map run new) \<subseteq> {k'} \<Longrightarrow> filter (\<lambda>row. run row = k) (old @ new) = filter (\<lambda>row. run row = k) old"
  by (auto simp: filter_empty_conv)

lemma result_rows_run: "result_rows r = Inr rows \<Longrightarrow> set (map res_run rows) \<subseteq> {cr_run_id r}"
  by (auto simp: in_set_conv_nth result_rows_length result_rows_parts(1))

lemma execution_rows_run: "set (map exr_run (execution_rows r)) \<subseteq> {cr_run_id r}"
  using execution_rows_parts by (fastforce simp: in_set_conv_nth)

lemma artifact_rows_run: "set (map afr_run (map (artifact_of r) xs)) \<subseteq> {cr_run_id r}"
  by (auto simp: artifact_of_def)

lemma attribution_rows_run: "set (map atr_run (map (attribution_of r) xs)) \<subseteq> {cr_run_id r}"
  by (auto simp: attribution_of_def)

lemma origin_rows_run: "set (map org_run (map (origin_of r) xs)) \<subseteq> {cr_run_id r}"
  by (auto simp: origin_of_def)

lemma artifact_rows_placed: "placed afr_position (map (artifact_of r) (enumerate 0 xs))"
  by (simp add: placed_def artifact_of_def nth_enumerate_eq split: prod.splits)

lemma attribution_rows_placed: "placed atr_position (map (attribution_of r) (enumerate 0 xs))"
  by (simp add: placed_def attribution_of_def nth_enumerate_eq)

lemma result_row_back:
  assumes "storable_result r" "result_rows r = Inr rows" "kv \<in> set (cr_results r)"
  shows "\<exists>row. row_at res_position rows (place (cr_results r) kv) = Some row \<and> (res_kind row, res_value row) = kv"
proof -
  have d: "distinct (cr_results r)" using assms(1) accepted_results(2) unfolding storable_result_def by blast
  note p = place_in [OF d assms(3)]
  have "row_at res_position rows (place (cr_results r) kv) = Some (rows ! place (cr_results r) kv)"
    by (rule row_at_nth [OF result_rows_placed [OF assms(2)]]) (simp add: result_rows_length [OF assms(2)] p)
  moreover have "(res_kind (rows ! place (cr_results r) kv), res_value (rows ! place (cr_results r) kv)) = kv"
    using result_rows_parts(3) [OF assms(2) p(2)] p(3) by simp
  ultimately show ?thesis by blast
qed

lemma execution_row_back:
  assumes "storable_result r" "x \<in> set (producers r)"
  shows "\<exists>row. row_at exr_position (execution_rows r) (place (producers r) x) = Some row \<and> (exr_producer row, exr_name row) = x
    \<and> exr_position row = place (producers r) x"
proof -
  note p = place_in [OF producers_distinct [OF assms(1)] assms(2)]
  have n: "place (producers r) x < length (execution_rows r)" using p(2) by (simp add: length_producers)
  have "row_at exr_position (execution_rows r) (place (producers r) x) = Some (execution_rows r ! place (producers r) x)"
    by (rule row_at_nth [OF execution_rows_placed n])
  with execution_rows_parts [OF n] p(3) show ?thesis by simp
qed

lemma mapR_append: "mapR f (xs @ ys) = bindR (mapR f xs) (\<lambda>us. bindR (mapR f ys) (\<lambda>vs. Inr (us @ vs)))"
proof (induction xs)
  case Nil
  then show ?case by (cases "mapR f ys") auto
next
  case (Cons x xs)
  then show ?case by (cases "f x"; cases "mapR f xs"; cases "mapR f ys") auto
qed

lemma mapR_of_map: "(\<And>x. x \<in> set xs \<Longrightarrow> f (g x) = Inr (h x)) \<Longrightarrow> mapR f (map g xs) = Inr (map h xs)"
  by (induction xs) auto

definition loaded_origins_of :: "completed \<Rightarrow> loaded_origin list" where
  "loaded_origins_of r =
     map Of_source (cr_observations r)
     @ map (\<lambda>(action, o1). Of_action (place (producers r) (''action'', action)) o1) (active_observations (cr_actions r))"

lemma load_origins_back:
  assumes r: "storable_result r" and rows: "result_rows r = Inr rows"
  shows "mapR (load_origin rows (execution_rows r)) (map (origin_of r) (origin_keys r)) = Inr (loaded_origins_of r)"
proof -
  have p: "parts_ok r" using r by (simp add: storable_result_def)
  have s: "mapR (load_origin rows (execution_rows r)) (map (\<lambda>o1. origin_of r ((''source'', ro_source o1), ro_kind o1, ro_value o1)) (cr_observations r))
      = Inr (map Of_source (cr_observations r))"
  proof (rule mapR_of_map)
    fix o1
    assume o1: "o1 \<in> set (cr_observations r)"
    let ?k = "((''source'', ro_source o1), ro_kind o1, ro_value o1)"
    have "?k \<in> set (origin_keys r)" using o1 by (simp add: origin_keys_def)
    note known = origin_key_known [OF r this]
    have ok: "new_result_observation (ro_source o1) (ro_kind o1) (JStr (ro_value o1)) = Inr o1"
      using p o1 by (simp add: parts_ok_def list_all_iff result_observation_ok_def)
    from result_row_back [OF r rows known(2)] execution_row_back [OF r known(1)] ok
    show "load_origin rows (execution_rows r) (origin_of r ?k) = Inr (Of_source o1)"
      by (auto simp: load_origin_def need_row_def origin_of_def)
  qed
  have a: "mapR (load_origin rows (execution_rows r))
        (map (\<lambda>x. origin_of r ((''action'', fst x), ao_kind (snd x), ao_value (snd x))) (active_observations (cr_actions r)))
      = Inr (map (\<lambda>x. Of_action (place (producers r) (''action'', fst x)) (snd x)) (active_observations (cr_actions r)))"
  proof (rule mapR_of_map)
    fix x
    assume x: "x \<in> set (active_observations (cr_actions r))"
    obtain action o1 where x2: "x = (action, o1)" by (cases x)
    let ?k = "((''action'', action), ao_kind o1, ao_value o1)"
    have "?k \<in> set (origin_keys r)" using x by (force simp: origin_keys_def x2)
    note known = origin_key_known [OF r this]
    from acted_producer(1) [OF x [unfolded x2]] obtain e where "e \<in> set (cr_actions r)" "o1 \<in> set (exe_observations e)" by blast
    then have "action_observation_ok o1" using p by (auto simp: parts_ok_def execution_ok_def list_all_iff)
    then have ok: "new_action_observation (ao_kind o1) (JStr (ao_value o1)) = Inr o1" by (simp add: action_observation_ok_def)
    from result_row_back [OF r rows known(2)] execution_row_back [OF r known(1)] ok
    show "load_origin rows (execution_rows r) (origin_of r ((''action'', fst x), ao_kind (snd x), ao_value (snd x)))
       = Inr (Of_action (place (producers r) (''action'', fst x)) (snd x))"
      by (auto simp: load_origin_def need_row_def origin_of_def x2)
  qed
  show ?thesis using s a by (simp add: origin_keys_def loaded_origins_of_def mapR_append case_prod_beta comp_def)
qed

lemma load_artifacts_back:
  assumes r: "storable_result r" and rows: "result_rows r = Inr rows"
  shows "mapR (load_artifact rows (execution_rows r)) (map (artifact_of r) (enumerate 0 (active_artifacts (cr_actions r))))
    = Inr (map (\<lambda>x. (place (producers r) (''action'', fst x), snd x)) (active_artifacts (cr_actions r)))"
proof -
  have "mapR (load_artifact rows (execution_rows r)) (map (artifact_of r) (enumerate 0 (active_artifacts (cr_actions r))))
      = Inr (map (\<lambda>k. (place (producers r) (''action'', fst (snd k)), snd (snd k))) (enumerate 0 (active_artifacts (cr_actions r))))"
  proof (rule mapR_of_map)
    fix k
    assume k: "k \<in> set (enumerate 0 (active_artifacts (cr_actions r)))"
    obtain n action a where k2: "k = (n, action, a)" by (rule prod_cases3)
    have a: "(action, a) \<in> set (active_artifacts (cr_actions r))" using k unfolding k2 by (rule in_enumerate)
    note known = artifact_known [OF r a]
    have "valid_time (art_created a)" using r a by (auto simp: storable_result_def readable_result_def list_all_iff)
    then have t: "iso_time (isoformat (art_created a)) = Inr (art_created a)" by (simp add: iso_time_def)
    have eta: "\<lparr>art_kind = art_kind a, art_subject_kind = art_subject_kind a, art_subject = art_subject a, art_path = art_path a,
        art_media_type = art_media_type a, art_size = art_size a, art_sha256 = art_sha256 a, art_created = art_created a\<rparr> = a" by simp
    have new: "new_artifact \<lparr>art_kind = art_kind a, art_subject_kind = art_subject_kind a, art_subject = art_subject a, art_path = art_path a,
        art_media_type = art_media_type a, art_size = art_size a, art_sha256 = art_sha256 a, art_created = art_created a\<rparr> = Inr a"
      unfolding eta by (rule known(3))
    from result_row_back [OF r rows known(2)] execution_row_back [OF r known(1)] t new
    show "load_artifact rows (execution_rows r) (artifact_of r k) = Inr (place (producers r) (''action'', fst (snd k)), snd (snd k))"
      by (auto simp: load_artifact_def need_row_def artifact_of_def k2)
  qed
  moreover have "map snd (enumerate 0 (active_artifacts (cr_actions r))) = active_artifacts (cr_actions r)" by simp
  then have "map (\<lambda>k. (place (producers r) (''action'', fst (snd k)), snd (snd k))) (enumerate 0 (active_artifacts (cr_actions r)))
      = map (\<lambda>x. (place (producers r) (''action'', fst x), snd x)) (active_artifacts (cr_actions r))"
    by (metis (no_types, lifting) list.map_comp map_eq_conv comp_apply)
  ultimately show ?thesis by simp
qed

lemma load_attributions_back:
  assumes r: "storable_result r" and rows: "result_rows r = Inr rows"
  shows "mapR (load_attribution rows (execution_rows r)) (map (attribution_of r) (enumerate 0 (cr_asns r))) = Inr (cr_asns r)"
proof -
  have "mapR (load_attribution rows (execution_rows r)) (map (attribution_of r) (enumerate 0 (cr_asns r))) = Inr (map snd (enumerate 0 (cr_asns r)))"
  proof (rule mapR_of_map)
    fix k
    assume k: "k \<in> set (enumerate 0 (cr_asns r))"
    obtain n a where k2: "k = (n, a)" by (cases k)
    have "a \<in> set (cr_asns r)" using k unfolding k2 by (rule in_enumerate)
    note known = attribution_known [OF r this]
    have t: "iso_time (isoformat (att_time a)) = Inr (att_time a)" using known(5) by (simp add: iso_time_def)
    have new: "new_attribution (att_producer_kind a) (att_producer a) (JStr (att_asn a)) (att_label a) (att_subject_kind a) (att_subject a)
        (att_time a) = Inr a" using known(4) by (simp add: attribution_ok_def)
    from result_row_back [OF r rows known(1)] result_row_back [OF r rows known(2)] execution_row_back [OF r known(3)]
      attribution_ok_facts [OF known(4)] t new
    show "load_attribution rows (execution_rows r) (attribution_of r k) = Inr (snd k)"
      by (auto simp: load_attribution_def attribution_of_def k2 invalid_as_def)
  qed
  then show ?thesis by simp
qed

lemma select_items:
  "distinct (map name es) \<Longrightarrow> e \<in> set es \<Longrightarrow>
   map snd (filter (\<lambda>x. fst x = name e) (concat (map (\<lambda>e. map (\<lambda>i. (name e, i)) (items e)) es))) = items e"
proof (induction es)
  case (Cons x es)
  show ?case
  proof (cases "e = x")
    case True
    have "filter (\<lambda>y. fst y = name x) (concat (map (\<lambda>e. map (\<lambda>i. (name e, i)) (items e)) es)) = []"
      using Cons.prems(1) by (intro filter_False) (auto, metis imageI)
    then show ?thesis by (simp add: True comp_def filter_True)
  next
    case False
    then have e: "e \<in> set es" "name x \<noteq> name e" using Cons.prems by force+
    then show ?thesis using Cons by (simp add: filter_False)
  qed
qed simp

lemma action_items:
  assumes r: "storable_result r" and e: "e \<in> set (cr_actions r)"
  shows "List.map_filter (action_origin (place (producers r) (''action'', exe_action e))) (loaded_origins_of r) = exe_observations e"
    and "map snd (filter (\<lambda>(n, _). n = place (producers r) (''action'', exe_action e))
      (map (\<lambda>x. (place (producers r) (''action'', fst x), snd x)) (active_artifacts (cr_actions r)))) = exe_artifacts e"
proof -
  let ?n = "place (producers r) (''action'', exe_action e)"
  have d: "distinct (map exe_action (cr_actions r))"
    using r by (simp add: storable_result_def parts_ok_def new_active_evidence_def split: if_splits)
  have same: "place (producers r) (''action'', exe_action e') = ?n \<longleftrightarrow> exe_action e' = exe_action e" if "e' \<in> set (cr_actions r)" for e'
    using place_inj [OF producers_distinct [OF r] in_producers(2) [OF that] in_producers(2) [OF e]] by auto
  have os: "filter (\<lambda>x. place (producers r) (''action'', fst x) = ?n) (active_observations (cr_actions r))
      = filter (\<lambda>x. fst x = exe_action e) (active_observations (cr_actions r))"
    by (rule filter_cong [OF refl]) (metis acted_producer(1) prod.collapse same)
  have "List.map_filter (action_origin ?n) (loaded_origins_of r)
      = map snd (filter (\<lambda>x. place (producers r) (''action'', fst x) = ?n) (active_observations (cr_actions r)))"
    by (simp add: loaded_origins_of_def List.map_filter_def filter_map comp_def case_prod_beta filter_False cong: filter_cong map_cong if_cong)
  then show "List.map_filter (action_origin ?n) (loaded_origins_of r) = exe_observations e"
    using select_items [OF d e, of exe_observations] os by (simp add: active_observations_def)
  have as: "filter (\<lambda>x. place (producers r) (''action'', fst x) = ?n) (active_artifacts (cr_actions r))
      = filter (\<lambda>x. fst x = exe_action e) (active_artifacts (cr_actions r))"
    by (rule filter_cong [OF refl]) (metis acted_producer(2) prod.collapse same)
  have "map snd (filter (\<lambda>(n, _). n = ?n) (map (\<lambda>x. (place (producers r) (''action'', fst x), snd x)) (active_artifacts (cr_actions r))))
      = map snd (filter (\<lambda>x. place (producers r) (''action'', fst x) = ?n) (active_artifacts (cr_actions r)))"
    by (simp add: filter_map comp_def case_prod_beta)
  then show "map snd (filter (\<lambda>(n, _). n = ?n)
      (map (\<lambda>x. (place (producers r) (''action'', fst x), snd x)) (active_artifacts (cr_actions r)))) = exe_artifacts e"
    using select_items [OF d e, of exe_artifacts] as by (simp add: active_artifacts_def)
qed

lemma producer_rows:
  "filter (\<lambda>row. exr_producer row = ''source'') (execution_rows r) = map (\<lambda>(n, x). source_row (cr_run_id r) n x) (enumerate 0 (cr_sources r))"
  "filter (\<lambda>row. exr_producer row = ''action'') (execution_rows r)
     = map (\<lambda>(n, e). action_row (cr_run_id r) n e) (enumerate (length (cr_sources r)) (cr_actions r))"
  "unknown_producers (execution_rows r) = []"
  by (auto simp: execution_rows_def source_row_def action_row_def filter_map comp_def case_prod_beta unknown_producers_def filter_empty_conv)

lemma load_sources_back:
  assumes "storable_result r"
  shows "mapR load_source (filter (\<lambda>row. exr_producer row = ''source'') (execution_rows r)) = Inr (cr_sources r)"
proof -
  have "mapR load_source (map (\<lambda>(n, x). source_row (cr_run_id r) n x) (enumerate 0 (cr_sources r))) = Inr (map snd (enumerate 0 (cr_sources r)))"
  proof (rule mapR_of_map)
    fix k
    assume k: "k \<in> set (enumerate 0 (cr_sources r))"
    obtain n x where k2: "k = (n, x)" by (cases k)
    have "x \<in> set (cr_sources r)" using k unfolding k2 by (rule in_enumerate)
    then have ok: "new_source_execution x = Inr x" using assms by (simp add: storable_result_def parts_ok_def list_all_iff)
    have eta: "\<lparr>sx_source = sx_source x, sx_status = sx_status x, sx_duration = sx_duration x, sx_count = sx_count x, sx_error = sx_error x,
        sx_stop = sx_stop x\<rparr> = x" by simp
    show "load_source (case k of (n, x) \<Rightarrow> source_row (cr_run_id r) n x) = Inr (snd k)"
      by (simp add: k2 load_source_def source_row_def) (unfold eta, rule ok)
  qed
  then show ?thesis by (simp add: producer_rows)
qed

lemma load_actions_back:
  assumes r: "storable_result r"
  shows "mapR (load_action (loaded_origins_of r) (map (\<lambda>x. (place (producers r) (''action'', fst x), snd x)) (active_artifacts (cr_actions r))))
    (filter (\<lambda>row. exr_producer row = ''action'') (execution_rows r)) = Inr (cr_actions r)"
proof -
  let ?as = "map (\<lambda>x. (place (producers r) (''action'', fst x), snd x)) (active_artifacts (cr_actions r))"
  let ?es = "enumerate (length (cr_sources r)) (cr_actions r)"
  have "mapR (load_action (loaded_origins_of r) ?as) (map (\<lambda>(n, e). action_row (cr_run_id r) n e) ?es) = Inr (map snd ?es)"
  proof (rule mapR_of_map)
    fix k
    assume k: "k \<in> set ?es"
    obtain n e where k2: "k = (n, e)" by (cases k)
    from k obtain m where m: "n = length (cr_sources r) + m" "m < length (cr_actions r)" "e = cr_actions r ! m"
      unfolding k2 by (auto simp: in_set_enumerate_eq intro: that [of "n - length (cr_sources r)"])
    have e: "e \<in> set (cr_actions r)" using m by simp
    have "producers r ! n = (''action'', exe_action e)" "n < length (producers r)" using m by (simp_all add: producers_def nth_append)
    then have n: "n = place (producers r) (''action'', exe_action e)" using place_nth [OF producers_distinct [OF r]] by metis
    have ok: "new_execution e = Inr e" using r e by (simp add: storable_result_def parts_ok_def list_all_iff execution_ok_def)
    have sorted: "sort_key action_observation_key (exe_observations e) = exe_observations e"
      "sort_key artifact_key (exe_artifacts e) = exe_artifacts e"
      using new_execution_sorted [OF ok] by (metis sort_key_id_if_sorted sorted_canon_by)+
    have eta: "\<lparr>exe_action = exe_action e, exe_status = exe_status e, exe_duration = exe_duration e, exe_observations = exe_observations e,
        exe_artifacts = exe_artifacts e, exe_error = exe_error e, exe_stop = exe_stop e\<rparr> = e" by simp
    have "load_action (loaded_origins_of r) ?as (action_row (cr_run_id r) n e) = new_execution \<lparr>exe_action = exe_action e, exe_status = exe_status e, exe_duration = exe_duration e, exe_observations = exe_observations e,
        exe_artifacts = exe_artifacts e, exe_error = exe_error e, exe_stop = exe_stop e\<rparr>"
      unfolding load_action_def Let_def action_row_def execution_row.select_convs n action_items [OF r e] sorted by simp
    then show "load_action (loaded_origins_of r) ?as (case k of (n, e) \<Rightarrow> action_row (cr_run_id r) n e) = Inr (snd k)"
      unfolding eta ok by (simp add: k2)
  qed
  then show ?thesis by (simp add: producer_rows)
qed

lemma load_observations_back:
  assumes "storable_result r"
  shows "sort_key result_observation_key (List.map_filter source_origin (loaded_origins_of r)) = cr_observations r"
proof -
  have "List.map_filter source_origin (loaded_origins_of r) = cr_observations r"
    by (auto simp: loaded_origins_of_def List.map_filter_def filter_map comp_def filter_empty_conv case_prod_beta)
  moreover have "sorted (map result_observation_key (cr_observations r))"
    using accepted_provenance(1) [of r r] assms unfolding storable_result_def by (metis sorted_canon_by)
  ultimately show ?thesis by (simp add: sort_key_id_if_sorted)
qed

section \<open>The evidence that is read\<close>

lemma vhost_positions_back:
  assumes r: "storable_result r"
  shows "vhost_positions (execution_rows r) (map (origin_of r) (origin_keys r))
    = place (cr_results r) ` (\<lambda>v. (''hostname'', vo_hostname v)) ` set (cr_vhosts r)"
proof -
  have acc: "new_completed r = Inr r" using r by (simp add: storable_result_def)
  let ?vhost = "map exr_position (filter (\<lambda>row. exr_producer row = ''action'' \<and> exr_name row = ''vhost'') (execution_rows r))"
  have pos: "place (producers r) p \<in> set ?vhost \<longleftrightarrow> p = (''action'', ''vhost'')" if p: "p \<in> set (producers r)" for p
  proof -
    note at = place_in [OF producers_distinct [OF r] p]
    let ?m = "place (producers r) p"
    have m: "?m < length (execution_rows r)" using at(2) by (simp add: length_producers)
    show ?thesis
    proof
      assume "?m \<in> set ?vhost"
      then obtain row where row: "row \<in> set (execution_rows r)" "exr_position row = ?m" "exr_producer row = ''action''" "exr_name row = ''vhost''"
        by auto
      from row(1) obtain n where n: "n < length (execution_rows r)" "row = execution_rows r ! n" by (metis in_set_conv_nth)
      then have "n = ?m" using execution_rows_parts [OF n(1)] row(2) by simp
      then show "p = (''action'', ''vhost'')" using execution_rows_parts [OF n(1)] n(2) row(3,4) at(3) by simp
    next
      assume "p = (''action'', ''vhost'')"
      then have "exr_producer (execution_rows r ! ?m) = ''action'' \<and> exr_name (execution_rows r ! ?m) = ''vhost'' \<and> exr_position (execution_rows r ! ?m) = ?m"
        using execution_rows_parts [OF m] at(3) by simp
      with nth_mem [OF m] show "?m \<in> set ?vhost" by force
    qed
  qed
  define V where "V = set ?vhost"
  have "vhost_positions (execution_rows r) (map (origin_of r) (origin_keys r))
      = (\<lambda>k. place (cr_results r) (snd k)) ` {k \<in> set (origin_keys r). place (producers r) (fst k) \<in> V}"
    unfolding vhost_positions_def Let_def V_def [symmetric] by (auto simp: filter_map comp_def origin_of_def)
  also have "{k \<in> set (origin_keys r). place (producers r) (fst k) \<in> V} = {k \<in> set (origin_keys r). fst k = (''action'', ''vhost'')}"
    using pos origin_key_known(1) [OF r] unfolding V_def by (metis (no_types, lifting) prod.collapse)
  also have "(\<lambda>k. place (cr_results r) (snd k)) ` \<dots> = place (cr_results r) ` snd ` {k \<in> set (origin_keys r). fst k = (''action'', ''vhost'')}"
    by (simp add: image_image)
  also have "snd ` {k \<in> set (origin_keys r). fst k = (''action'', ''vhost'')} = set (map snd (filter (\<lambda>(action, _). action = ''vhost'') (acted r)))"
    by (force simp: origin_keys_def acted_def image_iff)
  also have "set (map snd (filter (\<lambda>(action, _). action = ''vhost'') (acted r))) = (\<lambda>v. (''hostname'', vo_hostname v)) ` set (cr_vhosts r)"
    by (rule accepted_vhosts(2) [OF acc])
  finally show ?thesis .
qed

definition evidence_of :: "completed \<Rightarrow> string \<times> string \<Rightarrow> loaded_evidence" where
  "evidence_of r kv =
     (let kind = fst kv; v = snd kv; vhosts = filter (\<lambda>x. vo_hostname x = v) (cr_vhosts r); network = of_prefix v (cr_network r)
      in if kind = ''hostname'' \<and> vhosts \<noteq> [] then Loaded_vhosts vhosts
         else if kind = ''prefix'' \<and> network \<noteq> [] then Loaded_network network
         else if kind = ''shodan-host'' then
           (case find (\<lambda>h. host_ip h = v) (rev (cr_shodan r)) of None \<Rightarrow> No_evidence | Some h \<Rightarrow> Loaded_shodan h)
         else if kind = ''takeover'' then
           (case find (\<lambda>c. cand_hostname c = v) (rev (cr_takeover r)) of None \<Rightarrow> No_evidence | Some c \<Rightarrow> Loaded_takeover c)
         else No_evidence)"

lemma vhosts_read_back:
  assumes r: "storable_result r" and vs: "filter (\<lambda>x. vo_hostname x = v) (cr_vhosts r) \<noteq> []" (is "?vs \<noteq> []")
  shows "parse_virtual_host_details v (JList (virtual_host_details ?vs)) = Inr ?vs"
proof -
  have acc: "new_completed r = Inr r" using r by (simp add: storable_result_def)
  have "\<forall>x\<in>set ?vs. vhost_ok x \<and> vo_hostname x = v" using accepted_vhosts(1) [OF acc] by simp
  note reads = parse_details_back [OF vs this]
  have "distinct (cr_vhosts r) \<and> sorted (map vhost_key (cr_vhosts r))"
    using accepted_provenance(8) [OF acc] canon_by_fix_iff by metis
  then have "canon_by vhost_key ?vs = ?vs" unfolding canon_by_fix_iff by (simp add: sorted_filter)
  with reads show ?thesis by simp
qed

lemma load_vhosts_back:
  assumes r: "storable_result r" and vs: "filter (\<lambda>x. vo_hostname x = v) (cr_vhosts r) \<noteq> []" (is "?vs \<noteq> []")
  shows "load_vhosts ''hostname'' v (Some (JList (virtual_host_details ?vs))) = Inr (Loaded_vhosts ?vs)"
proof -
  have "wf_json (JList (virtual_host_details ?vs))" by (simp add: virtual_host_details_def list_all_iff vhost_detail_wf)
  then have "json_eq (JList (virtual_host_details ?vs)) (JList (virtual_host_details ?vs))" by (rule json_eq_same)
  then show ?thesis by (simp add: load_vhosts_def vhosts_read_back [OF assms] invalid_as_def)
qed

lemma network_filter_canonical:
  assumes "canonical_network_observations xs = Inr xs"
  shows "canonical_network_observations (of_prefix p xs) = Inr (of_prefix p xs)"
proof (rule canonical_network_fix)
  note c = canonical_network_Inr [OF assms]
  show "distinct (map network_identity (of_prefix p xs))" using c by (simp add: of_prefix_def distinct_map_filter)
  show "consistent (set (of_prefix p xs))" using c by (auto simp: consistent_def of_prefix_def)
  show "sorted (map network_sort_key (of_prefix p xs))" using c by (simp add: of_prefix_def sorted_filter)
  have "length (filter P (of_prefix p xs)) \<le> length (filter P xs)" for P
    by (simp add: of_prefix_def filter_filter conj_commute) (metis filter_filter length_filter_le)
  then show "\<not> crowded (of_prefix p xs)" using c by (force simp: crowded_def list_ex_iff of_prefix_def)
qed

lemma load_network_back:
  assumes r: "storable_result r" and ne: "of_prefix v (cr_network r) \<noteq> []" and written: "network_observation_details (of_prefix v (cr_network r)) = Inr ds"
  shows "parse_network_observation_details v (JList ds) = Inr (of_prefix v (cr_network r))"
proof (rule network_details_back [OF _ written ne])
  have "canonical_network_observations (cr_network r) = Inr (cr_network r)"
    using r accepted_network(1) unfolding storable_result_def by blast
  then show "canonical_network_observations (of_prefix v (cr_network r)) = Inr (of_prefix v (cr_network r))" by (rule network_filter_canonical)
  show "\<forall>obs\<in>set (of_prefix v (cr_network r)). observation_ok obs \<and> readable_observation obs \<and> net_prefix obs = v"
    using r by (simp add: storable_result_def parts_ok_def readable_result_def of_prefix_def list_all_iff)
qed

lemma in_kind: "(\<lambda>x. (kind, f x)) ` A = of_kind kind r \<Longrightarrow> (kind, v) \<in> set (cr_results r) \<longleftrightarrow> (\<exists>x\<in>A. f x = v)"
proof -
  assume eq: "(\<lambda>x. (kind, f x)) ` A = of_kind kind r"
  have "(kind, v) \<in> set (cr_results r) \<longleftrightarrow> (kind, v) \<in> (\<lambda>x. (kind, f x)) ` A" unfolding eq by (simp add: of_kind_def)
  then show ?thesis by auto
qed

lemma find_first: "find P xs = Some h \<Longrightarrow> h \<in> set xs \<and> P h"
  by (induction xs) (auto split: if_splits)

lemma find_known: "\<exists>h\<in>set xs. P h \<Longrightarrow> \<exists>h. find P (rev xs) = Some h \<and> h \<in> set xs \<and> P h"
  using find_first [of P "rev xs"] by (cases "find P (rev xs)") (auto simp: find_None_iff)

lemma shodan_of_row:
  assumes r: "storable_result r" and v: "(''shodan-host'', v) \<in> set (cr_results r)"
  shows "\<exists>h\<in>set (cr_shodan r). find (\<lambda>h. host_ip h = v) (rev (cr_shodan r)) = Some h \<and> host_ip h = v
    \<and> host_from_record v (host_to_details h) = Inr h \<and> wf_json (host_to_details h)
    \<and> load_shodan v (Some (host_to_details h)) = Inr (Loaded_shodan h)"
proof -
  have acc: "new_completed r = Inr r" using r by (simp add: storable_result_def)
  have "\<exists>h\<in>set (cr_shodan r). host_ip h = v" using v unfolding in_kind [OF accepted_shodan(2) [OF acc]] by blast
  from find_known [OF this] obtain h where h: "find (\<lambda>h. host_ip h = v) (rev (cr_shodan r)) = Some h"
    and in_h: "h \<in> set (cr_shodan r)" "host_ip h = v" by blast
  have "host_ok h" "readable_host h" using r in_h(1) by (simp_all add: storable_result_def parts_ok_def readable_result_def list_all_iff)
  then have back_h: "host_from_record v (host_to_details h) = Inr h" "wf_json (host_to_details h)"
    using shodan_details.read_back [of h] shodan_details.details_wf [of h] in_h(2) by simp_all
  then have "load_shodan v (Some (host_to_details h)) = Inr (Loaded_shodan h)" by (simp add: load_shodan_def invalid_as_def)
  with h in_h back_h show ?thesis by blast
qed

lemma takeover_of_row:
  assumes r: "storable_result r" and v: "(''takeover'', v) \<in> set (cr_results r)"
  shows "\<exists>c\<in>set (cr_takeover r). find (\<lambda>c. cand_hostname c = v) (rev (cr_takeover r)) = Some c \<and> cand_hostname c = v
    \<and> parse_takeover_details v (candidate_to_details c) = Inr c \<and> wf_json (candidate_to_details c)
    \<and> load_takeover v (Some (candidate_to_details c)) = Inr (Loaded_takeover c)"
proof -
  have acc: "new_completed r = Inr r" using r by (simp add: storable_result_def)
  have "\<exists>c\<in>set (cr_takeover r). cand_hostname c = v" using v unfolding in_kind [OF accepted_takeover(2) [OF acc]] by blast
  from find_known [OF this] obtain c where c: "find (\<lambda>c. cand_hostname c = v) (rev (cr_takeover r)) = Some c"
    and in_c: "c \<in> set (cr_takeover r)" "cand_hostname c = v" by blast
  have "candidate_ok c" "readable_candidate c" using r in_c(1) by (simp_all add: storable_result_def parts_ok_def readable_result_def list_all_iff)
  then have cand: "candidate_from_record v (candidate_to_details c) = Inr c" "wf_json (candidate_to_details c)"
    using takeover_details.read_back [of c] takeover_details.details_wf [of c] in_c(2) by simp_all
  then have back_c: "parse_takeover_details v (candidate_to_details c) = Inr c" "json_eq (candidate_to_details c) (candidate_to_details c)"
    by (simp_all add: parse_takeover_details_def)
  then have "load_takeover v (Some (candidate_to_details c)) = Inr (Loaded_takeover c)" by (simp add: load_takeover_def invalid_as_def)
  with c in_c back_c cand(2) show ?thesis by blast
qed

lemma vhost_position:
  assumes r: "storable_result r" and n: "n < length (cr_results r)" "cr_results r ! n = (kind, v)"
  shows "n \<in> place (cr_results r) ` (\<lambda>x. (''hostname'', vo_hostname x)) ` set (cr_vhosts r)
    \<longleftrightarrow> kind = ''hostname'' \<and> filter (\<lambda>x. vo_hostname x = v) (cr_vhosts r) \<noteq> []"
proof -
  have acc: "new_completed r = Inr r" using r by (simp add: storable_result_def)
  have d: "distinct (cr_results r)" using accepted_results(2) [OF acc] .
  have at: "place (cr_results r) (''hostname'', vo_hostname x) = n \<longleftrightarrow> kind = ''hostname'' \<and> vo_hostname x = v" if "x \<in> set (cr_vhosts r)" for x
  proof -
    have "(''hostname'', vo_hostname x) \<in> set (cr_results r)" using accepted_vhosts(3) [OF acc] that by blast
    from place_in(3) [OF d this] place_nth [OF d n(1)] n(2) show ?thesis by fastforce
  qed
  have "n \<in> place (cr_results r) ` (\<lambda>x. (''hostname'', vo_hostname x)) ` set (cr_vhosts r)
      \<longleftrightarrow> (\<exists>x\<in>set (cr_vhosts r). place (cr_results r) (''hostname'', vo_hostname x) = n)" by force
  also have "\<dots> \<longleftrightarrow> (\<exists>x\<in>set (cr_vhosts r). kind = ''hostname'' \<and> vo_hostname x = v)" using at by blast
  also have "\<dots> \<longleftrightarrow> kind = ''hostname'' \<and> filter (\<lambda>x. vo_hostname x = v) (cr_vhosts r) \<noteq> []" by (auto simp: filter_empty_conv)
  finally show ?thesis .
qed

definition vhost_places :: "completed \<Rightarrow> nat set" where
  "vhost_places r = vhost_positions (execution_rows r) (map (origin_of r) (origin_keys r))"

lemma load_details_back:
  assumes r: "storable_result r" and rows: "result_rows r = Inr rows" and n: "n < length (cr_results r)"
  shows "load_details (vhost_places r) (rows ! n) = Inr (evidence_of r (cr_results r ! n))"
proof -
  obtain kind v where kv: "cr_results r ! n = (kind, v)" by (cases "cr_results r ! n")
  have row: "res_position (rows ! n) = n" "res_kind (rows ! n) = kind" "res_value (rows ! n) = v"
    and details: "row_details r (kind, v) = Inr (res_details (rows ! n))"
    using result_rows_parts [OF rows n] kv by simp_all
  have known: "(kind, v) \<in> set (cr_results r)" using nth_mem [OF n] kv by simp
  have at: "n \<in> vhost_places r \<longleftrightarrow> kind = ''hostname'' \<and> filter (\<lambda>x. vo_hostname x = v) (cr_vhosts r) \<noteq> []"
    unfolding vhost_places_def vhost_positions_back [OF r] by (rule vhost_position [OF r n kv])
  consider (vhost) "kind = ''hostname''" "filter (\<lambda>x. vo_hostname x = v) (cr_vhosts r) \<noteq> []"
    | (network) "kind = ''prefix''" "of_prefix v (cr_network r) \<noteq> []" | (shodan) "kind = ''shodan-host''" | (takeover) "kind = ''takeover''"
    | (none) "\<not> (kind = ''hostname'' \<and> filter (\<lambda>x. vo_hostname x = v) (cr_vhosts r) \<noteq> [])"
      "\<not> (kind = ''prefix'' \<and> of_prefix v (cr_network r) \<noteq> [])" "kind \<noteq> ''shodan-host''" "kind \<noteq> ''takeover''" by blast
  then show ?thesis
  proof cases
    case vhost
    then have "res_details (rows ! n) = Some (JList (virtual_host_details (filter (\<lambda>x. vo_hostname x = v) (cr_vhosts r))))"
      using details by (simp add: row_details_def)
    then show ?thesis using vhost at load_vhosts_back [OF r vhost(2)] by (simp add: load_details_def row kv evidence_of_def)
  next
    case network
    then obtain ds where ds: "network_observation_details (of_prefix v (cr_network r)) = Inr ds" "res_details (rows ! n) = Some (JList ds)"
      using details by (auto simp: row_details_def bindR_Inr_iff)
    then show ?thesis using network at load_network_back [OF r network(2) ds(1)]
      by (simp add: load_details_def row kv evidence_of_def invalid_as_def)
  next
    case shodan
    from shodan_of_row [OF r known [unfolded shodan]] obtain h where h: "find (\<lambda>h. host_ip h = v) (rev (cr_shodan r)) = Some h"
      "load_shodan v (Some (host_to_details h)) = Inr (Loaded_shodan h)" by blast
    then have "res_details (rows ! n) = Some (host_to_details h)" using details by (simp add: row_details_def shodan)
    then show ?thesis using h at by (simp add: load_details_def row kv evidence_of_def shodan)
  next
    case takeover
    from takeover_of_row [OF r known [unfolded takeover]] obtain c where c: "find (\<lambda>c. cand_hostname c = v) (rev (cr_takeover r)) = Some c"
      "load_takeover v (Some (candidate_to_details c)) = Inr (Loaded_takeover c)" by blast
    then have "res_details (rows ! n) = Some (candidate_to_details c)" using details by (simp add: row_details_def takeover)
    then show ?thesis using c at by (simp add: load_details_def row kv evidence_of_def takeover)
  next
    case none
    note skip = if_not_P [OF none(1)] if_not_P [OF none(2)] if_not_P [OF none(3)] if_not_P [OF none(4)]
    have "row_details r (kind, v) = Inr None" unfolding row_details_def Let_def fst_conv snd_conv skip by (rule refl)
    then have "res_details (rows ! n) = None" using details by simp
    moreover have "evidence_of r (kind, v) = No_evidence" unfolding evidence_of_def Let_def fst_conv snd_conv skip by (rule refl)
    moreover have "n \<notin> vhost_places r" using none(1) at by blast
    ultimately show ?thesis using none(3,4) by (simp add: load_details_def row kv)
  qed
qed

lemma mapR_all2: "list_all2 (\<lambda>x y. f x = Inr y) xs ys \<Longrightarrow> mapR f xs = Inr ys"
  by (induction rule: list_all2_induct) simp_all

lemma load_evidence_back:
  assumes r: "storable_result r" and rows: "result_rows r = Inr rows"
  shows "mapR (load_details (vhost_places r)) rows = Inr (map (evidence_of r) (cr_results r))"
  by (rule mapR_all2, rule list_all2_all_nthI) (simp_all add: result_rows_length [OF rows] load_details_back [OF r rows])

section \<open>The collections of the run\<close>

lemma record_by_keys: "map fst xs = map fst ys \<Longrightarrow> distinct (map fst xs) \<Longrightarrow> set xs = set ys \<Longrightarrow> xs = ys"
proof (rule nth_equalityI)
  assume keys: "map fst xs = map fst ys" and d: "distinct (map fst xs)" and eq: "set xs = set ys"
  show len: "length xs = length ys" using keys by (metis length_map)
  fix n
  assume n: "n < length xs"
  then have "xs ! n \<in> set ys" unfolding eq [symmetric] by simp
  then obtain m where m: "m < length ys" "ys ! m = xs ! n" by (meson in_set_conv_nth)
  have "map fst xs ! m = map fst xs ! n" unfolding keys using m n len keys by (metis nth_map)
  then have "m = n" using nth_eq_iff_index_eq [OF d] m(1) n len by simp
  then show "xs ! n = ys ! n" using m by simp
qed

lemma format_utc_inject: "valid_time t \<Longrightarrow> valid_time t' \<Longrightarrow> format_utc t = format_utc t' \<longleftrightarrow> t = t'"
  by (metis option.inject parse_format_utc)

lemma network_sort_key_inj:
  assumes "readable_observation x" "readable_observation y" "network_sort_key x = network_sort_key y"
  shows "x = y"
proof -
  have k: "sort_key fst (to_record x) = sort_key fst (to_record y)" "type_order x = type_order y" using assms(3) by (simp_all only: network_sort_key_def prod.inject)
  have "set (sort_key fst (to_record x)) = set (to_record x)" "set (sort_key fst (to_record y)) = set (to_record y)" by (rule set_sort)+
  then have "set (to_record x) = set (to_record y)" using k(1) by simp
  moreover have "map fst (to_record x) = map fst (to_record y) \<and> distinct (map fst (to_record x))"
    using k(2) by (cases x; cases y) simp_all
  ultimately have "to_record x = to_record y" using record_by_keys by blast
  then show ?thesis using assms(1,2)
    by (cases x; cases y) (auto simp: readable_observation_def format_utc_inject)
qed

lemma keyed_Nil: "keyed key []"
  by (simp add: keyed_def)

lemma collected_keys:
  fixes order :: "'a \<Rightarrow> 'k::linorder"
  assumes "bindR (collect_unique key conflict xs []) (\<lambda>m. Inr (sort_key order (map snd m))) = Inr ys"
  shows "distinct (map key ys)" "sorted (map order ys)" "\<exists>m. collect_unique key conflict xs [] = Inr m"
proof -
  obtain m where m: "collect_unique key conflict xs [] = Inr m" "ys = sort_key order (map snd m)"
    using assms by (auto simp: bindR_Inr_iff)
  then show "sorted (map order ys)" "\<exists>m. collect_unique key conflict xs [] = Inr m" by simp_all
  from keyed_sorted(3) [of key m order] collect_unique_Inr [OF m(1) keyed_Nil] m(2) show "distinct (map key ys)" by blast
qed

lemma collect_unique_again:
  fixes order :: "'a \<Rightarrow> 'k::linorder"
  assumes "bindR (collect_unique key conflict xs []) (\<lambda>m. Inr (sort_key order (map snd m))) = Inr xs"
    and "inj_on order (set xs)" "set ys = set xs"
  shows "bindR (collect_unique key conflict ys []) (\<lambda>m. Inr (sort_key order (map snd m))) = Inr xs"
proof -
  note xs = collected_keys [OF assms(1)]
  from xs(3) obtain m where m: "collect_unique key conflict ys [] = Inr m" unfolding collect_unique_iff assms(3) [symmetric]
    using collect_unique_iff by metis
  have k: "keyed key m" "snd ` set m = set ys" using collect_unique_Inr [OF m keyed_Nil] by simp_all
  have "distinct (map snd m)" using keyed_sorted(1) [OF k(1)] by (rule distinct_mapI)
  then have "sort_key order (map snd m) = canon_by order (map snd m)" by (simp add: canon_by_def distinct_remdups_id)
  also have "\<dots> = xs"
  proof (rule canon_by_unique)
    show "inj_on order (set (map snd m))" "set xs = set (map snd m)" using assms(2,3) k(2) by simp_all
    show "distinct xs" using xs(1) by (rule distinct_mapI)
    show "sorted (map order xs)" by (rule xs(2))
  qed
  finally show ?thesis by (simp add: m)
qed

lemma one_each:
  assumes "\<And>x. x \<in> A \<Longrightarrow> \<exists>y\<in>A. E (f x) = [y] \<and> f y = f x" "inj_on f A" "\<And>kv. kv \<in> set kvs \<Longrightarrow> set (E kv) \<subseteq> A" "f ` A \<subseteq> set kvs"
  shows "set (concat (map E kvs)) = A"
proof
  show "set (concat (map E kvs)) \<subseteq> A" using assms(3) by auto
  show "A \<subseteq> set (concat (map E kvs))"
  proof
    fix x
    assume x: "x \<in> A"
    from assms(1) [OF x] obtain y where y: "y \<in> A" "E (f x) = [y]" "f y = f x" by blast
    with assms(2) x have "y = x" by (auto dest: inj_onD)
    with y(2) assms(4) x show "x \<in> set (concat (map E kvs))" by force
  qed
qed

lemma each_part: "(\<And>kv. set (E kv) = {x \<in> A. f x = kv}) \<Longrightarrow> f ` A \<subseteq> set kvs \<Longrightarrow> set (concat (map E kvs)) = A"
  by auto

lemma evidence_sets:
  assumes r: "storable_result r"
  shows "set (concat (map vhosts_of (map (evidence_of r) (cr_results r)))) = set (cr_vhosts r)"
    and "set (concat (map networks_of (map (evidence_of r) (cr_results r)))) = set (cr_network r)"
    and "set (concat (map shodan_of (map (evidence_of r) (cr_results r)))) = set (cr_shodan r)"
    and "set (concat (map takeover_of (map (evidence_of r) (cr_results r)))) = set (cr_takeover r)"
proof -
  have acc: "new_completed r = Inr r" using r by (simp add: storable_result_def)
  have "set ((vhosts_of \<circ> evidence_of r) kv) = {x \<in> set (cr_vhosts r). (''hostname'', vo_hostname x) = kv}" for kv
    by (cases kv) (auto simp: evidence_of_def Let_def filter_empty_conv split: option.splits)
  then show "set (concat (map vhosts_of (map (evidence_of r) (cr_results r)))) = set (cr_vhosts r)"
    unfolding list.map_comp using accepted_vhosts(3) [OF acc] by (rule each_part)
  have "set ((networks_of \<circ> evidence_of r) kv) = {x \<in> set (cr_network r). (''prefix'', net_prefix x) = kv}" for kv
    by (cases kv) (auto simp: evidence_of_def Let_def of_prefix_def filter_empty_conv split: option.splits)
  moreover have "(\<lambda>x. (''prefix'', net_prefix x)) ` set (cr_network r) \<subseteq> set (cr_results r)" using accepted_network(2) [OF acc] by blast
  ultimately show "set (concat (map networks_of (map (evidence_of r) (cr_results r)))) = set (cr_network r)"
    unfolding list.map_comp by (rule each_part)
  show "set (concat (map shodan_of (map (evidence_of r) (cr_results r)))) = set (cr_shodan r)"
    unfolding list.map_comp
  proof (rule one_each [where f = "\<lambda>h. (''shodan-host'', host_ip h)"])
    have "distinct (map host_ip (cr_shodan r))"
      using accepted_shodan(1) [OF acc] unfolding canonical_shodan_hosts_def by (rule collected_keys(1))
    then show "inj_on (\<lambda>h. (''shodan-host'', host_ip h)) (set (cr_shodan r))" by (auto simp: distinct_map inj_on_def)
    show known: "(\<lambda>h. (''shodan-host'', host_ip h)) ` set (cr_shodan r) \<subseteq> set (cr_results r)"
      unfolding accepted_shodan(2) [OF acc] by (auto simp: of_kind_def)
    show "\<exists>y\<in>set (cr_shodan r). (shodan_of \<circ> evidence_of r) (''shodan-host'', host_ip h) = [y]
        \<and> (''shodan-host'', host_ip y) = (''shodan-host'', host_ip h)" if "h \<in> set (cr_shodan r)" for h
      using shodan_of_row [OF r, of "host_ip h"] known that by (fastforce simp: evidence_of_def)
    show "set ((shodan_of \<circ> evidence_of r) kv) \<subseteq> set (cr_shodan r)" for kv
      unfolding comp_apply evidence_of_def Let_def by (auto split: option.splits dest!: find_first)
  qed
  show "set (concat (map takeover_of (map (evidence_of r) (cr_results r)))) = set (cr_takeover r)"
    unfolding list.map_comp
  proof (rule one_each [where f = "\<lambda>c. (''takeover'', cand_hostname c)"])
    have "distinct (map cand_hostname (cr_takeover r))"
      using accepted_takeover(1) [OF acc] unfolding canonical_takeover_outcomes_def by (rule collected_keys(1))
    then show "inj_on (\<lambda>c. (''takeover'', cand_hostname c)) (set (cr_takeover r))" by (auto simp: distinct_map inj_on_def)
    show known: "(\<lambda>c. (''takeover'', cand_hostname c)) ` set (cr_takeover r) \<subseteq> set (cr_results r)"
      unfolding accepted_takeover(2) [OF acc] by (auto simp: of_kind_def)
    show "\<exists>y\<in>set (cr_takeover r). (takeover_of \<circ> evidence_of r) (''takeover'', cand_hostname c) = [y]
        \<and> (''takeover'', cand_hostname y) = (''takeover'', cand_hostname c)" if "c \<in> set (cr_takeover r)" for c
      using takeover_of_row [OF r, of "cand_hostname c"] known that by (fastforce simp: evidence_of_def)
    show "set ((takeover_of \<circ> evidence_of r) kv) \<subseteq> set (cr_takeover r)" for kv
      unfolding comp_apply evidence_of_def Let_def by (auto split: option.splits dest!: find_first)
  qed
qed

lemma collections_back:
  assumes r: "storable_result r"
  shows "canon_by vhost_key (concat (map vhosts_of (map (evidence_of r) (cr_results r)))) = cr_vhosts r"
    and "canon_by network_sort_key (concat (map networks_of (map (evidence_of r) (cr_results r)))) = cr_network r"
    and "canonical_shodan_hosts (concat (map shodan_of (map (evidence_of r) (cr_results r)))) = Inr (cr_shodan r)"
    and "canonical_takeover_outcomes (concat (map takeover_of (map (evidence_of r) (cr_results r)))) = Inr (cr_takeover r)"
proof -
  have acc: "new_completed r = Inr r" and read: "readable_result r" using r by (simp_all add: storable_result_def)
  have "canon_by vhost_key (concat (map vhosts_of (map (evidence_of r) (cr_results r)))) = canon_by vhost_key (cr_vhosts r)"
    using read evidence_sets(1) [OF r] by (intro canon_by_cong_set) (simp_all only: readable_result_def)
  then show "canon_by vhost_key (concat (map vhosts_of (map (evidence_of r) (cr_results r)))) = cr_vhosts r"
    using accepted_provenance(8) [OF acc] by (rule trans [OF _ sym])
  note c = canonical_network_Inr [OF accepted_network(1) [OF acc]]
  have "inj_on network_sort_key (set (cr_network r))"
    using read by (intro inj_onI network_sort_key_inj) (simp_all add: readable_result_def list_all_iff)
  moreover have "distinct (cr_network r)" "sorted (map network_sort_key (cr_network r))" using c by (auto dest: distinct_mapI)
  ultimately show "canon_by network_sort_key (concat (map networks_of (map (evidence_of r) (cr_results r)))) = cr_network r"
    by (intro canon_by_unique) (simp_all only: evidence_sets [OF r])
  have "inj_on host_key (set (cr_shodan r))" using read by (simp only: readable_result_def)
  from collect_unique_again [OF accepted_shodan(1) [OF acc, unfolded canonical_shodan_hosts_def] this evidence_sets(3) [OF r]]
  show "canonical_shodan_hosts (concat (map shodan_of (map (evidence_of r) (cr_results r)))) = Inr (cr_shodan r)"
    unfolding canonical_shodan_hosts_def .
  have t: "bindR (collect_unique cand_hostname takeover_conflict (cr_takeover r) []) (\<lambda>m. Inr (sort_key cand_hostname (map snd m))) = Inr (cr_takeover r)"
    using accepted_takeover(1) [OF acc] unfolding canonical_takeover_outcomes_def .
  then have "inj_on cand_hostname (set (cr_takeover r))" using collected_keys(1) [OF t] by (simp add: distinct_map)
  from collect_unique_again [OF t this evidence_sets(4) [OF r]]
  show "canonical_takeover_outcomes (concat (map takeover_of (map (evidence_of r) (cr_results r)))) = Inr (cr_takeover r)"
    unfolding canonical_takeover_outcomes_def .
qed

lemma load_rows_back:
  assumes r: "storable_result r" and rows: "result_rows r = Inr rows"
  shows "load_rows (run_row_of r) rows (execution_rows r) (map (origin_of r) (origin_keys r))
      (map (artifact_of r) (enumerate 0 (active_artifacts (cr_actions r)))) (map (attribution_of r) (enumerate 0 (cr_asns r))) = Inr r"
proof -
  have acc: "new_completed r = Inr r" and p: "parts_ok r" and read: "readable_result r" using r by (simp_all add: storable_result_def)
  have times: "iso_time (isoformat (cr_started r)) = Inr (cr_started r)" "iso_time (isoformat (cr_completed r)) = Inr (cr_completed r)"
    using read by (simp_all add: iso_time_def readable_result_def)
  have asns: "(cr_asns r \<noteq> canonical_asn_attributions (cr_asns r)) = False" using accepted_attributions(1) [OF acc] by blast
  have active: "new_active_evidence (cr_actions r) = Inr (cr_actions r)" using p by (simp add: parts_ok_def)
  have eta: "\<lparr>cr_run_id = cr_run_id r, cr_target = cr_target r, cr_started = cr_started r, cr_completed = cr_completed r,
      cr_results = cr_results r, cr_sources = cr_sources r, cr_observations = cr_observations r, cr_actions = cr_actions r,
      cr_vhosts = cr_vhosts r, cr_network = cr_network r, cr_asns = cr_asns r, cr_shodan = cr_shodan r, cr_takeover = cr_takeover r,
      cr_evidence_status = cr_evidence_status r\<rparr> = r" by simp
  show ?thesis
    unfolding load_rows_def load_evidence_back [OF r rows, unfolded vhost_places_def] bindR_simps producer_rows(3) simp_thms if_False
      load_origins_back [OF r rows] load_artifacts_back [OF r rows] load_actions_back [OF r] load_attributions_back [OF r rows] asns
      run_row_of_def run_row.select_convs times load_sources_back [OF r] active collections_back [OF r] load_observations_back [OF r]
      result_rows_results [OF rows] eta by (rule acc)
qed

section \<open>The round trip\<close>

lemma load_run_of_rows:
  assumes "\<And>row. row \<in> set (st_runs db) \<Longrightarrow> run_id row = run \<Longrightarrow> row = parent" "parent \<in> set (st_runs db)" "run_id parent = run"
  shows "load_run db run = load_rows parent
    (sort_key res_position (filter (\<lambda>row. res_run row = run) (st_results db)))
    (sort_key exr_position (filter (\<lambda>row. exr_run row = run) (st_executions db)))
    (filter (\<lambda>row. org_run row = run) (st_origins db))
    (sort_key afr_position (filter (\<lambda>row. afr_run row = run) (st_artifacts db)))
    (sort_key atr_position (filter (\<lambda>row. atr_run row = run) (st_attributions db)))"
proof -
  have "find (\<lambda>row. run_id row = run) (st_runs db) = Some parent"
  proof (cases "find (\<lambda>row. run_id row = run) (st_runs db)")
    case None
    then show ?thesis using assms(2,3) by (auto simp: find_None_iff)
  next
    case (Some row)
    from find_first [OF this] assms(1) have "row = parent" by blast
    with Some show ?thesis by simp
  qed
  then show ?thesis by (simp add: load_run_def)
qed

lemma find_other: "\<not> P x \<Longrightarrow> find P (xs @ [x]) = find P xs"
  by (induction xs) auto

lemma save_then_load:
  assumes "store_ok db" "storable_result r" "cr_run_id r \<notin> set (map run_id (st_runs db))"
  shows "\<exists>db'. save_run db r = Inr db' \<and> store_ok db' \<and> load_run db' (cr_run_id r) = Inr r
    \<and> (\<forall>run. run \<noteq> cr_run_id r \<longrightarrow> load_run db' run = load_run db run)
    \<and> (\<forall>r'. cr_run_id r' = cr_run_id r \<longrightarrow> save_run db' r' = Inl (already_exists r'))"
proof -
  have "is_ok (result_rows r)" using assms(2) by (simp add: storable_result_def)
  then obtain rows where rows: "result_rows r = Inr rows" by (cases "result_rows r") auto
  note saved = save_run_written [OF assms(2) rows assms(3)]
  let ?as = "map (artifact_of r) (enumerate 0 (active_artifacts (cr_actions r)))" and ?ts = "map (attribution_of r) (enumerate 0 (cr_asns r))"
    and ?os = "map (origin_of r) (origin_keys r)"
  define db' where "db' = \<lparr>st_runs = st_runs db @ [run_row_of r], st_results = st_results db @ rows,
     st_executions = st_executions db @ execution_rows r, st_origins = st_origins db @ ?os,
     st_attributions = st_attributions db @ ?ts, st_artifacts = st_artifacts db @ ?as\<rparr>"
  have id: "run_id (run_row_of r) = cr_run_id r" by (simp add: run_row_of_def)
  note runs = result_rows_run [OF rows] execution_rows_run [of r] origin_rows_run [of r "origin_keys r"]
    artifact_rows_run [of r "enumerate 0 (active_artifacts (cr_actions r))"] attribution_rows_run [of r "enumerate 0 (cr_asns r)"]
  have "store_ok db'" using assms(1,3) runs unfolding store_ok_def Let_def db'_def by (auto simp: id)
  have fresh: "cr_run_id r \<notin> set (map res_run (st_results db))" "cr_run_id r \<notin> set (map exr_run (st_executions db))"
    "cr_run_id r \<notin> set (map org_run (st_origins db))" "cr_run_id r \<notin> set (map afr_run (st_artifacts db))"
    "cr_run_id r \<notin> set (map atr_run (st_attributions db))"
    using assms(1,3) unfolding store_ok_def Let_def by blast+
  note own = own_rows [OF fresh(1) runs(1)] own_rows [OF fresh(2) runs(2)] own_rows [OF fresh(3) runs(3)] own_rows [OF fresh(4) runs(4)]
    own_rows [OF fresh(5) runs(5)]
  have "row = run_row_of r" if "row \<in> set (st_runs db')" "run_id row = cr_run_id r" for row
  proof -
    from that(1) have "row \<in> set (st_runs db) \<or> row = run_row_of r" by (auto simp: db'_def)
    then show ?thesis using assms(3) that(2) by (metis image_eqI set_map)
  qed
  moreover have "run_row_of r \<in> set (st_runs db')" by (simp add: db'_def)
  note load_run_of_rows [OF calculation this id]
  then
  have "load_run db' (cr_run_id r) = load_rows (run_row_of r) rows (execution_rows r) ?os ?as ?ts"
    unfolding db'_def result_store.select_convs own placed_sorted [OF result_rows_placed [OF rows]] placed_sorted [OF execution_rows_placed]
      placed_sorted [OF artifact_rows_placed] placed_sorted [OF attribution_rows_placed] .
  then have "load_run db' (cr_run_id r) = Inr r" using load_rows_back [OF assms(2) rows] by simp
  moreover have "load_run db' run = load_run db run" if "run \<noteq> cr_run_id r" for run
  proof -
    have "find (\<lambda>row. run_id row = run) (st_runs db @ [run_row_of r]) = find (\<lambda>row. run_id row = run) (st_runs db)"
      using that id by (intro find_other) simp
    then show ?thesis
      unfolding load_run_def db'_def result_store.select_convs other_rows [OF that runs(1)] other_rows [OF that runs(2)]
        other_rows [OF that runs(3)] other_rows [OF that runs(4)] other_rows [OF that runs(5)] by simp
  qed
  moreover have "save_run db' r' = Inl (already_exists r')" if "cr_run_id r' = cr_run_id r" for r'
    using that by (simp add: save_run_def insert_error_def db'_def id)
  ultimately show ?thesis using saved \<open>store_ok db'\<close> by (auto simp: db'_def)
qed

text \<open>C4: A saved result that is readable is loaded exactly as it was saved. Let the result be \<open>storable\<close>: accepted by
  the constructor, its details within the size limits, and its evidence such that the readers read it back (times of the
  years 1 to 9999, no white space at the ends of Shodan names, no resolver with an IPv6 scope, keys that order the
  virtual-host and Shodan evidence). Saving it under a new run id in a well-formed store then succeeds and keeps the store
  well formed, loading the run returns the same result with all its observations, executions, artifacts, evidence and
  times, every other run is loaded as before, and no result can be saved again under this id. Without the condition the
  code saves results that it cannot load (\<open>spaced_name_not_read_back\<close>).\<close>

theorem saved_result_loads_back:
  assumes "store_ok db" "storable_result r" "cr_run_id r \<notin> set (map run_id (st_runs db))"
  shows "\<exists>db'. save_run db r = Inr db' \<and> store_ok db' \<and> load_run db' (cr_run_id r) = Inr r
    \<and> (\<forall>run. run \<noteq> cr_run_id r \<longrightarrow> load_run db' run = load_run db run)
    \<and> (\<forall>r'. cr_run_id r' = cr_run_id r \<longrightarrow> save_run db' r' = Inl (already_exists r'))"
  using assms by (rule save_then_load)

section \<open>Example\<close>

definition example_result :: completed where
  "example_result =
     \<lparr>cr_run_id = ''run-1'', cr_target = ''example.com'', cr_started = 63902649500000000, cr_completed = 63902649800000000,
      cr_results = [(''asn'', ''AS64500''), (''hostname'', ''www.example.com''), (''prefix'', ''192.0.2.0/24'')],
      cr_sources = [\<lparr>sx_source = ''shodan'', sx_status = ''completed'', sx_duration = 1250, sx_count = 2, sx_error = None, sx_stop = None\<rparr>],
      cr_observations = [\<lparr>ro_source = ''shodan'', ro_kind = ''asn'', ro_value = ''AS64500''\<rparr>,
        \<lparr>ro_source = ''shodan'', ro_kind = ''hostname'', ro_value = ''www.example.com''\<rparr>],
      cr_actions = [
        \<lparr>exe_action = ''routeviews'', exe_status = ''completed'', exe_duration = 10, exe_observations = [\<lparr>ao_kind = ''prefix'', ao_value = ''192.0.2.0/24''\<rparr>],
         exe_artifacts = [], exe_error = None, exe_stop = None\<rparr>,
        \<lparr>exe_action = ''screenshot'', exe_status = ''partial'', exe_duration = 20, exe_observations = [],
         exe_artifacts = [\<lparr>art_kind = ''screenshot'', art_subject_kind = ''hostname'', art_subject = ''www.example.com'', art_path = ''www.png'',
           art_media_type = ''image/png'', art_size = 512, art_sha256 = replicate 64 CHR ''a'', art_created = 63902649700000000\<rparr>],
         exe_error = Some ''TimeoutError'', exe_stop = None\<rparr>],
      cr_vhosts = [], cr_network = example_observations, cr_asns = [example_attribution], cr_shodan = [], cr_takeover = [], cr_evidence_status = None\<rparr>"

lemma example_result_checks:
  "list_all (\<lambda>c. \<not> fst c) (time_checks example_result)" "is_ok (check_canonical (cr_results example_result))"
  "list_all (\<lambda>c. \<not> fst c) (provenance_checks example_result)" "list_all (\<lambda>c. \<not> fst c) (vhost_checks example_result)"
  "list_all (\<lambda>x. is_ok (network_check example_result x) \<and> within_run example_result (net_collected x)) (cr_network example_result)"
  "is_ok (check_shodan example_result)" "is_ok (check_takeover example_result)" "is_ok (check_attributions example_result)"
  by code_simp+

lemma example_result_parts: "parts_ok example_result" "list_all (\<lambda>(_, a). valid_time (art_created a)) (active_artifacts (cr_actions example_result))"
  by code_simp+

lemma example_result_accepted: "new_completed example_result = Inr example_result"
proof -
  have n: "cr_network example_result = example_observations" by (simp add: example_result_def)
  have "bindR (mapR (network_check example_result) example_observations) (\<lambda>_. Inr ()) = Inr ()"
    unfolding mapR_unit_Inr using example_result_checks(5) by (simp add: n list_all_iff)
  moreover have "\<not> list_ex (\<lambda>obs. \<not> within_run example_result (net_collected obs)) example_observations"
    using example_result_checks(5) by (simp add: n list_all_iff list_ex_iff)
  ultimately have "is_ok (check_network example_result)" by (simp add: check_network_def n example_canonical)
  then show ?thesis
    using example_result_checks unfolding new_completed_Inr unit_res by (simp add: list_all_iff) (simp add: example_result_def)
qed

lemma example_result_storable: "storable_result example_result"
proof -
  have "valid_time 63902649500000000" "valid_time 63902649800000000" by code_simp+
  then have "readable_result example_result"
    using example_observations_ok example_result_parts(2) example_attribution_ok(2)
    by (simp add: readable_result_def list_all_iff) (simp add: example_result_def)
  moreover have "of_prefix ''192.0.2.0/24'' (cr_network example_result) = example_observations" "example_observations \<noteq> []"
    "cr_vhosts example_result = []" by (simp_all add: of_prefix_def example_result_def example_observations_def)
  then have "is_ok (row_details example_result (''prefix'', ''192.0.2.0/24''))" "is_ok (row_details example_result (''asn'', ''AS64500''))"
    "is_ok (row_details example_result (''hostname'', ''www.example.com''))" by (simp_all add: row_details_def example_written)
  then obtain a b c where "row_details example_result (''prefix'', ''192.0.2.0/24'') = Inr a" "row_details example_result (''asn'', ''AS64500'') = Inr b"
    "row_details example_result (''hostname'', ''www.example.com'') = Inr c" by (auto simp: is_ok_def split: sum.splits)
  moreover have "cr_results example_result = [(''asn'', ''AS64500''), (''hostname'', ''www.example.com''), (''prefix'', ''192.0.2.0/24'')]"
    by (simp add: example_result_def)
  ultimately have "readable_result example_result" "is_ok (result_rows example_result)" by (simp_all add: result_rows_def)
  then show ?thesis using example_result_parts(1) example_result_accepted by (simp add: storable_result_def)
qed

definition empty_store :: result_store where
  "empty_store = \<lparr>st_runs = [], st_results = [], st_executions = [], st_origins = [], st_attributions = [], st_artifacts = []\<rparr>"

lemma saved_result_loads_back_witness:
  "\<exists>db'. save_run empty_store example_result = Inr db' \<and> load_run db' ''run-1'' = Inr example_result"
proof -
  have "store_ok empty_store" "cr_run_id example_result \<notin> set (map run_id (st_runs empty_store))"
    by (simp_all add: store_ok_def empty_store_def)
  from saved_result_loads_back [OF this(1) example_result_storable this(2)] show ?thesis by (auto simp: example_result_def)
qed

end
