(* ===== verification/Store_History.thy ===== *)
theory Store_History
  imports Result_Round_Trip
begin

text \<open>
  The store over time (lib/database.py): its list of runs, the copy of every run into another database, and the
  stores that come about by saving results one after the other. The order of the list is that of SQLite's
  \<open>julianday\<close> of the completion times, which is a parameter; run ids are the texts of UUIDs.
\<close>

section \<open>Listing and copying\<close>

record run_summary =
  sum_run :: string
  sum_target :: string
  sum_started :: string
  sum_completed :: string
  sum_count :: nat

text \<open>\<open>ORDER BY julianday(completed_at) DESC, run_id DESC\<close>; a missing value is the least\<close>

definition list_order :: "(string \<Rightarrow> rat option) \<Rightarrow> run_row \<Rightarrow> nat \<times> rat \<times> string" where
  "list_order julianday row = (case julianday (run_completed row) of None \<Rightarrow> (0, 0, run_id row) | Some d \<Rightarrow> (1, d, run_id row))"

definition summary_row :: "result_store \<Rightarrow> run_row \<Rightarrow> run_summary" where
  "summary_row db row =
     \<lparr>sum_run = run_id row, sum_target = run_target row, sum_started = run_started row, sum_completed = run_completed row,
      sum_count = length (filter (\<lambda>x. res_run x = run_id row) (st_results db))\<rparr>"

definition list_runs :: "(string \<Rightarrow> rat option) \<Rightarrow> nat option \<Rightarrow> nat \<Rightarrow> result_store \<Rightarrow> run_summary list" where
  "list_runs julianday limit offset db =
     (let rows = map (summary_row db) (drop offset (rev (sort_key (list_order julianday) (st_runs db))))
      in case limit of None \<Rightarrow> rows | Some n \<Rightarrow> take n rows)"

fun export_runs :: "result_store \<Rightarrow> run_summary list \<Rightarrow> result_store \<Rightarrow> result_store res" where
  "export_runs db [] exported = Inr exported"
| "export_runs db (s # ss) exported =
     bindR (load_run db (sum_run s)) (\<lambda>r. bindR (save_run exported r) (export_runs db ss))"

definition export_database :: "(string \<Rightarrow> rat option) \<Rightarrow> result_store \<Rightarrow> result_store \<Rightarrow> result_store res" where
  "export_database julianday db exported = export_runs db (list_runs julianday None 0 db) exported"

section \<open>The stores that arise\<close>

text \<open>A store into which these results were saved, in this order\<close>

inductive history :: "completed list \<Rightarrow> result_store \<Rightarrow> bool" where
  history_empty: "history [] empty_store"
| history_save: "history rs db \<Longrightarrow> storable_result r \<Longrightarrow> save_run db r = Inr db' \<Longrightarrow> history (rs @ [r]) db'"

text \<open>The abstract store: a map from run ids to results\<close>

definition stored_result :: "completed list \<Rightarrow> string \<Rightarrow> completed res" where
  "stored_result rs run =
     (case map_of (map (\<lambda>r. (cr_run_id r, r)) rs) run of None \<Rightarrow> Inl (LookupError (''completed result not found: '' @ run)) | Some r \<Rightarrow> Inr r)"

definition summary_of :: "completed \<Rightarrow> run_summary" where
  "summary_of r =
     \<lparr>sum_run = cr_run_id r, sum_target = cr_target r, sum_started = isoformat (cr_started r), sum_completed = isoformat (cr_completed r),
      sum_count = length (cr_results r)\<rparr>"

lemma save_run_fresh: "save_run db r = Inr db' \<Longrightarrow> cr_run_id r \<notin> set (map run_id (st_runs db))"
  by (auto simp: save_run_def insert_error_def split: if_splits)

lemma load_run_missing: "run \<notin> set (map run_id (st_runs db)) \<Longrightarrow> load_run db run = Inl (LookupError (''completed result not found: '' @ run))"
proof -
  assume "run \<notin> set (map run_id (st_runs db))"
  then have "find (\<lambda>row. run_id row = run) (st_runs db) = None" by (auto simp: find_None_iff)
  then show ?thesis by (simp add: load_run_def)
qed

definition represents :: "completed list \<Rightarrow> result_store \<Rightarrow> bool" where
  "represents rs db =
     (store_ok db \<and> st_runs db = map run_row_of rs \<and> distinct (map cr_run_id rs) \<and> list_all storable_result rs
      \<and> (\<forall>r\<in>set rs. length (filter (\<lambda>x. res_run x = cr_run_id r) (st_results db)) = length (cr_results r))
      \<and> (\<forall>r\<in>set rs. load_run db (cr_run_id r) = Inr r))"

lemma run_ids: "map run_id (map run_row_of rs) = map cr_run_id rs"
  by (simp add: run_row_of_def)

lemma represents_empty: "represents [] empty_store"
  by (simp add: represents_def store_ok_def empty_store_def)

lemma represents_save:
  assumes "represents rs db" "storable_result r" "cr_run_id r \<notin> set (map cr_run_id rs)"
  shows "\<exists>db'. save_run db r = Inr db' \<and> represents (rs @ [r]) db'"
proof -
  have ids: "map run_id (st_runs db) = map cr_run_id rs" using assms(1) unfolding represents_def by (metis run_ids)
  then have fresh: "cr_run_id r \<notin> set (map run_id (st_runs db))" using assms(3) by simp
  have ok: "store_ok db" using assms(1) by (simp add: represents_def)
  from save_then_load [OF ok assms(2) fresh] obtain db' where db': "save_run db r = Inr db'" "store_ok db'" "load_run db' (cr_run_id r) = Inr r"
    "\<And>run. run \<noteq> cr_run_id r \<Longrightarrow> load_run db' run = load_run db run" by blast
  obtain rows where rows: "result_rows r = Inr rows" using assms(2) by (cases "result_rows r") (simp_all add: storable_result_def)
  from save_run_written [OF assms(2) rows fresh] db'(1)
  have parts: "st_runs db' = st_runs db @ [run_row_of r]" "st_results db' = st_results db @ rows" by auto
  have other: "cr_run_id q \<noteq> cr_run_id r" if "q \<in> set rs" for q using that assms(3) by (metis image_eqI set_map)
  have "cr_run_id r \<notin> set (map res_run (st_results db))" using ok fresh unfolding store_ok_def Let_def by blast
  then have own: "filter (\<lambda>x. res_run x = cr_run_id r) (st_results db') = rows"
    unfolding parts by (rule own_rows) (rule result_rows_run [OF rows])
  have others: "filter (\<lambda>x. res_run x = cr_run_id q) (st_results db') = filter (\<lambda>x. res_run x = cr_run_id q) (st_results db)" if "q \<in> set rs" for q
    unfolding parts by (rule other_rows [OF other [OF that] result_rows_run [OF rows]])
  have "represents (rs @ [r]) db'"
    using assms db'(2-4) other unfolding represents_def parts(1) by (auto simp: own others result_rows_length [OF rows])
  with db'(1) show ?thesis by blast
qed

lemma history_represents: "history rs db \<Longrightarrow> represents rs db"
proof (induction rule: history.induct)
  case history_empty
  show ?case by (rule represents_empty)
next
  case (history_save rs db r db')
  have "map run_id (st_runs db) = map cr_run_id rs" using history_save.IH unfolding represents_def by (metis run_ids)
  then have "cr_run_id r \<notin> set (map cr_run_id rs)" using save_run_fresh [OF history_save.hyps(3)] by simp
  from represents_save [OF history_save.IH history_save.hyps(2) this] history_save.hyps(3) show ?case by auto
qed

lemma represents_loads: "represents rs db \<Longrightarrow> load_run db run = stored_result rs run"
proof (cases "run \<in> set (map cr_run_id rs)")
  case True
  assume rep: "represents rs db"
  from True obtain r where r: "r \<in> set rs" "cr_run_id r = run" by auto
  have "distinct (map fst (map (\<lambda>r. (cr_run_id r, r)) rs))" using rep by (simp add: represents_def comp_def)
  then have "map_of (map (\<lambda>r. (cr_run_id r, r)) rs) run = Some r" using r by auto
  then show ?thesis using rep r unfolding represents_def stored_result_def by auto
next
  case False
  assume rep: "represents rs db"
  have "map run_id (st_runs db) = map cr_run_id rs" using rep unfolding represents_def by (metis run_ids)
  then have "run \<notin> set (map run_id (st_runs db))" using False by simp
  moreover have "map_of (map (\<lambda>r. (cr_run_id r, r)) rs) run = None" using False by (auto simp: map_of_eq_None_iff)
  ultimately show ?thesis by (simp add: load_run_missing stored_result_def)
qed

lemma insort_map: "insort_key f (g x) (map g xs) = map g (insort_key (f \<circ> g) x xs)"
  by (induction xs) simp_all

lemma represents_lists:
  assumes "represents rs db"
  shows "list_runs julianday None 0 db = map summary_of (rev (sort_key (list_order julianday \<circ> run_row_of) rs))"
proof -
  have "summary_row db (run_row_of r) = summary_of r" if "r \<in> set rs" for r
    using assms that by (simp add: summary_row_def summary_of_def run_row_of_def represents_def)
  then have "map (summary_row db \<circ> run_row_of) (rev (sort_key (list_order julianday \<circ> run_row_of) rs))
      = map summary_of (rev (sort_key (list_order julianday \<circ> run_row_of) rs))" by (intro map_cong) simp_all
  moreover have "sort_key (list_order julianday) (map run_row_of rs) = map run_row_of (sort_key (list_order julianday \<circ> run_row_of) rs)"
    by (induction rs) (simp_all add: insort_map comp_def)
  ultimately show ?thesis using assms by (simp add: list_runs_def represents_def rev_map)
qed

lemma export_represents:
  assumes "represents rs db"
  shows "represents os exported \<Longrightarrow> set qs \<subseteq> set rs \<Longrightarrow> distinct (map cr_run_id (os @ qs)) \<Longrightarrow>
    \<exists>exported'. export_runs db (map summary_of qs) exported = Inr exported' \<and> represents (os @ qs) exported'"
proof (induction qs arbitrary: os exported)
  case (Cons q qs)
  have q: "load_run db (cr_run_id q) = Inr q" "storable_result q" using assms Cons.prems(2) by (simp_all add: represents_def list_all_iff)
  from represents_save [OF Cons.prems(1) q(2)] Cons.prems(3) obtain e where e: "save_run exported q = Inr e" "represents (os @ [q]) e" by auto
  from Cons.IH [OF e(2)] Cons.prems(2,3) show ?case by (simp add: q(1) e(1) summary_of_def)
qed simp

lemma stored_result_order: "set qs = set rs \<Longrightarrow> distinct (map cr_run_id qs) \<Longrightarrow> distinct (map cr_run_id rs) \<Longrightarrow> stored_result qs = stored_result rs"
proof -
  assume eq: "set qs = set rs" and d: "distinct (map cr_run_id qs)" "distinct (map cr_run_id rs)"
  have "map_of (map (\<lambda>r. (cr_run_id r, r)) qs) = map_of (map (\<lambda>r. (cr_run_id r, r)) rs)"
    using d eq by (subst map_of_inject_set) (simp_all add: comp_def)
  then show ?thesis by (simp add: stored_result_def fun_eq_iff)
qed

section \<open>The store as a map\<close>

text \<open>C3: A store of readable results is a map from run ids to results. Whatever results were saved, in whatever
  order, as long as each is \<open>storable\<close> (accepted by the constructor, evidence that its readers read back, details within
  the size limits; this leaves out a result with a Shodan name that ends in white space, which the code saves and then
  cannot load), loading an id returns the result saved under it and fails for every other id; the list of runs names each
  of them once, newest first, with its number of results; and copying the store into an empty database succeeds and gives
  a store that loads the same results.\<close>

theorem store_is_a_map:
  assumes "history rs db"
  shows "(\<forall>run. load_run db run = stored_result rs run)
    \<and> list_runs julianday None 0 db = map summary_of (rev (sort_key (list_order julianday \<circ> run_row_of) rs))
    \<and> (\<exists>copy. export_database julianday db empty_store = Inr copy \<and> (\<forall>run. load_run copy run = load_run db run))"
proof -
  have rep: "represents rs db" using assms by (rule history_represents)
  let ?qs = "rev (sort_key (list_order julianday \<circ> run_row_of) rs)"
  have d: "distinct (map cr_run_id rs)" using rep by (simp add: represents_def)
  then have dq: "distinct (map cr_run_id ?qs)" by (auto simp: distinct_map)
  from export_represents [OF rep represents_empty, of ?qs] dq obtain copy where
    "export_runs db (map summary_of ?qs) empty_store = Inr copy" "represents ?qs copy" by auto
  moreover have "stored_result ?qs = stored_result rs" using stored_result_order [OF _ dq d] by simp
  ultimately have "export_database julianday db empty_store = Inr copy \<and> (\<forall>run. load_run copy run = load_run db run)"
    using represents_loads [OF rep] represents_loads [of ?qs copy] by (simp add: export_database_def represents_lists [OF rep])
  then show ?thesis using represents_loads [OF rep] represents_lists [OF rep] by blast
qed

lemma store_is_a_map_witness: "\<exists>db. load_run db ''run-1'' = Inr example_result \<and> load_run db ''run-2'' = Inl (LookupError ''completed result not found: run-2'')"
proof -
  obtain db where "save_run empty_store example_result = Inr db"
    using represents_save [OF represents_empty example_result_storable] by auto
  from history_save [OF history_empty example_result_storable this] have h: "history [example_result] db" by simp
  have "cr_run_id example_result = ''run-1''" by (simp add: example_result_def)
  with store_is_a_map [OF h] show ?thesis by (auto simp: stored_result_def intro!: exI [of _ db])
qed

end
