(* ===== verification/Hostname_Comparison.thy ===== *)
theory Hostname_Comparison
  imports Store_History
begin

text \<open>
  The comparison of the hostnames of successive runs (lib/hostname_comparison.py, and the reading of the runs in
  lib/database.py): what each run keeps for the comparison, the choice of the previous run with the same sources, the
  differences and their counts. The decoder of JSON texts is a parameter; run ids are the texts of UUIDs.
\<close>

section \<open>The evidence of one run\<close>

record comparison_outcome =
  co_source :: string
  co_status :: string
  co_error :: "string option"
  co_stop :: "string option"

record comparable =
  cmp_run :: string
  cmp_target :: string
  cmp_completed :: int
  cmp_outcomes :: "comparison_outcome list"
  cmp_hostnames :: "(string \<times> string list) list"
  cmp_resolved :: "string list"
  cmp_dns :: "string option"
  cmp_address :: "(string \<times> string) list"

definition compared_sources :: "comparable \<Rightarrow> string list" where
  "compared_sources r = map co_source (cmp_outcomes r)"

definition ADDRESSABILITY :: "string list" where
  "ADDRESSABILITY = [''currently-addressable'', ''not-currently-addressable'', ''resolver-disputed'', ''wildcard-indistinguishable'']"

text \<open>The hostname results that a source, or the DNS resolution, links to\<close>

definition linked :: "execution_row list \<Rightarrow> result_row list \<Rightarrow> origin_row \<Rightarrow> (execution_row \<times> string) option" where
  "linked executions results origin =
     (case (row_at exr_position executions (org_execution origin), row_at res_position results (org_result origin)) of
        (Some execution, Some result) \<Rightarrow> if res_kind result \<noteq> ''hostname'' then None else Some (execution, res_value result)
      | _ \<Rightarrow> None)"

definition source_links :: "(execution_row \<times> string) list \<Rightarrow> (string \<times> string) list" where
  "source_links links = map (\<lambda>(execution, h). (h, exr_name execution)) (filter (\<lambda>(execution, h). exr_producer execution = ''source'') links)"

definition resolved_links :: "(execution_row \<times> string) list \<Rightarrow> string list" where
  "resolved_links links =
     map snd (filter (\<lambda>(execution, h). exr_producer execution = ''action'' \<and> exr_name execution = ''dns-resolve'') links)"

text \<open>\<open>sorted\<close> of the dictionary of sets\<close>

definition group_sources :: "(string \<times> string) list \<Rightarrow> (string \<times> string list) list" where
  "group_sources links = map (\<lambda>h. (h, canon (map snd (filter (\<lambda>l. fst l = h) links)))) (canon (map fst links))"

text \<open>A classification whose addressability is an array or an object raises: it is looked up in a set.\<close>

definition classification_of :: "json \<Rightarrow> (string \<times> string) option res" where
  "classification_of v =
     (case v of
        JObj obj \<Rightarrow>
          (case map_of obj ''hostname'' of
             Some (JStr h) \<Rightarrow>
               (case map_of obj ''addressability'' of
                  Some (JStr a) \<Rightarrow> Inr (if a \<in> set ADDRESSABILITY then Some (h, a) else None)
                | Some (JList xs) \<Rightarrow> Inl (TypeError ''unhashable type'')
                | Some (JObj xs) \<Rightarrow> Inl (TypeError ''unhashable type'')
                | _ \<Rightarrow> Inr None)
           | _ \<Rightarrow> Inr None)
      | _ \<Rightarrow> Inr None)"

fun classifications :: "(string \<Rightarrow> json option) \<Rightarrow> result_row list \<Rightarrow> (string \<times> string) list \<Rightarrow> (string \<times> string) list res" where
  "classifications decode [] found = Inr found"
| "classifications decode (row # rows) found =
     (if res_kind row \<noteq> ''dns-recursive-classification'' then classifications decode rows found
      else (case decode (res_value row) of
              None \<Rightarrow> classifications decode rows found
            | Some v \<Rightarrow>
                bindR (classification_of v) (\<lambda>c. case c of
                    None \<Rightarrow> classifications decode rows found
                  | Some (h, a) \<Rightarrow> classifications decode rows (AList.update h a found))))"

definition outcome_row :: "execution_row \<Rightarrow> comparison_outcome" where
  "outcome_row row = \<lparr>co_source = exr_name row, co_status = exr_status row, co_error = exr_error row, co_stop = exr_stop row\<rparr>"

definition load_comparison_run :: "(string \<Rightarrow> json option) \<Rightarrow> result_store \<Rightarrow> string \<Rightarrow> comparable res" where
  "load_comparison_run decode db run =
     (let executions = filter (\<lambda>row. exr_run row = run) (st_executions db);
          results = filter (\<lambda>row. res_run row = run) (st_results db);
          origins = filter (\<lambda>row. org_run row = run) (st_origins db)
      in case find (\<lambda>row. run_id row = run) (st_runs db) of
           None \<Rightarrow> Inl (LookupError (''completed result not found: '' @ run))
         | Some parent \<Rightarrow>
             (let links = List.map_filter (linked executions results) origins
              in bindR (classifications decode results []) (\<lambda>address.
                 bindR (iso_time (run_completed parent)) (\<lambda>finished.
                 Inr \<lparr>cmp_run = run_id parent, cmp_target = run_target parent, cmp_completed = finished,
                   cmp_outcomes = map outcome_row (filter (\<lambda>row. exr_producer row = ''source'') (sort_key exr_name executions)),
                   cmp_hostnames = group_sources (source_links links), cmp_resolved = canon (resolved_links links),
                   cmp_dns = map_option exr_status (find (\<lambda>row. exr_producer row = ''action'' \<and> exr_name row = ''dns-resolve'') executions),
                   cmp_address = sort_key (\<lambda>p. p) address\<rparr>))))"

section \<open>Differences\<close>

datatype change = Newly_reported | Still_reported | No_longer_reported | Uncertain

datatype resolution = Positive | Not_retained | Not_checked

definition reporters :: "comparable \<Rightarrow> string \<Rightarrow> string list" where
  "reporters r h = (case map_of (rev (cmp_hostnames r)) h of None \<Rightarrow> [] | Some ss \<Rightarrow> ss)"

definition resolution_of :: "comparable \<Rightarrow> string \<Rightarrow> resolution" where
  "resolution_of r h =
     (if h \<in> set (cmp_resolved r) then Positive
      else if h \<notin> set (map fst (cmp_hostnames r)) \<or> cmp_dns r \<noteq> Some ''completed'' then Not_checked
      else Not_retained)"

definition outcome_of :: "comparable \<Rightarrow> string \<Rightarrow> comparison_outcome option" where
  "outcome_of r s = map_of (rev (map (\<lambda>o1. (co_source o1, o1)) (cmp_outcomes r))) s"

fun incomplete_outcomes :: "comparable \<Rightarrow> string list \<Rightarrow> comparison_outcome list res" where
  "incomplete_outcomes r [] = Inr []"
| "incomplete_outcomes r (s # ss) =
     (case outcome_of r s of
        None \<Rightarrow> Inl KeyError
      | Some o1 \<Rightarrow> bindR (incomplete_outcomes r ss) (\<lambda>rest. Inr (if co_status o1 \<noteq> ''completed'' then o1 # rest else rest)))"

record difference_row =
  dr_run :: string
  dr_previous :: string
  dr_change :: change
  dr_hostname :: string
  dr_before :: "string list"
  dr_now :: "string list"
  dr_single :: bool
  dr_incomplete :: "comparison_outcome list"
  dr_resolution_before :: resolution
  dr_resolution_now :: resolution
  dr_dns_before :: "string option"
  dr_dns_now :: "string option"
  dr_address_before :: "string option"
  dr_address_now :: "string option"

definition judge_change :: "comparable \<Rightarrow> comparable \<Rightarrow> string \<Rightarrow> (change \<times> comparison_outcome list) res" where
  "judge_change current previous h =
     (let before = reporters previous h; now = reporters current h
      in if before = [] then
           bindR (incomplete_outcomes previous now) (\<lambda>missing. Inr (if missing \<noteq> [] then Uncertain else Newly_reported, missing))
         else if now \<noteq> [] then Inr (Still_reported, [])
         else bindR (incomplete_outcomes current before) (\<lambda>missing. Inr (if missing \<noteq> [] then Uncertain else No_longer_reported, missing)))"

definition make_row :: "comparable \<Rightarrow> comparable \<Rightarrow> string \<Rightarrow> difference_row res" where
  "make_row current previous h =
     bindR (judge_change current previous h) (\<lambda>(change, missing).
       (let before = reporters previous h; now = reporters current h; reported = (if now \<noteq> [] then now else before)
        in Inr \<lparr>dr_run = cmp_run current, dr_previous = cmp_run previous, dr_change = change, dr_hostname = h, dr_before = before, dr_now = now,
             dr_single = (length reported = 1), dr_incomplete = missing, dr_resolution_before = resolution_of previous h,
             dr_resolution_now = resolution_of current h, dr_dns_before = cmp_dns previous, dr_dns_now = cmp_dns current,
             dr_address_before = map_of (rev (cmp_address previous)) h, dr_address_now = map_of (rev (cmp_address current)) h\<rparr>))"

section \<open>The comparison\<close>

record run_comparison =
  rc_run :: string
  rc_completed :: string
  rc_previous :: "string option"
  rc_previous_completed :: "string option"
  rc_sources :: "string list"
  rc_counts :: "(change \<times> nat) list"
  rc_message :: "string option"

fun change_order :: "change \<Rightarrow> nat" where
  "change_order Newly_reported = 0"
| "change_order No_longer_reported = 1"
| "change_order Uncertain = 2"
| "change_order Still_reported = 3"

text \<open>The dictionary of counts\<close>

definition no_counts :: "(change \<times> nat) list" where
  "no_counts = [(Newly_reported, 0), (Still_reported, 0), (No_longer_reported, 0), (Uncertain, 0)]"

definition count_change :: "change \<Rightarrow> (change \<times> nat) list \<Rightarrow> (change \<times> nat) list" where
  "count_change c counts = map (\<lambda>(d, n). (d, if d = c then Suc n else n)) counts"

fun compare_hostnames ::
  "bool \<Rightarrow> comparable \<Rightarrow> comparable \<Rightarrow> string list \<Rightarrow> (change \<times> nat) list \<Rightarrow> difference_row list
   \<Rightarrow> ((change \<times> nat) list \<times> difference_row list) res" where
  "compare_hostnames all_rows current previous [] counts rows = Inr (counts, rows)"
| "compare_hostnames all_rows current previous (h # hs) counts rows =
     bindR (make_row current previous h) (\<lambda>row.
       compare_hostnames all_rows current previous hs (count_change (dr_change row) counts)
         (if dr_change row \<noteq> Still_reported \<or> all_rows then rows @ [row] else rows))"

definition compared_hostnames :: "comparable \<Rightarrow> comparable \<Rightarrow> string list" where
  "compared_hostnames current previous = canon (map fst (cmp_hostnames previous) @ map fst (cmp_hostnames current))"

definition compare_run :: "bool \<Rightarrow> comparable \<Rightarrow> comparable option \<Rightarrow> (run_comparison \<times> difference_row list) res" where
  "compare_run all_rows current previous =
     (let report = \<lparr>rc_run = cmp_run current, rc_completed = isoformat (cmp_completed current), rc_previous = map_option cmp_run previous,
            rc_previous_completed = (case previous of None \<Rightarrow> None | Some p \<Rightarrow> Some (isoformat (cmp_completed p))), rc_sources = compared_sources current,
            rc_counts = no_counts, rc_message = None\<rparr>
      in case previous of
           None \<Rightarrow> Inr (report\<lparr>rc_message := Some ''No earlier finalized run has the same target and source list.''\<rparr>, [])
         | Some p \<Rightarrow>
             bindR (compare_hostnames all_rows current p (compared_hostnames current p) no_counts []) (\<lambda>(counts, rows).
               Inr (report\<lparr>rc_counts := counts\<rparr>, sort_key (\<lambda>row. (change_order (dr_change row), dr_hostname row)) rows)))"

fun comparison_loop ::
  "bool \<Rightarrow> string list \<Rightarrow> comparable list \<Rightarrow> (string list \<times> comparable) list \<Rightarrow> (run_comparison list \<times> difference_row list) res" where
  "comparison_loop all_rows selected [] by_sources = Inr ([], [])"
| "comparison_loop all_rows selected (current # runs) by_sources =
     (let previous = map_of by_sources (compared_sources current);
          by_sources' = AList.update (compared_sources current) current by_sources
      in if cmp_run current \<notin> set selected then comparison_loop all_rows selected runs by_sources'
         else bindR (compare_run all_rows current previous) (\<lambda>(c, rows).
              bindR (comparison_loop all_rows selected runs by_sources') (\<lambda>(cs, rest). Inr (c # cs, rows @ rest))))"

record comparison_report =
  rep_target :: string
  rep_count :: nat
  rep_comparisons :: "run_comparison list"
  rep_rows :: "difference_row list"

text \<open>\<open>[summary for summary in summaries if normalize_saved_target(summary['target']) == selected_target]\<close>\<close>

fun runs_of_target :: "string \<Rightarrow> run_summary list \<Rightarrow> string list res" where
  "runs_of_target selected [] = Inr []"
| "runs_of_target selected (s # ss) =
     bindR (normalize_saved_target (sum_target s)) (\<lambda>t.
     bindR (runs_of_target selected ss) (\<lambda>rest. Inr (if t = selected then sum_run s # rest else rest)))"

fun load_target_runs :: "(string \<Rightarrow> json option) \<Rightarrow> result_store \<Rightarrow> string \<Rightarrow> run_summary list \<Rightarrow> comparable list res" where
  "load_target_runs decode db selected [] = Inr []"
| "load_target_runs decode db selected (s # ss) =
     bindR (normalize_saved_target (sum_target s)) (\<lambda>t.
       if t \<noteq> selected then load_target_runs decode db selected ss
       else bindR (load_comparison_run decode db (sum_run s)) (\<lambda>r. bindR (load_target_runs decode db selected ss) (\<lambda>rest. Inr (r # rest))))"

definition select_runs ::
  "(string \<Rightarrow> json option) \<Rightarrow> result_store \<Rightarrow> run_summary list \<Rightarrow> string option \<Rightarrow> string option \<Rightarrow> (string \<times> string list) res" where
  "select_runs decode db summaries target run =
     (case run of
        Some i \<Rightarrow> bindR (load_comparison_run decode db i) (\<lambda>current. bindR (normalize_saved_target (cmp_target current)) (\<lambda>t. Inr (t, [i])))
      | None \<Rightarrow>
          (case target of
             Some name \<Rightarrow> bindR (normalize_saved_target name) (\<lambda>t. bindR (runs_of_target t summaries) (\<lambda>ids. Inr (t, ids)))
           | None \<Rightarrow> Inl (ValueError ''target or run_id is required'')))"

definition hostname_comparison ::
  "(string \<Rightarrow> json option) \<Rightarrow> (string \<Rightarrow> rat option) \<Rightarrow> result_store \<Rightarrow> string option \<Rightarrow> string option \<Rightarrow> bool \<Rightarrow> comparison_report res" where
  "hostname_comparison decode julianday db target run all_rows =
     (let summaries = list_runs julianday None 0 db
      in bindR (select_runs decode db summaries target run) (\<lambda>(selected_target, selected).
         bindR (load_target_runs decode db selected_target summaries) (\<lambda>runs.
         bindR (comparison_loop all_rows selected (sort_key (\<lambda>r. (cmp_completed r, cmp_run r)) runs) []) (\<lambda>(comparisons, rows).
           Inr \<lparr>rep_target = selected_target, rep_count = length comparisons, rep_comparisons = comparisons, rep_rows = rows\<rparr>))))"

section \<open>What a run keeps\<close>

definition reported :: "comparable \<Rightarrow> string set" where
  "reported r = fst ` set (cmp_hostnames r)"

definition comparable_ok :: "comparable \<Rightarrow> bool" where
  "comparable_ok r =
     (distinct (map fst (cmp_hostnames r)) \<and> (\<forall>(h, ss)\<in>set (cmp_hostnames r). ss \<noteq> [] \<and> set ss \<subseteq> set (compared_sources r)))"

lemma row_at_in: "row_at position rows n = Some row \<Longrightarrow> row \<in> set rows"
  unfolding row_at_def by (drule map_of_SomeD) auto

lemma group_sources_some: "(h, ss) \<in> set (group_sources links) \<Longrightarrow> ss \<noteq> []"
proof -
  assume "(h, ss) \<in> set (group_sources links)"
  then obtain l where l: "l \<in> set links" "fst l = h" "ss = canon (map snd (filter (\<lambda>l. fst l = h) links))" by (auto simp: group_sources_def)
  then have "l \<in> set (filter (\<lambda>l. fst l = h) links)" by simp
  then show "ss \<noteq> []" unfolding l(3) by (metis canon_Nil(2) list.map_disc_iff list.set_cases list.distinct(1))
qed

lemma group_sources_in: "(h, ss) \<in> set (group_sources links) \<Longrightarrow> s \<in> set ss \<Longrightarrow> (h, s) \<in> set links"
  by (auto simp: group_sources_def)

lemma source_links_in: "(h, s) \<in> set (source_links (List.map_filter (linked executions results) origins)) \<Longrightarrow>
    \<exists>row\<in>set executions. exr_producer row = ''source'' \<and> exr_name row = s"
  by (force simp: source_links_def List.map_filter_def linked_def dest: row_at_in split: option.splits if_splits)

lemma loaded_comparable: "load_comparison_run decode db run = Inr c \<Longrightarrow> comparable_ok c \<and> cmp_run c = run"
proof -
  assume load: "load_comparison_run decode db run = Inr c"
  let ?es = "filter (\<lambda>row. exr_run row = run) (st_executions db)"
  let ?links = "List.map_filter (linked ?es (filter (\<lambda>row. res_run row = run) (st_results db))) (filter (\<lambda>row. org_run row = run) (st_origins db))"
  from load obtain parent where parent: "find (\<lambda>row. run_id row = run) (st_runs db) = Some parent" "cmp_run c = run_id parent"
    and names: "cmp_hostnames c = group_sources (source_links ?links)"
    and os: "cmp_outcomes c = map outcome_row (filter (\<lambda>row. exr_producer row = ''source'') (sort_key exr_name ?es))"
    by (auto simp: load_comparison_run_def Let_def bindR_Inr_iff split: option.splits)
  have "distinct (map fst (cmp_hostnames c))" by (simp add: names group_sources_def comp_def)
  moreover have "ss \<noteq> [] \<and> set ss \<subseteq> set (compared_sources c)" if "(h, ss) \<in> set (cmp_hostnames c)" for h ss
  proof -
    note g = group_sources_some [OF that [unfolded names]] group_sources_in [OF that [unfolded names]]
    have "s \<in> set (compared_sources c)" if "s \<in> set ss" for s
      using source_links_in [OF g(2) [OF that]] unfolding compared_sources_def os by (auto simp: outcome_row_def)
    with g(1) show ?thesis by blast
  qed
  ultimately show ?thesis using parent find_first [OF parent(1)] unfolding comparable_ok_def by auto
qed

lemma reporters_ok:
  assumes "comparable_ok r"
  shows "reporters r h \<noteq> [] \<longleftrightarrow> h \<in> reported r" "set (reporters r h) \<subseteq> set (compared_sources r)"
proof -
  have d: "map_of (rev (cmp_hostnames r)) = map_of (cmp_hostnames r)" using assms by (intro map_of_last) (simp add: comparable_ok_def)
  show "reporters r h \<noteq> [] \<longleftrightarrow> h \<in> reported r"
  proof (cases "map_of (cmp_hostnames r) h")
    case None
    then have "h \<notin> reported r" by (simp add: map_of_eq_None_iff reported_def)
    then show ?thesis by (simp add: reporters_def d None)
  next
    case (Some ss)
    from map_of_SomeD [OF this] assms have "ss \<noteq> []" "h \<in> reported r" by (force simp: comparable_ok_def reported_def)+
    then show ?thesis by (simp add: reporters_def d Some)
  qed
  show "set (reporters r h) \<subseteq> set (compared_sources r)"
    using assms by (auto simp: reporters_def d comparable_ok_def split: option.splits dest!: map_of_SomeD)
qed

section \<open>What a difference means\<close>

definition finished_source :: "comparable \<Rightarrow> string \<Rightarrow> bool" where
  "finished_source r s = (map_option co_status (outcome_of r s) = Some ''completed'')"

text \<open>A hostname is new, or gone, only when every source that reported it in one run completed in the other.\<close>

fun justified :: "comparable \<Rightarrow> comparable \<Rightarrow> string \<Rightarrow> change \<Rightarrow> bool" where
  "justified current previous h Still_reported = (h \<in> reported previous \<and> h \<in> reported current)"
| "justified current previous h Newly_reported =
     (h \<notin> reported previous \<and> h \<in> reported current \<and> (\<forall>s\<in>set (reporters current h). finished_source previous s))"
| "justified current previous h No_longer_reported =
     (h \<in> reported previous \<and> h \<notin> reported current \<and> (\<forall>s\<in>set (reporters previous h). finished_source current s))"
| "justified current previous h Uncertain =
     (h \<in> reported previous \<and> h \<notin> reported current \<and> (\<exists>s\<in>set (reporters previous h). \<not> finished_source current s)
      \<or> h \<notin> reported previous \<and> h \<in> reported current \<and> (\<exists>s\<in>set (reporters current h). \<not> finished_source previous s))"

lemma outcome_of_known: "s \<in> set (compared_sources r) \<Longrightarrow> \<exists>o1. outcome_of r s = Some o1"
proof -
  assume "s \<in> set (compared_sources r)"
  then have "s \<in> fst ` set (rev (map (\<lambda>o1. (co_source o1, o1)) (cmp_outcomes r)))" by (force simp: compared_sources_def)
  then have "outcome_of r s \<noteq> None" unfolding outcome_of_def by (simp add: map_of_eq_None_iff)
  then show ?thesis by blast
qed

lemma incomplete_outcomes_ok:
  "set ss \<subseteq> set (compared_sources r) \<Longrightarrow>
   \<exists>missing. incomplete_outcomes r ss = Inr missing \<and> (missing = [] \<longleftrightarrow> (\<forall>s\<in>set ss. finished_source r s))"
proof (induction ss)
  case (Cons s ss)
  then obtain missing where m: "incomplete_outcomes r ss = Inr missing" "missing = [] \<longleftrightarrow> (\<forall>s\<in>set ss. finished_source r s)" by auto
  from Cons.prems obtain o1 where "outcome_of r s = Some o1" using outcome_of_known by fastforce
  with m show ?case by (auto simp: finished_source_def)
qed simp

lemma judge_change_ok:
  assumes "comparable_ok current" "comparable_ok previous" "compared_sources current = compared_sources previous"
    and "h \<in> reported previous \<union> reported current"
  shows "\<exists>change missing. judge_change current previous h = Inr (change, missing) \<and> justified current previous h change"
proof -
  note rc = reporters_ok [OF assms(1), of h] and rp = reporters_ok [OF assms(2), of h]
  show ?thesis
  proof (cases "h \<in> reported previous")
    case False
    obtain missing where "incomplete_outcomes previous (reporters current h) = Inr missing"
      "missing = [] \<longleftrightarrow> (\<forall>s\<in>set (reporters current h). finished_source previous s)"
      using incomplete_outcomes_ok [of "reporters current h" previous] rc(2) assms(3) by auto
    with False rp(1) assms(4) show ?thesis by (auto simp: judge_change_def)
  next
    case True
    show ?thesis
    proof (cases "h \<in> reported current")
      case True
      with \<open>h \<in> reported previous\<close> rp(1) rc(1) show ?thesis by (auto simp: judge_change_def)
    next
      case False
      obtain missing where "incomplete_outcomes current (reporters previous h) = Inr missing"
        "missing = [] \<longleftrightarrow> (\<forall>s\<in>set (reporters previous h). finished_source current s)"
        using incomplete_outcomes_ok [of "reporters previous h" current] rp(2) assms(3) by auto
      with False True rp(1) rc(1) show ?thesis by (auto simp: judge_change_def)
    qed
  qed
qed

lemma justified_unique: "justified current previous h c \<Longrightarrow> justified current previous h c' \<Longrightarrow> c = c'"
  by (cases c; cases c') auto

definition row_ok :: "comparable \<Rightarrow> comparable \<Rightarrow> difference_row \<Rightarrow> bool" where
  "row_ok current previous row =
     (dr_run row = cmp_run current \<and> dr_previous row = cmp_run previous \<and> justified current previous (dr_hostname row) (dr_change row)
      \<and> dr_before row = reporters previous (dr_hostname row) \<and> dr_now row = reporters current (dr_hostname row))"

lemma make_row_ok:
  assumes "comparable_ok current" "comparable_ok previous" "compared_sources current = compared_sources previous"
    and "h \<in> reported previous \<union> reported current"
  shows "\<exists>row. make_row current previous h = Inr row \<and> dr_hostname row = h \<and> row_ok current previous row"
  using judge_change_ok [OF assms] by (auto simp: make_row_def row_ok_def Let_def)

lemma count_change_of: "map_of (count_change c counts) d = map_option (\<lambda>n. if d = c then Suc n else n) (map_of counts d)"
  by (induction counts) (auto simp: count_change_def)

lemma compare_hostnames_rows:
  "(\<And>h. h \<in> set hs \<Longrightarrow> make_row current previous h = Inr (f h)) \<Longrightarrow> (\<And>c. map_of counts c = Some (k c)) \<Longrightarrow>
   \<exists>counts'. compare_hostnames all_rows current previous hs counts rows =
       Inr (counts', rows @ filter (\<lambda>row. dr_change row \<noteq> Still_reported \<or> all_rows) (map f hs))
     \<and> (\<forall>c. map_of counts' c = Some (k c + length (filter (\<lambda>h. dr_change (f h) = c) hs)))"
proof (induction hs arbitrary: counts rows k)
  case (Cons h hs)
  let ?k = "\<lambda>c. if c = dr_change (f h) then Suc (k c) else k c"
  let ?rows = "if dr_change (f h) \<noteq> Still_reported \<or> all_rows then rows @ [f h] else rows"
  have "map_of (count_change (dr_change (f h)) counts) c = Some (?k c)" for c using Cons.prems(2) by (simp add: count_change_of)
  from Cons.IH [OF _ this, of ?rows] Cons.prems(1) obtain counts' where
    "compare_hostnames all_rows current previous hs (count_change (dr_change (f h)) counts) ?rows =
       Inr (counts', ?rows @ filter (\<lambda>row. dr_change row \<noteq> Still_reported \<or> all_rows) (map f hs))"
    "\<forall>c. map_of counts' c = Some (?k c + length (filter (\<lambda>h. dr_change (f h) = c) hs))" by auto
  with Cons.prems(1) [of h] show ?case by (intro exI [of _ counts']) (auto simp: conj_commute)
qed simp

text \<open>One comparison: its counts are the numbers of hostnames with each kind of difference, and its rows are justified
  and name every hostname of either run once, those reported by both only on demand.\<close>

definition comparison_ok :: "bool \<Rightarrow> comparable \<Rightarrow> comparable option \<Rightarrow> run_comparison \<Rightarrow> difference_row list \<Rightarrow> bool" where
  "comparison_ok all_rows current previous c rows =
     (rc_run c = cmp_run current \<and> rc_previous c = map_option cmp_run previous
      \<and> (case previous of
           None \<Rightarrow> rows = []
         | Some p \<Rightarrow>
             (\<forall>change. map_of (rc_counts c) change = Some (card {h \<in> reported p \<union> reported current. justified current p h change}))
             \<and> distinct (map dr_hostname rows) \<and> (\<forall>row\<in>set rows. row_ok current p row)
             \<and> dr_hostname ` set rows = {h \<in> reported p \<union> reported current. all_rows \<or> \<not> (h \<in> reported p \<and> h \<in> reported current)}))"

lemma compare_run_ok:
  assumes "comparable_ok current" "case previous of None \<Rightarrow> True | Some p \<Rightarrow> comparable_ok p \<and> compared_sources current = compared_sources p"
  shows "\<exists>c rows. compare_run all_rows current previous = Inr (c, rows) \<and> comparison_ok all_rows current previous c rows"
proof (cases previous)
  case None
  then show ?thesis by (simp add: compare_run_def comparison_ok_def Let_def)
next
  case (Some p)
  let ?hs = "compared_hostnames current p"
  have p: "comparable_ok p" "compared_sources current = compared_sources p" using assms(2) Some by simp_all
  have hs: "set ?hs = reported p \<union> reported current" "distinct ?hs" by (simp_all add: compared_hostnames_def reported_def)
  have "\<exists>row. make_row current p h = Inr row \<and> dr_hostname row = h \<and> row_ok current p row" if "h \<in> set ?hs" for h
    using make_row_ok [OF assms(1) p] that hs(1) by blast
  then obtain f where f: "\<And>h. h \<in> set ?hs \<Longrightarrow> make_row current p h = Inr (f h) \<and> dr_hostname (f h) = h \<and> row_ok current p (f h)" by metis
  let ?rows = "filter (\<lambda>row. dr_change row \<noteq> Still_reported \<or> all_rows) (map f ?hs)"
  let ?sorted = "sort_key (\<lambda>row. (change_order (dr_change row), dr_hostname row)) ?rows"
  have change: "dr_change (f h) = c \<longleftrightarrow> justified current p h c" if "h \<in> set ?hs" for h c
    using f [OF that] justified_unique unfolding row_ok_def by metis
  have counts: "length (filter (\<lambda>h. dr_change (f h) = c) ?hs) = card {h \<in> reported p \<union> reported current. justified current p h c}" for c
  proof -
    have "length (filter (\<lambda>h. dr_change (f h) = c) ?hs) = card (set (filter (\<lambda>h. dr_change (f h) = c) ?hs))"
      using hs(2) by (simp add: distinct_card del: set_filter)
    also have "set (filter (\<lambda>h. dr_change (f h) = c) ?hs) = {h \<in> reported p \<union> reported current. justified current p h c}"
      unfolding hs(1) [symmetric] using change by auto
    finally show ?thesis .
  qed
  have "map dr_hostname (map f ?hs) = ?hs" using f by (simp add: map_idI)
  then have "distinct (map dr_hostname (map f ?hs))" using hs(2) by simp
  then have "distinct (map dr_hostname ?rows)" by (rule distinct_map_filter)
  then have d: "distinct (map dr_hostname ?sorted)" by (simp add: distinct_map)
  have names: "dr_hostname ` set ?sorted = {h \<in> reported p \<union> reported current. all_rows \<or> \<not> (h \<in> reported p \<and> h \<in> reported current)}"
  proof -
    have "set ?sorted = f ` {h \<in> set ?hs. dr_change (f h) \<noteq> Still_reported \<or> all_rows}" by auto
    then have "dr_hostname ` set ?sorted = {h \<in> set ?hs. dr_change (f h) \<noteq> Still_reported \<or> all_rows}"
      using f by (simp only: image_image) (auto intro: rev_image_eqI)
    also have "\<dots> = {h \<in> reported p \<union> reported current. all_rows \<or> \<not> (h \<in> reported p \<and> h \<in> reported current)}"
      unfolding hs(1) [symmetric] using change [of _ Still_reported] by auto
    finally show ?thesis .
  qed
  have "map_of no_counts c = Some 0" for c by (cases c) (simp_all add: no_counts_def)
  from compare_hostnames_rows [of ?hs current p f no_counts "\<lambda>_. 0", OF _ this, of all_rows "[]"] f counts
  obtain found where "compare_hostnames all_rows current p ?hs no_counts [] = Inr (found, ?rows)"
    "\<forall>c. map_of found c = Some (card {h \<in> reported p \<union> reported current. justified current p h c})" by auto
  moreover have "\<forall>row\<in>set ?sorted. row_ok current p row" using f by auto
  ultimately show ?thesis using d names by (simp add: Some compare_run_def comparison_ok_def Let_def del: map_map set_sort)
qed

section \<open>The choice of the previous run\<close>

text \<open>The latest earlier run with the same sources\<close>

definition latest_with :: "string list \<Rightarrow> comparable list \<Rightarrow> comparable option" where
  "latest_with sources earlier =
     (let same = filter (\<lambda>r. compared_sources r = sources) earlier in if same = [] then None else Some (last same))"

definition with_previous :: "comparable list \<Rightarrow> (comparable \<times> comparable option) list" where
  "with_previous runs = map (\<lambda>n. (runs ! n, latest_with (compared_sources (runs ! n)) (take n runs))) [0..<length runs]"

lemma latest_with_snoc: "latest_with sources (earlier @ [r]) = (if compared_sources r = sources then Some r else latest_with sources earlier)"
  by (simp add: latest_with_def Let_def)

lemma latest_with_in: "latest_with sources earlier = Some p \<Longrightarrow> p \<in> set earlier \<and> compared_sources p = sources"
proof -
  assume "latest_with sources earlier = Some p"
  then have "p \<in> set (filter (\<lambda>r. compared_sources r = sources) earlier)" unfolding latest_with_def Let_def
    by (metis last_in_set option.distinct(1) option.inject)
  then show ?thesis by simp
qed

fun pair_up :: "comparable list \<Rightarrow> comparable list \<Rightarrow> (comparable \<times> comparable option) list" where
  "pair_up earlier [] = []"
| "pair_up earlier (r # runs) = (r, latest_with (compared_sources r) earlier) # pair_up (earlier @ [r]) runs"

lemma pair_up_nth: "pair_up earlier runs = map (\<lambda>n. (runs ! n, latest_with (compared_sources (runs ! n)) (earlier @ take n runs))) [0..<length runs]"
proof (induction runs arbitrary: earlier)
  case (Cons r runs)
  have "[0..<length (r # runs)] = 0 # map Suc [0..<length runs]" by (simp add: map_Suc_upt upt_conv_Cons del: upt_Suc)
  then show ?case using Cons by (simp del: upt_Suc)
qed simp

lemma comparison_loop_ok:
  "(\<And>sources. map_of by_sources sources = latest_with sources earlier) \<Longrightarrow> \<forall>r\<in>set (earlier @ runs). comparable_ok r \<Longrightarrow>
   \<exists>parts. comparison_loop all_rows selected runs by_sources = Inr (map fst parts, concat (map snd parts))
     \<and> list_all2 (\<lambda>(current, previous) (c, rows). comparison_ok all_rows current previous c rows)
         (filter (\<lambda>(current, _). cmp_run current \<in> set selected) (pair_up earlier runs)) parts"
proof (induction runs arbitrary: by_sources earlier)
  case Nil
  show ?case by (intro exI [of _ "[]"]) simp
next
  case (Cons r runs)
  let ?next = "AList.update (compared_sources r) r by_sources"
  have next1: "map_of ?next sources = latest_with sources (earlier @ [r])" for sources
    using Cons.prems(1) by (simp add: update_conv latest_with_snoc)
  from Cons.IH [of ?next "earlier @ [r]", OF next1] Cons.prems(2) obtain parts where
    parts: "comparison_loop all_rows selected runs ?next = Inr (map fst parts, concat (map snd parts))"
      "list_all2 (\<lambda>(current, previous) (c, rows). comparison_ok all_rows current previous c rows)
         (filter (\<lambda>(current, _). cmp_run current \<in> set selected) (pair_up (earlier @ [r]) runs)) parts" by auto
  show ?case
  proof (cases "cmp_run r \<in> set selected")
    case False
    then show ?thesis using parts by (intro exI [of _ parts]) (simp add: Let_def)
  next
    case True
    let ?previous = "latest_with (compared_sources r) earlier"
    have "case ?previous of None \<Rightarrow> True | Some p \<Rightarrow> comparable_ok p \<and> compared_sources r = compared_sources p"
      using Cons.prems(2) latest_with_in by (fastforce split: option.splits)
    from compare_run_ok [OF _ this, of all_rows] Cons.prems(2) obtain c rows where
      c: "compare_run all_rows r ?previous = Inr (c, rows)" "comparison_ok all_rows r ?previous c rows" by auto
    show ?thesis using True c parts Cons.prems(1) by (intro exI [of _ "(c, rows) # parts"]) (simp add: Let_def)
  qed
qed

lemma load_target_runs_ok: "load_target_runs decode db t ss = Inr runs \<Longrightarrow> r \<in> set runs \<Longrightarrow> comparable_ok r"
  by (induction ss arbitrary: runs) (auto simp: bindR_Inr_iff split: if_splits dest: loaded_comparable)

section \<open>The comparison of a store\<close>

lemma comparison_of_loaded_runs:
  assumes "select_runs decode db (list_runs julianday None 0 db) target run = Inr (t, selected)"
    and "load_target_runs decode db t (list_runs julianday None 0 db) = Inr runs"
  shows "\<exists>parts. hostname_comparison decode julianday db target run all_rows =
      Inr \<lparr>rep_target = t, rep_count = length parts, rep_comparisons = map fst parts, rep_rows = concat (map snd parts)\<rparr>
    \<and> list_all2 (\<lambda>(current, previous) (c, rows). comparison_ok all_rows current previous c rows)
        (filter (\<lambda>(current, _). cmp_run current \<in> set selected) (with_previous (sort_key (\<lambda>r. (cmp_completed r, cmp_run r)) runs))) parts"
proof -
  let ?runs = "sort_key (\<lambda>r. (cmp_completed r, cmp_run r)) runs"
  have ok: "\<forall>r\<in>set ([] @ ?runs). comparable_ok r" using load_target_runs_ok [OF assms(2)] by simp
  have "map_of [] sources = latest_with sources []" for sources by (simp add: latest_with_def)
  from comparison_loop_ok [OF this ok, of all_rows selected] obtain parts where
    "comparison_loop all_rows selected ?runs [] = Inr (map fst parts, concat (map snd parts))"
    "list_all2 (\<lambda>(current, previous) (c, rows). comparison_ok all_rows current previous c rows)
        (filter (\<lambda>(current, _). cmp_run current \<in> set selected) (pair_up [] ?runs)) parts" by blast
  moreover have "pair_up [] ?runs = with_previous ?runs" by (simp add: pair_up_nth with_previous_def)
  ultimately show ?thesis using assms by (intro exI [of _ parts]) (simp add: hostname_comparison_def Let_def)
qed

text \<open>C39: Differences between runs are justified. A comparison raises only what choosing the runs or loading them
  raises, and then exactly that error. Otherwise it returns one report for every selected run, in the order of
  completion; each is compared with the latest earlier run of the same sources, and a hostname counts as new, or as no
  longer reported, exactly when every source that reported it in one of the two runs completed in the other, and as
  uncertain when one of them did not; the counts are the numbers of such hostnames, and the rows name each of them
  once.\<close>

theorem hostname_differences_are_justified:
  shows "case select_runs decode db (list_runs julianday None 0 db) target run of
     Inl e \<Rightarrow> hostname_comparison decode julianday db target run all_rows = Inl e
   | Inr (t, selected) \<Rightarrow>
       (case load_target_runs decode db t (list_runs julianday None 0 db) of
          Inl e \<Rightarrow> hostname_comparison decode julianday db target run all_rows = Inl e
        | Inr runs \<Rightarrow>
            (\<exists>parts. hostname_comparison decode julianday db target run all_rows =
                Inr \<lparr>rep_target = t, rep_count = length parts, rep_comparisons = map fst parts, rep_rows = concat (map snd parts)\<rparr>
              \<and> list_all2 (\<lambda>(current, previous) (c, rows). comparison_ok all_rows current previous c rows)
                  (filter (\<lambda>(current, _). cmp_run current \<in> set selected)
                     (with_previous (sort_key (\<lambda>r. (cmp_completed r, cmp_run r)) runs))) parts))"
proof (cases "select_runs decode db (list_runs julianday None 0 db) target run")
  case (Inl e)
  then show ?thesis by (simp add: hostname_comparison_def)
next
  case (Inr x)
  then obtain t selected where sel: "select_runs decode db (list_runs julianday None 0 db) target run = Inr (t, selected)"
    by (cases x) auto
  show ?thesis
  proof (cases "load_target_runs decode db t (list_runs julianday None 0 db)")
    case (Inl e)
    with sel show ?thesis by (simp add: hostname_comparison_def)
  next
    case (Inr runs)
    with sel comparison_of_loaded_runs [OF sel Inr] show ?thesis by simp
  qed
qed

section \<open>Example\<close>

text \<open>Two runs of one source: \<open>old.example.com\<close> disappears, \<open>new.example.com\<close> appears.\<close>

definition example_rows :: "string \<Rightarrow> string list \<Rightarrow> result_row list" where
  "example_rows run names =
     map (\<lambda>(n, h). \<lparr>res_run = run, res_position = n, res_kind = ''hostname'', res_value = h, res_details = None\<rparr>) (enumerate 0 names)"

definition example_store :: result_store where
  "example_store =
     \<lparr>st_runs = map (\<lambda>(run, t). \<lparr>run_id = run, run_target = ''example.com'', run_started = t, run_completed = t, run_evidence_status = None\<rparr>)
        [(''run-1'', ''2024-05-01T10:00:00+00:00''), (''run-2'', ''2024-05-02T10:00:00+00:00'')],
      st_results = example_rows ''run-1'' [''old.example.com'', ''www.example.com''] @ example_rows ''run-2'' [''new.example.com'', ''www.example.com''],
      st_executions = map (\<lambda>run. \<lparr>exr_run = run, exr_position = 0, exr_producer = ''source'', exr_name = ''crtsh'', exr_status = ''completed'',
        exr_duration = 1, exr_count = 2, exr_error = None, exr_stop = None\<rparr>) [''run-1'', ''run-2''],
      st_origins = map (\<lambda>(run, n). \<lparr>org_run = run, org_result = n, org_execution = 0\<rparr>) [(''run-1'', 0), (''run-1'', 1), (''run-2'', 0), (''run-2'', 1)],
      st_attributions = [], st_artifacts = []\<rparr>"

lemma example_selection:
  "case select_runs (\<lambda>_. None) example_store (list_runs (\<lambda>_. None) None 0 example_store) (Some ''example.com'') None of
     Inl _ \<Rightarrow> False | Inr x \<Rightarrow> x = (''example.com'', [''run-2'', ''run-1''])"
  "case load_target_runs (\<lambda>_. None) example_store ''example.com'' (list_runs (\<lambda>_. None) None 0 example_store) of
     Inl _ \<Rightarrow> False | Inr runs \<Rightarrow> map cmp_run runs = [''run-2'', ''run-1'']"
  by (code_simp, code_simp)

lemma example_differences:
  "case hostname_comparison (\<lambda>_. None) (\<lambda>_. None) example_store (Some ''example.com'') None False of
     Inl _ \<Rightarrow> False
   | Inr rep \<Rightarrow> map (\<lambda>row. (dr_hostname row, dr_change row)) (rep_rows rep) = [(''new.example.com'', Newly_reported), (''old.example.com'', No_longer_reported)]"
  by code_simp

lemma hostname_differences_are_justified_witness:
  "\<exists>rep. hostname_comparison (\<lambda>_. None) (\<lambda>_. None) example_store (Some ''example.com'') None False = Inr rep
     \<and> rep_count rep = length (rep_comparisons rep)
     \<and> map (\<lambda>row. (dr_hostname row, dr_change row)) (rep_rows rep) = [(''new.example.com'', Newly_reported), (''old.example.com'', No_longer_reported)]"
proof -
  have "select_runs (\<lambda>_. None) example_store (list_runs (\<lambda>_. None) None 0 example_store) (Some ''example.com'') None
      = Inr (''example.com'', [''run-2'', ''run-1''])" using example_selection(1) by (auto split: sum.splits)
  moreover obtain runs where "load_target_runs (\<lambda>_. None) example_store ''example.com'' (list_runs (\<lambda>_. None) None 0 example_store) = Inr runs"
    using example_selection(2) by (auto split: sum.splits)
  ultimately obtain parts where "hostname_comparison (\<lambda>_. None) (\<lambda>_. None) example_store (Some ''example.com'') None False =
      Inr \<lparr>rep_target = ''example.com'', rep_count = length parts, rep_comparisons = map fst parts, rep_rows = concat (map snd parts)\<rparr>"
    using hostname_differences_are_justified [where decode = "\<lambda>_. None" and db = example_store and julianday = "\<lambda>_. None"
        and target = "Some ''example.com''" and run = None and all_rows = False]
    by auto
  then obtain rep where rep: "hostname_comparison (\<lambda>_. None) (\<lambda>_. None) example_store (Some ''example.com'') None False = Inr rep"
    "rep_count rep = length (rep_comparisons rep)" by simp
  moreover from example_differences
  have "map (\<lambda>row. (dr_hostname row, dr_change row)) (rep_rows rep) = [(''new.example.com'', Newly_reported), (''old.example.com'', No_longer_reported)]"
    unfolding rep(1) by simp
  ultimately show ?thesis by (intro exI [of _ rep] conjI)
qed

end
