(* ===== verification/Result_Records.thy ===== *)
theory Result_Records
  imports Completed_Result
begin

text \<open>
  Writing and reading a saved result file (\<open>encode_result_jsonl\<close>, \<open>parse_result_jsonl\<close> and
  \<open>CompletedResult.jsonl\<close> in lib/completed_result.py). The encoder of JSON values and the splitting into lines
  are written out; the decoder of one JSON text, the decoder of UTF-8 and the text of a float are arguments.
\<close>

section \<open>Lines\<close>

text \<open>\<open>str.splitlines()\<close>, for code points below 256\<close>

definition is_break :: "char \<Rightarrow> bool" where
  "is_break c = (code c \<in> {10, 11, 12, 13, 28, 29, 30, 133})"

fun split_lines :: "string \<Rightarrow> string \<Rightarrow> string list" where
  "split_lines [] line = (if line = [] then [] else [line])"
| "split_lines [c] line = (if is_break c then [line] else [line @ [c]])"
| "split_lines (c # d # s) line =
     (if code c = 13 \<and> code d = 10 then line # split_lines s []
      else if is_break c then line # split_lines (d # s) []
      else split_lines (d # s) (line @ [c]))"

section \<open>Encoding\<close>

definition hex_digit :: "nat \<Rightarrow> char" where
  "hex_digit n = ''0123456789abcdef'' ! n"

text \<open>\<open>json.dumps\<close> with \<open>ensure_ascii=False\<close>: only quotes, backslashes and control characters are escaped.\<close>

definition escape :: "char \<Rightarrow> string" where
  "escape c =
     (if c = CHR 34 then [CHR 92, CHR 34]
      else if c = CHR 92 then [CHR 92, CHR 92]
      else if code c = 10 then [CHR 92, CHR ''n'']
      else if code c = 13 then [CHR 92, CHR ''r'']
      else if code c = 9 then [CHR 92, CHR ''t'']
      else if code c = 8 then [CHR 92, CHR ''b'']
      else if code c = 12 then [CHR 92, CHR ''f'']
      else if code c < 32 then [CHR 92, CHR ''u'', CHR ''0'', CHR ''0'', hex_digit (code c div 16), hex_digit (code c mod 16)]
      else [c])"

definition dumps_string :: "string \<Rightarrow> string" where
  "dumps_string s = [CHR 34] @ concat (map escape s) @ [CHR 34]"

fun dumps :: "(rat option \<Rightarrow> string) \<Rightarrow> json \<Rightarrow> string" where
  "dumps float_text JNull = ''null''"
| "dumps float_text (JBool b) = (if b then ''true'' else ''false'')"
| "dumps float_text (JInt i) = show_int i"
| "dumps float_text (JFloat r) = float_text r"
| "dumps float_text (JStr s) = dumps_string s"
| "dumps float_text (JList xs) = ''['' @ join '','' (map (dumps float_text) xs) @ '']''"
| "dumps float_text (JObj obj) =
     ''{'' @ join '','' (map (\<lambda>(k, v). dumps_string k @ '':'' @ v) (sort_key fst (map (\<lambda>(k, v). (k, dumps float_text v)) obj))) @ ''}''"

definition encode_result_jsonl :: "(rat option \<Rightarrow> string) \<Rightarrow> (string \<times> json) list \<Rightarrow> (string \<times> json) list list \<Rightarrow> string" where
  "encode_result_jsonl float_text summary findings =
     concat (map (\<lambda>r. dumps float_text (JObj r) @ [CHR 10]) (AList.update ''type'' (JStr ''summary'') summary # findings))"

definition completed_jsonl :: "(rat option \<Rightarrow> string) \<Rightarrow> completed \<Rightarrow> string res" where
  "completed_jsonl float_text r =
     bindR (result_records r) (\<lambda>records. Inr (encode_result_jsonl float_text (jsonl_summary r) records))"

section \<open>Reading the records\<close>

definition get_or :: "(string \<times> json) list \<Rightarrow> string \<Rightarrow> json \<Rightarrow> json" where
  "get_or obj k d = (case map_of obj k of None \<Rightarrow> d | Some v \<Rightarrow> v)"

definition allowed_keys :: "string \<Rightarrow> (string \<times> json) list \<Rightarrow> string list" where
  "allowed_keys kind obj =
     [''type'', ''value'', ''sources'', ''actions'']
     @ (if kind \<in> {''asn'', ''hostname'', ''prefix''} \<and> map_of obj ''observations'' \<noteq> None then [''observations''] else [])
     @ (if kind \<in> {''shodan-host'', ''takeover''} \<and> map_of obj ''details'' \<noteq> None then [''details''] else [])
     @ (if kind = ''prefix'' then [''scope''] else [])"

definition findings_error :: err where
  "findings_error = ValueError ''JSONL findings must contain a known type, non-empty value, and producer names''"

definition value_label :: "string \<Rightarrow> string" where
  "value_label kind =
     (if kind = ''asn'' then ''ASN'' else if kind = ''hostname'' then ''hostname'' else if kind = ''ip'' then ''IP''
      else if kind = ''prefix'' then ''prefix'' else if kind = ''shodan-host'' then ''Shodan host'' else ''result'')"

definition canonical_value_error :: "string \<Rightarrow> err" where
  "canonical_value_error kind = ValueError (''JSONL findings must use a canonical '' @ value_label kind @ '' value'')"

definition canonical_finding_value :: "string \<Rightarrow> string \<Rightarrow> string res" where
  "canonical_finding_value kind v =
     (case normalize_result_value kind v of
        Inl (ValueError _) \<Rightarrow> Inl (canonical_value_error kind)
      | Inl e \<Rightarrow> Inl e
      | Inr t \<Rightarrow> if kind = ''prefix'' \<and> t \<noteq> v then Inl (canonical_value_error kind) else Inr t)"

text \<open>\<open>except ValueError as error: raise ValueError(f'...: {error}')\<close>\<close>

definition explain :: "string \<Rightarrow> 'a res \<Rightarrow> 'a res" where
  "explain message m = (case m of Inl (ValueError e) \<Rightarrow> Inl (ValueError (message @ '': '' @ e)) | _ \<Rightarrow> m)"

text \<open>The evidence of a finding, with the value of its record already canonical: the key and the value that
  replace it\<close>

definition finding_evidence :: "string \<Rightarrow> string \<Rightarrow> string \<Rightarrow> (string \<times> json) list \<Rightarrow> (string \<times> json) option res" where
  "finding_evidence kind given v obj =
     (if kind = ''hostname'' \<and> map_of obj ''observations'' \<noteq> None then
        bindR (explain ''JSONL hostname has invalid virtual-host observations''
                 (parse_virtual_host_details v (field_of obj ''observations''))) (\<lambda>os.
          Inr (Some (''observations'', JList (virtual_host_details os))))
      else if kind = ''prefix'' \<and> map_of obj ''observations'' \<noteq> None then
        bindR (explain ''JSONL prefix has invalid network observations''
                 (parse_network_observation_details given (field_of obj ''observations''))) (\<lambda>os.
        bindR (network_observation_details os) (\<lambda>ds. Inr (Some (''observations'', JList ds))))
      else if kind = ''asn'' \<and> map_of obj ''observations'' \<noteq> None then
        bindR (explain ''JSONL ASN has invalid organization attributions''
                 (parse_asn_attribution_details v (field_of obj ''observations''))) (\<lambda>os.
          Inr (Some (''observations'', asn_attribution_details os)))
      else if kind = ''shodan-host'' then
        bindR (explain ''JSONL Shodan host has invalid details'' (host_from_record v (field_of obj ''details''))) (\<lambda>h.
          if host_ip h \<noteq> v \<or> \<not> json_eq (host_to_details h) (field_of obj ''details'')
          then Inl (ValueError ''JSONL Shodan host must use canonical structured details'')
          else Inr (Some (''details'', host_to_details h)))
      else if kind = ''takeover'' then
        bindR (explain ''JSONL takeover result has invalid details'' (parse_takeover_details v (field_of obj ''details''))) (\<lambda>c.
          Inr (Some (''details'', candidate_to_details c)))
      else Inr None)"

definition parse_finding :: "(string \<times> json) list \<Rightarrow> (string \<times> json) list res" where
  "parse_finding obj =
     (let kind = field_of obj ''type'' in
      if \<not> hashable kind then Inl unhashable_error
      else (case (json_str kind, json_str (field_of obj ''value''), json_strs (get_or obj ''sources'' (JList [])),
                  json_strs (get_or obj ''actions'' (JList []))) of
         (Some k, Some given, Some sources, Some actions) \<Rightarrow>
           if \<not> only_keys (allowed_keys k obj) obj \<or> k \<notin> set RESULT_KINDS \<or> strip given = []
              \<or> list_ex (\<lambda>s. strip s = []) sources \<or> list_ex (\<lambda>s. strip s = []) actions
           then Inl findings_error
           else bindR (canonical_finding_value k given) (\<lambda>v.
                  if k = ''prefix'' \<and> field_of obj ''scope'' \<noteq> JStr ''external-relationship''
                  then Inl (ValueError ''JSONL prefix scope must be external-relationship'')
                  else (let obj1 = AList.update ''actions'' (JList (map JStr (canon actions)))
                                     (AList.update ''sources'' (JList (map JStr (canon sources))) (AList.update ''value'' (JStr v) obj))
                        in bindR (finding_evidence k given v obj) (\<lambda>evidence.
                             Inr (case evidence of None \<Rightarrow> obj1 | Some (key, ev) \<Rightarrow> AList.update key ev obj1))))
       | _ \<Rightarrow> Inl findings_error))"

fun json_fields :: "json \<Rightarrow> (string \<times> json) list option" where
  "json_fields (JObj obj) = Some obj"
| "json_fields j = None"

definition parse_records :: "json list \<Rightarrow> ((string \<times> json) list \<times> (string \<times> json) list list) res" where
  "parse_records records =
     (case those (map json_fields records) of
        None \<Rightarrow> Inl (ValueError ''JSONL records must be objects'')
      | Some [] \<Rightarrow> Inl (ValueError ''JSONL must start with a summary record'')
      | Some (summary # findings) \<Rightarrow>
          if summary = [] \<or> field_of summary ''type'' \<noteq> JStr ''summary''
          then Inl (ValueError ''JSONL must start with a summary record'')
          else if map_of summary ''schema'' \<noteq> None \<or> map_of summary ''schema_version'' \<noteq> None
          then Inl (ValueError ''JSONL must not contain a schema version'')
          else bindR (mapR parse_finding findings) (\<lambda>fs. Inr (summary, fs)))"

text \<open>The payload, bytes or text; both decoders answer None when they raise.\<close>

datatype payload = Payload_bytes string | Payload_text string

definition parse_result_jsonl ::
  "(string \<Rightarrow> string option) \<Rightarrow> (string \<Rightarrow> json option) \<Rightarrow> payload \<Rightarrow> ((string \<times> json) list \<times> (string \<times> json) list list) res" where
  "parse_result_jsonl decode loads payload =
     (case (case payload of Payload_bytes b \<Rightarrow> decode b | Payload_text t \<Rightarrow> Some t) of
        None \<Rightarrow> Inl (ValueError ''result file is not valid JSONL'')
      | Some text1 \<Rightarrow>
          (case those (map loads (filter (\<lambda>l. strip l \<noteq> []) (split_lines text1 []))) of
             None \<Rightarrow> Inl (ValueError ''result file is not valid JSONL'')
           | Some records \<Rightarrow> parse_records records))"

section \<open>Lines of an encoded file\<close>

lemma split_lines_plain: "\<forall>c\<in>set s. \<not> is_break c \<Longrightarrow> split_lines (s @ [CHR 10] @ rest) line = (line @ s) # split_lines rest []"
proof (induction s arbitrary: line)
  case Nil
  have "is_break (CHR 10)" "code (CHR 10) \<noteq> 13" by code_simp+
  then show ?case by (cases rest) simp_all
next
  case (Cons c s)
  then have c: "\<not> is_break c" "code c \<noteq> 13" by (auto simp: is_break_def)
  obtain d t where dt: "s @ [CHR 10] @ rest = d # t" by (cases "s @ [CHR 10] @ rest") auto
  have whole: "(c # s) @ [CHR 10] @ rest = c # d # t" using dt by simp
  have "split_lines ((c # s) @ [CHR 10] @ rest) line = split_lines (s @ [CHR 10] @ rest) (line @ [c])"
    unfolding whole dt using c by simp
  then show ?case using Cons by simp
qed

lemma split_lines_encoded:
  "\<forall>l\<in>set ls. \<forall>c\<in>set l. \<not> is_break c \<Longrightarrow> split_lines (concat (map (\<lambda>l. l @ [CHR 10]) ls)) [] = ls"
proof (induction ls)
  case (Cons l ls)
  then show ?case using split_lines_plain [of l "concat (map (\<lambda>l. l @ [CHR 10]) ls)" "[]"] by simp
qed simp

text \<open>The characters that survive the escapes and still end a line: only code point 133 (below 256).\<close>

definition next_line_free :: "string \<Rightarrow> bool" where
  "next_line_free s = (\<forall>c\<in>set s. code c \<noteq> 133)"

fun plain_json :: "json \<Rightarrow> bool" where
  "plain_json (JStr s) = next_line_free s"
| "plain_json (JList xs) = list_all plain_json xs"
| "plain_json (JObj obj) = list_all (\<lambda>p. next_line_free (fst p) \<and> plain_json (snd p)) obj"
| "plain_json j = True"

lemma hex_digit_plain: "n < 16 \<Longrightarrow> \<not> is_break (hex_digit n)"
proof -
  have "\<forall>n<16. \<not> is_break (hex_digit n)" by code_simp
  then show "n < 16 \<Longrightarrow> \<not> is_break (hex_digit n)" by blast
qed

lemma escape_plain: "code c \<noteq> 133 \<Longrightarrow> d \<in> set (escape c) \<Longrightarrow> \<not> is_break d"
proof -
  assume c: "code c \<noteq> 133" and d: "d \<in> set (escape c)"
  have plain: "\<not> is_break (CHR 34)" "\<not> is_break (CHR 92)" "\<not> is_break (CHR ''n'')" "\<not> is_break (CHR ''r'')" "\<not> is_break (CHR ''t'')"
    "\<not> is_break (CHR ''b'')" "\<not> is_break (CHR ''f'')" "\<not> is_break (CHR ''u'')" "\<not> is_break (CHR ''0'')" by code_simp+
  have "code c < 32 \<Longrightarrow> code c div 16 < 16" "code c mod 16 < 16" by simp_all
  with c d plain show ?thesis
    by (auto simp: escape_def hex_digit_plain split: if_splits) (auto simp: is_break_def)
qed

lemma dumps_string_plain: "next_line_free s \<Longrightarrow> \<forall>c\<in>set (dumps_string s). \<not> is_break c"
proof -
  have "\<not> is_break (CHR 34)" by code_simp
  then show "next_line_free s \<Longrightarrow> \<forall>c\<in>set (dumps_string s). \<not> is_break c"
    by (auto simp: dumps_string_def next_line_free_def dest: escape_plain)
qed

end
