(* ===== verification/Sorted_Evidence.thy ===== *)
theory Sorted_Evidence
  imports Completed_Result
begin

text \<open>
  A line of a result file has the keys of its objects in order (\<open>json.dumps(..., sort_keys=True)\<close>), so what is
  read has its dictionaries in another order than what was written. The readers of the evidence do not see the
  difference: each gives the same answer for a value and for the value with its keys sorted.
\<close>

section \<open>Values with sorted keys\<close>

fun sort_json :: "json \<Rightarrow> json" where
  "sort_json (JList xs) = JList (map sort_json xs)"
| "sort_json (JObj obj) = JObj (sort_key fst (map (\<lambda>(k, v). (k, sort_json v)) obj))"
| "sort_json j = j"

abbreviation sort_fields :: "(string \<times> json) list \<Rightarrow> (string \<times> json) list" where
  "sort_fields obj \<equiv> sort_key fst (map (\<lambda>(k, v). (k, sort_json v)) obj)"

lemma sort_json_simple [simp]:
  "sort_json j = JNull \<longleftrightarrow> j = JNull" "sort_json j = JStr s \<longleftrightarrow> j = JStr s" "sort_json j = JBool b \<longleftrightarrow> j = JBool b"
  by (cases j; simp)+

lemma keys_sorted [simp]: "fst ` (\<lambda>(k, v). (k, sort_json v)) ` set obj = fst ` set obj"
  by force

lemma map_of_sort_fields: "distinct (map fst obj) \<Longrightarrow> map_of (sort_fields obj) k = map_option sort_json (map_of obj k)"
proof -
  assume d: "distinct (map fst obj)"
  have "map fst (map (\<lambda>(k, v). (k, sort_json v)) obj) = map fst obj" by (induction obj) auto
  then have own: "distinct (map fst (map (\<lambda>(k, v). (k, sort_json v)) obj))" using d by (simp only:)
  then have "distinct (map fst (sort_fields obj))" by (simp only: distinct_map distinct_sort set_sort)
  moreover note own
  moreover have "set (sort_fields obj) = set (map (\<lambda>(k, v). (k, sort_json v)) obj)" by simp
  ultimately have "map_of (sort_fields obj) = map_of (map (\<lambda>(k, v). (k, sort_json v)) obj)" by (simp add: map_of_inject_set)
  then show ?thesis by (simp add: map_of_map)
qed


lemma field_of_sort_fields: "distinct (map fst obj) \<Longrightarrow> field_of (sort_fields obj) k = sort_json (field_of obj k)"
  by (simp add: field_of_def map_of_sort_fields split: option.splits)

lemma wf_field: "wf_json (JObj obj) \<Longrightarrow> wf_json (field_of obj k)"
  by (auto simp: field_of_def list_all_iff split: option.splits dest: map_of_SomeD)

lemma wf_obj [dest]: "wf_json (JObj obj) \<Longrightarrow> distinct (map fst obj)"
  by simp

lemma only_keys_sort_fields [simp]: "only_keys ks (sort_fields obj) = only_keys ks obj"
  by (auto simp: only_keys_def list_all_iff)

lemma has_keys_sort_fields [simp]: "has_keys ks (sort_fields obj) = has_keys ks obj"
  by (simp add: has_keys_def)

section \<open>Equality\<close>

lemma json_eq_obj_iff: "json_eq_obj a b \<longleftrightarrow> (\<forall>p\<in>set a. case map_of b (fst p) of None \<Rightarrow> False | Some w \<Rightarrow> json_eq (snd p) w)"
  by (induction a) (auto split: option.splits)

lemma num_val_sort_json [simp]: "num_val (sort_json j) = num_val j"
  by (cases j) simp_all

lemma json_eq_list_all2: "json_eq_list xs ys \<longleftrightarrow> list_all2 json_eq xs ys"
  by (induction xs arbitrary: ys) (case_tac [!] ys, auto)

lemma json_eq_sort_right: "wf_json y \<Longrightarrow> json_eq x (sort_json y) = json_eq x y"
proof (induction y arbitrary: x)
  case (JList ys)
  show ?case
  proof (cases x)
    case (JList xs)
    have "list_all2 json_eq xs (map sort_json ys) = list_all2 json_eq xs ys"
      
      using JList.IH JList.prems by (auto simp: list_all_iff list_all2_conv_all_nth)
    then show ?thesis by (simp add: JList json_eq_list_all2)
  qed simp_all
next
  case (JObj obj)
  show ?case
  proof (cases x)
    case (JObj a)
    have d: "distinct (map fst obj)" using JObj.prems by simp
    have "json_eq v (sort_json w) = json_eq v w" if "map_of obj k = Some w" for k v w
      using JObj.IH [of "(k, w)" w] JObj.prems that by (auto simp: list_all_iff dest: map_of_SomeD)
    then show ?thesis by (auto simp: JObj json_eq_obj_iff map_of_sort_fields [OF d] split: option.splits)
  qed simp_all
qed simp_all

lemma json_eq_sort_left: "json_eq (sort_json x) y = json_eq x y"
proof (induction x arbitrary: y)
  case (JList xs)
  show ?case
  proof (cases y)
    case (JList ys)
    have "list_all2 json_eq (map sort_json xs) ys = list_all2 json_eq xs ys"
      
      using JList.IH by (auto simp: list_all2_conv_all_nth)
    then show ?thesis by (simp add: JList json_eq_list_all2)
  qed simp_all
next
  case (JObj obj)
  show ?case
  proof (cases y)
    case (JObj b)
    have "json_eq (sort_json v) w = json_eq v w" if "(k, v) \<in> set obj" for k v w using JObj.IH [of "(k, v)" v] that by auto
    then have "json_eq_obj (sort_fields obj) b = json_eq_obj obj b"
      by (fastforce simp: json_eq_obj_iff split: option.splits)
    then show ?thesis by (simp add: JObj)
  qed simp_all
qed simp_all

section \<open>Reading the parts\<close>

lemma read_sorted [simp]:
  "json_str (sort_json j) = json_str j" "json_int (sort_json j) = json_int j" "json_bool (sort_json j) = json_bool j"
  "digest_of (sort_json j) = digest_of j" "location_of (sort_json j) = location_of j" "hashable (sort_json j) = hashable j"
  by (cases j; simp)+

lemma status_sorted [simp]: "status_of (sort_json j) = status_of j" "size_of (sort_json j) = size_of j"
  by (simp_all add: status_of_def size_of_def)

lemma json_list_sorted: "json_list (sort_json j) = map_option (map sort_json) (json_list j)"
  by (cases j) simp_all

lemma json_strs_sorted [simp]: "json_strs (sort_json j) = json_strs j"
proof (cases j)
  case (JList xs)
  have "map (json_str \<circ> sort_json) xs = map json_str xs" by simp
  then show ?thesis by (simp add: JList json_strs_def del: map_eq_conv)
qed (simp_all add: json_strs_def)

lemma mapR_sorted: "(\<And>x. x \<in> set xs \<Longrightarrow> f (sort_json x) = f x) \<Longrightarrow> mapR f (map sort_json xs) = mapR f xs"
  by (induction xs) simp_all


section \<open>The readers\<close>

text \<open>Shodan hosts\<close>

lemma shodan_texts_sorted [simp]:
  "shodan_text (sort_json j) name = shodan_text j name" "string_tuple (sort_json j) name = string_tuple j name"
  "hostname_tuple (sort_json j) name = hostname_tuple j name" "service_port (sort_json j) = service_port j"
  "service_transport (sort_json j) = service_transport j"
proof -
  show t: "shodan_text (sort_json j) name = shodan_text j name" for name by (cases j) (simp_all add: shodan_text_def)
  show s: "string_tuple (sort_json j) name = string_tuple j name" by (simp add: string_tuple_def)
  show "hostname_tuple (sort_json j) name = hostname_tuple j name" by (simp add: hostname_tuple_def s)
  show "service_port (sort_json j) = service_port j" by (cases j) (simp_all add: service_port_def)
  show "service_transport (sort_json j) = service_transport j" by (simp add: service_transport_def t)
qed

lemma nested_sorted: "nested (sort_json j) ks m = bindR (nested j ks m) (\<lambda>obj. Inr (map_option sort_fields obj))"
  by (cases j) (simp_all add: nested_def)

lemma nested_parts_sorted:
  assumes "case obj of None \<Rightarrow> True | Some sub \<Rightarrow> distinct (map fst sub)"
  shows "nested_text (map_option sort_fields obj) k name = nested_text obj k name"
    "nested_strings (map_option sort_fields obj) k name = nested_strings obj k name"
    "nested_names (map_option sort_fields obj) k name = nested_names obj k name"
  using assms by (cases obj; simp add: nested_text_def nested_strings_def nested_names_def field_of_sort_fields)+

lemma nested_wf: "wf_json j \<Longrightarrow> nested j ks m = Inr obj \<Longrightarrow> case obj of None \<Rightarrow> True | Some sub \<Rightarrow> distinct (map fst sub)"
  by (cases j) (auto simp: nested_def split: if_splits)

lemma bindR_assoc: "bindR (bindR m f) g = bindR m (\<lambda>x. bindR (f x) g)"
  by (cases m) simp_all

lemma bindR_cong_Inr: "(\<And>x. m = Inr x \<Longrightarrow> f x = g x) \<Longrightarrow> bindR m f = bindR m g"
  by (cases m) simp_all

lemma service_sorted: "wf_json j \<Longrightarrow> service_from_record (sort_json j) = service_from_record j"
proof (cases j)
  case (JObj obj)
  assume wf: "wf_json j"
  note fields = field_of_sort_fields [OF wf_obj [OF wf [unfolded JObj]]] and part = wf_field [OF wf [unfolded JObj]]
  show ?thesis
    by (auto simp: JObj service_from_record_def fields nested_sorted bindR_assoc nested_parts_sorted [OF nested_wf [OF part]]
        intro!: bindR_cong_Inr)
qed (simp_all add: service_from_record_def)

lemma host_sorted: "wf_json j \<Longrightarrow> host_from_record v (sort_json j) = host_from_record v j"
proof (cases j)
  case (JObj obj)
  assume wf: "wf_json j"
  note fields = field_of_sort_fields [OF wf_obj [OF wf [unfolded JObj]]] and part = wf_field [OF wf [unfolded JObj]]
  have services: "mapR service_from_record (sort_json r # map sort_json rs) = mapR service_from_record (r # rs)"
    if "field_of obj ''services'' = JList (r # rs)" for r rs
  proof -
    have "\<forall>x\<in>set (r # rs). wf_json x" using part [of "''services''"] that by (simp add: list_all_iff)
    then have "mapR service_from_record (map sort_json (r # rs)) = mapR service_from_record (r # rs)" by (intro mapR_sorted service_sorted) blast
    then show ?thesis by (simp only: list.map)
  qed
  show ?thesis
  proof (cases "parse_ip (strip v)")
    case (Some address)
    show ?thesis
    proof (cases "field_of obj ''services''")
      case (JList xs)
      then show ?thesis using services by (cases xs) (simp_all add: JObj Some host_from_record_def fields del: mapR.simps)
    qed (simp_all add: JObj Some host_from_record_def fields)
  qed (simp add: host_from_record_def)
qed (simp_all add: host_from_record_def split: option.splits)


text \<open>Organization attributions\<close>

lemma values_sorted: "attribution_values asn (sort_json a) (sort_json b) (sort_json c) (sort_json d) (sort_json e) (sort_json f) =
    attribution_values asn a b c d e f"
  by (simp add: attribution_values_def split: option.split)

lemma attribution_sorted: "wf_json j \<Longrightarrow> canonical_attribution asn (sort_json j) = canonical_attribution asn j"
proof -
  assume wf: "wf_json j"
  have "attribution_from_detail asn (sort_json j) = attribution_from_detail asn j"
  proof (cases j)
    case (JObj obj)
    note fields = field_of_sort_fields [OF wf_obj [OF wf [unfolded JObj]]] and part = wf_field [OF wf [unfolded JObj]]
    show ?thesis
    proof (cases "field_of obj ''subject''")
      case (JObj subject)
      note sub = field_of_sort_fields [OF wf_obj [OF part [of "''subject''", unfolded JObj]]]
      show ?thesis by (simp add: \<open>j = JObj obj\<close> attribution_from_detail_def fields JObj sub values_sorted)
    qed (simp_all add: JObj attribution_from_detail_def fields)
  qed (simp_all add: attribution_from_detail_def)
  then show ?thesis by (simp add: canonical_attribution_def json_eq_sort_right [OF wf])
qed

lemma attributions_sorted: "wf_json j \<Longrightarrow> parse_asn_attribution_details asn (sort_json j) = parse_asn_attribution_details asn j"
proof (cases j)
  case (JList ds)
  assume wf: "wf_json j"
  then have "\<forall>d\<in>set ds. wf_json d" by (simp add: JList list_all_iff)
  then have "mapR (canonical_attribution asn1) (map sort_json ds) = mapR (canonical_attribution asn1) ds" for asn1
    by (intro mapR_sorted attribution_sorted) blast
  then show ?thesis by (cases ds) (simp_all add: JList parse_asn_attribution_details_def del: mapR.simps)
qed (simp_all add: parse_asn_attribution_details_def)

text \<open>Network observations\<close>

lemma network_texts_sorted [simp]:
  "network_name (sort_json j) label = network_name j label" "peer_ip (sort_json j) = peer_ip j"
  "network_text (sort_json j) label b = network_text j label b" "parse_time (sort_json j) label = parse_time j label"
  "normalize_asn (sort_json j) = normalize_asn j"
  by (cases j; simp add: network_name_def peer_ip_def network_text_def parse_time_def normalize_asn_def)+

lemma new_observation_sorted:
  "new_origin (sort_json a) p (sort_json b) = new_origin a p b"
  "new_route (sort_json a) p (sort_json b) (sort_json c) (sort_json d) (sort_json e) (sort_json f) (sort_json g) = new_route a p b c d e f g"
  "new_rpki (sort_json a) p (sort_json b) (sort_json c) = new_rpki a p b c"
  by (simp_all add: new_origin_def new_route_def new_rpki_def fun_eq_iff cong: if_cong)

lemma network_sorted: "wf_json j \<Longrightarrow> observation_from_detail pfx (sort_json j) = observation_from_detail pfx j"
proof (cases j)
  case (JObj obj)
  assume wf: "wf_json j"
  note fields = field_of_sort_fields [OF wf_obj [OF wf [unfolded JObj]]]
  show ?thesis
  proof (cases "field_of obj ''type''")
    case (JStr t)
    show ?thesis by (simp add: \<open>j = JObj obj\<close> observation_from_detail_def fields JStr new_observation_sorted cong: if_cong option.case_cong)
  qed (simp_all add: JObj observation_from_detail_def fields)
qed (simp_all add: observation_from_detail_def)

lemma observations_sorted: "wf_json j \<Longrightarrow> parse_network_observation_details pfx (sort_json j) = parse_network_observation_details pfx j"
proof (cases j)
  case (JList ds)
  assume wf: "wf_json j"
  then have "\<forall>d\<in>set ds. wf_json d" by (simp add: JList list_all_iff)
  then have "mapR (observation_from_detail p) (map sort_json ds) = mapR (observation_from_detail p) ds" for p
    by (intro mapR_sorted network_sorted) blast
  moreover have "json_eq (JList (map sort_json ds)) w = json_eq (JList ds) w" for w using json_eq_sort_left [of "JList ds" w] by simp
  ultimately show ?thesis by (simp add: JList parse_network_observation_details_def del: json_eq.simps cong: if_cong)
qed (simp_all add: parse_network_observation_details_def cong: if_cong)


text \<open>Virtual hosts\<close>

lemma need_json [simp]: "sort_json j \<noteq> JStr s \<longleftrightarrow> j \<noteq> JStr s"
  by simp

lemma sort_opt [simp]: "sort_json j = opt_str s \<longleftrightarrow> j = opt_str s"
  by (cases s) (simp_all add: opt_str_def)

lemma vhost_parts_sorted [simp]:
  "read_tls scheme (sort_json j) = read_tls scheme j" "read_confirmation (sort_json j) d = read_confirmation j d"
  "read_signals (sort_json j) = read_signals j"
  by (simp_all add: read_tls_def read_confirmation_def read_signals_def)

lemma vhost_record_sorted:
  assumes "\<And>k. field_of a k = sort_json (field_of b k)" "set (map fst a) = set (map fst b)"
  shows "vhost_from_record a = vhost_from_record b"
proof -
  have "read_baseline a who = read_baseline b who" for who by (simp add: read_baseline_def assms(1))
  moreover have "read_candidate a = read_candidate b" by (simp add: read_candidate_def assms(1))
  ultimately have "read_evidence a endpoint hostname http_host server_name scheme = read_evidence b endpoint hostname http_host server_name scheme"
    for endpoint hostname http_host server_name scheme unfolding read_evidence_def assms(2) by (simp add: assms(1) cong: if_cong)
  then show ?thesis by (simp add: vhost_from_record_def assms(1) Let_def cong: if_cong option.case_cong)
qed

lemma vhost_sorted: "wf_json j \<Longrightarrow> vhost_from_detail hostname (sort_json j) = vhost_from_detail hostname j"
proof (cases j)
  case (JObj obj)
  assume wf: "wf_json j"
  let ?top = "[(''type'', JStr ''vhost''), (''hostname'', JStr hostname)]"
  have "field_of (?top @ sort_fields obj) k = sort_json (field_of (?top @ obj) k)" for k
    using field_of_sort_fields [OF wf_obj [OF wf [unfolded JObj]], of k] by (simp add: field_of_def)
  then have "vhost_from_record (?top @ sort_fields obj) = vhost_from_record (?top @ obj)" by (rule vhost_record_sorted) simp
  then have r: "vhost_from_record ((''type'', JStr ''vhost'') # (''hostname'', JStr hostname) # sort_fields obj)
     = vhost_from_record ((''type'', JStr ''vhost'') # (''hostname'', JStr hostname) # obj)" by simp
  have "json_eq (JObj (sort_fields obj)) w = json_eq (JObj obj) w" for w using json_eq_sort_left [of "JObj obj" w] by simp
  then show ?thesis by (simp add: JObj vhost_from_detail_def r del: json_eq.simps cong: if_cong)
qed (simp_all add: vhost_from_detail_def)

lemma vhosts_sorted: "wf_json j \<Longrightarrow> parse_virtual_host_details hostname (sort_json j) = parse_virtual_host_details hostname j"
proof (cases j)
  case (JList ds)
  assume "wf_json j"
  then have "\<forall>d\<in>set ds. wf_json d" by (simp add: JList list_all_iff)
  then have "mapR (vhost_from_detail hostname) (map sort_json ds) = mapR (vhost_from_detail hostname) ds"
    by (intro mapR_sorted vhost_sorted) blast
  then show ?thesis by (simp add: JList parse_virtual_host_details_def)
qed (simp_all add: parse_virtual_host_details_def)

text \<open>Takeover candidates\<close>

lemma takeover_texts_sorted [simp]:
  "required_text (sort_json j) name n = required_text j name n" "optional_text (sort_json j) name n = optional_text j name n"
proof -
  show r: "required_text (sort_json j) name n = required_text j name n" by (cases j) (simp_all add: required_text_def)
  show "optional_text (sort_json j) name n = optional_text j name n" by (simp add: optional_text_def r)
qed

lemma default_sorted: "distinct (map fst obj) \<Longrightarrow>
    (case map_of (sort_fields obj) k of None \<Rightarrow> d | Some v \<Rightarrow> v) = (case map_of obj k of None \<Rightarrow> d | Some v \<Rightarrow> sort_json v)"
  by (simp add: map_of_sort_fields split: option.split)

lemma dns_sorted: "wf_json j \<Longrightarrow> dns_from_record (sort_json j) = dns_from_record j"
proof (cases j)
  case (JObj obj)
  assume wf: "wf_json j"
  note d = wf_obj [OF wf [unfolded JObj]]
  show ?thesis
    by (cases "map_of obj ''cname_chain''")
       (simp_all add: JObj dns_from_record_def field_of_sort_fields [OF d] map_of_sort_fields [OF d] cong: if_cong option.case_cong)
qed (simp_all add: dns_from_record_def)

lemma new_http_sorted: "new_http_outcome scheme (sort_json status) location error_type (sort_json truncated)
    = new_http_outcome scheme status location error_type truncated"
proof -
  have "(case sort_json status of JNull \<Rightarrow> n | JInt i \<Rightarrow> f i | _ \<Rightarrow> e) = (case status of JNull \<Rightarrow> n | JInt i \<Rightarrow> f i | _ \<Rightarrow> e)" for n e :: "int option res" and f by (cases status) simp_all
  moreover have "(case sort_json truncated of JBool b \<Rightarrow> f b | _ \<Rightarrow> e) = (case truncated of JBool b \<Rightarrow> f b | _ \<Rightarrow> e)" for e :: "bool res" and f by (cases truncated) simp_all
  ultimately show ?thesis unfolding new_http_outcome_def by (simp only:)
qed

lemma http_sorted: "wf_json j \<Longrightarrow> http_from_record (sort_json j) = http_from_record j"
proof (cases j)
  case (JObj obj)
  assume wf: "wf_json j"
  note d = wf_obj [OF wf [unfolded JObj]]
  have "new_http_outcome scheme (sort_json status) location error_type (JBool False) = new_http_outcome scheme status location error_type (JBool False)"
    for scheme status location error_type using new_http_sorted [of scheme status location error_type "JBool False"] by simp
  then show ?thesis
    by (cases "map_of obj ''body_truncated''")
       (simp_all add: JObj http_from_record_def field_of_sort_fields [OF d] map_of_sort_fields [OF d] new_http_sorted cong: if_cong)
qed (simp_all add: http_from_record_def)

lemma indicator_sorted: "wf_json j \<Longrightarrow> indicator_from_record (sort_json j) = indicator_from_record j"
proof (cases j)
  case (JObj obj)
  assume wf: "wf_json j"
  note d = wf_obj [OF wf [unfolded JObj]]
  show ?thesis by (simp add: JObj indicator_from_record_def field_of_sort_fields [OF d] cong: if_cong option.case_cong)
qed (simp_all add: indicator_from_record_def)

lemma candidate_sorted: "wf_json j \<Longrightarrow> candidate_from_record hostname (sort_json j) = candidate_from_record hostname j"
proof (cases j)
  case (JObj obj)
  assume wf: "wf_json j"
  note d = wf_obj [OF wf [unfolded JObj]] and part = wf_field [OF wf [unfolded JObj]]
  have items: "mapR f (map sort_json xs) = mapR f xs"
    if "json_list (field_of obj k) = Some xs" "\<And>x. wf_json x \<Longrightarrow> f (sort_json x) = f x" for k xs and f :: "json \<Rightarrow> 'b res"
  proof -
    have "\<forall>x\<in>set xs. wf_json x" using part [of k] that(1) by (cases "field_of obj k") (simp_all add: list_all_iff)
    then show ?thesis by (intro mapR_sorted that(2)) blast
  qed
  have strs: "json_strs (JList (map sort_json xs)) = json_strs (JList xs)" for xs using json_strs_sorted [of "JList xs"] by simp
  show ?thesis
    by (simp add: JObj candidate_from_record_def field_of_sort_fields [OF d] json_list_sorted strs split: option.split)
       (simp add: items dns_sorted http_sorted indicator_sorted)
qed (simp_all add: candidate_from_record_def)

lemma takeover_sorted: "wf_json j \<Longrightarrow> parse_takeover_details hostname (sort_json j) = parse_takeover_details hostname j"
  by (simp add: parse_takeover_details_def candidate_sorted json_eq_sort_right)

end
