(* ===== verification/Result_Files.thy ===== *)
theory Result_Files
  imports Result_Round_Trip Result_Records Sorted_Evidence
begin

text \<open>
  The round trip of a result file (lib/completed_result.py): what \<open>CompletedResult.jsonl\<close> writes, \<open>parse_result_jsonl\<close>
  reads back, record by record; and a file that it cannot read back.
\<close>

section \<open>Lines\<close>

lemma show_int_plain: "c \<in> set (show_int i) \<Longrightarrow> \<not> is_break c"
proof -
  have digits: "\<not> is_break c" if "c \<in> set (show_nonneg n)" "0 \<le> n" for c n
  proof -
    have "is_digit c" using that show_nonneg_digits [of n] by (simp add: list_all_iff)
    then show ?thesis by (auto simp: is_digit_def is_break_def)
  qed
  have "\<not> is_break (CHR ''-'')" by code_simp
  then show "c \<in> set (show_int i) \<Longrightarrow> \<not> is_break c" by (auto simp: show_int_def digits split: if_splits)
qed

lemma dumps_plain:
  assumes "\<forall>x. \<forall>c\<in>set (float_text x). \<not> is_break c"
  shows "plain_json j \<Longrightarrow> c \<in> set (dumps float_text j) \<Longrightarrow> \<not> is_break c"
proof (induction j arbitrary: c)
  case JNull
  have "\<forall>c\<in>set ''null''. \<not> is_break c" by code_simp
  then show ?case using JNull by auto
next
  case (JBool b)
  have "\<forall>c\<in>set ''true''. \<not> is_break c" "\<forall>c\<in>set ''false''. \<not> is_break c" by code_simp+
  then show ?case using JBool by (auto split: if_splits)
next
  case (JInt i)
  then show ?case by (auto dest: show_int_plain)
next
  case (JFloat x)
  then show ?case using assms by auto
next
  case (JStr s)
  then show ?case using dumps_string_plain by auto
next
  case (JList xs)
  have "\<not> is_break (CHR ''['')" "\<not> is_break (CHR '']'')" "\<not> is_break (CHR '','')" by code_simp+
  then show ?case using JList set_join [of "'',''" "map (dumps float_text) xs"] by (auto simp: list_all_iff)
next
  case (JObj obj)
  let ?fields = "map (\<lambda>(k, v). dumps_string k @ '':'' @ v) (sort_key fst (map (\<lambda>(k, v). (k, dumps float_text v)) obj))"
  have marks: "\<not> is_break (CHR ''{'')" "\<not> is_break (CHR ''}'')" "\<not> is_break (CHR '','')" "\<not> is_break (CHR '':'')" by code_simp+
  have "\<not> is_break d" if d: "d \<in> set field" "field \<in> set ?fields" for d field
  proof -
    from d(2) obtain k v where kv: "(k, v) \<in> set obj" "field = dumps_string k @ '':'' @ dumps float_text v" by auto
    have ok: "next_line_free k" "plain_json v" using JObj.prems(1) kv(1) by (auto simp: list_all_iff)
    have "\<not> is_break c" if "c \<in> set (dumps float_text v)" for c
      using JObj.IH [of "(k, v)" v c] kv(1) ok(2) that by simp
    then show ?thesis using d(1) kv(2) dumps_string_plain [OF ok(1)] marks(4) by auto
  qed
  then have fields: "\<forall>d\<in>\<Union>x\<in>set ?fields. set x. \<not> is_break d" by blast
  have "c \<in> {CHR ''{'', CHR ''}''} \<union> set (join '','' ?fields)" using JObj.prems(2) by auto
  then have "c \<in> {CHR ''{'', CHR ''}'', CHR '',''} \<union> (\<Union>x\<in>set ?fields. set x)" using set_join [of "'',''" ?fields] by auto
  then show ?case using fields marks(1-3) by blast
qed

lemma object_line: "strip (dumps float_text (JObj obj)) \<noteq> []"
proof -
  let ?l = "dumps float_text (JObj obj)"
  have "\<not> is_ws (CHR ''{'')" "\<not> is_ws (CHR ''}'')" by code_simp+
  then have "strip ?l = ?l" by (intro strip_id) simp
  then show ?thesis by simp
qed

lemma those_read: "(\<And>x. x \<in> set xs \<Longrightarrow> f x = Some (g x)) \<Longrightarrow> those (map f xs) = Some (map g xs)"
  by (induction xs) auto

lemma encoded_lines:
  assumes "\<forall>x. \<forall>c\<in>set (float_text x). \<not> is_break c"
    and "\<And>rec. rec \<in> set records \<Longrightarrow> plain_json (JObj rec) \<and> loads (dumps float_text (JObj rec)) = Some (sort_json (JObj rec))"
  shows "those (map loads (filter (\<lambda>l. strip l \<noteq> []) (split_lines (concat (map (\<lambda>rec. dumps float_text (JObj rec) @ [CHR 10]) records)) [])))
    = Some (map (\<lambda>rec. JObj (sort_fields rec)) records)"
proof -
  let ?ls = "map (\<lambda>rec. dumps float_text (JObj rec)) records"
  have "\<forall>l\<in>set ?ls. \<forall>c\<in>set l. \<not> is_break c"
  proof (intro ballI)
    fix l c
    assume l: "l \<in> set ?ls" and c: "c \<in> set l"
    from l obtain rec where "rec \<in> set records" "l = dumps float_text (JObj rec)" unfolding set_map by (rule imageE)
    with dumps_plain [OF assms(1), of "JObj rec" c] assms(2) c show "\<not> is_break c" by blast
  qed
  from split_lines_encoded [OF this]
  have "split_lines (concat (map (\<lambda>rec. dumps float_text (JObj rec) @ [CHR 10]) records)) [] = ?ls" by (simp add: comp_def)
  moreover have "filter (\<lambda>l. strip l \<noteq> []) ?ls = ?ls" by (rule filter_True) (auto simp: object_line simp del: dumps.simps)
  moreover have "those (map loads ?ls) = Some (map (\<lambda>rec. JObj (sort_fields rec)) records)"
    using assms(2) those_read [of records "loads \<circ> (\<lambda>rec. dumps float_text (JObj rec))" "\<lambda>rec. JObj (sort_fields rec)"] by simp
  ultimately show ?thesis by simp
qed

section \<open>Findings\<close>

lemma sources_sorted:
  assumes "storable_result r"
  shows "canon (sources_for r kv) = sources_for r kv"
proof -
  have acc: "new_completed r = Inr r" using assms by (simp add: storable_result_def)
  let ?os = "filter (\<lambda>o1. (ro_kind o1, ro_value o1) = kv) (cr_observations r)"
  have d: "distinct (cr_observations r)" "sorted (map result_observation_key (cr_observations r))"
    using accepted_provenance(1) [OF acc] canon_by_fix_iff by metis+
  have "sorted (map result_observation_key ?os)" using d(2) by (rule sorted_filter)
  then have "sorted_wrt (\<lambda>x y. result_observation_key x \<le> result_observation_key y) ?os" by (simp add: sorted_map)
  then have "sorted_wrt (\<lambda>x y. ro_source x \<le> ro_source y) ?os"
    by (rule sorted_wrt_mono_rel [rotated]) (auto simp: result_observation_key_def less_eq_prod_def)
  then have "sorted (map ro_source ?os)" by (simp add: sorted_map)
  moreover have "inj_on ro_source (set ?os)"
    by (rule inj_onI) (auto intro!: result_observation_key_inj simp: result_observation_key_def)
  then have "distinct (map ro_source ?os)" using d(1) by (simp add: distinct_map)
  ultimately show ?thesis unfolding sources_for_def canon_fix_iff by simp
qed

lemma producers_named:
  assumes "storable_result r"
  shows "\<not> list_ex (\<lambda>s. strip s = []) (sources_for r kv)" "\<not> list_ex (\<lambda>s. strip s = []) (actions_for r kv)"
    "\<not> list_ex (\<lambda>s. strip s = []) (canon (actions_for r kv))"
proof -
  have p: "parts_ok r" using assms by (simp add: storable_result_def)
  have "strip (ro_source o1) \<noteq> []" if "o1 \<in> set (cr_observations r)" for o1
    using p that by (auto simp: parts_ok_def list_all_iff result_observation_ok_def new_result_observation_def split: if_splits)
  then show "\<not> list_ex (\<lambda>s. strip s = []) (sources_for r kv)" by (auto simp: sources_for_def list_ex_iff)
  have "strip (exe_action e) \<noteq> []" if "e \<in> set (cr_actions r)" for e
  proof -
    have "new_execution e = Inr e" using p that by (simp add: parts_ok_def list_all_iff execution_ok_def)
    then show ?thesis unfolding new_execution_def raise_first_Inr by auto
  qed
  then show "\<not> list_ex (\<lambda>s. strip s = []) (actions_for r kv)" "\<not> list_ex (\<lambda>s. strip s = []) (canon (actions_for r kv))"
    using acted_producer(1) by (fastforce simp: actions_for_def list_ex_iff)+
qed

lemma known_value:
  assumes "storable_result r" "(kind, v) \<in> set (cr_results r)"
  shows "kind \<in> set RESULT_KINDS" "strip v \<noteq> []" "canonical_finding_value kind v = Inr v"
  using accepted_results(3) [of r r kind v] assms by (simp_all add: storable_result_def canonical_finding_value_def)

text \<open>The evidence of a written record is accepted, and is written again as it was.\<close>

lemma asn_details_wf: "wf_json (asn_attribution_details xs)"
  by (simp add: asn_attribution_details_def list_all_iff attribution_detail_def)

lemma evidence_reread:
  assumes r: "storable_result r" and known: "(kind, v) \<in> set (cr_results r)" and ev: "evidence_fields r kind v = Inr ev"
    and fields: "\<And>k. k \<in> {''observations'', ''details''} \<Longrightarrow> map_of obj k = map_option sort_json (map_of ev k)"
  shows "\<exists>e. finding_evidence kind v v obj = Inr e \<and> ev = (case e of None \<Rightarrow> [] | Some field \<Rightarrow> [field])
      \<and> (case e of None \<Rightarrow> True | Some field \<Rightarrow>
           (kind \<in> {''asn'', ''hostname'', ''prefix''} \<and> fst field = ''observations'')
         \<or> (kind \<in> {''shodan-host'', ''takeover''} \<and> fst field = ''details''))"
proof -
  let ?vs = "filter (\<lambda>x. vo_hostname x = v) (cr_vhosts r)" and ?ns = "of_prefix v (cr_network r)" and ?as = "filter (\<lambda>a. att_asn a = v) (cr_asns r)"
  consider (vhost) "kind = ''hostname''" "?vs \<noteq> []" | (network) "kind = ''prefix''" "?ns \<noteq> []" | (asn) "kind = ''asn''" "?as \<noteq> []"
    | (shodan) "kind = ''shodan-host''" | (takeover) "kind = ''takeover''"
    | (none) "\<not> (kind = ''hostname'' \<and> ?vs \<noteq> [])" "\<not> (kind = ''prefix'' \<and> ?ns \<noteq> [])" "\<not> (kind = ''asn'' \<and> ?as \<noteq> [])"
      "kind \<noteq> ''shodan-host''" "kind \<noteq> ''takeover''" by argo
  then show ?thesis
  proof cases
    case vhost
    then have ev: "ev = [(''observations'', JList (virtual_host_details ?vs))]" using ev by (simp add: evidence_fields_def)
    have "wf_json (JList (virtual_host_details ?vs))" by (simp add: virtual_host_details_def list_all_iff vhost_detail_wf)
    from vhosts_sorted [OF this] have "parse_virtual_host_details v (sort_json (JList (virtual_host_details ?vs))) = Inr ?vs"
      using vhosts_read_back [OF r vhost(2)] by simp
    then show ?thesis using vhost fields [of "''observations''"] by (simp add: finding_evidence_def ev field_of_def explain_def del: sort_json.simps)
  next
    case network
    then obtain ds where ds: "network_observation_details ?ns = Inr ds" "ev = [(''observations'', JList ds)]"
      using ev by (auto simp: evidence_fields_def bindR_Inr_iff)
    have "wf_json (JList ds)" using ds(1) add_details_written by (fastforce simp: network_observation_details_def bindR_Inr_iff list_all_iff detail_wf)
    from observations_sorted [OF this] have "parse_network_observation_details v (sort_json (JList ds)) = Inr ?ns"
      using load_network_back [OF r network(2) ds(1)] by simp
    then show ?thesis using network fields [of "''observations''"] ds(1)
      by (simp add: finding_evidence_def ds(2) field_of_def explain_def del: sort_json.simps)
  next
    case asn
    then have ev: "ev = [(''observations'', asn_attribution_details ?as)]" using ev by (simp add: evidence_fields_def)
    have "\<forall>a\<in>set ?as. attribution_ok a \<and> valid_time (att_time a) \<and> att_asn a = v" using attribution_known(4,5) [OF r] by simp
    from attribution_details_back [OF asn(2) this]
    have "parse_asn_attribution_details v (sort_json (asn_attribution_details ?as)) = Inr (canonical_asn_attributions ?as)"
      by (simp add: attributions_sorted asn_details_wf)
    moreover have "asn_attribution_details (canonical_asn_attributions ?as) = asn_attribution_details ?as"
      unfolding asn_attribution_details_def canonical_asn_attributions_def attribution_order.stable by (rule refl)
    ultimately show ?thesis using asn(1) fields [of "''observations''"] by (simp add: finding_evidence_def ev field_of_def explain_def)
  next
    case shodan
    from shodan_of_row [OF r known [unfolded shodan]] obtain h where h: "find (\<lambda>h. host_ip h = v) (rev (cr_shodan r)) = Some h" "host_ip h = v"
      "host_from_record v (host_to_details h) = Inr h" "wf_json (host_to_details h)" by blast
    then have ev: "ev = [(''details'', host_to_details h)]" using ev shodan by (simp add: evidence_fields_def)
    show ?thesis using shodan fields [of "''details''"] h
      by (simp add: finding_evidence_def ev field_of_def explain_def host_sorted json_eq_sort_right)
  next
    case takeover
    from takeover_of_row [OF r known [unfolded takeover]] obtain c where c: "find (\<lambda>c. cand_hostname c = v) (rev (cr_takeover r)) = Some c"
      "parse_takeover_details v (candidate_to_details c) = Inr c" "wf_json (candidate_to_details c)" by blast
    then have ev: "ev = [(''details'', candidate_to_details c)]" using ev takeover by (simp add: evidence_fields_def)
    show ?thesis using takeover fields [of "''details''"] c by (simp add: finding_evidence_def ev field_of_def explain_def takeover_sorted)
  next
    case none
    note skip = if_not_P [OF none(1)] if_not_P [OF none(2)] if_not_P [OF none(3)] if_not_P [OF none(4)] if_not_P [OF none(5)]
    have ev: "ev = []" using ev unfolding evidence_fields_def Let_def skip by simp
    then show ?thesis using none(4,5) fields [of "''observations''"] by (simp add: finding_evidence_def)
  qed
qed

text \<open>A finding as it was written, except for its actions: they are read as a sorted list, which is always there.\<close>

definition reread :: "(string \<times> json) list \<Rightarrow> string list \<Rightarrow> (string \<times> json) list \<Rightarrow> bool" where
  "reread obj actions found \<longleftrightarrow> map_of found = (map_of obj)(''actions'' \<mapsto> JList (map JStr (canon actions)))"

lemma evidence_shape:
  assumes "evidence_fields r kind v = Inr ev"
  shows "\<exists>e. ev = (case e of None \<Rightarrow> [] | Some field \<Rightarrow> [field]) \<and> (case e of None \<Rightarrow> True | Some field \<Rightarrow> fst field \<in> {''observations'', ''details''})"
proof -
  have "ev = [] \<or> (\<exists>k j. ev = [(k, j)] \<and> k \<in> {''observations'', ''details''})"
    using assms unfolding evidence_fields_def by (auto simp: bindR_Inr_iff Let_def split: if_splits option.splits)
  then show ?thesis
  proof (elim disjE exE conjE)
    assume "ev = []"
    then show ?thesis by (intro exI [of _ None]) simp
  next
    fix k j
    assume "ev = [(k, j)]" "k \<in> {''observations'', ''details''}"
    then show ?thesis by (intro exI [of _ "Some (k, j)"]) simp
  qed
qed

lemma parse_finding_known:
  assumes top: "field_of obj ''type'' = JStr kind" "field_of obj ''value'' = JStr v" "get_or obj ''sources'' (JList []) = JList (map JStr sources)"
      "get_or obj ''actions'' (JList []) = JList (map JStr actions)" "kind = ''prefix'' \<Longrightarrow> field_of obj ''scope'' = JStr ''external-relationship''"
    and known: "kind \<in> set RESULT_KINDS" "strip v \<noteq> []" "canonical_finding_value kind v = Inr v" "only_keys (allowed_keys kind obj) obj"
    and named: "\<not> list_ex (\<lambda>s. strip s = []) sources" "\<not> list_ex (\<lambda>s. strip s = []) actions"
    and e: "finding_evidence kind v v obj = Inr e"
  shows "parse_finding obj = Inr (let obj1 = AList.update ''actions'' (JList (map JStr (canon actions)))
           (AList.update ''sources'' (JList (map JStr (canon sources))) (AList.update ''value'' (JStr v) obj))
         in case e of None \<Rightarrow> obj1 | Some (key, j) \<Rightarrow> AList.update key j obj1)"
  using assms unfolding parse_finding_def Let_def top by (simp del: AList.update.simps)

lemma written_keys:
  assumes fields: "set (map fst obj') = set (map fst obj)" "\<And>k. map_of obj' k = None \<longleftrightarrow> map_of obj k = None"
    and obj: "fst ` set obj \<subseteq> {''type'', ''value'', ''sources'', ''actions''} \<union> (if kind = ''prefix'' then {''scope''} else {}) \<union> fst ` set ev"
    and ev: "set ev \<subseteq> set obj" "\<And>key. key \<in> fst ` set ev \<Longrightarrow> (kind \<in> {''asn'', ''hostname'', ''prefix''} \<and> key = ''observations'')
         \<or> (kind \<in> {''shodan-host'', ''takeover''} \<and> key = ''details'')"
  shows "only_keys (allowed_keys kind obj') obj'"
proof -
  have "key \<in> set (allowed_keys kind obj')" if "key \<in> fst ` set obj" for key
  proof (cases "key \<in> fst ` set ev")
    case True
    then have "map_of obj' key \<noteq> None" using ev(1) fields(2) that by (metis map_of_eq_None_iff)
    with ev(2) [OF True] show ?thesis unfolding allowed_keys_def by (elim disjE conjE) simp_all
  next
    case False
    with obj that have "key \<in> {''type'', ''value'', ''sources'', ''actions''} \<union> (if kind = ''prefix'' then {''scope''} else {})" by blast
    then show ?thesis unfolding allowed_keys_def by (auto split: if_splits)
  qed
  then have "\<forall>key\<in>fst ` set obj'. key \<in> set (allowed_keys kind obj')" using fields(1) by simp
  then show ?thesis by (simp add: only_keys_def list_all_iff)
qed


lemma update_agrees: "m k = Some j \<Longrightarrow> (\<And>k'. k' \<noteq> k \<Longrightarrow> map_of obj k' = m k') \<Longrightarrow> map_of (AList.update k j obj) = m"
  by (rule ext) (simp add: update_conv')

lemma finding_reread:
  assumes r: "storable_result r" and kv: "kv \<in> set (cr_results r)" and written: "result_record r kv = Inr obj"
  shows "\<exists>found. parse_finding (sort_fields obj) = Inr found \<and> reread obj (actions_for r kv) found"
proof -
  obtain kind v where kv2: "kv = (kind, v)" by (cases kv)
  obtain ev where ev: "evidence_fields r kind v = Inr ev" and obj: "obj = [(''type'', JStr kind), (''value'', JStr v), (''sources'', JList (map JStr (sources_for r kv)))]
         @ (if actions_for r kv \<noteq> [] then [(''actions'', JList (map JStr (actions_for r kv)))] else [])
         @ (if kind = ''prefix'' then [(''scope'', JStr ''external-relationship'')] else []) @ ev"
    using written by (auto simp: result_record_def kv2 bindR_Inr_iff)
  have part: "\<exists>e. ev = (case e of None \<Rightarrow> [] | Some field \<Rightarrow> [field]) \<and> (case e of None \<Rightarrow> True | Some field \<Rightarrow> fst field \<in> {''observations'', ''details''})"
    using evidence_shape [OF ev] .
  have d: "distinct (map fst obj)"
    using part unfolding obj by (elim exE conjE) (auto split: option.splits)
  have at: "map_of (sort_fields obj) k = map_option sort_json (map_of obj k)" for k by (rule map_of_sort_fields [OF d])
  have "map_of (sort_fields obj) k = map_option sort_json (map_of ev k)" if "k \<in> {''observations'', ''details''}" for k
    using that unfolding at by (auto simp: obj)
  from evidence_reread [OF r kv [unfolded kv2] ev this] obtain e where e: "finding_evidence kind v v (sort_fields obj) = Inr e"
    "ev = (case e of None \<Rightarrow> [] | Some field \<Rightarrow> [field])" and key: "case e of None \<Rightarrow> True | Some field \<Rightarrow>
           (kind \<in> {''asn'', ''hostname'', ''prefix''} \<and> fst field = ''observations'')
         \<or> (kind \<in> {''shodan-host'', ''takeover''} \<and> fst field = ''details'')" by blast
  have "only_keys (allowed_keys kind (sort_fields obj)) (sort_fields obj)"
  proof (rule written_keys)
    show "set (map fst (sort_fields obj)) = set (map fst obj)" by simp
    show "map_of (sort_fields obj) k = None \<longleftrightarrow> map_of obj k = None" for k by (simp add: at)
    show "fst ` set obj \<subseteq> {''type'', ''value'', ''sources'', ''actions''} \<union> (if kind = ''prefix'' then {''scope''} else {}) \<union> fst ` set ev"
      unfolding obj by auto
    show "set ev \<subseteq> set obj" unfolding obj by auto
    show "(kind \<in> {''asn'', ''hostname'', ''prefix''} \<and> k = ''observations'') \<or> (kind \<in> {''shodan-host'', ''takeover''} \<and> k = ''details'')"
      if "k \<in> fst ` set ev" for k using key that unfolding e(2) by (cases e) auto
  qed
  note known = known_value [OF r kv [unfolded kv2]] this
  have strs: "sort_json (JList (map JStr xs)) = JList (map JStr xs)" for xs by simp
  have ev_none: "map_of ev k = None" if "k \<notin> {''observations'', ''details''}" for k
    using key that unfolding e(2) by (cases e) auto
  have vals: "map_of obj ''type'' = Some (JStr kind)" "map_of obj ''value'' = Some (JStr v)"
    "map_of obj ''sources'' = Some (JList (map JStr (sources_for r kv)))"
    "map_of obj ''actions'' = (if actions_for r kv = [] then None else Some (JList (map JStr (actions_for r kv))))"
    "map_of obj ''scope'' = (if kind = ''prefix'' then Some (JStr ''external-relationship'') else None)"
    by (simp_all add: obj ev_none)
  have others: "map_of obj k = map_of ev k" if "k \<notin> {''type'', ''value'', ''sources'', ''actions'', ''scope''}" for k using that by (simp add: obj)
  have top: "field_of (sort_fields obj) ''type'' = JStr kind" "field_of (sort_fields obj) ''value'' = JStr v"
    "get_or (sort_fields obj) ''sources'' (JList []) = JList (map JStr (sources_for r kv))"
    "get_or (sort_fields obj) ''actions'' (JList []) = JList (map JStr (actions_for r kv))"
    "kind = ''prefix'' \<Longrightarrow> field_of (sort_fields obj) ''scope'' = JStr ''external-relationship''"
    by (simp_all add: field_of_def get_or_def at vals split: if_split)
  let ?obj1 = "AList.update ''actions'' (JList (map JStr (canon (actions_for r kv))))
     (AList.update ''sources'' (JList (map JStr (sources_for r kv))) (AList.update ''value'' (JStr v) (sort_fields obj)))"
  note parsed = parse_finding_known [OF top known producers_named(1,2) [OF r, of kv] e(1), unfolded sources_sorted [OF r]]
  have obj1: "map_of ?obj1 k = ((map_of obj)(''actions'' \<mapsto> JList (map JStr (canon (actions_for r kv))))) k" if "map_of ev k = None" for k
  proof (cases "k \<in> {''type'', ''value'', ''sources'', ''actions'', ''scope''}")
    case True
    then show ?thesis by (elim insertE emptyE) (simp_all add: update_conv' at vals)
  next
    case False
    then show ?thesis using that by (simp add: update_conv' at others)
  qed
  have "reread obj (actions_for r kv) (case e of None \<Rightarrow> ?obj1 | Some (key, j) \<Rightarrow> AList.update key j ?obj1)"
  proof (cases e)
    case None
    then show ?thesis using obj1 by (simp add: reread_def e(2) fun_eq_iff)
  next
    case (Some field)
    obtain k j where field: "field = (k, j)" by (cases field)
    have k: "k \<in> {''observations'', ''details''}" using key by (auto simp: Some field)
    have "map_of obj k = Some j" using k others [of k] by (auto simp: e(2) Some field)
    then have "((map_of obj)(''actions'' \<mapsto> JList (map JStr (canon (actions_for r kv))))) k = Some j" using k by auto
    moreover have "map_of ?obj1 k' = ((map_of obj)(''actions'' \<mapsto> JList (map JStr (canon (actions_for r kv))))) k'" if "k' \<noteq> k" for k'
      using that by (intro obj1) (simp add: e(2) Some field)
    ultimately show ?thesis unfolding reread_def Some field option.case prod.case by (rule update_agrees)
  qed
  then show ?thesis using parsed by (simp add: Let_def)
qed


section \<open>The file\<close>

definition summary_record :: "completed \<Rightarrow> (string \<times> json) list" where
  "summary_record r = AList.update ''type'' (JStr ''summary'') (jsonl_summary r)"

lemma summary_keys: "map fst (summary_record r) = [''completed_at'', ''counts'', ''evidence_status'', ''result_count'', ''run_id'', ''source_executions'',
    ''action_executions'', ''artifacts'', ''started_at'', ''target'', ''type'']"
  by (simp add: summary_record_def jsonl_summary_def execution_fields_def)

lemma summary_fields: "distinct (map fst (summary_record r))" "map_of (summary_record r) ''type'' = Some (JStr ''summary'')"
  "map_of (summary_record r) ''schema'' = None" "map_of (summary_record r) ''schema_version'' = None" "summary_record r \<noteq> []"
proof -
  show "distinct (map fst (summary_record r))" unfolding summary_keys by simp
  show "map_of (summary_record r) ''type'' = Some (JStr ''summary'')" by (simp add: summary_record_def update_conv' del: AList.update.simps)
  show "map_of (summary_record r) ''schema'' = None" "map_of (summary_record r) ''schema_version'' = None"
    unfolding map_of_eq_None_iff set_map [symmetric] summary_keys by simp_all
  show "summary_record r \<noteq> []" using summary_keys [of r] by (metis list.distinct(1) list.map_disc_iff)
qed

lemma findings_reread:
  assumes "storable_result r" "set kvs \<subseteq> set (cr_results r)" "mapR (result_record r) kvs = Inr records"
  shows "\<exists>found. mapR parse_finding (map sort_fields records) = Inr found
    \<and> length found = length kvs \<and> length records = length kvs \<and> (\<forall>i<length kvs. reread (records ! i) (actions_for r (kvs ! i)) (found ! i))"
  using assms(2,3)
proof (induction kvs arbitrary: records)
  case (Cons kv kvs)
  obtain obj objs where obj: "records = obj # objs" "result_record r kv = Inr obj" "mapR (result_record r) kvs = Inr objs"
    using Cons.prems(2) by (auto simp: bindR_Inr_iff)
  obtain f where f: "parse_finding (sort_fields obj) = Inr f" "reread obj (actions_for r kv) f"
    using finding_reread [OF assms(1) _ obj(2)] Cons.prems(1) by auto
  from Cons.IH [OF _ obj(3)] Cons.prems(1) obtain fs where fs: "mapR parse_finding (map sort_fields objs) = Inr fs" "length fs = length kvs"
    "length objs = length kvs" "\<forall>i<length kvs. reread (objs ! i) (actions_for r (kvs ! i)) (fs ! i)" by auto
  show ?case using f fs by (intro exI [of _ "f # fs"]) (auto simp: obj(1) nth_Cons split: nat.split)
qed simp

lemma map_of_ne: "map_of obj k = Some v \<Longrightarrow> obj \<noteq> []"
  by auto

lemma records_json: "those (map json_fields (map (\<lambda>rec. JObj (sort_fields rec)) records)) = Some (map sort_fields records)"
  by (induction records) simp_all

text \<open>C40: What is written to a result file is read back, under three conditions: the result is \<open>storable\<close> (its evidence
  is such that its readers read it back), no text of its records holds the character U+0085, which the reader takes for
  the end of a line (\<open>next_line_splits_a_record\<close>), and the decoder reads each written record as the same record with its
  keys in order. Then the file is accepted, its summary is the written summary, and its findings are the written records
  one by one, in order, with the sources, the scope and all the evidence as written; only the actions are read as a sorted
  list without duplicates, empty when none was written.\<close>

theorem result_file_reads_back:
  assumes "storable_result r" "result_records r = Inr records"
    and "\<forall>x. \<forall>c\<in>set (float_text x). \<not> is_break c"
    and "\<forall>obj\<in>set (summary_record r # records). plain_json (JObj obj) \<and> loads (dumps float_text (JObj obj)) = Some (sort_json (JObj obj))"
  shows "\<exists>text1 summary found. completed_jsonl float_text r = Inr text1
    \<and> parse_result_jsonl decode loads (Payload_text text1) = Inr (summary, found)
    \<and> (\<forall>k. map_of summary k = map_option sort_json (map_of (summary_record r) k))
    \<and> length found = length (cr_results r) \<and> length records = length (cr_results r)
    \<and> (\<forall>i<length (cr_results r). reread (records ! i) (actions_for r (cr_results r ! i)) (found ! i))"
proof -
  let ?text = "encode_result_jsonl float_text (jsonl_summary r) records"
  have "plain_json (JObj obj) \<and> loads (dumps float_text (JObj obj)) = Some (sort_json (JObj obj))" if "obj \<in> set (summary_record r # records)" for obj
    using assms(4) that by blast
  from encoded_lines [OF assms(3) this]
  have lines: "those (map loads (filter (\<lambda>l. strip l \<noteq> []) (split_lines ?text []))) = Some (map (\<lambda>rec. JObj (sort_fields rec)) (summary_record r # records))"
    unfolding encode_result_jsonl_def summary_record_def [symmetric] by blast
  from findings_reread [OF assms(1) subset_refl] assms(2) obtain found where found: "mapR parse_finding (map sort_fields records) = Inr found"
    "length found = length (cr_results r)" "length records = length (cr_results r)"
    "\<forall>i<length (cr_results r). reread (records ! i) (actions_for r (cr_results r ! i)) (found ! i)"
    unfolding result_records_def by blast
  note at = map_of_sort_fields [OF summary_fields(1) [of r]]
  have "map_of (sort_fields (summary_record r)) ''type'' = Some (JStr ''summary'')" by (simp add: at summary_fields)
  then have "sort_fields (summary_record r) \<noteq> []" by (rule map_of_ne)
  moreover have "field_of (sort_fields (summary_record r)) ''type'' = JStr ''summary''"
    "map_of (sort_fields (summary_record r)) ''schema'' = None" "map_of (sort_fields (summary_record r)) ''schema_version'' = None"
    by (simp_all add: field_of_def at summary_fields)
  ultimately have "parse_records (map (\<lambda>rec. JObj (sort_fields rec)) (summary_record r # records)) = Inr (sort_fields (summary_record r), found)"
    unfolding parse_records_def records_json
    by (simp add: found(1) del: sort_json.simps)
  then have "parse_result_jsonl decode loads (Payload_text ?text) = Inr (sort_fields (summary_record r), found)"
    unfolding parse_result_jsonl_def payload.case option.case lines .
  moreover have "completed_jsonl float_text r = Inr ?text" unfolding completed_jsonl_def assms(2) bindR_simps ..
  ultimately show ?thesis using found(2-4) at by blast
qed


section \<open>Examples\<close>

definition example_float_text :: "rat option \<Rightarrow> string" where
  "example_float_text x = (case x of None \<Rightarrow> ''NaN'' | Some q \<Rightarrow> show_int \<lfloor>q\<rfloor> @ ''.0'')"

definition example_records :: "(string \<times> json) list list" where
  "example_records =
     [[(''type'', JStr ''asn''), (''value'', JStr ''AS64500''), (''sources'', JList [JStr ''shodan'']),
       (''observations'', asn_attribution_details [example_attribution])],
      [(''type'', JStr ''hostname''), (''value'', JStr ''www.example.com''), (''sources'', JList [JStr ''shodan''])],
      [(''type'', JStr ''prefix''), (''value'', JStr ''192.0.2.0/24''), (''sources'', JList []), (''actions'', JList [JStr ''routeviews'']),
       (''scope'', JStr ''external-relationship''), (''observations'', JList (map network_observation_detail example_observations))]]"

lemma example_records_written: "result_records example_result = Inr example_records"
proof -
  have producers: "sources_for example_result (''asn'', ''AS64500'') = [''shodan'']" "actions_for example_result (''asn'', ''AS64500'') = []"
    "sources_for example_result (''hostname'', ''www.example.com'') = [''shodan'']" "actions_for example_result (''hostname'', ''www.example.com'') = []"
    "sources_for example_result (''prefix'', ''192.0.2.0/24'') = []" "actions_for example_result (''prefix'', ''192.0.2.0/24'') = [''routeviews'']"
    by code_simp+
  have parts: "cr_results example_result = [(''asn'', ''AS64500''), (''hostname'', ''www.example.com''), (''prefix'', ''192.0.2.0/24'')]"
    "cr_vhosts example_result = []" "cr_network example_result = example_observations" "cr_asns example_result = [example_attribution]"
    "of_prefix ''192.0.2.0/24'' example_observations = example_observations" "example_observations \<noteq> []" "att_asn example_attribution = ''AS64500''"
    by (simp_all add: example_result_def of_prefix_def example_observations_def example_attribution_def)
  show ?thesis
    by (simp add: result_records_def result_record_def evidence_fields_def parts producers example_written example_records_def)
qed


text \<open>A written object starts with its first key.\<close>

lemma sort_key_keys: "map fst (sort_key fst xs) = sort (map fst xs)" for xs :: "('k::linorder \<times> 'v) list"
  by (rule properties_for_sort [symmetric]) simp_all

lemma dumps_first_key:
  assumes "sort (map fst obj) = k # ks"
  shows "\<exists>rest. dumps float_text (JObj obj) = ''{'' @ dumps_string k @ '':'' @ rest"
proof -
  let ?kvs = "sort_key fst (map (\<lambda>(k, v). (k, dumps float_text v)) obj)"
  have "map fst (map (\<lambda>(k, v). (k, dumps float_text v)) obj) = map fst obj" by (induction obj) auto
  then have "map fst ?kvs = k # ks" unfolding sort_key_keys using assms by (simp only:)
  then obtain v kvs where "?kvs = (k, v) # kvs" by (cases ?kvs) auto
  then have "dumps float_text (JObj obj) = ''{'' @ join '','' ((dumps_string k @ '':'' @ v) # map (\<lambda>(k, v). dumps_string k @ '':'' @ v) kvs) @ ''}''"
    by simp
  then show ?thesis by (cases kvs) (simp_all add: join_Cons)
qed

lemma example_first_keys:
  "\<exists>rest. dumps float_text (JObj (summary_record example_result)) = ''{\"action_executions\":'' @ rest"
  "\<exists>rest. dumps float_text (JObj (example_records ! 0)) = ''{\"observations\":'' @ rest"
  "\<exists>rest. dumps float_text (JObj (example_records ! 1)) = ''{\"sources\":'' @ rest"
  "\<exists>rest. dumps float_text (JObj (example_records ! 2)) = ''{\"actions\":'' @ rest"
proof -
  have s: "sort (map fst (summary_record r)) = ''action_executions'' # [''artifacts'', ''completed_at'', ''counts'', ''evidence_status'', ''result_count'',
     ''run_id'', ''source_executions'', ''started_at'', ''target'', ''type'']" for r unfolding summary_keys by code_simp
  have r: "sort (map fst (example_records ! 0)) = ''observations'' # [''sources'', ''type'', ''value'']"
    "sort (map fst (example_records ! 1)) = ''sources'' # [''type'', ''value'']"
    "sort (map fst (example_records ! 2)) = ''actions'' # [''observations'', ''scope'', ''sources'', ''type'', ''value'']"
    by code_simp+
  have k: "dumps_string ''action_executions'' = ''\"action_executions\"''" "dumps_string ''observations'' = ''\"observations\"''"
    "dumps_string ''sources'' = ''\"sources\"''" "dumps_string ''actions'' = ''\"actions\"''" by code_simp+
  show "\<exists>rest. dumps float_text (JObj (summary_record example_result)) = ''{\"action_executions\":'' @ rest"
    using dumps_first_key [OF s, of float_text] unfolding k by simp
  show "\<exists>rest. dumps float_text (JObj (example_records ! 0)) = ''{\"observations\":'' @ rest"
    using dumps_first_key [OF r(1), of float_text] unfolding k by simp
  show "\<exists>rest. dumps float_text (JObj (example_records ! 1)) = ''{\"sources\":'' @ rest"
    using dumps_first_key [OF r(2), of float_text] unfolding k by simp
  show "\<exists>rest. dumps float_text (JObj (example_records ! 2)) = ''{\"actions\":'' @ rest"
    using dumps_first_key [OF r(3), of float_text] unfolding k by simp
qed


lemma example_artifacts: "plain_json (artifact_records example_result)"
proof -
  have a: "active_artifacts (cr_actions example_result) = [(''screenshot'', \<lparr>art_kind = ''screenshot'', art_subject_kind = ''hostname'',
     art_subject = ''www.example.com'', art_path = ''www.png'', art_media_type = ''image/png'', art_size = 512, art_sha256 = replicate 64 CHR ''a'',
     art_created = 63902649700000000\<rparr>)]" by (simp add: active_artifacts_def example_result_def)
  have "next_line_free (format_utc 63902649700000000)" "next_line_free (replicate 64 CHR ''a'')"
    "list_all next_line_free [''action'', ''kind'', ''subject'', ''value'', ''file'', ''path'', ''media_type'', ''size_bytes'', ''sha256'', ''created_at'']"
    "list_all next_line_free [''screenshot'', ''hostname'', ''www.example.com'', ''www.png'', ''image/png'']" by code_simp+
  then show ?thesis by (simp add: artifact_records_def a artifact_to_dict_def)
qed

lemma example_plain: "\<forall>obj\<in>set (summary_record example_result # example_records). plain_json (JObj obj)"
proof -
  have texts: "next_line_free (format_utc (cr_completed example_result))" "next_line_free (format_utc (cr_started example_result))"
    "next_line_free (completed_status example_result)" "next_line_free (cr_run_id example_result)" "next_line_free (cr_target example_result)"
    "plain_json (JObj (kind_counts example_result))"
    "list_all (\<lambda>x. next_line_free (sx_source x) \<and> next_line_free (sx_status x) \<and> plain_json (opt_text (sx_error x)) \<and> plain_json (opt_text (sx_stop x)))
       (cr_sources example_result)"
    "list_all (\<lambda>x. next_line_free (exe_action x) \<and> next_line_free (exe_status x) \<and> plain_json (opt_text (exe_error x)) \<and> plain_json (opt_text (exe_stop x)))
       (cr_actions example_result)" by code_simp+
  have keys: "list_all next_line_free (map fst (summary_record r))" for r unfolding summary_keys by code_simp
  have names: "list_all next_line_free [''source'', ''status'', ''duration_ms'', ''result_count'', ''error_type'', ''stop_reason'', ''action'', ''summary'']" by code_simp
  have "list_all (\<lambda>p. plain_json (snd p)) (summary_record example_result)"
    using texts names example_artifacts by (simp add: summary_record_def jsonl_summary_def execution_fields_def source_execution_to_dict_def execution_to_dict_def list_all_iff)
  then have "plain_json (JObj (summary_record example_result))" using keys [of example_result] by (simp add: list_all_iff)
  moreover have "list_all (\<lambda>obj. plain_json (JObj obj)) example_records" by code_simp
  ultimately show ?thesis by (simp add: list_all_iff del: plain_json.simps)
qed

text \<open>A decoder for the lines of the example\<close>

definition example_loads :: "string \<Rightarrow> json option" where
  "example_loads s = map_of (map (\<lambda>obj. (dumps example_float_text (JObj obj), sort_json (JObj obj))) (summary_record example_result # example_records)) s"

lemma example_loads_written: "\<forall>obj\<in>set (summary_record example_result # example_records).
    example_loads (dumps example_float_text (JObj obj)) = Some (sort_json (JObj obj))"
proof -
  let ?d = "\<lambda>obj. dumps example_float_text (JObj obj)"
  have three: "example_records = [example_records ! 0, example_records ! 1, example_records ! 2]" by (simp add: example_records_def)
  then obtain a b c where abc: "example_records = [a, b, c]" by blast
  have "distinct (map ?d (summary_record example_result # example_records))"
    using example_first_keys [of example_float_text] unfolding abc by (elim exE) (simp add: abc del: dumps.simps)
  then show ?thesis unfolding example_loads_def by (intro ballI map_of_is_SomeI) (auto simp: comp_def simp del: dumps.simps sort_json.simps)
qed

lemma example_text_plain: "\<forall>x. \<forall>c\<in>set (example_float_text x). \<not> is_break c"
proof -
  have "\<forall>c\<in>set ''.0''. \<not> is_break c" "\<forall>c\<in>set ''NaN''. \<not> is_break c" by code_simp+
  then show ?thesis by (auto simp: example_float_text_def dest: show_int_plain split: option.splits)
qed

lemma result_file_reads_back_witness:
  "\<exists>text1 summary found. completed_jsonl example_float_text example_result = Inr text1
    \<and> parse_result_jsonl Some example_loads (Payload_text text1) = Inr (summary, found) \<and> length found = 3"
proof -
  have "\<forall>obj\<in>set (summary_record example_result # example_records).
      plain_json (JObj obj) \<and> example_loads (dumps example_float_text (JObj obj)) = Some (sort_json (JObj obj))"
    using example_plain example_loads_written by blast
  from result_file_reads_back [OF example_result_storable example_records_written example_text_plain this, of Some] obtain text1 summary found
    where "completed_jsonl example_float_text example_result = Inr text1"
      "parse_result_jsonl Some example_loads (Payload_text text1) = Inr (summary, found)" "length found = length (cr_results example_result)" by blast
  moreover have "length (cr_results example_result) = 3" by (simp add: example_result_def)
  ultimately show ?thesis by (intro exI conjI) simp_all
qed

text \<open>Why the theorem asks for values without such characters: the encoder leaves the control character NEXT LINE as it is, and
  \<open>str.splitlines()\<close> ends a line there. A product name from Shodan may contain it; its record is then written as one line and read as two.\<close>

lemma next_line_splits_a_record:
  "shodan_text (JStr (''IP'' @ [CHR 0x85] @ ''Camera'')) name = Inr (Some (''IP'' @ [CHR 0x85] @ ''Camera''))"
  "split_lines (dumps float_text (JObj [(''product'', JStr (''IP'' @ [CHR 0x85] @ ''Camera''))]) @ [CHR 10]) [] =
     [''{\"product\":\"IP'', ''Camera\"}'']"
proof -
  have "strip (''IP'' @ [CHR 0x85] @ ''Camera'') = ''IP'' @ [CHR 0x85] @ ''Camera''" by code_simp
  then show "shodan_text (JStr (''IP'' @ [CHR 0x85] @ ''Camera'')) name = Inr (Some (''IP'' @ [CHR 0x85] @ ''Camera''))"
    unfolding shodan_text_def by simp
  have encoded: "dumps_string ''product'' = ''\"product\"''" "dumps_string (''IP'' @ [CHR 0x85] @ ''Camera'') = ''\"IP'' @ [CHR 0x85] @ ''Camera\"''" by code_simp+
  have "dumps float_text (JObj [(''product'', JStr (''IP'' @ [CHR 0x85] @ ''Camera''))]) = ''{\"product\":\"IP'' @ [CHR 0x85] @ ''Camera\"}''"
    by (simp add: encoded(1) encoded(2) [simplified])
  moreover have "split_lines ((''{\"product\":\"IP'' @ [CHR 0x85] @ ''Camera\"}'') @ [CHR 10]) [] = [''{\"product\":\"IP'', ''Camera\"}'']" by code_simp
  ultimately show "split_lines (dumps float_text (JObj [(''product'', JStr (''IP'' @ [CHR 0x85] @ ''Camera''))]) @ [CHR 10]) [] =
     [''{\"product\":\"IP'', ''Camera\"}'']" by (simp only:)
qed

end
