(* ===== verification/Contributions.thy ===== *)
theory Contributions
  imports Result_Round_Trip
begin

text \<open>
  What each producer contributed to a saved run (\<open>source_contributions\<close>, \<open>action_yields\<close> and \<open>_producer_contributions\<close> in
  lib/database.py): the counts of the results a source or an action reported, alone or shared with others, and of
  those that the DNS resolution confirmed.
\<close>

section \<open>Counting\<close>

text \<open>A dictionary built from its items: a key keeps its first place and its last value.\<close>

definition dict_of :: "('k \<times> 'v) list \<Rightarrow> ('k \<times> 'v) list" where
  "dict_of items = fold (\<lambda>(k, v). AList.update k v) items []"

text \<open>\<open>setdefault(result, set()).add(producer)\<close>; the set is a list without duplicates\<close>

definition add_producer :: "(string \<times> string) \<times> string \<Rightarrow> ((string \<times> string) \<times> string list) list \<Rightarrow> ((string \<times> string) \<times> string list) list" where
  "add_producer item by_result =
     (let (result, producer) = item; known = (case map_of by_result result of None \<Rightarrow> [] | Some ps \<Rightarrow> ps)
      in AList.update result (if producer \<in> set known then known else known @ [producer]) by_result)"

record contribution =
  con_name :: string
  con_observed :: nat
  con_unique :: nat
  con_shared :: nat
  con_resolved :: nat
  con_unique_resolved :: nat

text \<open>The results and producers that the origins link\<close>

definition reported_items ::
  "(nat \<times> string) list \<Rightarrow> (nat \<times> string \<times> string) list \<Rightarrow> origin_row list \<Rightarrow> ((string \<times> string) \<times> string) list" where
  "reported_items producer_by_position result_by_position origins =
     List.map_filter (\<lambda>origin.
       case (map_of producer_by_position (org_execution origin), map_of result_by_position (org_result origin)) of
         (Some producer, Some result) \<Rightarrow> Some (result, producer)
       | _ \<Rightarrow> None) origins"

definition resolved_hostnames :: "nat list \<Rightarrow> (nat \<times> string \<times> string) list \<Rightarrow> origin_row list \<Rightarrow> (string \<times> string) list" where
  "resolved_hostnames dns_positions result_by_position origins =
     List.map_filter (\<lambda>origin.
       if org_execution origin \<in> set dns_positions
       then (case map_of result_by_position (org_result origin) of
               Some result \<Rightarrow> if fst result = ''hostname'' then Some result else None
             | None \<Rightarrow> None)
       else None) origins"

text \<open>The counters of one producer: a producer is counted once per result.\<close>

definition count_producer :: "((string \<times> string) \<times> string list) list \<Rightarrow> (string \<times> string) list \<Rightarrow> string \<Rightarrow> contribution" where
  "count_producer by_result resolved name =
     (let reported = filter (\<lambda>(result, ps). name \<in> set ps) by_result;
          alone = filter (\<lambda>(result, ps). length ps = 1) reported
      in \<lparr>con_name = name, con_observed = length reported, con_unique = length alone,
          con_shared = length (filter (\<lambda>(result, ps). length ps \<noteq> 1) reported),
          con_resolved = length (filter (\<lambda>(result, ps). result \<in> set resolved) reported),
          con_unique_resolved = length (filter (\<lambda>(result, ps). result \<in> set resolved) alone)\<rparr>)"

definition producer_contributions :: "result_store \<Rightarrow> string \<Rightarrow> string \<Rightarrow> string option \<Rightarrow> contribution list" where
  "producer_contributions db run producer_kind kind =
     (let executions = filter (\<lambda>row. exr_run row = run) (st_executions db);
          results = filter (\<lambda>row. res_run row = run \<and> (case kind of None \<Rightarrow> True | Some k \<Rightarrow> res_kind row = k)) (st_results db);
          origins = filter (\<lambda>row. org_run row = run) (st_origins db);
          producer_by_position = dict_of (map (\<lambda>row. (exr_position row, exr_name row)) (filter (\<lambda>row. exr_producer row = producer_kind) executions));
          dns_positions = map exr_position (filter (\<lambda>row. exr_producer row = ''action'' \<and> exr_name row = ''dns-resolve'') executions);
          result_by_position = dict_of (map (\<lambda>row. (res_position row, (res_kind row, res_value row))) results);
          by_result = fold add_producer (reported_items producer_by_position result_by_position origins) []
      in map (count_producer by_result (resolved_hostnames dns_positions result_by_position origins)) (sort (map snd producer_by_position)))"

record source_contribution =
  sc_source :: string
  sc_reported :: nat
  sc_unique :: nat
  sc_shared :: nat
  sc_resolved :: nat
  sc_unique_resolved :: nat

definition source_contributions :: "result_store \<Rightarrow> string \<Rightarrow> string option \<Rightarrow> source_contribution list" where
  "source_contributions db run kind =
     map (\<lambda>c. \<lparr>sc_source = con_name c, sc_reported = con_observed c, sc_unique = con_unique c, sc_shared = con_shared c,
               sc_resolved = con_resolved c, sc_unique_resolved = con_unique_resolved c\<rparr>) (producer_contributions db run ''source'' kind)"

record action_yield =
  ay_action :: string
  ay_observed :: nat
  ay_unique :: nat
  ay_shared :: nat

definition action_yields :: "result_store \<Rightarrow> string \<Rightarrow> action_yield list" where
  "action_yields db run =
     map (\<lambda>c. \<lparr>ay_action = con_name c, ay_observed = con_observed c, ay_unique = con_unique c, ay_shared = con_shared c\<rparr>)
       (producer_contributions db run ''action'' None)"

section \<open>The dictionaries\<close>

lemma dict_of_snoc: "dict_of (items @ [(k, v)]) = AList.update k v (dict_of items)"
  by (simp add: dict_of_def)

lemma dict_of_distinct: "distinct (map fst items) \<Longrightarrow> dict_of items = items"
proof (induction items rule: rev_induct)
  case (snoc item items)
  obtain k v where kv: "item = (k, v)" by (cases item)
  have "k \<notin> set (map fst items)" using snoc.prems by (simp add: kv)
  moreover have "k \<notin> set (map fst items) \<Longrightarrow> AList.update k v items = items @ [(k, v)]" by (induction items) auto
  ultimately show ?case using snoc by (simp add: kv dict_of_snoc)
qed (simp add: dict_of_def)

definition grouped :: "((string \<times> string) \<times> string) list \<Rightarrow> ((string \<times> string) \<times> string list) list \<Rightarrow> bool" where
  "grouped items by_result \<longleftrightarrow> distinct (map fst by_result)
     \<and> (\<forall>(result, ps)\<in>set by_result. ps \<noteq> [] \<and> distinct ps)
     \<and> (\<forall>result name. (result, name) \<in> set items \<longleftrightarrow> (\<exists>ps. map_of by_result result = Some ps \<and> name \<in> set ps))"

lemma grouped_empty: "grouped [] []"
  by (simp add: grouped_def)

lemma grouped_add:
  assumes "grouped items by_result"
  shows "grouped (items @ [item]) (add_producer item by_result)"
proof -
  obtain result name where item: "item = (result, name)" by (cases item)
  define known where "known = (case map_of by_result result of None \<Rightarrow> [] | Some ps \<Rightarrow> ps)"
  define ps where "ps = (if name \<in> set known then known else known @ [name])"
  have items: "(k, n) \<in> set items \<longleftrightarrow> (\<exists>ps. map_of by_result k = Some ps \<and> n \<in> set ps)" for k n
    using assms unfolding grouped_def by blast
  have new: "add_producer item by_result = AList.update result ps by_result" by (simp only: add_producer_def item known_def ps_def Let_def prod.case)
  have "distinct known" using assms by (auto simp: grouped_def known_def split: option.splits dest: map_of_SomeD)
  then have ps: "ps \<noteq> []" "distinct ps" "set ps = insert name (set known)" by (auto simp: ps_def)
  have "distinct (map fst (AList.update result ps by_result))" using assms by (simp add: grouped_def distinct_update)
  moreover have "p = (result, ps) \<or> p \<in> set by_result" if "p \<in> set (AList.update result ps by_result)" for p
    using that by (induction by_result) (auto split: if_splits)
  then have "\<forall>(result, ps)\<in>set (AList.update result ps by_result). ps \<noteq> [] \<and> distinct ps" using assms ps by (fastforce simp: grouped_def)
  moreover have "(k, n) \<in> set (items @ [item]) \<longleftrightarrow> (\<exists>qs. map_of (AList.update result ps by_result) k = Some qs \<and> n \<in> set qs)" for k n
  proof (cases "k = result")
    case True
    have "(result, n) \<in> set items \<longleftrightarrow> n \<in> set known"
      unfolding items [of result n] known_def by (cases "map_of by_result result") simp_all
    then show ?thesis by (auto simp: True update_conv' item ps(3))
  next
    case False
    then show ?thesis using items [of k n] by (simp add: update_conv' item)
  qed
  ultimately show ?thesis unfolding grouped_def new by blast
qed

lemma grouped_fold: "grouped items (fold add_producer items [])"
  by (induction items rule: rev_induct) (simp_all add: grouped_empty grouped_add)


text \<open>Counting the groups is counting results.\<close>

lemma count_groups:
  assumes "grouped items by_result" "\<And>result ps. (result, ps) \<in> set by_result \<Longrightarrow> Q result ps \<longleftrightarrow> P result"
    and "\<And>result. P result \<Longrightarrow> \<exists>name. (result, name) \<in> set items"
  shows "length (filter (\<lambda>(result, ps). Q result ps) by_result) = card {result. P result}"
proof -
  let ?kept = "filter (\<lambda>(result, ps). Q result ps) by_result"
  have d: "distinct (map fst by_result)" using assms(1) by (simp add: grouped_def)
  then have "distinct (map fst ?kept)" by (rule distinct_map_filter)
  then have "length ?kept = card (set (map fst ?kept))" by (metis distinct_card length_map)
  moreover have "set (map fst ?kept) = {result. P result}"
  proof (intro set_eqI iffI)
    fix result
    assume "result \<in> set (map fst ?kept)"
    then obtain ps where "(result, ps) \<in> set by_result" "Q result ps" by auto
    then show "result \<in> {result. P result}" using assms(2) by blast
  next
    fix result
    assume "result \<in> {result. P result}"
    then have p: "P result" by simp
    from assms(3) [OF this] obtain name where "(result, name) \<in> set items" by blast
    then obtain ps where "map_of by_result result = Some ps" using assms(1) unfolding grouped_def by blast
    then have "(result, ps) \<in> set by_result" by (rule map_of_SomeD)
    with p assms(2) have "(result, ps) \<in> set ?kept" by simp
    then show "result \<in> set (map fst ?kept)" by force
  qed
  ultimately show ?thesis by simp
qed

lemma group_members:
  assumes "grouped items by_result" "(result, ps) \<in> set by_result"
  shows "name \<in> set ps \<longleftrightarrow> (result, name) \<in> set items"
    and "name \<in> set ps \<Longrightarrow> length ps = 1 \<longleftrightarrow> (\<forall>other. (result, other) \<in> set items \<longrightarrow> other = name)"
proof -
  have "map_of by_result result = Some ps" using assms by (simp add: grouped_def)
  moreover have "(result, n) \<in> set items \<longleftrightarrow> (\<exists>ps. map_of by_result result = Some ps \<and> n \<in> set ps)" for n
    using assms(1) unfolding grouped_def by blast
  ultimately have m: "(result, n) \<in> set items \<longleftrightarrow> n \<in> set ps" for n by simp
  show "name \<in> set ps \<longleftrightarrow> (result, name) \<in> set items" using m by blast
  have d: "distinct ps" using assms by (auto simp: grouped_def)
  show "length ps = 1 \<longleftrightarrow> (\<forall>other. (result, other) \<in> set items \<longrightarrow> other = name)" if name: "name \<in> set ps"
  proof
    assume "length ps = 1"
    then obtain x where "ps = [x]" by (auto simp: length_Suc_conv)
    then show "\<forall>other. (result, other) \<in> set items \<longrightarrow> other = name" using m name by simp
  next
    assume "\<forall>other. (result, other) \<in> set items \<longrightarrow> other = name"
    then have "set ps = {name}" using m name by blast
    then show "length ps = 1" using distinct_card [OF d] by simp
  qed
qed

text \<open>What the counters are meant to be: the results of the producer, those that no other producer reported, those that
  another one reported, and those with a resolved name\<close>

definition counts_of :: "((string \<times> string) \<times> string) set \<Rightarrow> (string \<times> string) set \<Rightarrow> string \<Rightarrow> contribution" where
  "counts_of links resolved name =
     (let reported = {result. (result, name) \<in> links}; alone = {result \<in> reported. \<forall>other. (result, other) \<in> links \<longrightarrow> other = name}
      in \<lparr>con_name = name, con_observed = card reported, con_unique = card alone, con_shared = card (reported - alone),
          con_resolved = card (reported \<inter> resolved), con_unique_resolved = card (alone \<inter> resolved)\<rparr>)"

lemma counted: "count_producer (fold add_producer items []) resolved name = counts_of (set items) (set resolved) name"
proof -
  let ?d = "fold add_producer items []"
  note g = grouped_fold [of items] and m = group_members [OF grouped_fold [of items]]
  let ?alone = "\<lambda>result. (result, name) \<in> set items \<and> (\<forall>other. (result, other) \<in> set items \<longrightarrow> other = name)"
  have n: "length (filter (\<lambda>(result, ps). Q result ps) ?d) = card {result. P result}"
    if "\<And>result ps. (result, ps) \<in> set ?d \<Longrightarrow> Q result ps \<longleftrightarrow> P result" "\<And>result. P result \<Longrightarrow> (result, name) \<in> set items" for P Q
    by (rule count_groups [OF g that(1)]) (use that(2) in blast)+
  have conj: "filter (\<lambda>(result, ps). B result ps) (filter (\<lambda>(result, ps). A result ps) xs) = filter (\<lambda>(result, ps). A result ps \<and> B result ps) xs" for A B xs
    by (induction xs) auto
  have 1: "length (filter (\<lambda>(result, ps). name \<in> set ps) ?d) = card {result. (result, name) \<in> set items}"
    by (rule n) (use m(1) in blast)+
  have 2: "length (filter (\<lambda>(result, ps). name \<in> set ps \<and> length ps = 1) ?d) = card {result. ?alone result}"
    by (rule n) (use m in blast)+
  have 3: "length (filter (\<lambda>(result, ps). name \<in> set ps \<and> length ps \<noteq> 1) ?d) = card {result. (result, name) \<in> set items \<and> \<not> ?alone result}"
    by (rule n) (use m in blast)+
  have 4: "length (filter (\<lambda>(result, ps). name \<in> set ps \<and> result \<in> set resolved) ?d) = card {result. (result, name) \<in> set items \<and> result \<in> set resolved}"
    by (rule n) (use m(1) in blast)+
  have 5: "length (filter (\<lambda>(result, ps). name \<in> set ps \<and> length ps = 1 \<and> result \<in> set resolved) ?d) = card {result. ?alone result \<and> result \<in> set resolved}"
    by (rule n) (use m in blast)+
  have sets: "{result \<in> {result. (result, name) \<in> set items}. \<forall>other. (result, other) \<in> set items \<longrightarrow> other = name} = {result. ?alone result}"
    "{result. (result, name) \<in> set items} - {result. ?alone result} = {result. (result, name) \<in> set items \<and> \<not> ?alone result}"
    "{result. (result, name) \<in> set items} \<inter> set resolved = {result. (result, name) \<in> set items \<and> result \<in> set resolved}"
    "{result. ?alone result} \<inter> set resolved = {result. ?alone result \<and> result \<in> set resolved}" by blast+
  show ?thesis unfolding count_producer_def counts_of_def Let_def conj conj_assoc 1 2 3 4 5 sets by (simp only: conj_assoc)
qed


section \<open>A saved run\<close>

lemma dict_of_placed:
  assumes "placed position rows"
  shows "dict_of (map (\<lambda>row. (position row, f row)) (filter P rows)) = map (\<lambda>row. (position row, f row)) (filter P rows)"
    and "n < length rows \<Longrightarrow> map_of (map (\<lambda>row. (position row, f row)) (filter P rows)) n = (if P (rows ! n) then Some (f (rows ! n)) else None)"
proof -
  have "map position rows = [0..<length rows]" using assms by (intro nth_equalityI) (simp_all add: placed_def)
  then have "distinct (map position rows)" by simp
  then have d: "distinct (map position (filter P rows))" by (rule distinct_map_filter)
  then have keys: "distinct (map fst (map (\<lambda>row. (position row, f row)) (filter P rows)))" by (simp add: comp_def)
  then show "dict_of (map (\<lambda>row. (position row, f row)) (filter P rows)) = map (\<lambda>row. (position row, f row)) (filter P rows)" by (rule dict_of_distinct)
  show "map_of (map (\<lambda>row. (position row, f row)) (filter P rows)) n = (if P (rows ! n) then Some (f (rows ! n)) else None)" if n: "n < length rows"
  proof (cases "P (rows ! n)")
    case True
    then have "rows ! n \<in> set (filter P rows)" using n by simp
    then have "(position (rows ! n), f (rows ! n)) \<in> set (map (\<lambda>row. (position row, f row)) (filter P rows))" by force
    moreover have "position (rows ! n) = n" using assms n by (simp add: placed_def)
    ultimately have "map_of (map (\<lambda>row. (position row, f row)) (filter P rows)) n = Some (f (rows ! n))" using keys by (intro map_of_is_SomeI) simp_all
    then show ?thesis using True by simp
  next
    case False
    have "n \<notin> position ` set (filter P rows)"
    proof
      assume "n \<in> position ` set (filter P rows)"
      then obtain row where row: "row \<in> set rows" "P row" "position row = n" by auto
      then obtain k where "k < length rows" "rows ! k = row" by (meson in_set_conv_nth)
      then show False using False row assms by (auto simp: placed_def)
    qed
    then have "n \<notin> fst ` set (map (\<lambda>row. (position row, f row)) (filter P rows))" by (auto simp: image_image)
    then show ?thesis using False by (simp only: map_of_eq_None_iff if_False simp_thms)
  qed
qed

text \<open>The links of the result itself: what it says each producer of the kind reported\<close>

definition of_kinds :: "string option \<Rightarrow> string \<times> string \<Rightarrow> bool" where
  "of_kinds kind kv = (case kind of None \<Rightarrow> True | Some k \<Rightarrow> fst kv = k)"

definition links_of :: "completed \<Rightarrow> string \<Rightarrow> string option \<Rightarrow> ((string \<times> string) \<times> string) set" where
  "links_of r producer_kind kind = {(kv, name) |kv name. ((producer_kind, name), kv) \<in> set (origin_keys r) \<and> of_kinds kind kv}"

definition resolved_of :: "completed \<Rightarrow> string option \<Rightarrow> (string \<times> string) set" where
  "resolved_of r kind = {kv. ((''action'', ''dns-resolve''), kv) \<in> set (origin_keys r) \<and> of_kinds kind kv \<and> fst kv = ''hostname''}"

definition producer_names :: "completed \<Rightarrow> string \<Rightarrow> string list" where
  "producer_names r producer_kind = map snd (filter (\<lambda>p. fst p = producer_kind) (producers r))"

lemma in_map_filter: "y \<in> set (List.map_filter f (map g ks)) \<longleftrightarrow> (\<exists>k\<in>set ks. f (g k) = Some y)"
  by (induction ks) (auto simp: List.map_filter_simps split: option.splits)

lemma saved_rows:
  assumes "storable_result r" "result_rows r = Inr rows"
  defines "executions \<equiv> execution_rows r" and "origins \<equiv> map (origin_of r) (origin_keys r)"
  defines "by_position \<equiv> \<lambda>pk. dict_of (map (\<lambda>row. (exr_position row, exr_name row)) (filter (\<lambda>row. exr_producer row = pk) executions))"
    and "results \<equiv> \<lambda>kind. dict_of (map (\<lambda>row. (res_position row, (res_kind row, res_value row)))
           (filter (\<lambda>row. case kind of None \<Rightarrow> True | Some k \<Rightarrow> res_kind row = k) rows))"
    and "dns \<equiv> map exr_position (filter (\<lambda>row. exr_producer row = ''action'' \<and> exr_name row = ''dns-resolve'') executions)"
  shows "set (reported_items (by_position pk) (results kind) origins) = links_of r pk kind"
    and "set (resolved_hostnames dns (results kind) origins) = resolved_of r kind"
    and "map snd (by_position pk) = producer_names r pk"
proof -
  have acc: "new_completed r = Inr r" using assms(1) by (simp add: storable_result_def)
  have dr: "distinct (cr_results r)" using accepted_results(2) [OF acc] .
  note dp = producers_distinct [OF assms(1)]
  note pe = execution_rows_placed [of r] and pr = result_rows_placed [OF assms(2)]
  have exec: "map_of (by_position pk) (place (producers r) (k, name)) = (if k = pk then Some name else None)
      \<and> (place (producers r) (k, name) \<in> set dns \<longleftrightarrow> (k, name) = (''action'', ''dns-resolve''))"
    if "(k, name) \<in> set (producers r)" for pk k name
  proof -
    define n where "n = place (producers r) (k, name)"
    have n: "n < length (execution_rows r)" "producers r ! n = (k, name)" using place_in(2,3) [OF dp that] by (simp_all add: n_def length_producers)
    from execution_rows_parts [OF n(1)] n(2)
    have row: "exr_position (execution_rows r ! n) = n" "exr_producer (execution_rows r ! n) = k" "exr_name (execution_rows r ! n) = name" by simp_all
    have "map_of (by_position pk) n = (if k = pk then Some name else None)"
      unfolding by_position_def executions_def dict_of_placed(1) [OF pe] dict_of_placed(2) [OF pe n(1)] row ..
    moreover have "n \<in> set dns \<longleftrightarrow> (k, name) = (''action'', ''dns-resolve'')"
    proof
      assume "n \<in> set dns"
      then obtain m where m: "m < length (execution_rows r)" "exr_position (execution_rows r ! m) = n" "exr_producer (execution_rows r ! m) = ''action''"
        "exr_name (execution_rows r ! m) = ''dns-resolve''" unfolding dns_def executions_def by (auto simp: in_set_conv_nth)
      with pe have "m = n" by (simp add: placed_def)
      then show "(k, name) = (''action'', ''dns-resolve'')" using m row by simp
    next
      assume "(k, name) = (''action'', ''dns-resolve'')"
      then have "execution_rows r ! n \<in> set (filter (\<lambda>row. exr_producer row = ''action'' \<and> exr_name row = ''dns-resolve'') executions)"
        using n(1) row by (simp add: executions_def)
      then show "n \<in> set dns" unfolding dns_def set_map by (rule rev_image_eqI) (simp only: row(1))
    qed
    ultimately show ?thesis by (simp add: n_def)
  qed
  have result: "map_of (results kind) (place (cr_results r) kv) = (if of_kinds kind kv then Some kv else None)" if "kv \<in> set (cr_results r)" for kind kv
  proof -
    define n where "n = place (cr_results r) kv"
    have n: "n < length rows" "cr_results r ! n = kv" using place_in(2,3) [OF dr that] by (simp_all add: n_def result_rows_length [OF assms(2)])
    have row: "(res_kind (rows ! n), res_value (rows ! n)) = kv" using result_rows_parts(3) [OF assms(2), of n] n by (simp add: result_rows_length [OF assms(2)])
    then have parts: "res_kind (rows ! n) = fst kv" "res_value (rows ! n) = snd kv" by auto
    then show ?thesis unfolding results_def dict_of_placed(1) [OF pr] n_def [symmetric] dict_of_placed(2) [OF pr n(1)]
      unfolding parts by (cases kind; cases kv; simp add: of_kinds_def)
  qed
  have each: "fst k \<in> set (producers r)" "snd k \<in> set (cr_results r)" if "k \<in> set (origin_keys r)" for k
    using origin_key_known [OF assms(1), of "fst k" "snd k"] that by simp_all
  have item: "(case (map_of (by_position pk) (org_execution (origin_of r k)), map_of (results kind) (org_result (origin_of r k))) of
        (Some producer, Some result) \<Rightarrow> Some (result, producer) | _ \<Rightarrow> None)
      = (if fst (fst k) = pk \<and> of_kinds kind (snd k) then Some (snd k, snd (fst k)) else None)" if "k \<in> set (origin_keys r)" for k
    using exec [of "fst (fst k)" "snd (fst k)" pk] result [of "snd k" kind] each [OF that] by (simp add: origin_of_def)
  show "set (reported_items (by_position pk) (results kind) origins) = links_of r pk kind"
  proof (rule set_eqI)
    fix p
    have "p \<in> set (reported_items (by_position pk) (results kind) origins)
       \<longleftrightarrow> (\<exists>k\<in>set (origin_keys r). (if fst (fst k) = pk \<and> of_kinds kind (snd k) then Some (snd k, snd (fst k)) else None) = Some p)"
      unfolding reported_items_def origins_def in_map_filter by (rule bex_cong [OF refl]) (simp only: item)
    also have "\<dots> \<longleftrightarrow> p \<in> links_of r pk kind" unfolding links_of_def
      by (cases p) (auto split: if_splits intro: rev_bexI [of "((pk, snd p), fst p)"])
    finally show "p \<in> set (reported_items (by_position pk) (results kind) origins) \<longleftrightarrow> p \<in> links_of r pk kind" .
  qed
  have name: "(if org_execution (origin_of r k) \<in> set dns
       then (case map_of (results kind) (org_result (origin_of r k)) of
               Some result \<Rightarrow> if fst result = ''hostname'' then Some result else None | None \<Rightarrow> None) else None)
      = (if fst k = (''action'', ''dns-resolve'') \<and> of_kinds kind (snd k) \<and> fst (snd k) = ''hostname'' then Some (snd k) else None)"
    if "k \<in> set (origin_keys r)" for k
    using exec [of "fst (fst k)" "snd (fst k)"] result [of "snd k" kind] each [OF that] by (simp add: origin_of_def)
  show "set (resolved_hostnames dns (results kind) origins) = resolved_of r kind"
  proof (rule set_eqI)
    fix kv
    have "kv \<in> set (resolved_hostnames dns (results kind) origins) \<longleftrightarrow> (\<exists>k\<in>set (origin_keys r).
        (if fst k = (''action'', ''dns-resolve'') \<and> of_kinds kind (snd k) \<and> fst (snd k) = ''hostname'' then Some (snd k) else None) = Some kv)"
      unfolding resolved_hostnames_def origins_def in_map_filter by (rule bex_cong [OF refl]) (simp only: name)
    also have "\<dots> \<longleftrightarrow> kv \<in> resolved_of r kind" unfolding resolved_of_def
      by (cases kv) (auto split: if_splits intro: rev_bexI [of "((''action'', ''dns-resolve''), kv)"])
    finally show "kv \<in> set (resolved_hostnames dns (results kind) origins) \<longleftrightarrow> kv \<in> resolved_of r kind" .
  qed
  have all: "map (\<lambda>x. (exr_producer x, exr_name x)) (execution_rows r) = producers r"
    by (rule nth_equalityI) (simp_all add: length_producers execution_rows_parts)
  have "filter (\<lambda>p. fst p = pk) (producers r) = map (\<lambda>x. (exr_producer x, exr_name x)) (filter (\<lambda>row. exr_producer row = pk) (execution_rows r))"
    unfolding all [symmetric] filter_map by (simp add: comp_def)
  then show "map snd (by_position pk) = producer_names r pk"
    unfolding by_position_def executions_def dict_of_placed(1) [OF pe] producer_names_def by simp
qed


lemma links_finite: "finite {result. (result, name) \<in> links_of r pk kind}"
proof (rule finite_subset)
  show "{result. (result, name) \<in> links_of r pk kind} \<subseteq> snd ` set (origin_keys r)" by (force simp: links_of_def)
qed simp

lemma counts_add_up:
  assumes "c = counts_of (links_of r pk kind) resolved name"
  shows "con_observed c = con_unique c + con_shared c \<and> con_unique_resolved c \<le> con_unique c \<and> con_resolved c \<le> con_observed c"
proof -
  let ?reported = "{result. (result, name) \<in> links_of r pk kind}"
  let ?alone = "{result \<in> ?reported. \<forall>other. (result, other) \<in> links_of r pk kind \<longrightarrow> other = name}"
  have f: "finite ?reported" by (rule links_finite)
  have sub: "?alone \<subseteq> ?reported" by blast
  then have fa: "finite ?alone" using f by (rule finite_subset)
  have "card ?reported = card ?alone + card (?reported - ?alone)" using card_Diff_subset [OF fa sub] card_mono [OF f sub] by simp
  moreover have "card (?alone \<inter> resolved) \<le> card ?alone" "card (?reported \<inter> resolved) \<le> card ?reported" using f fa by (simp_all add: card_mono)
  ultimately show ?thesis unfolding assms counts_of_def Let_def contribution.select_convs by blast
qed

lemma contributions_of_rows:
  assumes "storable_result r" "result_rows r = Inr rows"
    and "filter (\<lambda>row. exr_run row = run) (st_executions db) = execution_rows r"
    and "filter (\<lambda>row. res_run row = run) (st_results db) = rows"
    and "filter (\<lambda>row. org_run row = run) (st_origins db) = map (origin_of r) (origin_keys r)"
  shows "producer_contributions db run pk kind = map (counts_of (links_of r pk kind) (resolved_of r kind)) (sort (producer_names r pk))"
proof -
  have results: "filter (\<lambda>row. res_run row = run \<and> (case kind of None \<Rightarrow> True | Some k \<Rightarrow> res_kind row = k)) (st_results db)
      = filter (\<lambda>row. case kind of None \<Rightarrow> True | Some k \<Rightarrow> res_kind row = k) rows"
    unfolding filter_filter [symmetric] assms(4) ..
  show ?thesis unfolding producer_contributions_def Let_def assms(3,5) results counted saved_rows [OF assms(1,2)] ..
qed

text \<open>The contributions of a saved run, whose result is storable, are those of its result: for every source, or every action, in the order of their
  names, the number of distinct results it reported, those no other producer of this kind reported, those another one
  reported, and how many of them are hostnames that the DNS resolution reported; a result kind restricts all of them. What
  was reported is what was reported alone and what was shared, and the contributions of other runs do not change.\<close>

theorem contributions_of_saved_run:
  assumes "store_ok db" "storable_result r" "cr_run_id r \<notin> set (map run_id (st_runs db))" "save_run db r = Inr db'"
  shows "producer_contributions db' (cr_run_id r) pk kind = map (counts_of (links_of r pk kind) (resolved_of r kind)) (sort (producer_names r pk))
    \<and> (\<forall>c\<in>set (producer_contributions db' (cr_run_id r) pk kind). con_observed c = con_unique c + con_shared c
        \<and> con_unique_resolved c \<le> con_unique c \<and> con_resolved c \<le> con_observed c)
    \<and> (\<forall>run. run \<noteq> cr_run_id r \<longrightarrow> producer_contributions db' run pk kind = producer_contributions db run pk kind)"
proof -
  obtain rows where rows: "result_rows r = Inr rows" using assms(2) by (auto simp: storable_result_def is_ok_def split: sum.splits)
  have db': "st_results db' = st_results db @ rows" "st_executions db' = st_executions db @ execution_rows r"
    "st_origins db' = st_origins db @ map (origin_of r) (origin_keys r)"
    using save_run_written [OF assms(2) rows assms(3)] assms(4) by auto
  note runs = result_rows_run [OF rows] execution_rows_run [of r] origin_rows_run [of r "origin_keys r"]
  have fresh: "cr_run_id r \<notin> set (map res_run (st_results db))" "cr_run_id r \<notin> set (map exr_run (st_executions db))"
    "cr_run_id r \<notin> set (map org_run (st_origins db))" using assms(1,3) unfolding store_ok_def Let_def by blast+
  note own = own_rows [OF fresh(1) runs(1)] own_rows [OF fresh(2) runs(2)] own_rows [OF fresh(3) runs(3)]
  have mine: "producer_contributions db' (cr_run_id r) pk kind = map (counts_of (links_of r pk kind) (resolved_of r kind)) (sort (producer_names r pk))"
    by (rule contributions_of_rows [OF assms(2) rows]) (simp_all only: db' own)
  moreover have "\<forall>c\<in>set (producer_contributions db' (cr_run_id r) pk kind). con_observed c = con_unique c + con_shared c
        \<and> con_unique_resolved c \<le> con_unique c \<and> con_resolved c \<le> con_observed c"
    unfolding mine set_map by (intro ballI) (erule imageE, rule counts_add_up)
  moreover have "producer_contributions db' run pk kind = producer_contributions db run pk kind" if "run \<noteq> cr_run_id r" for run
  proof -
    have "filter (\<lambda>row. res_run row = run \<and> Q row) (st_results db @ rows) = filter (\<lambda>row. res_run row = run \<and> Q row) (st_results db)" for Q
      using other_rows [OF that runs(1), of "st_results db"] unfolding filter_filter [symmetric] by (simp only:)
    then show ?thesis unfolding producer_contributions_def db' other_rows [OF that runs(2)] other_rows [OF that runs(3)] by (simp only:)
  qed
  ultimately show ?thesis by blast
qed

lemma contributions_of_saved_run_witness:
  "\<exists>db'. save_run empty_store example_result = Inr db' \<and> producer_contributions db' ''run-1'' ''source'' None =
     [\<lparr>con_name = ''shodan'', con_observed = 2, con_unique = 2, con_shared = 0, con_resolved = 0, con_unique_resolved = 0\<rparr>]"
proof -
  have ok: "store_ok empty_store" "cr_run_id example_result \<notin> set (map run_id (st_runs empty_store))"
    by (simp_all add: store_ok_def empty_store_def)
  obtain db' where db': "save_run empty_store example_result = Inr db'" using save_then_load [OF ok(1) example_result_storable ok(2)] by blast
  have keys: "origin_keys example_result = [((''source'', ''shodan''), (''asn'', ''AS64500'')), ((''source'', ''shodan''), (''hostname'', ''www.example.com'')),
      ((''action'', ''routeviews''), (''prefix'', ''192.0.2.0/24''))]"
    by (simp add: origin_keys_def example_result_def active_observations_def)
  have names: "producer_names example_result ''source'' = [''shodan'']" by (simp add: producer_names_def producers_def example_result_def)
  have links: "links_of example_result ''source'' None = {((''asn'', ''AS64500''), ''shodan''), ((''hostname'', ''www.example.com''), ''shodan'')}"
    by (auto simp: links_of_def keys of_kinds_def)
  have resolved: "resolved_of example_result None = {}" by (auto simp: resolved_of_def keys)
  have "{kv. kv = (''asn'', ''AS64500'') \<or> kv = (''hostname'', ''www.example.com'')} = {(''asn'', ''AS64500''), (''hostname'', ''www.example.com'')}" by blast
  then have "counts_of (links_of example_result ''source'' None) (resolved_of example_result None) ''shodan'' =
     \<lparr>con_name = ''shodan'', con_observed = 2, con_unique = 2, con_shared = 0, con_resolved = 0, con_unique_resolved = 0\<rparr>"
    unfolding links resolved by (simp add: counts_of_def Let_def)
  moreover have "cr_run_id example_result = ''run-1''" by (simp add: example_result_def)
  ultimately show ?thesis
    using db' conjunct1 [OF contributions_of_saved_run [OF ok(1) example_result_storable ok(2) db', of "''source''" None]] by (simp add: names)
qed

end
