(* ===== verification/Spec2Isabelle.thy ===== *)
theory Spec2Isabelle
  imports Hostnames Dns_Consensus Host_Checker Recursive_Dns Run_Records Takeover_Evidence Shodan_Evidence Attribution Network_Evidence Virtual_Host_Harvest Hostname_Comparison Result_Files Contributions
begin

text \<open>
  A verification library for theHarvester, a program that collects what public sources know about a target (hostnames,
  addresses, networks, people), checks part of it with its own requests, and keeps the results of every run. The paths
  below are those of src/theHarvester.

  The program and the model. A run asks many sources (discovery/) and performs actions (DNS, virtual hosts, takeovers,
  RouteViews, screenshots). What they report is normalised, validated and collected in one \<open>CompletedResult\<close>, which is
  written to a file or saved in a database, and later compared with the run before. The API keeps a table of requested
  runs that one worker claims and finishes. The model has the parts in which this core decides something: names and
  values, the DNS verdicts, the recursive discovery, virtual-host discovery, the evidence of each kind, the completed
  result with its file and its store, the comparison, and the table of runs with the worker lease.

  Theories, in the order in which they build on each other:

  \<^item> \<open>Prelude\<close>: exceptions as values (\<open>'a res = err + 'a\<close>, with the messages of the code), the string methods the
    sources call, decimal numbers, \<open>sorted(set(xs))\<close> as \<open>canon\<close> and \<open>canon_by\<close>, \<open>dict.fromkeys\<close> as \<open>uniq\<close>, and the locales
    \<open>normaliser\<close> and \<open>canonical_collection\<close>, which the normalisers and the ordered collections of the model instantiate.
  \<^item> \<open>Idna_Codec\<close>, \<open>Ip_Address\<close>, \<open>Calendar\<close>: what the sources use of \<open>str.encode('idna')\<close>, \<open>ipaddress\<close> and \<open>datetime\<close>.
  \<^item> \<open>Hostnames\<close>: lib/hostnames.py, lib/result_values.py, lib/target_identity.py, lib/resolver_selection.py.
  \<^item> \<open>Dns_Consensus\<close>, \<open>Host_Checker\<close>, \<open>Recursive_Dns\<close>: lib/dns_consensus.py, lib/hostchecker.py, lib/recursive_dns.py. A
    concurrent group of queries or workers is a pool of tasks and a schedule that picks the next one; the properties hold
    for every schedule. In the validation of one candidate (\<open>gather_queries\<close>) the queries run in the order in which they
    are created; how they interleave matters for which of them a spent budget blocks, not for how much is spent. A wait
    that the time limit cuts off charges the steps its queries had made. The locale \<open>metered\<close> states what a resolver
    vantage promises of the shared budget, finished or cancelled, and is interpreted on the model of
    \<open>AioDNSResolverVantage\<close>.
  \<^item> \<open>Run_Records\<close>: \<open>RunLifecycleStore\<close> and the worker lease of lib/database.py; a table is a list of rows, a transaction a
    function on it, a history a list of transactions. The abstract specification is the lifecycle of a run as a relation
    between its statuses.
  \<^item> \<open>Evidence_Values\<close> (equality of JSON values, times read back, the locale \<open>structured_evidence\<close> of a record that is stored in
    one canonical form), \<open>Takeover_Evidence\<close>, \<open>Shodan_Evidence\<close>, \<open>Attribution\<close>, \<open>Network_Evidence\<close>: lib/takeover_evidence.py,
    lib/shodan_evidence.py, lib/asn_attribution.py, lib/network_evidence.py, each with constructor, reader and writer.
  \<^item> \<open>Endpoint_Url\<close>, \<open>Virtual_Host_Plan\<close>, \<open>Virtual_Host_Evidence\<close>, \<open>Virtual_Host\<close>, \<open>Virtual_Host_Harvest\<close>: lib/virtual_host.py, from
    the endpoint text over control names, requests, probes and classification to the discovery of one endpoint and of
    all harvested addresses.
  \<^item> \<open>Active_Evidence\<close>, \<open>Completed_Result\<close>, \<open>Result_Records\<close>, \<open>Sorted_Evidence\<close>, \<open>Result_Files\<close>: lib/active_evidence.py and
    lib/completed_result.py: the records, the checks of the constructor, the summary, the file and its reader.
  \<^item> \<open>Result_Store\<close>, \<open>Result_Round_Trip\<close>, \<open>Store_History\<close>: \<open>ResultStore\<close> of lib/database.py: the rows of its six tables, saving
    and loading, the list of runs and the copy of a database.
  \<^item> \<open>Contributions\<close>: the views of \<open>ResultStore\<close> that count what each source and each action contributed to a run.
  \<^item> \<open>Hostname_Comparison\<close>: lib/hostname_comparison.py with the reading of the compared runs from the store.

  What the lemmas show. Normalisers have one normal form per denoted value and leave it alone. A DNS verdict is what the
  answers of independent resolvers and of the wildcard controls say, and the query budget holds in every interleaving.
  Discoveries return, stay in scope and within their limits, and report themselves complete only when they are. Every kind
  of evidence has a condition under which what a constructor accepts is read back from its own details (Shodan names without
  white space at their ends, HTTP statuses between 100 and 599, times of the years 1 to 9999), and only canonical details
  are read. A run is claimed at most once; it moves along the lifecycle, but for a failure reported late, which overwrites
  the state of a run that has ended. A completed result whose evidence is readable (\<open>storable_result\<close>) survives the
  database, and its file where no text holds U+0085: what is loaded is what was saved, and a store of such results is a
  map from run ids to results. Where a condition fails the code saves or writes something it cannot read, and a lemma next
  to the property shows it (\<open>spaced_name_not_read_back\<close>, \<open>status_999_is_refused\<close>, \<open>next_line_splits_a_record\<close>,
  \<open>late_failure_overwrites_completed\<close>). The differences between two runs are justified by the sources that completed in
  both.

  Values. A string is a list of characters with code points below 256; what the code does to other characters is outside
  the model: \<open>casefold\<close> leaves the micro sign alone, whose case folding is U+03BC, and \<open>normalize_probe\<close> takes the UTF-8
  encoding of a Location header for granted, which raises when the HTTP client has decoded undecodable bytes to lone
  surrogates. A time is an integer, microseconds of UTC, and is stored as the text of \<open>isoformat()\<close>. A dictionary is an
  association list in insertion order. A value whose type the code tests at run time is a \<open>json\<close>.

  Bounds and fuel. The loops are structural recursion on lists or on a counter that the code itself has (the sixteen rounds
  of a DNS query, the batches, the budget of requests). \<open>discovery_loop\<close> and \<open>harvest_loop\<close> answer None when they do not
  return; \<open>discovery_within_limits\<close> and \<open>harvest_within_limits\<close> prove that they return for every behaviour of the network.
  The search for unused control names walks over as many candidates as the names in use plus the controls it needs, which
  \<open>control_names_are_fresh\<close> shows to be enough.

  Parameters. DNS answers, HTTP exchanges, interruptions, the clock, random starts and new ids come from an environment
  that the definitions take as an argument, and the properties hold for all of them. The digest of \<open>hashlib\<close>, the text of a
  float, the decoders of JSON texts and of UTF-8, and SQLite's \<open>julianday\<close> are function arguments. A property that needs one
  to be well behaved states it as a hypothesis (\<open>result_file_reads_back\<close>: a written record is decoded to the same record
  with its keys in order), and its witness has a concrete function for it.

  Not modelled. discovery/ and parsers/: the clients of the providers, HTML and JSON scraping around one HTTP request each,
  whose correctness is agreement with remote services. __main__.py, lib/core.py, lib/output.py, lib/source_runner.py,
  lib/enumeration.py, saved_run_report.py, screenshot/: command line, configuration files, HTTP sessions, threads of
  providers and printed output around the parts above. lib/api/ except the run table: FastAPI routes and pydantic models, whose
  validation is that of third-party code, the artifact files, and the schedules, whose times depend on the zone database of
  dateutil. A second cancellation of the virtual-host scan while it collects the workers of a cancelled wait.
  lib/takeover_rules.py: a table of rules that matches with the regular expressions of \<open>re\<close>; lib/routeviews.py: HTTP
  requests to one service. Of lib/database.py the creation and migration of the SQLite file, the validation of an imported
  database, the finalisation and validation of an exported file after its rows are copied (\<open>export_database\<close> ends with the
  copy).
\<close>

end
